(* ===== verification/Wdbgp_Prelude.thy ===== *)
theory Wdbgp_Prelude
  imports Main "HOL-Library.Word" "HOL-Library.Product_Lexorder"
begin

text \<open>
  Shared vocabulary of the development: the machine types of the Go source, results with
  errors and run-time panics as values, checked slice access, and big-endian byte strings.
  The collections \<open>result_simps\<close> (how results compose) and \<open>byte_simps\<close> (how byte strings
  are measured and read back) carry most of the component proofs.
\<close>

named_theorems result_simps "evaluation of results and of checked slice access"
named_theorems byte_simps "lengths and values of big-endian byte strings"

unbundle bit_operations_syntax

section \<open>Machine types\<close>

type_synonym byte = "8 word"
type_synonym u16 = "16 word"
type_synonym u32 = "32 word"
type_synonym u64 = "64 word"

section \<open>Results\<close>

text \<open>
  A Go function that returns \<open>(value, error)\<close> is a function into \<open>'e fault + 'a\<close>.
  \<open>Err e\<close> is a returned error; \<open>Panic\<close> is the run-time panic of an index or slice
  expression out of range, kept apart so that its absence can be proved.
\<close>

datatype 'e fault = Panic | Err 'e

type_synonym ('e, 'a) result = "'e fault + 'a"

definition bindE :: "('e, 'a) result \<Rightarrow> ('a \<Rightarrow> ('e, 'b) result) \<Rightarrow> ('e, 'b) result" where
  "bindE r f = (case r of Inl e \<Rightarrow> Inl e | Inr x \<Rightarrow> f x)"

definition fail :: "'e \<Rightarrow> ('e, 'a) result" where
  "fail e = Inl (Err e)"

lemma bindE_Inr [simp, result_simps]: "bindE (Inr x) f = f x"
  by (simp add: bindE_def)

lemma bindE_Inl [simp, result_simps]: "bindE (Inl e) f = Inl e"
  by (simp add: bindE_def)

lemma bindE_fail [simp, result_simps]: "bindE (fail e) f = fail e"
  by (simp add: fail_def)

lemma bindE_eq_Inr_iff: "bindE r f = Inr y \<longleftrightarrow> (\<exists>x. r = Inr x \<and> f x = Inr y)"
  by (simp add: bindE_def split: sum.splits)

lemma bindE_assoc: "bindE (bindE r f) g = bindE r (\<lambda>x. bindE (f x) g)"
  by (simp add: bindE_def split: sum.splits)

lemma bindE_cong [fundef_cong]:
  "r = r' \<Longrightarrow> (\<And>x. r' = Inr x \<Longrightarrow> f x = f' x) \<Longrightarrow> bindE r f = bindE r' f'"
  by (simp add: bindE_def split: sum.splits)

lemma bindE_no_panic:
  "r \<noteq> Inl Panic \<Longrightarrow> (\<And>x. r = Inr x \<Longrightarrow> f x \<noteq> Inl Panic) \<Longrightarrow> bindE r f \<noteq> Inl Panic"
  by (cases r) simp_all

lemma fail_neq [simp, result_simps]: "fail e \<noteq> Inr x" "fail e \<noteq> Inl Panic"
    "Inr x \<noteq> fail e" "Inl Panic \<noteq> fail e"
  by (simp_all add: fail_def)

lemma fail_inject [simp]: "(fail a = fail b) = (a = b)"
  by (simp add: fail_def)

section \<open>Checked slice access\<close>

text \<open>\<open>xs[i]\<close> and \<open>xs[i:j]\<close> of Go: a panic out of range.\<close>

definition idx :: "'a list \<Rightarrow> nat \<Rightarrow> ('e, 'a) result" where
  "idx xs i = (if i < length xs then Inr (xs ! i) else Inl Panic)"

definition slice :: "'a list \<Rightarrow> nat \<Rightarrow> nat \<Rightarrow> ('e, 'a list) result" where
  "slice xs i j = (if i \<le> j \<and> j \<le> length xs then Inr (take (j - i) (drop i xs)) else Inl Panic)"

lemma idx_ok [result_simps]: "i < length xs \<Longrightarrow> idx xs i = Inr (xs ! i)"
  by (simp add: idx_def)

lemma slice_ok [result_simps]:
  "i \<le> j \<Longrightarrow> j \<le> length xs \<Longrightarrow> slice xs i j = Inr (take (j - i) (drop i xs))"
  by (simp add: slice_def)

lemma slice_length: "slice xs i j = Inr ys \<Longrightarrow> length ys = j - i"
  by (auto simp: slice_def split: if_splits)

section \<open>Big-endian byte strings\<close>

definition be_nat :: "byte list \<Rightarrow> nat" where
  "be_nat bs = foldl (\<lambda>n b. 256 * n + unat b) 0 bs"

fun nat_be :: "nat \<Rightarrow> nat \<Rightarrow> byte list" where
  "nat_be 0 v = []"
| "nat_be (Suc n) v = nat_be n (v div 256) @ [word_of_nat (v mod 256)]"

lemma be_nat_Nil [simp, byte_simps]: "be_nat [] = 0"
  by (simp add: be_nat_def)

lemma be_nat_snoc [simp, byte_simps]: "be_nat (bs @ [b]) = 256 * be_nat bs + unat b"
  by (simp add: be_nat_def)

lemma length_nat_be [simp, byte_simps]: "length (nat_be n v) = n"
  by (induction n arbitrary: v) auto

lemma unat_byte_of_mod [simp, byte_simps]: "unat (word_of_nat (v mod 256) :: byte) = v mod 256"
  by (simp add: unat_of_nat)

lemma unat_byte_less: "unat (b :: byte) < 256"
  using unsigned_less [of b] by simp

lemma be_nat_nat_be [byte_simps]: "be_nat (nat_be n v) = v mod 256 ^ n"
proof (induction n arbitrary: v)
  case 0
  then show ?case by simp
next
  case (Suc n)
  have "be_nat (nat_be (Suc n) v) = 256 * (v div 256 mod 256 ^ n) + v mod 256"
    using Suc by simp
  also have "\<dots> = v mod (256 * 256 ^ n)"
    by (simp add: mod_mult2_eq)
  finally show ?case by simp
qed

lemma be_nat_bound: "be_nat bs < 256 ^ length bs"
proof (induction bs rule: rev_induct)
  case Nil
  then show ?case by simp
next
  case (snoc b bs)
  have "unat b < 256" by (rule unat_byte_less)
  with snoc show ?case by simp
qed

lemma nat_be_be_nat [byte_simps]: "nat_be (length bs) (be_nat bs) = bs"
proof (induction bs rule: rev_induct)
  case Nil
  then show ?case by simp
next
  case (snoc b bs)
  have b: "unat b < 256" by (rule unat_byte_less)
  then have "(256 * be_nat bs + unat b) div 256 = be_nat bs"
    and "(256 * be_nat bs + unat b) mod 256 = unat b"
    by simp_all
  with snoc show ?case by simp
qed

lemma be_nat_eq: "length bs = n \<Longrightarrow> nat_be n (be_nat bs) = bs"
  using nat_be_be_nat by auto

text \<open>\<open>binary.BigEndian.Uint16\<close>, \<open>Uint32\<close>, \<open>Uint64\<close> and their \<open>Put\<close> counterparts.\<close>

definition get_u16 :: "byte list \<Rightarrow> u16" where
  "get_u16 bs = word_of_nat (be_nat (take 2 bs))"

definition get_u32 :: "byte list \<Rightarrow> u32" where
  "get_u32 bs = word_of_nat (be_nat (take 4 bs))"

definition get_u64 :: "byte list \<Rightarrow> u64" where
  "get_u64 bs = word_of_nat (be_nat (take 8 bs))"

definition put_u16 :: "u16 \<Rightarrow> byte list" where
  "put_u16 w = nat_be 2 (unat w)"

definition put_u32 :: "u32 \<Rightarrow> byte list" where
  "put_u32 w = nat_be 4 (unat w)"

lemma length_put [simp, byte_simps]: "length (put_u16 w) = 2" "length (put_u32 v) = 4"
  by (simp_all add: put_u16_def put_u32_def)

lemma get_put_u16 [simp, byte_simps]: "get_u16 (put_u16 w @ rest) = w"
proof -
  have "unat w < 65536" using unsigned_less [of w] by simp
  then show ?thesis
    by (simp add: get_u16_def put_u16_def be_nat_nat_be)
qed

lemma get_put_u32 [simp, byte_simps]: "get_u32 (put_u32 w @ rest) = w"
proof -
  have "unat w < 4294967296" using unsigned_less [of w] by simp
  then show ?thesis
    by (simp add: get_u32_def put_u32_def be_nat_nat_be)
qed

lemma get_put_exact [simp, byte_simps]: "get_u16 (put_u16 w) = w" "get_u32 (put_u32 v) = v"
  using get_put_u16 [of w "[]"] get_put_u32 [of v "[]"] by simp_all

lemma unat_u16_of_nat [byte_simps]: "n < 65536 \<Longrightarrow> unat (word_of_nat n :: u16) = n"
  by (simp add: unat_of_nat)

lemma unat_byte_of_nat [byte_simps]: "n < 256 \<Longrightarrow> unat (word_of_nat n :: byte) = n"
  by (simp add: unat_of_nat)

end
