(* ===== verification/Netip.thy ===== *)
theory Netip
  imports Wdbgp_Prelude
begin

text \<open>
  The part of Go's \<open>net/netip\<close> that the program uses: addresses of the two families,
  prefixes, their order, and the set of addresses a prefix stands for. An address is its
  family and its numeric value; \<open>AsSlice\<close>, \<open>As4\<close>, \<open>As16\<close> are its big-endian bytes.
  A prefix whose length is out of range is what Go calls an invalid prefix (\<open>IsValid\<close> is
  false). Zones do not occur here: \<open>ParsePrefix\<close> rejects them and stored addresses have none.
\<close>

named_theorems addr_simps "addresses, prefixes and the addresses they cover"

section \<open>Addresses\<close>

datatype family = IPv4 | IPv6

datatype addr = Addr (a_fam: family) (a_val: nat)

fun bitlen :: "family \<Rightarrow> nat" where
  "bitlen IPv4 = 32"
| "bitlen IPv6 = 128"

abbreviation addr_bitlen :: "addr \<Rightarrow> nat" where
  "addr_bitlen a \<equiv> bitlen (a_fam a)"

definition is4 :: "addr \<Rightarrow> bool" where "is4 a = (a_fam a = IPv4)"
definition is6 :: "addr \<Rightarrow> bool" where "is6 a = (a_fam a = IPv6)"

definition addr_ok :: "addr \<Rightarrow> bool" where
  "addr_ok a = (a_val a < 2 ^ addr_bitlen a)"

definition as_slice :: "addr \<Rightarrow> byte list" where
  "as_slice a = nat_be (addr_bitlen a div 8) (a_val a)"

definition addr_from4 :: "byte list \<Rightarrow> addr" where
  "addr_from4 bs = Addr IPv4 (be_nat bs)"

definition addr_from16 :: "byte list \<Rightarrow> addr" where
  "addr_from16 bs = Addr IPv6 (be_nat bs)"

definition addr_from_slice :: "byte list \<Rightarrow> addr option" where
  "addr_from_slice bs =
     (if length bs = 4 then Some (addr_from4 bs)
      else if length bs = 16 then Some (addr_from16 bs) else None)"

lemma bitlen_cases: "bitlen f = 32 \<or> bitlen f = 128"
  by (cases f) simp_all

lemma bitlen_pos [simp]: "0 < bitlen f"
  by (cases f) simp_all

lemma bitlen_le_128: "bitlen f \<le> 128"
  by (cases f) simp_all

lemma bitlen_inject [simp]: "bitlen f = bitlen g \<longleftrightarrow> f = g"
  by (cases f; cases g) simp_all

lemma bitlen_div8: "8 * (bitlen f div 8) = bitlen f"
  by (cases f) simp_all

lemma is4_is6 [simp]: "is6 a = (\<not> is4 a)"
  by (cases a, rename_tac f v, case_tac f) (simp_all add: is4_def is6_def)

lemma power_256_bitlen: "256 ^ (bitlen f div 8) = (2::nat) ^ bitlen f"
  by (cases f) simp_all

lemma length_as_slice [simp]: "length (as_slice a) = addr_bitlen a div 8"
  by (simp add: as_slice_def byte_simps)

lemma be_nat_as_slice: "addr_ok a \<Longrightarrow> be_nat (as_slice a) = a_val a"
  by (simp add: as_slice_def be_nat_nat_be addr_ok_def power_256_bitlen)

lemma addr_from_slice_as_slice: "addr_ok a \<Longrightarrow> addr_from_slice (as_slice a) = Some a"
  using be_nat_as_slice [of a]
  by (cases a, rename_tac f v, case_tac f)
    (simp_all add: addr_from_slice_def addr_from4_def addr_from16_def)

lemma addr_from_slice_ok: "addr_from_slice bs = Some a \<Longrightarrow> addr_ok a \<and> as_slice a = bs"
  using be_nat_bound [of bs]
  by (auto simp: addr_from_slice_def addr_from4_def addr_from16_def addr_ok_def as_slice_def
      be_nat_eq split: if_splits)

text \<open>\<open>Addr.Compare\<close>: the family first, then the value.\<close>

instantiation family :: linorder
begin

definition less_eq_family :: "family \<Rightarrow> family \<Rightarrow> bool" where
  "less_eq_family f g = (bitlen f \<le> bitlen g)"

definition less_family :: "family \<Rightarrow> family \<Rightarrow> bool" where
  "less_family f g = (bitlen f < bitlen g)"

instance
proof
  fix f g h :: family
  show "f \<le> g \<Longrightarrow> g \<le> f \<Longrightarrow> f = g"
    using bitlen_inject [of f g] by (simp add: less_eq_family_def)
qed (auto simp: less_eq_family_def less_family_def)

end

instantiation addr :: linorder
begin

definition less_eq_addr :: "addr \<Rightarrow> addr \<Rightarrow> bool" where
  "less_eq_addr a b = ((a_fam a, a_val a) \<le> (a_fam b, a_val b))"

definition less_addr :: "addr \<Rightarrow> addr \<Rightarrow> bool" where
  "less_addr a b = ((a_fam a, a_val a) < (a_fam b, a_val b))"

instance
  by standard (auto simp: less_eq_addr_def less_addr_def less_le_not_le intro: addr.expand)

end

lemma less_addr_same_family: "a_fam a = a_fam b \<Longrightarrow> a < b \<longleftrightarrow> a_val a < a_val b"
  by (simp add: less_addr_def)

lemma less_eq_addr_same_family: "a_fam a = a_fam b \<Longrightarrow> a \<le> b \<longleftrightarrow> a_val a \<le> a_val b"
  by (simp add: less_eq_addr_def)

section \<open>Prefixes\<close>

datatype prefix = Prefix (p_addr: addr) (p_bits: nat)

abbreviation p_fam :: "prefix \<Rightarrow> family" where "p_fam p \<equiv> a_fam (p_addr p)"
abbreviation p_val :: "prefix \<Rightarrow> nat" where "p_val p \<equiv> a_val (p_addr p)"
abbreviation p_bitlen :: "prefix \<Rightarrow> nat" where "p_bitlen p \<equiv> bitlen (p_fam p)"
abbreviation host_bits :: "prefix \<Rightarrow> nat" where "host_bits p \<equiv> p_bitlen p - p_bits p"

text \<open>
  \<open>PrefixFrom\<close>: a length out of range gives the invalid prefix of that address. Go marks it
  with \<open>bitsPlusOne = 0\<close>; here the length one above the address width is the mark.
\<close>

definition prefix_from :: "addr \<Rightarrow> int \<Rightarrow> prefix" where
  "prefix_from a b =
     (if 0 \<le> b \<and> b \<le> int (addr_bitlen a) then Prefix a (nat b) else Prefix a (Suc (addr_bitlen a)))"

definition prefix_is_valid :: "prefix \<Rightarrow> bool" where
  "prefix_is_valid p = (p_bits p \<le> p_bitlen p)"

definition contains :: "prefix \<Rightarrow> addr \<Rightarrow> bool" where
  "contains p a =
     (prefix_is_valid p \<and> a_fam a = p_fam p \<and>
      a_val a div 2 ^ host_bits p = p_val p div 2 ^ host_bits p)"

definition masked :: "prefix \<Rightarrow> prefix" where
  "masked p = Prefix (Addr (p_fam p) (p_val p div 2 ^ host_bits p * 2 ^ host_bits p)) (p_bits p)"

text \<open>The comparison of \<open>normalize\<close>: family, then length, then address.\<close>

instantiation prefix :: linorder
begin

definition less_eq_prefix :: "prefix \<Rightarrow> prefix \<Rightarrow> bool" where
  "less_eq_prefix p q = ((p_fam p, p_bits p, p_val p) \<le> (p_fam q, p_bits q, p_val q))"

definition less_prefix :: "prefix \<Rightarrow> prefix \<Rightarrow> bool" where
  "less_prefix p q = ((p_fam p, p_bits p, p_val p) < (p_fam q, p_bits q, p_val q))"

instance
  by standard
    (auto simp: less_eq_prefix_def less_prefix_def less_le_not_le intro!: prefix.expand addr.expand)

end

text \<open>A well-formed prefix holds an address of its family; a network has no host bits set.\<close>

definition prefix_ok :: "prefix \<Rightarrow> bool" where
  "prefix_ok p = (prefix_is_valid p \<and> addr_ok (p_addr p))"

definition network :: "prefix \<Rightarrow> bool" where
  "network p = (prefix_ok p \<and> masked p = p)"

definition addrs_of :: "prefix \<Rightarrow> addr set" where
  "addrs_of p = {a. addr_ok a \<and> contains p a}"

definition cover :: "prefix list \<Rightarrow> addr set" where
  "cover ps = (\<Union>p \<in> set ps. addrs_of p)"

definition disjoint_prefixes :: "prefix list \<Rightarrow> bool" where
  "disjoint_prefixes ps =
     (distinct ps \<and> (\<forall>p \<in> set ps. \<forall>q \<in> set ps. p \<noteq> q \<longrightarrow> addrs_of p \<inter> addrs_of q = {}))"

lemma masked_sel [simp]: "p_fam (masked p) = p_fam p" "p_bits (masked p) = p_bits p"
  by (simp_all add: masked_def)

lemma p_val_masked: "p_val (masked p) = p_val p div 2 ^ host_bits p * 2 ^ host_bits p"
  by (simp add: masked_def)

lemma masked_idem [simp]: "masked (masked p) = masked p"
  by (simp add: masked_def)

lemma prefix_is_valid_masked [simp]: "prefix_is_valid (masked p) = prefix_is_valid p"
  by (simp add: prefix_is_valid_def)

lemma prefix_ok_masked: "prefix_ok p \<Longrightarrow> prefix_ok (masked p)"
  unfolding prefix_ok_def addr_ok_def
  by (simp add: p_val_masked) (meson div_times_less_eq_dividend le_less_trans)

lemma network_masked: "prefix_ok p \<Longrightarrow> network (masked p)"
  by (simp add: network_def prefix_ok_masked)

lemma contains_masked [simp]: "contains (masked p) a = contains p a"
  by (simp add: contains_def p_val_masked)

lemma addrs_of_masked [simp]: "addrs_of (masked p) = addrs_of p"
  by (simp add: addrs_of_def)

lemma network_sel: "network p \<Longrightarrow> prefix_ok p" "network p \<Longrightarrow> masked p = p"
    "network p \<Longrightarrow> prefix_is_valid p" "network p \<Longrightarrow> addr_ok (p_addr p)"
    "network p \<Longrightarrow> p_bits p \<le> p_bitlen p"
  by (simp_all add: network_def prefix_ok_def prefix_is_valid_def)

lemma contains_self: "prefix_is_valid p \<Longrightarrow> contains p (p_addr p)"
  by (simp add: contains_def)

lemma contains_masked_self: "prefix_is_valid p \<Longrightarrow> contains p (p_addr (masked p))"
  using contains_self [of "masked p"] by simp

lemma p_addr_in_addrs: "prefix_ok p \<Longrightarrow> p_addr p \<in> addrs_of p"
  by (simp add: addrs_of_def prefix_ok_def contains_self)

lemma addrs_of_nonempty: "prefix_ok p \<Longrightarrow> addrs_of p \<noteq> {}"
  using p_addr_in_addrs by blast

lemma cover_simps [simp]: "cover [] = {}" "cover (p # ps) = addrs_of p \<union> cover ps"
    "cover (ps @ qs) = cover ps \<union> cover qs"
  by (auto simp: cover_def)

lemma cover_mono: "set ps \<subseteq> set qs \<Longrightarrow> cover ps \<subseteq> cover qs"
  by (auto simp: cover_def)

section \<open>Nesting\<close>

lemma div_pow_coarser:
  fixes x y :: nat
  assumes "x div 2 ^ m = y div 2 ^ m" and "m \<le> n"
  shows "x div 2 ^ n = y div 2 ^ n"
proof -
  have split: "z div 2 ^ n = z div 2 ^ m div 2 ^ (n - m)" for z :: nat
    using assms(2) by (simp add: div_mult2_eq [symmetric] flip: power_add)
  show ?thesis by (simp add: split assms(1))
qed

lemma contains_coarser:
  assumes "contains q a" and "contains p a" and "p_bits p \<le> p_bits q"
  shows "contains p (p_addr q)"
proof -
  have "host_bits q \<le> host_bits p" and "a_val a div 2 ^ host_bits q = p_val q div 2 ^ host_bits q"
    using assms by (auto simp: contains_def)
  then have "a_val a div 2 ^ host_bits p = p_val q div 2 ^ host_bits p"
    by (blast intro: div_pow_coarser)
  with assms show ?thesis by (simp add: contains_def)
qed

lemma contains_trans:
  assumes "contains p (p_addr q)" and "contains q a" and "p_bits p \<le> p_bits q"
  shows "contains p a"
proof -
  have "host_bits q \<le> host_bits p" and "a_val a div 2 ^ host_bits q = p_val q div 2 ^ host_bits q"
    using assms by (auto simp: contains_def)
  then have "a_val a div 2 ^ host_bits p = p_val q div 2 ^ host_bits p"
    by (blast intro: div_pow_coarser)
  with assms show ?thesis by (simp add: contains_def)
qed

lemma addrs_of_subset:
  "contains p (p_addr q) \<Longrightarrow> p_bits p \<le> p_bits q \<Longrightarrow> addrs_of q \<subseteq> addrs_of p"
  by (auto simp: addrs_of_def intro: contains_trans)

lemma addrs_of_overlap:
  "addrs_of p \<inter> addrs_of q \<noteq> {} \<Longrightarrow> p_bits p \<le> p_bits q \<Longrightarrow> contains p (p_addr q)"
  by (auto simp: addrs_of_def intro: contains_coarser)

lemma addrs_of_disjoint_or_nested:
  "p_bits p \<le> p_bits q \<Longrightarrow> \<not> contains p (p_addr q) \<Longrightarrow> addrs_of p \<inter> addrs_of q = {}"
  using addrs_of_overlap by blast

lemma addrs_of_subset_iff:
  assumes "prefix_ok q" and "p_bits p \<le> p_bits q"
  shows "addrs_of q \<subseteq> addrs_of p \<longleftrightarrow> contains p (p_addr q)"
  using assms addrs_of_subset p_addr_in_addrs by (fastforce simp: addrs_of_def)

lemma network_eq:
  assumes "network p" and "network q" and "p_bits p = p_bits q" and "contains p (p_addr q)"
  shows "p = q"
proof -
  have fam: "p_fam q = p_fam p" and quo: "p_val q div 2 ^ host_bits p = p_val p div 2 ^ host_bits p"
    using assms(4) by (auto simp: contains_def)
  have "masked p = masked q"
    using fam quo assms(3) by (simp add: masked_def)
  with assms(1,2) show ?thesis by (simp add: network_def)
qed

text \<open>A network as an interval of values.\<close>

lemma network_dvd: "network p \<Longrightarrow> 2 ^ host_bits p dvd p_val p"
  by (metis dvd_triv_right network_sel(2) p_val_masked)

lemma div_eq_interval:
  fixes x v :: nat
  assumes "2 ^ h dvd v"
  shows "x div 2 ^ h = v div 2 ^ h \<longleftrightarrow> v \<le> x \<and> x < v + 2 ^ h"
proof -
  obtain k where v: "v = k * 2 ^ h" using assms by (auto simp: dvd_def mult.commute)
  have pos: "0 < (2::nat) ^ h" by simp
  have "x div 2 ^ h = k \<longleftrightarrow> k \<le> x div 2 ^ h \<and> x div 2 ^ h < Suc k" by auto
  then have "x div 2 ^ h = k \<longleftrightarrow> k * 2 ^ h \<le> x \<and> x < Suc k * 2 ^ h"
    by (simp only: less_eq_div_iff_mult_less_eq [OF pos] div_less_iff_less_mult [OF pos])
  then show ?thesis by (simp add: v add.commute)
qed

lemma contains_interval:
  "network p \<Longrightarrow>
     contains p a \<longleftrightarrow> a_fam a = p_fam p \<and> p_val p \<le> a_val a \<and> a_val a < p_val p + 2 ^ host_bits p"
  by (auto simp: contains_def network_sel div_eq_interval network_dvd)

lemma network_top: "network p \<Longrightarrow> p_val p + 2 ^ host_bits p \<le> 2 ^ p_bitlen p"
proof -
  assume p: "network p"
  obtain k where k: "p_val p = 2 ^ host_bits p * k"
    using network_dvd [OF p] by (auto simp: dvd_def)
  have pow: "(2::nat) ^ p_bitlen p = 2 ^ host_bits p * 2 ^ p_bits p"
    using network_sel(5) [OF p] by (simp flip: power_add)
  have "2 ^ host_bits p * k < 2 ^ host_bits p * (2::nat) ^ p_bits p"
    using network_sel(4) [OF p] by (simp add: addr_ok_def k pow)
  then have "Suc k \<le> 2 ^ p_bits p" by simp
  then have "2 ^ host_bits p * Suc k \<le> 2 ^ host_bits p * (2::nat) ^ p_bits p"
    by (rule mult_le_mono2)
  then show ?thesis by (simp add: k pow)
qed

lemma in_addrs_of_interval:
  "network p \<Longrightarrow>
     a \<in> addrs_of p \<longleftrightarrow> a_fam a = p_fam p \<and> p_val p \<le> a_val a \<and> a_val a < p_val p + 2 ^ host_bits p"
  using network_top [of p] by (auto simp: addrs_of_def contains_interval addr_ok_def)

lemmas [addr_simps] = network_sel contains_self p_addr_in_addrs less_addr_same_family

end
