(* ===== verification/Addr_Bits.thy ===== *)
theory Addr_Bits
  imports Netip
begin

text \<open>
  Bit access to the bytes of an address, as the filter code does it
  (\<open>address[bits/8] |= byte(1 << (7 - bits%8))\<close> and \<open>(bytes[d/8] >> (7 - d%8)) & 1\<close>), and its
  meaning on the numeric value of the address.
\<close>

definition set_addr_bit :: "nat \<Rightarrow> byte list \<Rightarrow> byte list" where
  "set_addr_bit b bs = bs[b div 8 := (bs ! (b div 8)) OR push_bit (7 - b mod 8) 1]"

definition addr_bit :: "addr \<Rightarrow> nat \<Rightarrow> bool" where
  "addr_bit a d =
     (let bytes = as_slice a in
      if d div 8 < length bytes then (drop_bit (7 - d mod 8) (bytes ! (d div 8))) AND 1 = 1 else False)"

section \<open>Bytes inside a byte string\<close>

lemma be_nat_append: "be_nat (xs @ ys) = be_nat xs * 256 ^ length ys + be_nat ys"
proof (induction ys rule: rev_induct)
  case Nil
  then show ?case by simp
next
  case (snoc y ys)
  have "be_nat (xs @ ys @ [y]) = 256 * be_nat (xs @ ys) + unat y"
    by (simp flip: append_assoc)
  with snoc show ?case by (simp add: algebra_simps)
qed

lemma be_nat_single: "be_nat [b] = unat b"
  by (simp add: be_nat_def)

lemma be_nat_update:
  assumes "i < length bs"
  shows "be_nat (bs[i := x]) + unat (bs ! i) * 256 ^ (length bs - 1 - i) =
         be_nat bs + unat x * 256 ^ (length bs - 1 - i)"
proof -
  let ?r = "drop (Suc i) bs"
  have bs: "bs = take i bs @ [bs ! i] @ ?r"
    using assms by (simp add: id_take_nth_drop)
  have up: "bs[i := x] = take i bs @ [x] @ ?r"
    using assms by (simp add: upd_conv_take_nth_drop)
  have "be_nat bs = be_nat (take i bs) * 256 ^ Suc (length ?r) + unat (bs ! i) * 256 ^ length ?r + be_nat ?r"
    by (subst bs) (simp only: be_nat_append be_nat_single length_append, simp)
  moreover have "be_nat (bs[i := x]) =
      be_nat (take i bs) * 256 ^ Suc (length ?r) + unat x * 256 ^ length ?r + be_nat ?r"
    by (simp only: up be_nat_append be_nat_single length_append, simp)
  ultimately show ?thesis by simp
qed

lemma be_nat_nth:
  assumes "i < length bs"
  shows "unat (bs ! i) = be_nat bs div 256 ^ (length bs - 1 - i) mod 256"
proof -
  let ?r = "drop (Suc i) bs"
  have bs: "bs = take i bs @ [bs ! i] @ ?r"
    using assms by (simp add: id_take_nth_drop)
  have eq: "be_nat bs = (be_nat (take i bs) * 256 + unat (bs ! i)) * 256 ^ length ?r + be_nat ?r"
    by (subst bs) (simp only: be_nat_append be_nat_single length_append, simp add: algebra_simps)
  have "be_nat bs div 256 ^ length ?r = be_nat (take i bs) * 256 + unat (bs ! i)"
    using be_nat_bound [of ?r] by (subst eq) simp
  then show ?thesis using unat_byte_less [of "bs ! i"] by simp
qed

lemma bit_of_byte:
  fixes w :: byte
  shows "(drop_bit k w AND 1 = 1) = odd (unat w div 2 ^ k)"
proof -
  have "(drop_bit k w AND 1 = 1) = odd (drop_bit k w)"
    by (simp add: and_one_eq odd_iff_mod_2_eq_one)
  also have "\<dots> = bit w k"
    by (simp add: bit_iff_odd_drop_bit)
  also have "\<dots> = odd (unat w div 2 ^ k)"
    using bit_unsigned_iff [of w k, where ?'a = nat] by (simp add: bit_iff_odd)
  finally show ?thesis .
qed

lemma odd_div_mod_pow:
  fixes n :: nat
  assumes "k < m"
  shows "odd (n mod 2 ^ m div 2 ^ k) = odd (n div 2 ^ k)"
proof -
  have "bit (take_bit m n) k = bit n k"
    using assms by (simp add: bit_take_bit_iff)
  then show ?thesis by (simp add: bit_iff_odd take_bit_eq_mod)
qed

lemma odd_byte_of_be_nat:
  assumes "i < length bs" and "k < 8"
  shows "odd (unat (bs ! i) div 2 ^ k) = odd (be_nat bs div 2 ^ (8 * (length bs - 1 - i) + k))"
proof -
  have "odd (unat (bs ! i) div 2 ^ k) = odd (be_nat bs div 256 ^ (length bs - 1 - i) mod 2 ^ 8 div 2 ^ k)"
    by (simp add: be_nat_nth [OF assms(1)])
  also have "\<dots> = odd (be_nat bs div 256 ^ (length bs - 1 - i) div 2 ^ k)"
    using assms(2) by (rule odd_div_mod_pow)
  also have "\<dots> = odd (be_nat bs div 2 ^ (8 * (length bs - 1 - i) + k))"
    by (simp add: power_add power_mult div_mult2_eq)
  finally show ?thesis .
qed

section \<open>Bits of an address\<close>

lemma bit_position:
  fixes d n :: nat
  assumes "d < 8 * n"
  shows "8 * (n - 1 - d div 8) + (7 - d mod 8) = 8 * n - Suc d"
proof -
  define q r where "q = d div 8" and "r = d mod 8"
  have d: "d = 8 * q + r" and r: "r < 8" by (simp_all add: q_def r_def)
  then have "q < n" using assms by simp
  then have "8 * (n - 1 - q) + (7 - r) = 8 * n - Suc (8 * q + r)"
    using r by (simp add: diff_mult_distrib2)
  then show ?thesis by (simp add: d [symmetric]) (simp add: q_def r_def)
qed

lemma addr_bit_value:
  assumes "addr_ok a" and "d < addr_bitlen a"
  shows "addr_bit a d = odd (a_val a div 2 ^ (addr_bitlen a - Suc d))"
proof -
  let ?n = "addr_bitlen a div 8"
  have len: "8 * ?n = addr_bitlen a" by (rule bitlen_div8)
  then have i: "d div 8 < ?n" using assms(2) by linarith
  have "addr_bit a d = odd (unat (as_slice a ! (d div 8)) div 2 ^ (7 - d mod 8))"
    using i by (simp add: addr_bit_def bit_of_byte)
  also have "\<dots> = odd (be_nat (as_slice a) div 2 ^ (8 * (?n - 1 - d div 8) + (7 - d mod 8)))"
    using i odd_byte_of_be_nat [of "d div 8" "as_slice a" "7 - d mod 8"] by simp
  also have "8 * (?n - 1 - d div 8) + (7 - d mod 8) = addr_bitlen a - Suc d"
    using assms(2) bit_position [of d ?n] len by simp
  finally show ?thesis by (simp add: be_nat_as_slice [OF assms(1)])
qed

lemma unat_or_bit:
  fixes w :: byte
  assumes "k < 8" and "\<not> odd (unat w div 2 ^ k)"
  shows "unat (w OR push_bit k 1) = unat w + 2 ^ k"
proof -
  have nb: "\<not> bit (unat w) k" using assms(2) by (simp add: bit_iff_odd)
  have "unat (w OR push_bit k 1) = unat w OR unat (push_bit k 1 :: byte)"
    by (rule unsigned_or_eq)
  also have "unat (push_bit k 1 :: byte) = 2 ^ k"
  proof -
    have "(2::nat) ^ k < 2 ^ 8" using assms(1) by (rule power_strict_increasing) simp
    moreover have "push_bit k 1 = (word_of_nat (2 ^ k) :: byte)" by simp
    ultimately show ?thesis using unat_byte_of_nat [of "2 ^ k"] by simp
  qed
  also have "unat w OR 2 ^ k = unat w + 2 ^ k"
  proof -
    have "unat w AND 2 ^ k = 0"
      by (rule bit_eqI) (use nb in \<open>auto simp: bit_and_iff bit_exp_iff\<close>)
    then show ?thesis by (simp add: disjunctive_add_eq_or)
  qed
  finally show ?thesis .
qed

lemma be_nat_set_addr_bit:
  assumes "d < 8 * length bs" and "\<not> odd (be_nat bs div 2 ^ (8 * length bs - Suc d))"
  shows "be_nat (set_addr_bit d bs) = be_nat bs + 2 ^ (8 * length bs - Suc d)"
proof -
  let ?i = "d div 8" and ?k = "7 - d mod 8"
  let ?e = "length bs - 1 - ?i"
  have i: "?i < length bs" using assms(1) by linarith
  have pos: "8 * ?e + ?k = 8 * length bs - Suc d" using assms(1) by (rule bit_position)
  have "\<not> odd (unat (bs ! ?i) div 2 ^ ?k)"
    using assms(2) odd_byte_of_be_nat [OF i, of ?k] pos by simp
  then have up: "unat (bs ! ?i OR push_bit ?k 1) = unat (bs ! ?i) + 2 ^ ?k"
    by (intro unat_or_bit) simp_all
  have "be_nat (set_addr_bit d bs) + unat (bs ! ?i) * 256 ^ ?e =
      be_nat bs + (unat (bs ! ?i) + 2 ^ ?k) * 256 ^ ?e"
    using be_nat_update [OF i, of "bs ! ?i OR push_bit ?k 1"] unfolding set_addr_bit_def up by simp
  then have "be_nat (set_addr_bit d bs) = be_nat bs + 2 ^ ?k * 256 ^ ?e"
    by (simp add: algebra_simps)
  also have "(2::nat) ^ ?k * 256 ^ ?e = 2 ^ (8 * ?e + ?k)"
    by (simp only: power_add power_mult mult.commute) simp
  finally show ?thesis by (simp only: pos)
qed

lemma length_set_addr_bit [simp]: "length (set_addr_bit d bs) = length bs"
  by (simp add: set_addr_bit_def)

text \<open>Two addresses that agree on their first \<open>d\<close> bits agree on the network of length \<open>d\<close>.\<close>

lemma div_pow_eq_of_bits:
  fixes x y :: nat
  assumes "x < 2 ^ w" "y < 2 ^ w" "d \<le> w"
    and "\<And>i. i < d \<Longrightarrow> odd (x div 2 ^ (w - Suc i)) = odd (y div 2 ^ (w - Suc i))"
  shows "x div 2 ^ (w - d) = y div 2 ^ (w - d)"
  using assms(3,4)
proof (induction d)
  case 0
  then show ?case using assms(1,2) by simp
next
  case (Suc d)
  have half: "z div 2 ^ (w - d) = z div 2 ^ (w - Suc d) div 2" for z :: nat
  proof -
    have "w - d = Suc (w - Suc d)" using Suc.prems by simp
    then show ?thesis by (simp only: power_Suc2 div_mult2_eq)
  qed
  have "x div 2 ^ (w - Suc d) div 2 = y div 2 ^ (w - Suc d) div 2"
    using Suc by (simp flip: half)
  moreover have "odd (x div 2 ^ (w - Suc d)) = odd (y div 2 ^ (w - Suc d))"
    using Suc.prems by blast
  ultimately show ?case by (metis bit_eq_rec)
qed

lemma addr_bits_of_div_pow:
  fixes x y :: nat
  assumes "x div 2 ^ (w - d) = y div 2 ^ (w - d)" and "i < d" and "d \<le> w"
  shows "odd (x div 2 ^ (w - Suc i)) = odd (y div 2 ^ (w - Suc i))"
proof -
  have "w - d \<le> w - Suc i" using assms(2) by simp
  then show ?thesis using div_pow_coarser [OF assms(1)] by metis
qed

lemma contains_addr_bit:
  assumes "contains p a" and "prefix_ok p" and "addr_ok a" and "d < p_bits p"
  shows "addr_bit a d = addr_bit (p_addr p) d"
proof -
  have fam: "a_fam a = p_fam p" and le: "p_bits p \<le> p_bitlen p"
    and q: "a_val a div 2 ^ host_bits p = p_val p div 2 ^ host_bits p"
    using assms(1,2) by (auto simp: contains_def prefix_ok_def prefix_is_valid_def)
  have "odd (a_val a div 2 ^ (p_bitlen p - Suc d)) = odd (p_val p div 2 ^ (p_bitlen p - Suc d))"
    using q assms(4) le by (rule addr_bits_of_div_pow)
  then show ?thesis
    using assms fam le by (simp add: addr_bit_value prefix_ok_def)
qed

lemma contains_of_addr_bits:
  assumes "prefix_ok p" and "addr_ok a" and "a_fam a = p_fam p"
    and "\<And>i. i < p_bits p \<Longrightarrow> addr_bit a i = addr_bit (p_addr p) i"
  shows "contains p a"
proof -
  have le: "p_bits p \<le> p_bitlen p" and ok: "addr_ok (p_addr p)"
    using assms(1) by (auto simp: prefix_ok_def prefix_is_valid_def)
  have "a_val a div 2 ^ host_bits p = p_val p div 2 ^ host_bits p"
  proof (rule div_pow_eq_of_bits)
    show "a_val a < 2 ^ p_bitlen p" using assms(2,3) by (simp add: addr_ok_def)
    show "p_val p < 2 ^ p_bitlen p" using ok by (simp add: addr_ok_def)
    show "p_bits p \<le> p_bitlen p" by (rule le)
    fix i assume "i < p_bits p"
    then show "odd (a_val a div 2 ^ (p_bitlen p - Suc i)) = odd (p_val p div 2 ^ (p_bitlen p - Suc i))"
      using assms(4) [of i] assms(2,3) ok le by (simp add: addr_bit_value)
  qed
  with assms(1,3) show ?thesis by (simp add: contains_def prefix_ok_def)
qed

end
