(* ===== verification/Prefix_Filter.thy ===== *)
theory Prefix_Filter
  imports Addr_Bits
begin

text \<open>
  \<open>internal/prefixfilter/filter.go\<close>: splitting a prefix (\<open>children\<close>), subtracting one prefix
  from another (\<open>subtract\<close>), the two implementations of \<open>normalize\<close> (a table of accepted
  prefixes for short lists, a binary trie for long ones), \<open>intersect\<close> and \<open>Apply\<close>. Both
  implementations of the redundancy check are instances of one interface, the locale
  \<open>prefix_index\<close>, whose client is the loop of \<open>normalize\<close>.
\<close>

section \<open>Splitting a prefix\<close>

text \<open>
  The code writes the same two lines for \<open>As4\<close> and \<open>As16\<close>. \<open>children\<close> is called with
  \<open>p_bits < p_bitlen\<close> only (the guard of the loop in \<open>subtract\<close>), so the byte index is in range.
\<close>

definition children :: "prefix \<Rightarrow> prefix \<times> prefix" where
  "children prefix =
     (let p = masked prefix;
          bits = p_bits p;
          left = prefix_from (p_addr p) (int bits + 1)
      in if is4 (p_addr p)
         then (left, prefix_from (addr_from4 (set_addr_bit bits (as_slice (p_addr p)))) (int bits + 1))
         else (left, prefix_from (addr_from16 (set_addr_bit bits (as_slice (p_addr p)))) (int bits + 1)))"

lemma children_bits:
  "p_bits p < p_bitlen p \<Longrightarrow> p_bits (fst (children p)) = Suc (p_bits p)"
  "p_bits p < p_bitlen p \<Longrightarrow> p_bits (snd (children p)) = Suc (p_bits p)"
  by (auto simp: children_def Let_def prefix_from_def is4_def addr_from4_def addr_from16_def masked_def
      nat_add_distrib split: if_splits) (cases "p_fam p"; simp)+

text \<open>
  The loop of \<open>subtract\<close>: descend towards \<open>denied\<close>, keeping the sibling at each level.
  The second conjunct of the guard follows from the first when \<open>denied\<close> is a valid prefix of the
  family of \<open>current\<close>, which the early returns of \<open>subtract\<close> establish; it makes the recursion total.
\<close>

function subtract_loop :: "prefix \<Rightarrow> prefix \<Rightarrow> prefix list \<Rightarrow> prefix list" where
  "subtract_loop denied current result =
     (if p_bits current < p_bits denied \<and> p_bits current < p_bitlen current then
        (let (left, right) = children current in
         if contains left (p_addr denied)
         then subtract_loop denied left (result @ [right])
         else subtract_loop denied right (result @ [left]))
      else result)"
  by pat_completeness auto
termination
proof (relation "measure (\<lambda>(denied, current, result). p_bits denied - p_bits current)", goal_cases)
  case 1
  then show ?case by simp
next
  case (2 denied current result x left right)
  then have "left = fst (children current)" by (metis fst_conv)
  with 2 children_bits(1) [of current] show ?case by simp linarith
next
  case (3 denied current result x left right)
  then have "right = snd (children current)" by (metis snd_conv)
  with 3 children_bits(2) [of current] show ?case by simp linarith
qed

declare subtract_loop.simps [simp del]

definition subtract :: "prefix \<Rightarrow> prefix \<Rightarrow> prefix list" where
  "subtract prefix denied0 =
     (let p = masked prefix; denied = masked denied0 in
      if p_bitlen p \<noteq> p_bitlen denied then [p]
      else if contains denied (p_addr p) \<and> p_bits denied \<le> p_bits p then []
      else if \<not> contains p (p_addr denied) then [p]
      else if p_bits denied \<le> p_bits p then []
      else subtract_loop denied p [])"

section \<open>Redundancy removal\<close>

text \<open>\<open>normalizeSimple\<close>: look every shorter parent up in the table of accepted prefixes.\<close>

definition simple_covered :: "prefix list \<Rightarrow> prefix \<Rightarrow> bool" where
  "simple_covered accepted p =
     list_ex (\<lambda>bits. masked (prefix_from (p_addr p) (int bits)) \<in> set accepted) (rev [0..<p_bits p])"

fun simple_loop :: "prefix list \<Rightarrow> prefix list \<Rightarrow> prefix list \<Rightarrow> prefix list" where
  "simple_loop accepted collapsed [] = collapsed"
| "simple_loop accepted collapsed (p # ps) =
     (if simple_covered accepted p then simple_loop accepted collapsed ps
      else simple_loop (p # accepted) (collapsed @ [p]) ps)"

definition normalize_simple :: "prefix list \<Rightarrow> prefix list" where
  "normalize_simple ps = simple_loop [] [] ps"

text \<open>\<open>normalizeWithTrie\<close>: a binary trie; \<open>TrieNil\<close> is the nil pointer.\<close>

datatype trie = TrieNil | TrieNode "prefix option" trie trie

fun trie_covered :: "trie \<Rightarrow> prefix \<Rightarrow> nat \<Rightarrow> bool" where
  "trie_covered TrieNil p depth = False"
| "trie_covered (TrieNode stored left right) p depth =
     (if (case stored of None \<Rightarrow> False | Some q \<Rightarrow> p_bits q \<le> p_bits p \<and> contains q (p_addr p)) then True
      else if p_bits p \<le> depth then False
      else trie_covered (if addr_bit (p_addr p) depth then right else left) p (Suc depth))"

fun node_parts :: "trie \<Rightarrow> prefix option \<times> trie \<times> trie" where
  "node_parts TrieNil = (None, TrieNil, TrieNil)"
| "node_parts (TrieNode stored left right) = (stored, left, right)"

function trie_insert :: "prefix \<Rightarrow> nat \<Rightarrow> trie \<Rightarrow> trie" where
  "trie_insert p depth node =
     (let (stored, left, right) = node_parts node in
      if depth < p_bits p then
        (if addr_bit (p_addr p) depth
         then TrieNode stored left (trie_insert p (Suc depth) right)
         else TrieNode stored (trie_insert p (Suc depth) left) right)
      else TrieNode (Some p) left right)"
  by pat_completeness auto
termination
  by (relation "measure (\<lambda>(p, depth, node). p_bits p - depth)") auto

declare trie_insert.simps [simp del]

fun trie_loop :: "trie \<Rightarrow> prefix list \<Rightarrow> prefix list \<Rightarrow> prefix list" where
  "trie_loop root normalized [] = normalized"
| "trie_loop root normalized (p # ps) =
     (if trie_covered root p 0 then trie_loop root normalized ps
      else trie_loop (trie_insert p 0 root) (normalized @ [p]) ps)"

definition normalize_with_trie :: "prefix list \<Rightarrow> prefix list" where
  "normalize_with_trie ps = (if length ps \<le> 1 then ps else trie_loop TrieNil [] ps)"

text \<open>
  \<open>normalize\<close>: masked, deduplicated, sorted by family, length and address, then the loop. The
  order in which Go ranges over its map is lost in the sort, whose comparison is total on
  distinct prefixes (the \<open>linorder\<close> of \<open>prefix\<close>).
\<close>

definition unique_masked :: "prefix list \<Rightarrow> prefix list" where
  "unique_masked prefixes = remdups (map masked (filter prefix_is_valid prefixes))"

definition normalize :: "prefix list \<Rightarrow> prefix list" where
  "normalize prefixes =
     (let unique = unique_masked prefixes in
      if length unique \<le> 1 then unique
      else
        (let result = sort unique in
         if length result \<le> 100 then normalize_simple result
         else normalize_with_trie (filter (\<lambda>p. is4 (p_addr p)) result) @
              normalize_with_trie (filter (\<lambda>p. \<not> is4 (p_addr p)) result)))"

section \<open>Intersection and the filter\<close>

definition intersect_pair :: "prefix \<Rightarrow> prefix \<Rightarrow> prefix list" where
  "intersect_pair prefix permitted =
     (if p_bitlen prefix \<noteq> p_bitlen permitted then []
      else if contains prefix (p_addr permitted) then [permitted]
      else if contains permitted (p_addr prefix) then [prefix]
      else [])"

definition intersect :: "prefix list \<Rightarrow> prefix list \<Rightarrow> prefix list" where
  "intersect input0 allow0 =
     (let input = normalize input0; allow = normalize allow0 in
      if allow = [] then input
      else normalize (concat (map (\<lambda>prefix. concat (map (intersect_pair prefix) allow)) input)))"

record lists =
  Allow :: "prefix list"
  Deny :: "prefix list"

datatype filter_error = TooManyRoutes nat

definition default_max_prefixes :: int where
  "default_max_prefixes = 65536"

fun deny_one :: "nat \<Rightarrow> prefix \<Rightarrow> prefix list \<Rightarrow> prefix list \<Rightarrow> (filter_error, prefix list) result" where
  "deny_one maxp denied next_ps [] = Inr next_ps"
| "deny_one maxp denied next_ps (p # ps) =
     (let fragments = subtract p denied in
      if maxp < length next_ps + length fragments then fail (TooManyRoutes maxp)
      else deny_one maxp denied (next_ps @ fragments) ps)"

fun deny_all :: "nat \<Rightarrow> prefix list \<Rightarrow> prefix list \<Rightarrow> (filter_error, prefix list) result" where
  "deny_all maxp allowed [] = Inr allowed"
| "deny_all maxp allowed (denied # ds) =
     bindE (deny_one maxp denied [] allowed) (\<lambda>next_ps. deny_all maxp next_ps ds)"

definition Apply :: "prefix list \<Rightarrow> lists \<Rightarrow> int \<Rightarrow> (filter_error, prefix list) result" where
  "Apply input ls max_prefixes =
     (let maxp = nat (if max_prefixes \<le> 0 then default_max_prefixes else max_prefixes);
          allowed = intersect input (Allow ls)
      in if maxp < length allowed then fail (TooManyRoutes maxp)
         else bindE (deny_all maxp allowed (normalize (Deny ls))) (\<lambda>out. Inr (normalize out)))"

section \<open>Correctness of subtraction\<close>

lemma children_eq:
  assumes "network p" and "p_bits p < p_bitlen p"
  shows "children p =
    (Prefix (p_addr p) (Suc (p_bits p)),
     Prefix (Addr (p_fam p) (p_val p + 2 ^ (host_bits p - 1))) (Suc (p_bits p)))"
proof -
  let ?d = "p_bits p" and ?bs = "as_slice (p_addr p)"
  have len: "8 * length ?bs = p_bitlen p" by (simp add: bitlen_div8)
  have val: "be_nat ?bs = p_val p" using assms(1) by (simp add: be_nat_as_slice network_sel)
  have e: "8 * length ?bs - Suc ?d = host_bits p - 1" using len by simp
  have hb: "host_bits p = Suc (host_bits p - 1)" using assms(2) by simp
  obtain k where "p_val p = 2 ^ host_bits p * k"
    using network_dvd [OF assms(1)] by (auto simp: dvd_def)
  then have "p_val p = 2 ^ (host_bits p - 1) * (2 * k)" using hb by (metis mult.assoc power_Suc2)
  then have "\<not> odd (p_val p div 2 ^ (host_bits p - 1))" by simp
  then have "be_nat (set_addr_bit ?d ?bs) = p_val p + 2 ^ (host_bits p - 1)"
    using be_nat_set_addr_bit [of ?d ?bs] assms(2) len val e by simp
  with assms show ?thesis
    by (cases "p_fam p")
      (auto simp: children_def Let_def network_sel is4_def addr_from4_def addr_from16_def
        prefix_from_def nat_add_distrib)
qed

lemma network_children:
  assumes "network p" and "p_bits p < p_bitlen p" and "children p = (left, right)"
  shows "network left" "network right"
    and "addrs_of p = addrs_of left \<union> addrs_of right" "addrs_of left \<inter> addrs_of right = {}"
    and "p_bits left = Suc (p_bits p)" "p_bits right = Suc (p_bits p)"
    and "p_fam left = p_fam p" "p_fam right = p_fam p"
proof -
  define m where "m = host_bits p - 1"
  have hp: "host_bits p = Suc m" using assms(2) by (simp add: m_def)
  have l: "left = Prefix (p_addr p) (Suc (p_bits p))"
    and r: "right = Prefix (Addr (p_fam p) (p_val p + 2 ^ m)) (Suc (p_bits p))"
    using children_eq [OF assms(1,2)] assms(3) by (simp_all add: m_def)
  have hl: "p_bitlen p - Suc (p_bits p) = m" using hp by simp
  have top: "p_val p + 2 ^ Suc m \<le> 2 ^ p_bitlen p" using network_top [OF assms(1)] by (simp add: hp)
  have "(2::nat) ^ m < 2 ^ Suc m" by simp
  then have top': "p_val p + 2 ^ m < 2 ^ p_bitlen p" using top by (rule less_le_trans [OF add_strict_left_mono])
  have dvd: "2 ^ m dvd p_val p" using network_dvd [OF assms(1)] by (simp add: hp dvd_mult_right)
  have dvd': "2 ^ m dvd p_val p + 2 ^ m" using dvd by simp
  show nl: "network left"
    using top dvd assms(1,2) hl
    by (auto simp: l network_def prefix_ok_def prefix_is_valid_def masked_def addr_ok_def)
  show nr: "network right"
    using top' dvd' assms(2) hl
    by (simp add: r network_def prefix_ok_def prefix_is_valid_def masked_def addr_ok_def)
  have il: "a \<in> addrs_of left \<longleftrightarrow> a_fam a = p_fam p \<and> p_val p \<le> a_val a \<and> a_val a < p_val p + 2 ^ m" for a
    using in_addrs_of_interval [OF nl] hl by (simp add: l)
  have ir: "a \<in> addrs_of right \<longleftrightarrow>
      a_fam a = p_fam p \<and> p_val p + 2 ^ m \<le> a_val a \<and> a_val a < p_val p + 2 ^ Suc m" for a
    using in_addrs_of_interval [OF nr] hl by (simp add: r add.assoc mult_2)
  show "addrs_of p = addrs_of left \<union> addrs_of right"
    by (auto simp: il ir in_addrs_of_interval [OF assms(1)] hp)
  show "addrs_of left \<inter> addrs_of right = {}"
    by (auto simp: il ir)
  show "p_bits left = Suc (p_bits p)" "p_bits right = Suc (p_bits p)"
    "p_fam left = p_fam p" "p_fam right = p_fam p"
    by (simp_all add: l r)
qed

lemma subtract_loop_done:
  "\<not> (p_bits c < p_bits d \<and> p_bits c < p_bitlen c) \<Longrightarrow> subtract_loop d c acc = acc"
  by (subst subtract_loop.simps) (rule if_not_P)

lemma subtract_loop_step:
  assumes "p_bits c < p_bits d" and "p_bits c < p_bitlen c" and "children c = (l, r)"
  shows "subtract_loop d c acc =
    (if contains l (p_addr d) then subtract_loop d l (acc @ [r]) else subtract_loop d r (acc @ [l]))"
  using assms by (simp add: subtract_loop.simps [of d c])

lemma subtract_loop_acc: "subtract_loop d c acc = acc @ subtract_loop d c []"
proof (induction "p_bits d - p_bits c" arbitrary: c acc rule: less_induct)
  case less
  show ?case
  proof (cases "p_bits c < p_bits d \<and> p_bits c < p_bitlen c")
    case False
    then show ?thesis by (simp add: subtract_loop_done)
  next
    case True
    obtain l r where lr: "children c = (l, r)" by fastforce
    then have smaller: "p_bits d - p_bits l < p_bits d - p_bits c" "p_bits d - p_bits r < p_bits d - p_bits c"
      using True children_bits [of c] by auto
    have "subtract_loop d l (xs @ [r]) = xs @ subtract_loop d l [r]"
      and "subtract_loop d r (xs @ [l]) = xs @ subtract_loop d r [l]" for xs
      using less [OF smaller(1)] less [OF smaller(2)] by (metis append.assoc)+
    with True lr show ?thesis by (simp add: subtract_loop_step)
  qed
qed

definition pieces :: "prefix list \<Rightarrow> family \<Rightarrow> bool" where
  "pieces fs f = (disjoint_prefixes fs \<and> (\<forall>p \<in> set fs. network p \<and> p_fam p = f))"

lemma pieces_Cons:
  "pieces fs f \<Longrightarrow> network p \<Longrightarrow> p_fam p = f \<Longrightarrow> addrs_of p \<inter> cover fs = {} \<Longrightarrow> pieces (p # fs) f"
  using addrs_of_nonempty [OF network_sel(1)]
  by (fastforce simp: pieces_def disjoint_prefixes_def cover_def)

lemma subtract_loop_correct:
  assumes "network c" "network d" "contains c (p_addr d)" "p_bits c \<le> p_bits d"
  shows "cover (subtract_loop d c []) = addrs_of c - addrs_of d \<and>
    pieces (subtract_loop d c []) (p_fam c) \<and> length (subtract_loop d c []) = p_bits d - p_bits c"
  using assms(1,3,4)
proof (induction "p_bits d - p_bits c" arbitrary: c rule: less_induct)
  case less
  show ?case
  proof (cases "p_bits c < p_bits d")
    case False
    then have "c = d" using less.prems assms(2) network_eq by force
    then show ?thesis by (simp add: subtract_loop_done pieces_def disjoint_prefixes_def)
  next
    case True
    have fam: "p_fam d = p_fam c" using less.prems(2) by (simp add: contains_def)
    then have lt: "p_bits c < p_bitlen c" using True network_sel(5) [OF assms(2)] by simp
    obtain l r where lr: "children c = (l, r)" by fastforce
    note ch = network_children [OF less.prems(1) lt lr]
    have din: "p_addr d \<in> addrs_of c"
      using less.prems(2) assms(2) by (simp add: addrs_of_def network_sel)
    have go: "cover (s # subtract_loop d t []) = addrs_of c - addrs_of d \<and>
        pieces (s # subtract_loop d t []) (p_fam c) \<and>
        length (s # subtract_loop d t []) = p_bits d - p_bits c"
      if st: "addrs_of c = addrs_of s \<union> addrs_of t" "addrs_of s \<inter> addrs_of t = {}"
        "network s" "network t" "p_bits t = Suc (p_bits c)" "p_fam s = p_fam c" "p_fam t = p_fam c"
        and dt: "p_addr d \<in> addrs_of t" for s t
    proof -
      have dt': "contains t (p_addr d)" using dt by (simp add: addrs_of_def)
      have sub: "addrs_of d \<subseteq> addrs_of t"
        using dt' True st(5) by (intro addrs_of_subset) simp_all
      have IH: "cover (subtract_loop d t []) = addrs_of t - addrs_of d \<and>
          pieces (subtract_loop d t []) (p_fam t) \<and>
          length (subtract_loop d t []) = p_bits d - p_bits t"
        using less.hyps [of t] True st(4,5) dt' by simp
      have "addrs_of s \<inter> cover (subtract_loop d t []) = {}" using IH st(2) by blast
      then have "pieces (s # subtract_loop d t []) (p_fam c)"
        using IH st(3,6,7) by (intro pieces_Cons) simp_all
      with IH sub st show ?thesis using True by auto
    qed
    show ?thesis
    proof (cases "contains l (p_addr d)")
      case True': True
      have "subtract_loop d c [] = r # subtract_loop d l []"
        using True lt lr True' subtract_loop_acc [of d l "[r]"] by (simp add: subtract_loop_step)
      moreover have "p_addr d \<in> addrs_of l" using True' din by (simp add: addrs_of_def)
      ultimately show ?thesis using go [of r l] ch by auto
    next
      case False
      have "subtract_loop d c [] = l # subtract_loop d r []"
        using True lt lr False subtract_loop_acc [of d r "[l]"] by (simp add: subtract_loop_step)
      moreover have "p_addr d \<in> addrs_of r" using False din ch(3) by (auto simp: addrs_of_def)
      ultimately show ?thesis using go [of l r] ch by auto
    qed
  qed
qed

lemma cover_subtract:
  assumes "prefix_ok p" and "prefix_ok d"
  shows "cover (subtract p d) = addrs_of p - addrs_of d"
    and "pieces (subtract p d) (p_fam p)"
    and "length (subtract p d) \<le> max 1 (p_bits d - p_bits p)"
proof -
  let ?p = "masked p" and ?d = "masked d"
  have n: "network ?p" "network ?d" using assms by (simp_all add: network_masked)
  have one: "pieces [?p] (p_fam p)" using n by (simp add: pieces_def disjoint_prefixes_def)
  have *: "cover (subtract p d) = addrs_of p - addrs_of d \<and> pieces (subtract p d) (p_fam p) \<and>
     length (subtract p d) \<le> max 1 (p_bits d - p_bits p)"
  proof (cases "contains ?d (p_addr ?p) \<and> p_bits ?d \<le> p_bits ?p")
    case True
    have "addrs_of p \<subseteq> addrs_of d" using addrs_of_subset [of ?d ?p] True by simp
    with True show ?thesis
      by (auto simp: subtract_def Let_def contains_def pieces_def disjoint_prefixes_def)
  next
    case notcov: False
    show ?thesis
    proof (cases "contains ?p (p_addr ?d) \<and> p_bits ?p \<le> p_bits ?d")
      case True
      have "p_fam d = p_fam p" using True by (simp add: contains_def)
      moreover have "p_bits p < p_bits d"
      proof (rule ccontr)
        assume "\<not> p_bits p < p_bits d"
        then have "?p = ?d" using True n by (intro network_eq) simp_all
        with notcov assms(2) show False by (simp add: contains_masked_self prefix_ok_def)
      qed
      ultimately show ?thesis
        using True notcov subtract_loop_correct [OF n] by (simp add: subtract_def Let_def)
    next
      case False
      have "addrs_of ?p \<inter> addrs_of ?d = {}"
        using notcov False by (metis Int_commute addrs_of_overlap nat_le_linear)
      then have disj: "addrs_of p \<inter> addrs_of d = {}" by simp
      show ?thesis
      proof (cases "p_fam p = p_fam d \<and> contains p (p_addr ?d)")
        case False
        with notcov disj one show ?thesis by (auto simp: subtract_def Let_def)
      next
        case True
        then have "p_bits ?d < p_bits ?p" using False by simp
        then have "contains ?d (p_addr ?p)"
          using True assms(2) contains_coarser [of ?p "p_addr ?d" ?d]
          by (simp add: contains_masked_self prefix_ok_def)
        with notcov \<open>p_bits ?d < p_bits ?p\<close> show ?thesis by simp
      qed
    qed
  qed
  then show "cover (subtract p d) = addrs_of p - addrs_of d"
    and "pieces (subtract p d) (p_fam p)"
    and "length (subtract p d) \<le> max 1 (p_bits d - p_bits p)" by simp_all
qed

section \<open>Correctness of normalization\<close>

text \<open>
  The reference: keep a prefix unless a shorter prefix kept earlier contains it. Both loops of
  the code are instances of \<open>prefix_index\<close>: a store that answers whether a kept prefix covers a
  new one. The client is the loop over the sorted list.
\<close>

definition shadowed :: "prefix set \<Rightarrow> prefix \<Rightarrow> bool" where
  "shadowed S p = (\<exists>q \<in> S. p_bits q \<le> p_bits p \<and> contains q (p_addr p))"

fun collapse :: "prefix set \<Rightarrow> prefix list \<Rightarrow> prefix list" where
  "collapse S [] = []"
| "collapse S (p # ps) = (if shadowed S p then collapse S ps else p # collapse (insert p S) ps)"

locale prefix_index =
  fixes start :: "'s"
    and covered :: "'s \<Rightarrow> prefix \<Rightarrow> bool"
    and add :: "prefix \<Rightarrow> 's \<Rightarrow> 's"
    and loop :: "'s \<Rightarrow> prefix list \<Rightarrow> prefix list \<Rightarrow> prefix list"
    and kept :: "'s \<Rightarrow> prefix set"
    and inv :: "'s \<Rightarrow> bool"
    and admissible :: "prefix \<Rightarrow> bool"
  assumes start_ok: "inv start" "kept start = {}"
    and admissible_network: "admissible p \<Longrightarrow> network p"
    and add_ok: "inv s \<Longrightarrow> admissible p \<Longrightarrow> \<not> covered s p \<Longrightarrow> inv (add p s) \<and> kept (add p s) = insert p (kept s)"
    and covered_iff: "inv s \<Longrightarrow> admissible p \<Longrightarrow> p \<notin> kept s \<Longrightarrow> covered s p = shadowed (kept s) p"
    and loop_Nil: "loop s out [] = out"
    and loop_Cons: "loop s out (p # ps) = (if covered s p then loop s out ps else loop (add p s) (out @ [p]) ps)"
begin

lemma loop_collapse:
  assumes "inv s" and "\<forall>p \<in> set ps. admissible p" and "distinct ps" and "set ps \<inter> kept s = {}"
  shows "loop s out ps = out @ collapse (kept s) ps"
  using assms
proof (induction ps arbitrary: s out)
  case Nil
  then show ?case by (simp add: loop_Nil)
next
  case (Cons p ps)
  have cov: "covered s p = shadowed (kept s) p"
    using Cons.prems by (intro covered_iff) auto
  show ?case
  proof (cases "covered s p")
    case True
    then show ?thesis using Cons cov by (simp add: loop_Cons)
  next
    case False
    have "inv (add p s) \<and> kept (add p s) = insert p (kept s)"
      using Cons.prems False by (intro add_ok) auto
    moreover from this have "loop (add p s) (out @ [p]) ps = (out @ [p]) @ collapse (kept (add p s)) ps"
      using Cons.prems by (intro Cons.IH) auto
    ultimately show ?thesis using False cov by (simp add: loop_Cons)
  qed
qed

lemma run_collapse:
  "\<forall>p \<in> set ps. admissible p \<Longrightarrow> distinct ps \<Longrightarrow> loop start [] ps = collapse {} ps"
  using loop_collapse [of start ps "[]"] start_ok by simp

end

subsection \<open>The table of accepted prefixes\<close>

lemma masked_parent_iff:
  assumes "network q" and "prefix_is_valid p" and "b \<le> p_bits p"
  shows "masked (prefix_from (p_addr p) (int b)) = q \<longleftrightarrow> p_bits q = b \<and> contains q (p_addr p)"
proof -
  let ?r = "Prefix (p_addr p) b"
  have b: "b \<le> p_bitlen p" using assms(2,3) by (simp add: prefix_is_valid_def)
  then have from_eq: "prefix_from (p_addr p) (int b) = ?r" by (simp add: prefix_from_def)
  show ?thesis
  proof
    assume l: "masked (prefix_from (p_addr p) (int b)) = q"
    then have "contains q (p_addr p) = contains ?r (p_addr p)" by (metis contains_masked from_eq)
    moreover have "contains ?r (p_addr p)"
      using b contains_self [of ?r] by (simp add: prefix_is_valid_def)
    ultimately have "contains q (p_addr p)" by blast
    moreover have "p_bits q = b" using l by (metis from_eq masked_sel(2) prefix.sel(2))
    ultimately show "p_bits q = b \<and> contains q (p_addr p)" by blast
  next
    assume r: "p_bits q = b \<and> contains q (p_addr p)"
    then have "p_fam p = p_fam q" "p_val p div 2 ^ host_bits q = p_val q div 2 ^ host_bits q"
      by (auto simp: contains_def)
    then have "masked ?r = masked q" using r by (simp add: masked_def)
    then show "masked (prefix_from (p_addr p) (int b)) = q" using assms(1) from_eq by (simp add: network_sel)
  qed
qed

lemma simple_covered_iff:
  assumes "\<forall>q \<in> set accepted. network q" and "network p" and "p \<notin> set accepted"
  shows "simple_covered accepted p = shadowed (set accepted) p"
proof -
  have "simple_covered accepted p = (\<exists>q \<in> set accepted. p_bits q < p_bits p \<and> contains q (p_addr p))"
  proof
    assume "simple_covered accepted p"
    then obtain b where b: "b < p_bits p" "masked (prefix_from (p_addr p) (int b)) \<in> set accepted"
      by (auto simp: simple_covered_def list_ex_iff)
    let ?q = "masked (prefix_from (p_addr p) (int b))"
    have "p_bits ?q = b \<and> contains ?q (p_addr p)"
      using masked_parent_iff [of ?q p b] b assms by (simp add: network_sel)
    with b show "\<exists>q \<in> set accepted. p_bits q < p_bits p \<and> contains q (p_addr p)"
      by (intro bexI [of _ ?q]) simp_all
  next
    assume "\<exists>q \<in> set accepted. p_bits q < p_bits p \<and> contains q (p_addr p)"
    then obtain q where q: "q \<in> set accepted" "p_bits q < p_bits p" "contains q (p_addr p)" by blast
    then have "masked (prefix_from (p_addr p) (int (p_bits q))) = q"
      using masked_parent_iff [of q p "p_bits q"] assms by (simp add: network_sel)
    with q show "simple_covered accepted p"
      by (auto simp: simple_covered_def list_ex_iff intro!: bexI [of _ "p_bits q"])
  qed
  moreover have "p_bits q < p_bits p"
    if "q \<in> set accepted" "p_bits q \<le> p_bits p" "contains q (p_addr p)" for q
    using that assms network_eq [of q p] by (metis le_neq_implies_less)
  ultimately show ?thesis unfolding shadowed_def by (meson less_imp_le)
qed

interpretation table: prefix_index "[]" simple_covered Cons simple_loop set
  "\<lambda>accepted. \<forall>q \<in> set accepted. network q" network
  by unfold_locales (use simple_covered_iff in auto)

subsection \<open>The trie\<close>

fun trie_set :: "trie \<Rightarrow> prefix set" where
  "trie_set TrieNil = {}"
| "trie_set (TrieNode stored left right) = set_option stored \<union> trie_set left \<union> trie_set right"

text \<open>Every stored prefix is an admissible one at the depth of its length, below its own bits.\<close>

fun trie_inv :: "family \<Rightarrow> nat \<Rightarrow> trie \<Rightarrow> bool" where
  "trie_inv f d TrieNil = True"
| "trie_inv f d (TrieNode stored left right) =
     ((\<forall>q \<in> set_option stored. network q \<and> p_fam q = f \<and> p_bits q = d) \<and>
      (\<forall>q \<in> trie_set left. d < p_bits q \<and> \<not> addr_bit (p_addr q) d) \<and>
      (\<forall>q \<in> trie_set right. d < p_bits q \<and> addr_bit (p_addr q) d) \<and>
      trie_inv f (Suc d) left \<and> trie_inv f (Suc d) right)"

lemma trie_inv_network: "trie_inv f d t \<Longrightarrow> q \<in> trie_set t \<Longrightarrow> network q \<and> p_fam q = f \<and> d \<le> p_bits q"
  by (induction f d t rule: trie_inv.induct) auto

lemma trie_covered_iff:
  assumes "trie_inv f d t" and "network p" and "p_fam p = f"
  shows "trie_covered t p d = shadowed (trie_set t) p"
  using assms
proof (induction f d t rule: trie_inv.induct)
  case (1 f d)
  then show ?case by (simp add: shadowed_def)
next
  case (2 f d stored left right)
  let ?bit = "addr_bit (p_addr p) d"
  let ?next = "if ?bit then right else left"
  have below: "shadowed (trie_set left \<union> trie_set right) p \<longleftrightarrow> d < p_bits p \<and> shadowed (trie_set ?next) p"
  proof -
    have "d < p_bits p \<and> (q \<in> trie_set left \<and> \<not> ?bit \<or> q \<in> trie_set right \<and> ?bit)"
      if q: "q \<in> trie_set left \<union> trie_set right" "p_bits q \<le> p_bits p" "contains q (p_addr p)" for q
    proof -
      have "network q" "d < p_bits q"
        using q(1) 2(3) trie_inv_network by fastforce+
      then have "?bit = addr_bit (p_addr q) d"
        using q(3) 2(4) by (intro contains_addr_bit) (simp_all add: network_sel)
      with q 2(3) \<open>d < p_bits q\<close> show ?thesis by auto
    qed
    then show ?thesis by (auto simp: shadowed_def split: if_splits)
  qed
  have IH: "trie_covered ?next p (Suc d) = shadowed (trie_set ?next) p"
    using 2 by (cases ?bit) simp_all
  have "shadowed (trie_set (TrieNode stored left right)) p \<longleftrightarrow>
      shadowed (set_option stored) p \<or> shadowed (trie_set left \<union> trie_set right) p"
    by (auto simp: shadowed_def)
  also have "\<dots> = trie_covered (TrieNode stored left right) p d"
    unfolding below by (cases stored) (simp_all add: shadowed_def IH [unfolded shadowed_def] not_le)
  finally show ?case by simp
qed

lemma trie_insert_ok:
  assumes "trie_inv f d t" and "network p" and "p_fam p = f" and "d \<le> p_bits p"
    and "\<not> shadowed (trie_set t) p"
    and "\<forall>q \<in> trie_set t. \<forall>i < d. addr_bit (p_addr q) i = addr_bit (p_addr p) i"
  shows "trie_inv f d (trie_insert p d t) \<and> trie_set (trie_insert p d t) = insert p (trie_set t)"
  using assms
proof (induction p d t rule: trie_insert.induct)
  case (1 p d t)
  obtain s l r where parts: "node_parts t = (s, l, r)" by (metis prod_cases3)
  have set_t: "trie_set t = set_option s \<union> trie_set l \<union> trie_set r"
    and inv: "\<forall>q \<in> set_option s. network q \<and> p_fam q = f \<and> p_bits q = d"
      "\<forall>q \<in> trie_set l. d < p_bits q \<and> \<not> addr_bit (p_addr q) d"
      "\<forall>q \<in> trie_set r. d < p_bits q \<and> addr_bit (p_addr q) d"
      "trie_inv f (Suc d) l" "trie_inv f (Suc d) r"
    using parts "1.prems"(1) by (cases t; auto)+
  have fresh: "\<not> shadowed (trie_set l) p" "\<not> shadowed (trie_set r) p"
    using "1.prems"(5) by (auto simp: set_t shadowed_def)
  show ?case
  proof (cases "d < p_bits p")
    case True
    show ?thesis
    proof (cases "addr_bit (p_addr p) d")
      case bit: True
      have "trie_inv f (Suc d) (trie_insert p (Suc d) r) \<and>
          trie_set (trie_insert p (Suc d) r) = insert p (trie_set r)"
        using "1.prems" True bit inv fresh set_t
        by (intro "1.IH"(1) [OF parts [symmetric] refl refl True bit]) (auto simp: less_Suc_eq)
      then show ?thesis
        using True bit inv parts set_t by (auto simp: trie_insert.simps [of p d t])
    next
      case bit: False
      have "trie_inv f (Suc d) (trie_insert p (Suc d) l) \<and>
          trie_set (trie_insert p (Suc d) l) = insert p (trie_set l)"
        using "1.prems" True bit inv fresh set_t
        by (intro "1.IH"(2) [OF parts [symmetric] refl refl True bit]) (auto simp: less_Suc_eq)
      then show ?thesis
        using True bit inv parts set_t by (auto simp: trie_insert.simps [of p d t])
    qed
  next
    case False
    then have d: "d = p_bits p" using "1.prems"(4) by simp
    have "s = None"
    proof (rule ccontr)
      assume "s \<noteq> None"
      then obtain q where q: "s = Some q" by blast
      have "contains q (p_addr p)"
        using q inv(1) "1.prems"(2,3,6) d
        by (intro contains_of_addr_bits) (auto simp: network_sel set_t)
      with q inv(1) d "1.prems"(5) show False by (auto simp: shadowed_def set_t)
    qed
    then show ?thesis
      using d inv parts set_t "1.prems"(2,3) by (auto simp: trie_insert.simps [of p "p_bits p" t])
  qed
qed

interpretation family_trie: prefix_index TrieNil "\<lambda>t p. trie_covered t p 0" "\<lambda>p t. trie_insert p 0 t"
  trie_loop trie_set "trie_inv f 0" "\<lambda>p. network p \<and> p_fam p = f" for f
proof unfold_locales
  fix s p
  assume "trie_inv f 0 s" "network p \<and> p_fam p = f" "\<not> trie_covered s p 0"
  then show "trie_inv f 0 (trie_insert p 0 s) \<and> trie_set (trie_insert p 0 s) = insert p (trie_set s)"
    using trie_covered_iff by (intro trie_insert_ok) auto
qed (auto simp: trie_covered_iff)

subsection \<open>The two loops agree\<close>

lemma normalize_simple_collapse:
  "\<forall>p \<in> set ps. network p \<Longrightarrow> distinct ps \<Longrightarrow> normalize_simple ps = collapse {} ps"
  by (simp add: normalize_simple_def table.run_collapse)

lemma normalize_with_trie_collapse:
  assumes "\<forall>p \<in> set ps. network p \<and> p_fam p = f" and "distinct ps"
  shows "normalize_with_trie ps = collapse {} ps"
proof (cases "length ps \<le> 1")
  case True
  then show ?thesis
    by (cases ps; cases "tl ps") (auto simp: normalize_with_trie_def shadowed_def)
next
  case False
  then show ?thesis
    using family_trie.run_collapse [OF assms] by (simp add: normalize_with_trie_def)
qed

lemma collapse_append_families:
  assumes "\<And>p q. p \<in> set xs \<Longrightarrow> q \<in> set ys \<Longrightarrow> p_fam p \<noteq> p_fam q"
    and "\<And>p q. p \<in> S \<Longrightarrow> q \<in> set ys \<Longrightarrow> p_fam p \<noteq> p_fam q"
  shows "collapse S (xs @ ys) = collapse S xs @ collapse {} ys"
  using assms
proof (induction xs arbitrary: S)
  case Nil
  have "collapse (S \<union> T) ys = collapse T ys" if "\<And>p q. p \<in> S \<Longrightarrow> q \<in> set ys \<Longrightarrow> p_fam p \<noteq> p_fam q" for T
    using that
  proof (induction ys arbitrary: T)
    case Nil
    then show ?case by simp
  next
    case (Cons y ys)
    have "shadowed (S \<union> T) y = shadowed T y"
      using Cons.prems by (fastforce simp: shadowed_def contains_def)
    with Cons show ?case using Cons.IH [of "insert y T"] by simp
  qed
  from this [of "{}"] Nil show ?case by simp
next
  case (Cons x xs)
  have "collapse S (xs @ ys) = collapse S xs @ collapse {} ys"
    "collapse (insert x S) (xs @ ys) = collapse (insert x S) xs @ collapse {} ys"
    using Cons.prems by (intro Cons.IH; auto)+
  then show ?case by simp
qed

lemma sort_split_families:
  "sorted (ps :: prefix list) \<Longrightarrow>
     filter (\<lambda>p. is4 (p_addr p)) ps @ filter (\<lambda>p. \<not> is4 (p_addr p)) ps = ps"
proof (induction ps)
  case Nil
  then show ?case by simp
next
  case (Cons p ps)
  show ?case
  proof (cases "is4 (p_addr p)")
    case True
    with Cons show ?thesis by simp
  next
    case False
    have "\<not> is4 (p_addr q)" if "q \<in> set ps" for q
    proof
      assume "is4 (p_addr q)"
      with False have "bitlen (p_fam q) < bitlen (p_fam p)"
        by (cases "p_fam p") (simp_all add: is4_def)
      moreover have "p \<le> q" using Cons.prems that by simp
      ultimately show False by (auto simp: less_eq_prefix_def less_eq_family_def less_family_def)
    qed
    then have "filter (\<lambda>p. is4 (p_addr p)) ps = []" "filter (\<lambda>p. \<not> is4 (p_addr p)) ps = ps"
      by (simp_all add: filter_empty_conv)
    with False show ?thesis by simp
  qed
qed

lemma normalize_collapse:
  assumes "\<forall>p \<in> set ps. addr_ok (p_addr p)"
  shows "normalize ps = collapse {} (sort (unique_masked ps))"
proof -
  let ?r = "sort (unique_masked ps)"
  have net: "\<forall>p \<in> set ?r. network p"
    using assms by (auto simp: unique_masked_def intro!: network_masked simp: prefix_ok_def)
  have dist: "distinct ?r" by (simp add: unique_masked_def)
  show ?thesis
  proof (cases "length (unique_masked ps) \<le> 1")
    case True
    then have "unique_masked ps = ?r" "collapse {} ?r = ?r"
      by (cases "unique_masked ps"; cases "tl (unique_masked ps)"; simp add: shadowed_def)+
    with True show ?thesis by (simp add: normalize_def Let_def)
  next
    case long: False
    show ?thesis
    proof (cases "length ?r \<le> 100")
      case True
      with long net dist show ?thesis
        by (simp add: normalize_def Let_def normalize_simple_collapse)
    next
      case False
      let ?x = "filter (\<lambda>p. is4 (p_addr p)) ?r" and ?y = "filter (\<lambda>p. \<not> is4 (p_addr p)) ?r"
      have y6: "p_fam p = IPv6" if "\<not> is4 (p_addr p)" for p
        using that by (cases "p_fam p") (simp_all add: is4_def)
      have "normalize_with_trie ?x = collapse {} ?x" "normalize_with_trie ?y = collapse {} ?y"
        using net dist y6
        by (intro normalize_with_trie_collapse [of _ IPv4] normalize_with_trie_collapse [of _ IPv6];
            auto simp: is4_def)+
      moreover have "collapse {} (?x @ ?y) = collapse {} ?x @ collapse {} ?y"
        by (intro collapse_append_families) (auto simp: is4_def)
      ultimately show ?thesis
        using long False sort_split_families [of ?r] by (simp add: normalize_def Let_def)
    qed
  qed
qed

subsection \<open>What normalization computes\<close>

definition pairwise_disjoint :: "prefix set \<Rightarrow> bool" where
  "pairwise_disjoint S = (\<forall>p \<in> S. \<forall>q \<in> S. p \<noteq> q \<longrightarrow> addrs_of p \<inter> addrs_of q = {})"

lemma ordered_disjoint:
  assumes "q < p" and "\<not> (p_bits q \<le> p_bits p \<and> contains q (p_addr p))"
  shows "addrs_of q \<inter> addrs_of p = {}"
proof (cases "p_fam q = p_fam p")
  case True
  then have "p_bits q \<le> p_bits p" using assms(1) by (auto simp: less_prefix_def)
  with assms(2) show ?thesis using addrs_of_disjoint_or_nested by blast
next
  case False
  then show ?thesis by (auto simp: addrs_of_def contains_def)
qed

lemma collapse_correct:
  assumes "sorted ps" "distinct ps" "\<forall>p \<in> set ps. network p"
    and "\<forall>q \<in> S. \<forall>p \<in> set ps. q < p" "pairwise_disjoint S"
  shows "(\<Union>p \<in> S. addrs_of p) \<union> cover (collapse S ps) = (\<Union>p \<in> S. addrs_of p) \<union> cover ps \<and>
    pairwise_disjoint (S \<union> set (collapse S ps)) \<and> sorted (collapse S ps) \<and> distinct (collapse S ps) \<and>
    set (collapse S ps) \<subseteq> set ps \<and>
    (\<forall>p \<in> set ps. p \<in> set (collapse S ps) \<or> shadowed (S \<union> set (collapse S ps)) p)"
  using assms
proof (induction ps arbitrary: S)
  case Nil
  then show ?case by simp
next
  case (Cons p ps)
  show ?case
  proof (cases "shadowed S p")
    case True
    then have "addrs_of p \<subseteq> (\<Union>p \<in> S. addrs_of p)"
      using addrs_of_subset by (fastforce simp: shadowed_def)
    moreover have "shadowed (S \<union> T) p" for T using True by (auto simp: shadowed_def)
    ultimately show ?thesis using Cons.IH [of S] Cons.prems True by auto
  next
    case False
    have "addrs_of q \<inter> addrs_of p = {}" if "q \<in> S" for q
      using that Cons.prems(4) False by (intro ordered_disjoint) (auto simp: shadowed_def)
    then have "pairwise_disjoint (insert p S)"
      using Cons.prems(5) by (auto simp: pairwise_disjoint_def)
    moreover have "\<forall>q \<in> insert p S. \<forall>r \<in> set ps. q < r"
      using Cons.prems(1,2,4) by (auto simp: order_less_le)
    ultimately have "(\<Union>p \<in> insert p S. addrs_of p) \<union> cover (collapse (insert p S) ps) =
        (\<Union>p \<in> insert p S. addrs_of p) \<union> cover ps \<and>
      pairwise_disjoint (insert p S \<union> set (collapse (insert p S) ps)) \<and>
      sorted (collapse (insert p S) ps) \<and> distinct (collapse (insert p S) ps) \<and>
      set (collapse (insert p S) ps) \<subseteq> set ps \<and>
      (\<forall>q \<in> set ps. q \<in> set (collapse (insert p S) ps) \<or> shadowed (insert p S \<union> set (collapse (insert p S) ps)) q)"
      using Cons.prems by (intro Cons.IH) auto
    with False Cons.prems show ?thesis by auto
  qed
qed


lemma unique_masked_networks:
  "\<forall>p \<in> set ps. addr_ok (p_addr p) \<Longrightarrow> p \<in> set (unique_masked ps) \<Longrightarrow> network p"
  by (auto simp: unique_masked_def intro!: network_masked simp: prefix_ok_def)

lemma distinct_unique_masked [simp]: "distinct (unique_masked ps)"
  by (simp add: unique_masked_def)

lemma addrs_of_valid: "a \<in> addrs_of p \<Longrightarrow> prefix_is_valid p"
  by (simp add: addrs_of_def contains_def)

lemma cover_unique_masked: "cover (unique_masked ps) = cover ps"
  by (auto simp: unique_masked_def cover_def dest: addrs_of_valid)

lemma cover_sort [simp]: "cover (sort ps) = cover ps"
  by (simp add: cover_def)

lemma normalize_facts:
  assumes "\<forall>p \<in> set ps. addr_ok (p_addr p)"
  shows "cover (normalize ps) = cover ps" "pairwise_disjoint (set (normalize ps))"
    and "sorted (normalize ps)" "distinct (normalize ps)" "\<forall>p \<in> set (normalize ps). network p"
    and "set (normalize ps) \<subseteq> set (unique_masked ps)"
    and "\<forall>p \<in> set (unique_masked ps). p \<in> set (normalize ps) \<or> shadowed (set (normalize ps)) p"
proof -
  let ?n = "normalize ps" and ?u = "sort (unique_masked ps)"
  have n: "?n = collapse {} ?u" by (rule normalize_collapse [OF assms])
  have net: "\<forall>p \<in> set ?u. network p" using unique_masked_networks [OF assms] by simp
  have "(\<Union>p \<in> {}. addrs_of p) \<union> cover ?n = (\<Union>p \<in> {}. addrs_of p) \<union> cover ?u \<and>
      pairwise_disjoint ({} \<union> set ?n) \<and> sorted ?n \<and> distinct ?n \<and> set ?n \<subseteq> set ?u \<and>
      (\<forall>p \<in> set ?u. p \<in> set ?n \<or> shadowed ({} \<union> set ?n) p)"
    unfolding n by (rule collapse_correct) (use net in \<open>simp_all add: pairwise_disjoint_def\<close>)
  then show "cover ?n = cover ps" "pairwise_disjoint (set ?n)" "sorted ?n" "distinct ?n"
    "\<forall>p \<in> set ?n. network p" "set ?n \<subseteq> set (unique_masked ps)"
    "\<forall>p \<in> set (unique_masked ps). p \<in> set ?n \<or> shadowed (set ?n) p"
    using net by (auto simp: cover_unique_masked)
qed

lemma normalize_pieces:
  "\<forall>p \<in> set ps. addr_ok (p_addr p) \<Longrightarrow> disjoint_prefixes (normalize ps)"
  using normalize_facts [of ps] by (auto simp: disjoint_prefixes_def pairwise_disjoint_def)

text \<open>A list of disjoint networks is already normal, up to its order.\<close>

lemma collapse_disjoint:
  assumes "pairwise_disjoint (S \<union> set ps)" "distinct ps" "S \<inter> set ps = {}" "\<forall>p \<in> set ps. network p"
  shows "collapse S ps = ps"
  using assms
proof (induction ps arbitrary: S)
  case Nil
  then show ?case by simp
next
  case (Cons p ps)
  have "\<not> shadowed S p"
  proof
    assume "shadowed S p"
    then obtain q where q: "q \<in> S" "p_bits q \<le> p_bits p" "contains q (p_addr p)"
      by (auto simp: shadowed_def)
    then have "p_addr p \<in> addrs_of q \<inter> addrs_of p"
      using Cons.prems(4) by (auto simp: addrs_of_def network_sel contains_self)
    moreover have "q \<noteq> p" using q(1) Cons.prems(3) by auto
    ultimately show False using Cons.prems(1) q(1) by (auto simp: pairwise_disjoint_def)
  qed
  moreover have "collapse (insert p S) ps = ps"
    using Cons.prems by (intro Cons.IH) auto
  ultimately show ?case by simp
qed

lemma normalize_disjoint:
  assumes "disjoint_prefixes ps" "\<forall>p \<in> set ps. network p"
  shows "normalize ps = sort ps"
proof -
  have "filter prefix_is_valid ps = ps"
    using assms(2) by (simp add: filter_id_conv network_sel)
  moreover have "map masked ps = ps"
    using assms(2) by (simp add: map_idI network_sel)
  ultimately have um: "unique_masked ps = ps"
    using assms(1) by (simp add: unique_masked_def disjoint_prefixes_def)
  have "collapse {} (sort ps) = sort ps"
    using assms by (intro collapse_disjoint) (auto simp: pairwise_disjoint_def disjoint_prefixes_def)
  with um show ?thesis using assms(2) by (simp add: normalize_collapse network_sel)
qed

lemma normalize_set_cong:
  assumes "set ps = set qs" "\<forall>p \<in> set ps. addr_ok (p_addr p)"
  shows "normalize ps = normalize qs"
proof -
  have "set (unique_masked ps) = set (unique_masked qs)"
    using assms(1) by (simp add: unique_masked_def)
  then have "sort (unique_masked ps) = sort (unique_masked qs)"
    by (intro sorted_distinct_set_unique) (simp_all add: unique_masked_def)
  with assms show ?thesis by (simp add: normalize_collapse)
qed

lemma length_normalize: "\<forall>p \<in> set ps. addr_ok (p_addr p) \<Longrightarrow> length (normalize ps) \<le> length ps"
proof -
  assume ok: "\<forall>p \<in> set ps. addr_ok (p_addr p)"
  have "length (normalize ps) = card (set (normalize ps))"
    using normalize_facts(4) [OF ok] by (simp add: distinct_card)
  also have "\<dots> \<le> card (set (unique_masked ps))"
    using normalize_facts(6) [OF ok] by (simp add: card_mono)
  also have "\<dots> \<le> length (unique_masked ps)" by (rule card_length)
  also have "\<dots> \<le> length ps"
    unfolding unique_masked_def by (metis (no_types, lifting) le_trans length_filter_le length_map length_remdups_leq)
  finally show ?thesis .
qed

section \<open>Correctness of the filter\<close>

definition well_formed :: "prefix list \<Rightarrow> bool" where
  "well_formed ps = (\<forall>p \<in> set ps. addr_ok (p_addr p))"

lemma well_formedD: "well_formed ps \<Longrightarrow> \<forall>p \<in> set ps. addr_ok (p_addr p)"
  by (simp add: well_formed_def)

lemma well_formed_networks: "\<forall>p \<in> set ps. network p \<Longrightarrow> well_formed ps"
  by (simp add: well_formed_def network_sel)

lemmas normalize_wf = normalize_facts [OF well_formedD] and length_normalize_wf = length_normalize [OF well_formedD]

text \<open>
  One pair. The first case of the code's \<open>switch\<close> asks only whether \<open>prefix\<close> contains the
  network address of \<open>permitted\<close>; a shorter \<open>permitted\<close> that starts at the same address
  satisfies it and is returned whole.
\<close>

definition anchored :: "prefix \<Rightarrow> prefix \<Rightarrow> bool" where
  "anchored p q = (p_addr q = p_addr p \<and> p_bits q < p_bits p)"

lemma anchored_iff:
  assumes "network p" "network q" "p_bits q < p_bits p" "contains p (p_addr q)"
  shows "p_addr q = p_addr p"
proof -
  have "contains q (p_addr p)"
    using assms contains_coarser [of p "p_addr q" q] by (simp add: contains_self network_sel)
  with assms have "p_val q \<le> p_val p" "p_val p \<le> p_val q" "p_fam p = p_fam q"
    by (auto simp: contains_interval)
  then show ?thesis by (simp add: addr.expand)
qed

lemma cover_intersect_pair:
  assumes "network p" and "network q"
  shows "cover (intersect_pair p q) = (if anchored p q then addrs_of q else addrs_of p \<inter> addrs_of q)"
proof (cases "contains p (p_addr q)")
  case pq: True
  show ?thesis
  proof (cases "p_bits q < p_bits p")
    case True
    with pq assms anchored_iff have "anchored p q" by (simp add: anchored_def)
    with pq show ?thesis by (simp add: intersect_pair_def contains_def)
  next
    case False
    then have "addrs_of q \<subseteq> addrs_of p" using pq addrs_of_subset by simp
    with pq False show ?thesis by (auto simp: intersect_pair_def contains_def anchored_def)
  qed
next
  case pq: False
  then have na: "\<not> anchored p q" using assms(1) by (auto simp: anchored_def network_sel contains_self)
  show ?thesis
  proof (cases "contains q (p_addr p)")
    case True
    have "p_bits q \<le> p_bits p"
      using pq True assms contains_coarser [of q "p_addr p" p]
      by (metis contains_self linorder_le_cases network_sel(3))
    then have "addrs_of p \<subseteq> addrs_of q" using True addrs_of_subset by simp
    with pq na True show ?thesis by (auto simp: intersect_pair_def contains_def)
  next
    case False
    then have "addrs_of p \<inter> addrs_of q = {}"
      using pq addrs_of_overlap [of p q] addrs_of_overlap [of q p] by (metis Int_commute linorder_le_cases)
    with pq False na show ?thesis by (auto simp: intersect_pair_def)
  qed
qed

lemma intersect_pair_set: "set (intersect_pair p q) \<subseteq> {p, q}"
  by (auto simp: intersect_pair_def split: if_splits)

definition any_anchored :: "prefix list \<Rightarrow> prefix list \<Rightarrow> bool" where
  "any_anchored input allow =
     (\<exists>p \<in> set (normalize input). \<exists>q \<in> set (normalize allow). anchored p q)"

definition allows :: "prefix list \<Rightarrow> addr set" where
  "allows allow = (if filter prefix_is_valid allow = [] then UNIV else cover allow)"

lemma normalize_Nil_iff:
  assumes "well_formed ps"
  shows "normalize ps = [] \<longleftrightarrow> filter prefix_is_valid ps = []"
proof
  assume "normalize ps = []"
  then have "set (unique_masked ps) = {}" using normalize_wf(7) [OF assms] by (auto simp: shadowed_def)
  then show "filter prefix_is_valid ps = []" by (simp add: unique_masked_def)
next
  assume "filter prefix_is_valid ps = []"
  then show "normalize ps = []" by (simp add: normalize_def unique_masked_def)
qed

lemma intersect_facts:
  assumes "well_formed input" and "well_formed allow"
  shows "\<forall>p \<in> set (intersect input allow). network p"
    and "cover input \<inter> allows allow \<subseteq> cover (intersect input allow)"
    and "cover (intersect input allow) \<subseteq> allows allow"
    and "\<not> any_anchored input allow \<Longrightarrow> cover (intersect input allow) = cover input \<inter> allows allow"
proof -
  let ?i = "normalize input" and ?a = "normalize allow"
  note ni = normalize_wf [OF assms(1)] and na = normalize_wf [OF assms(2)]
  define pairs where "pairs = concat (map (\<lambda>p. concat (map (intersect_pair p) ?a)) ?i)"
  have net: "\<forall>p \<in> set pairs. network p"
    using ni(5) na(5) intersect_pair_set by (fastforce simp: pairs_def)
  note np = normalize_wf [OF well_formed_networks [OF net]]
  have cov: "cover pairs = (\<Union>p \<in> set ?i. \<Union>q \<in> set ?a. cover (intersect_pair p q))"
    by (auto simp: pairs_def cover_def)
  have eq: "intersect input allow = (if ?a = [] then ?i else normalize pairs)"
    by (simp add: intersect_def Let_def pairs_def)
  have al: "allows allow = (if ?a = [] then UNIV else cover ?a)"
    by (simp add: allows_def normalize_Nil_iff [OF assms(2)] na(1))
  have pair: "cover (intersect_pair p q) = (if anchored p q then addrs_of q else addrs_of p \<inter> addrs_of q)"
    if "p \<in> set ?i" "q \<in> set ?a" for p q
    using that ni(5) na(5) by (intro cover_intersect_pair) auto
  show "\<forall>p \<in> set (intersect input allow). network p" using ni(5) np(5) by (simp add: eq)
  have "cover ?i \<inter> cover ?a \<subseteq> cover pairs"
    unfolding cov by (fastforce simp: pair cover_def [of ?i] cover_def [of ?a])
  then show "cover input \<inter> allows allow \<subseteq> cover (intersect input allow)"
    by (auto simp: eq al ni(1) np(1))
  have "cover pairs \<subseteq> cover ?a"
    unfolding cov by (auto simp: pair cover_def [of ?a] split: if_splits)
  then show "cover (intersect input allow) \<subseteq> allows allow"
    by (auto simp: eq al np(1))
  assume na': "\<not> any_anchored input allow"
  have "cover pairs = cover ?i \<inter> cover ?a"
    unfolding cov using na' by (auto simp: pair cover_def [of ?i] cover_def [of ?a] any_anchored_def)
  then show "cover (intersect input allow) = cover input \<inter> allows allow"
    by (auto simp: eq al ni(1) np(1))
qed

subsection \<open>Denying\<close>

lemma deny_one_eq:
  assumes "length acc \<le> maxp"
  shows "deny_one maxp d acc ps =
    (let out = acc @ concat (map (\<lambda>p. subtract p d) ps) in
     if length out \<le> maxp then Inr out else fail (TooManyRoutes maxp))"
  using assms
proof (induction ps arbitrary: acc)
  case Nil
  then show ?case by simp
next
  case (Cons p ps)
  show ?case
  proof (cases "maxp < length acc + length (subtract p d)")
    case True
    then show ?thesis by (simp add: Let_def)
  next
    case False
    then have "length (acc @ subtract p d) \<le> maxp" by simp
    from Cons.IH [OF this] False show ?thesis by (simp add: Let_def add.assoc)
  qed
qed

lemma cover_concat_subtract:
  assumes "\<forall>p \<in> set ps. network p" and "network d"
  shows "cover (concat (map (\<lambda>p. subtract p d) ps)) = cover ps - addrs_of d"
    and "\<forall>p \<in> set (concat (map (\<lambda>p. subtract p d) ps)). network p"
proof -
  have one: "cover (subtract p d) = addrs_of p - addrs_of d" "pieces (subtract p d) (p_fam p)"
    if "p \<in> set ps" for p
    using that assms cover_subtract [of p d] by (simp_all add: network_sel)
  have "cover (concat (map (\<lambda>p. subtract p d) ps)) = (\<Union>p \<in> set ps. cover (subtract p d))"
    by (auto simp: cover_def)
  also have "\<dots> = cover ps - addrs_of d" using one(1) by (auto simp: cover_def [of ps])
  finally show "cover (concat (map (\<lambda>p. subtract p d) ps)) = cover ps - addrs_of d" .
  show "\<forall>p \<in> set (concat (map (\<lambda>p. subtract p d) ps)). network p"
    using one(2) by (auto simp: pieces_def)
qed

lemma deny_all_facts:
  assumes "deny_all maxp allowed ds = Inr out" "length allowed \<le> maxp"
    and "\<forall>p \<in> set allowed. network p" "\<forall>d \<in> set ds. network d"
  shows "cover out = cover allowed - cover ds" "\<forall>p \<in> set out. network p" "length out \<le> maxp"
proof -
  have "cover out = cover allowed - cover ds \<and> (\<forall>p \<in> set out. network p) \<and> length out \<le> maxp"
    using assms
  proof (induction ds arbitrary: allowed)
    case Nil
    then show ?case by simp
  next
    case (Cons d ds)
    let ?n = "concat (map (\<lambda>p. subtract p d) allowed)"
    have n: "length ?n \<le> maxp" "deny_all maxp ?n ds = Inr out"
      using Cons.prems(1) by (auto simp: deny_one_eq bindE_eq_Inr_iff Let_def split: if_splits)
    note c = cover_concat_subtract [OF Cons.prems(3), of d]
    have "cover out = cover ?n - cover ds \<and> (\<forall>p \<in> set out. network p) \<and> length out \<le> maxp"
      using Cons.prems(4) c by (intro Cons.IH [OF n(2) n(1)]) simp_all
    with c Cons.prems(4) show ?case by auto
  qed
  then show "cover out = cover allowed - cover ds" "\<forall>p \<in> set out. network p" "length out \<le> maxp" by simp_all
qed

definition max_routes :: "int \<Rightarrow> nat" where
  "max_routes m = nat (if m \<le> 0 then default_max_prefixes else m)"

lemma Apply_facts:
  assumes "Apply input ls m = Inr out"
    and "well_formed input" "well_formed (Allow ls)" "well_formed (Deny ls)"
  shows "cover out = cover (intersect input (Allow ls)) - cover (Deny ls)"
    and "disjoint_prefixes out" "\<forall>p \<in> set out. network p" "sorted out" "length out \<le> max_routes m"
proof -
  let ?i = "intersect input (Allow ls)"
  note nd = normalize_wf [OF assms(4)]
  obtain mid where mid: "deny_all (max_routes m) ?i (normalize (Deny ls)) = Inr mid" "length ?i \<le> max_routes m"
    and out: "out = normalize mid"
    using assms(1) by (auto simp: Apply_def Let_def bindE_eq_Inr_iff max_routes_def split: if_splits)
  note mf = deny_all_facts [OF mid intersect_facts(1) [OF assms(2,3)] nd(5)]
  note nm = normalize_wf [OF well_formed_networks [OF mf(2)]]
  show "cover out = cover ?i - cover (Deny ls)" by (simp add: out nm(1) mf(1) nd(1))
  show "disjoint_prefixes out" "\<forall>p \<in> set out. network p" "sorted out"
    using nm by (auto simp: out disjoint_prefixes_def pairwise_disjoint_def)
  show "length out \<le> max_routes m"
    using length_normalize_wf [OF well_formed_networks [OF mf(2)]] mf(3) by (simp add: out)
qed

section \<open>Properties\<close>

lemmas sample_simps = well_formed_def addr_ok_def prefix_ok_def prefix_is_valid_def

definition net24 :: prefix where "net24 = Prefix (Addr IPv4 0x0A000000) 24"
definition net25 :: prefix where "net25 = Prefix (Addr IPv4 0x0A000080) 25"
definition net8 :: prefix where "net8 = Prefix (Addr IPv4 0x0A000000) 8"

lemma normalize_sample: "normalize [net24] = [net24]" "normalize [net8] = [net8]" "normalize [] = []"
    "normalize [net25] = [net25]"
  by (simp_all add: normalize_def unique_masked_def net24_def net25_def net8_def masked_def prefix_is_valid_def Let_def)

text \<open>C1: what \<open>Apply\<close> returns when no allow entry is a shorter prefix with the network address of an
  input prefix: exactly the input addresses that the allow list admits (all of them when it is empty)
  and the deny list does not remove, as disjoint masked prefixes in sorted order, within the limit.\<close>

theorem Apply_exact:
  assumes "Apply input ls m = Inr out"
    and "well_formed input" "well_formed (Allow ls)" "well_formed (Deny ls)"
    and "\<not> any_anchored input (Allow ls)"
  shows "cover out = cover input \<inter> allows (Allow ls) - cover (Deny ls) \<and>
    disjoint_prefixes out \<and> (\<forall>p \<in> set out. network p) \<and> sorted out \<and> length out \<le> max_routes m"
  using Apply_facts [OF assms(1-4)] intersect_facts(4) [OF assms(2,3,5)] by simp

lemma Apply_sample:
  "Apply [net24] \<lparr>Allow = [net25], Deny = []\<rparr> 10 = Inr [net25]"
  by (simp add: Apply_def intersect_def normalize_sample Let_def)
    (simp add: intersect_pair_def net24_def net25_def contains_def prefix_is_valid_def
      normalize_def unique_masked_def masked_def Let_def)

theorem Apply_exact_witness:
  "cover [net25] = cover [net24] \<inter> allows [net25] - cover [] \<and> length [net25] \<le> max_routes 10"
  using Apply_exact [OF Apply_sample]
  by (simp add: sample_simps any_anchored_def normalize_sample anchored_def del: cover_simps)
    (simp add: net24_def net25_def)

text \<open>C2: whatever the lists, a successful \<open>Apply\<close> announces no address outside the allow list and no
  denied address, loses no input address that both lists let through, and returns at most the limit of
  disjoint masked prefixes.\<close>

theorem Apply_safe:
  assumes "Apply input ls m = Inr out"
    and "well_formed input" "well_formed (Allow ls)" "well_formed (Deny ls)"
  shows "cover out \<subseteq> allows (Allow ls) - cover (Deny ls) \<and>
    cover input \<inter> allows (Allow ls) - cover (Deny ls) \<subseteq> cover out \<and>
    disjoint_prefixes out \<and> (\<forall>p \<in> set out. network p) \<and> length out \<le> max_routes m"
  using Apply_facts [OF assms(1-4)] intersect_facts(2,3) [OF assms(2,3)] by auto

theorem Apply_safe_witness:
  "cover [net25] \<subseteq> allows [net25] - cover []"
  using Apply_safe [OF Apply_sample] by (simp add: sample_simps del: cover_simps) (simp add: net24_def net25_def)

text \<open>the \<open>switch\<close> of \<open>intersect\<close> asks only whether the input prefix contains the network
  address of the allow entry, so an allow entry 10.0.0.0/8 turns the input 10.0.0.0/24 into the whole
  10.0.0.0/8: the filter widens a route.\<close>

theorem Apply_widens:
  "Apply [net24] \<lparr>Allow = [net8], Deny = []\<rparr> 0 = Inr [net8] \<and>
    Addr IPv4 0x0AFFFFFF \<in> cover [net8] \<and> Addr IPv4 0x0AFFFFFF \<notin> cover [net24]"
proof -
  have "Apply [net24] \<lparr>Allow = [net8], Deny = []\<rparr> 0 = Inr [net8]"
    by (simp add: Apply_def intersect_def normalize_sample default_max_prefixes_def Let_def)
      (simp add: intersect_pair_def net24_def net8_def contains_def prefix_is_valid_def
        normalize_def unique_masked_def masked_def Let_def)
  then show ?thesis
    by (simp add: net24_def net8_def addrs_of_def contains_def addr_ok_def prefix_is_valid_def)
qed

lemma deny_all_error:
  "length acc \<le> maxp \<Longrightarrow> deny_all maxp acc ds = Inl e \<Longrightarrow> e = Err (TooManyRoutes maxp)"
proof (induction ds arbitrary: acc)
  case Nil
  then show ?case by simp
next
  case (Cons d ds)
  show ?case
  proof (cases "length (concat (map (\<lambda>p. subtract p d) acc)) \<le> maxp")
    case True
    with Cons show ?thesis by (simp add: deny_one_eq)
  next
    case False
    with Cons.prems show ?thesis by (simp add: deny_one_eq fail_def)
  qed
qed


text \<open>C6: the two redundancy checks of \<open>normalize\<close> agree on every sorted list of distinct networks,
  so the threshold of 100 prefixes cannot be seen in the result.\<close>

theorem normalize_algorithms_agree:
  assumes "sorted ps" "distinct ps" "\<forall>p \<in> set ps. network p"
  shows "normalize_simple ps =
    normalize_with_trie (filter (\<lambda>p. is4 (p_addr p)) ps) @
    normalize_with_trie (filter (\<lambda>p. \<not> is4 (p_addr p)) ps)"
proof -
  let ?x = "filter (\<lambda>p. is4 (p_addr p)) ps" and ?y = "filter (\<lambda>p. \<not> is4 (p_addr p)) ps"
  have y6: "p_fam p = IPv6" if "\<not> is4 (p_addr p)" for p
    using that by (cases "p_fam p") (simp_all add: is4_def)
  have "normalize_with_trie ?x = collapse {} ?x" "normalize_with_trie ?y = collapse {} ?y"
    using assms(2,3) y6
    by (intro normalize_with_trie_collapse [of _ IPv4] normalize_with_trie_collapse [of _ IPv6];
        auto simp: is4_def)+
  moreover have "collapse {} (?x @ ?y) = collapse {} ?x @ collapse {} ?y"
    by (intro collapse_append_families) (auto simp: is4_def)
  ultimately show ?thesis
    using sort_split_families [OF assms(1)] by (simp add: normalize_simple_collapse assms(2,3))
qed

theorem normalize_algorithms_agree_witness:
  "normalize_simple [net8, net25] = normalize_with_trie [net8, net25] @ normalize_with_trie []"
proof -
  have "net8 < net25" "net8 \<noteq> net25" by (simp_all add: net8_def net25_def less_prefix_def)
  moreover have "network net8" "network net25"
    by (simp_all add: net8_def net25_def network_def masked_def sample_simps)
  moreover have "is4 (p_addr net8)" "is4 (p_addr net25)" by (simp_all add: net8_def net25_def is4_def)
  ultimately show ?thesis using normalize_algorithms_agree [of "[net8, net25]"] by simp
qed

text \<open>C7: \<open>normalize\<close> keeps the addresses, leaves no prefix inside another, is sorted, keeps every
  prefix it was given unless a shorter one of the result contains it, and depends neither on the order
  of its input nor on duplicates (Go's map iteration order cannot show).\<close>

theorem normalize_correct:
  assumes "well_formed ps"
  shows "cover (normalize ps) = cover ps \<and> disjoint_prefixes (normalize ps) \<and> sorted (normalize ps) \<and>
    set (normalize ps) \<subseteq> set (unique_masked ps) \<and>
    (\<forall>p \<in> set (unique_masked ps). p \<in> set (normalize ps) \<or> shadowed (set (normalize ps)) p) \<and>
    (\<forall>qs. set qs = set ps \<longrightarrow> normalize qs = normalize ps)"
  using normalize_wf(1,3,6,7) [OF assms] normalize_pieces [OF well_formedD [OF assms]]
    normalize_set_cong [of ps, OF _ well_formedD [OF assms]] by metis

theorem normalize_correct_witness:
  "cover (normalize [net25, net24, net25]) = cover [net25, net24, net25]"
  by (rule normalize_correct [THEN conjunct1])
    (simp add: sample_simps net24_def net25_def)

text \<open>\<open>subtract\<close> removes exactly the denied addresses and returns at most one fragment per bit of
  difference, each a masked prefix disjoint from the others.\<close>

theorem subtract_exact:
  assumes "prefix_ok p" "prefix_ok d"
  shows "cover (subtract p d) = addrs_of p - addrs_of d \<and> pieces (subtract p d) (p_fam p) \<and>
    length (subtract p d) \<le> max 1 (p_bits d - p_bits p)"
  using cover_subtract [OF assms] by simp

theorem subtract_exact_witness:
  "cover (subtract net24 net25) = addrs_of net24 - addrs_of net25"
  using subtract_exact [of net24 net25]
  by (simp add: sample_simps) (simp add: net24_def net25_def)

end
