(* ===== verification/Prefix_Exclude.thy ===== *)
theory Prefix_Exclude
  imports Prefix_Filter
begin

text \<open>
  \<open>internal/prefixfilter/exclude.go\<close>: a normalized exclude list split by family and sorted by
  address, and the subtraction that visits only the run of excludes overlapping its argument,
  found by \<open>sort.Search\<close>.
\<close>

section \<open>The operations\<close>

record exclude_set =
  ex_v4 :: "prefix list"
  ex_v6 :: "prefix list"

definition new_exclude_set :: "prefix list \<Rightarrow> exclude_set" where
  "new_exclude_set prefixes =
     (let ps = normalize prefixes in
      \<lparr>ex_v4 = sort_key p_addr (filter (\<lambda>p. is4 (p_addr p)) ps),
       ex_v6 = sort_key p_addr (filter (\<lambda>p. \<not> is4 (p_addr p)) ps)\<rparr>)"

definition exclude_empty :: "exclude_set \<Rightarrow> bool" where
  "exclude_empty e = (ex_v4 e = [] \<and> ex_v6 e = [])"

text \<open>\<open>lastAddr\<close> sets every host bit of the network address.\<close>

definition last_addr :: "prefix \<Rightarrow> addr" where
  "last_addr p =
     (let raw = as_slice (p_addr (masked p)) in
      case addr_from_slice (fold set_addr_bit [p_bits p..<length raw * 8] raw) of
        Some a \<Rightarrow> a | None \<Rightarrow> Addr IPv4 0)"

text \<open>\<open>sort.Search(n, f)\<close> of the standard library: binary search for the first index where \<open>f\<close> holds.\<close>

function search_loop :: "(nat \<Rightarrow> bool) \<Rightarrow> nat \<Rightarrow> nat \<Rightarrow> nat" where
  "search_loop f i j =
     (if i < j then
        (let h = (i + j) div 2 in if f h then search_loop f i h else search_loop f (Suc h) j)
      else i)"
  by pat_completeness auto
termination
  by (relation "measure (\<lambda>(f, i, j). j - i)") auto

declare search_loop.simps [simp del]

definition sort_search :: "nat \<Rightarrow> (nat \<Rightarrow> bool) \<Rightarrow> nat" where
  "sort_search n f = search_loop f 0 n"

text \<open>The loop from \<open>idx - 1\<close> down to 0 runs over the reversed front part of the excludes.\<close>

fun exclude_loop :: "addr \<Rightarrow> prefix list \<Rightarrow> prefix list \<Rightarrow> bool \<Rightarrow> prefix list \<times> bool" where
  "exclude_loop start [] fragments changed = (fragments, changed)"
| "exclude_loop start (e # es) fragments changed =
     (if last_addr e < start then (fragments, changed)
      else
        (let next_fragments = concat (map (\<lambda>f. subtract f e) fragments) in
         if next_fragments = [] then ([], True)
         else exclude_loop start es next_fragments True))"

definition exclude_subtract :: "exclude_set \<Rightarrow> prefix \<Rightarrow> prefix list \<times> bool" where
  "exclude_subtract e prefix =
     (let p = masked prefix;
          excludes = (if is6 (p_addr p) then ex_v6 e else ex_v4 e);
          start = p_addr p;
          end_addr = last_addr p;
          i = sort_search (length excludes) (\<lambda>i. end_addr < p_addr (excludes ! i))
      in exclude_loop start (rev (take i excludes)) [p] False)"

section \<open>Last address and binary search\<close>

lemma fold_set_addr_bit:
  assumes "h \<le> n" and "n = 8 * length bs" and "2 ^ h dvd be_nat bs"
  shows "be_nat (fold set_addr_bit [n - h..<n] bs) = be_nat bs + 2 ^ h - 1 \<and>
         length (fold set_addr_bit [n - h..<n] bs) = length bs"
  using assms
proof (induction h arbitrary: bs)
  case 0
  then show ?case by simp
next
  case (Suc h)
  let ?bs = "set_addr_bit (n - Suc h) bs"
  obtain k where k: "be_nat bs = 2 ^ h * (2 * k)"
    using Suc.prems(3) by (auto simp: dvd_def mult.assoc)
  have pos: "8 * length bs - Suc (n - Suc h) = h" using Suc.prems by simp
  have "\<not> odd (be_nat bs div 2 ^ h)" by (simp add: k)
  then have b: "be_nat ?bs = be_nat bs + 2 ^ h"
    using be_nat_set_addr_bit [of "n - Suc h" bs] Suc.prems pos by simp
  have "[n - Suc h..<n] = (n - Suc h) # [n - h..<n]"
    using Suc.prems(1) by (metis Suc_diff_Suc Suc_le_lessD diff_less upt_conv_Cons zero_less_Suc less_le_trans)
  moreover have "2 ^ h dvd be_nat ?bs" by (simp add: b k)
  ultimately show ?case
    using Suc.IH [of ?bs] Suc.prems b by simp
qed

lemma last_addr_value:
  assumes "network p"
  shows "last_addr p = Addr (p_fam p) (p_val p + 2 ^ host_bits p - 1)"
proof -
  let ?raw = "as_slice (p_addr p)"
  have len: "length ?raw * 8 = p_bitlen p" using bitlen_div8 [of "p_fam p"] by simp
  have bits: "p_bitlen p - host_bits p = p_bits p" using network_sel(5) [OF assms] by simp
  have val: "be_nat ?raw = p_val p" using assms by (simp add: be_nat_as_slice network_sel)
  let ?f = "fold set_addr_bit [p_bits p..<p_bitlen p] ?raw"
  have n: "p_bitlen p = 8 * length ?raw" using len by simp
  have f: "be_nat ?f = p_val p + 2 ^ host_bits p - 1 \<and> length ?f = length ?raw"
    by (rule fold_set_addr_bit [of "host_bits p" "p_bitlen p" ?raw, unfolded bits val,
          OF diff_le_self n network_dvd [OF assms]])
  then have "addr_from_slice ?f = Some (Addr (p_fam p) (p_val p + 2 ^ host_bits p - 1))"
    by (cases "p_fam p") (simp_all add: addr_from_slice_def addr_from4_def addr_from16_def)
  moreover have "last_addr p = (case addr_from_slice ?f of Some a \<Rightarrow> a | None \<Rightarrow> Addr IPv4 0)"
    by (simp only: last_addr_def Let_def network_sel(2) [OF assms] len)
  ultimately show ?thesis by simp
qed

lemma last_addr_less:
  "network p \<Longrightarrow> a_fam a = p_fam p \<Longrightarrow> last_addr p < a \<longleftrightarrow> p_val p + 2 ^ host_bits p \<le> a_val a"
proof -
  have "0 < (2::nat) ^ host_bits p" by simp
  then have "p_val p + 2 ^ host_bits p - 1 < v \<longleftrightarrow> p_val p + 2 ^ host_bits p \<le> v" for v by linarith
  then show "network p \<Longrightarrow> a_fam a = p_fam p \<Longrightarrow> ?thesis"
    by (simp add: last_addr_value less_addr_same_family)
qed

lemma search_loop_stop: "\<not> i < j \<Longrightarrow> search_loop f i j = i"
  by (subst search_loop.simps) (rule if_not_P)

lemma search_loop_correct:
  assumes "\<And>i j. i \<le> j \<Longrightarrow> j < n \<Longrightarrow> f i \<Longrightarrow> f j" and "i \<le> j" and "j \<le> n"
    and "\<forall>k < i. \<not> f k" and "\<forall>k. j \<le> k \<and> k < n \<longrightarrow> f k"
  shows "search_loop f i j \<le> n \<and> (\<forall>k < search_loop f i j. \<not> f k) \<and>
    (\<forall>k. search_loop f i j \<le> k \<and> k < n \<longrightarrow> f k)"
  using assms
proof (induction f i j rule: search_loop.induct)
  case (1 f i j)
  show ?case
  proof (cases "i < j")
    case False
    then show ?thesis using "1.prems" by (simp add: search_loop_stop)
  next
    case True
    define h where "h = (i + j) div 2"
    have h: "i \<le> h" "h < j" using True by (simp_all add: h_def)
    then have hn: "h \<le> n" and hj: "Suc h \<le> j" using "1.prems"(3) by simp_all
    show ?thesis
    proof (cases "f h")
      case fh: True
      have post: "\<forall>k. h \<le> k \<and> k < n \<longrightarrow> f k" using fh "1.prems"(1) by blast
      have "search_loop f i h \<le> n \<and> (\<forall>k < search_loop f i h. \<not> f k) \<and>
          (\<forall>k. search_loop f i h \<le> k \<and> k < n \<longrightarrow> f k)"
        by (rule "1.IH"(1) [OF True h_def fh "1.prems"(1) h(1) hn "1.prems"(4) post])
      then show ?thesis using True fh by (simp add: search_loop.simps [of f i j] Let_def flip: h_def)
    next
      case fh: False
      have pre: "\<forall>k < Suc h. \<not> f k"
        using fh "1.prems"(1) [of _ h] "1.prems"(3) h by (metis less_Suc_eq_le order_less_le_trans)
      have "search_loop f (Suc h) j \<le> n \<and> (\<forall>k < search_loop f (Suc h) j. \<not> f k) \<and>
          (\<forall>k. search_loop f (Suc h) j \<le> k \<and> k < n \<longrightarrow> f k)"
        by (rule "1.IH"(2) [OF True h_def fh "1.prems"(1) hj "1.prems"(3) pre "1.prems"(5)])
      then show ?thesis using True fh by (simp add: search_loop.simps [of f i j] Let_def flip: h_def)
    qed
  qed
qed

lemma sort_search_correct:
  assumes "\<And>i j. i \<le> j \<Longrightarrow> j < n \<Longrightarrow> f i \<Longrightarrow> f j"
  shows "sort_search n f \<le> n" "\<And>k. k < sort_search n f \<Longrightarrow> \<not> f k"
    "\<And>k. sort_search n f \<le> k \<Longrightarrow> k < n \<Longrightarrow> f k"
proof -
  have "search_loop f 0 n \<le> n \<and> (\<forall>k < search_loop f 0 n. \<not> f k) \<and>
      (\<forall>k. search_loop f 0 n \<le> k \<and> k < n \<longrightarrow> f k)"
    by (rule search_loop_correct [OF assms]) auto
  then show "sort_search n f \<le> n" "\<And>k. k < sort_search n f \<Longrightarrow> \<not> f k"
    "\<And>k. sort_search n f \<le> k \<Longrightarrow> k < n \<Longrightarrow> f k"
    unfolding sort_search_def by blast+
qed

section \<open>Correctness of the subtraction\<close>

text \<open>The stored lists: networks of one family, strictly sorted, disjoint, hence in order of their ends.\<close>

definition exclude_run :: "family \<Rightarrow> prefix list \<Rightarrow> bool" where
  "exclude_run f es =
     ((\<forall>e \<in> set es. network e \<and> p_fam e = f) \<and>
      sorted_wrt (\<lambda>d e. p_val d + 2 ^ host_bits d \<le> p_val e) es)"

lemma disjoint_networks_ordered:
  assumes "network d" "network e" "p_fam d = p_fam e" "addrs_of d \<inter> addrs_of e = {}" "p_val d \<le> p_val e"
  shows "p_val d + 2 ^ host_bits d \<le> p_val e"
proof (rule ccontr)
  assume "\<not> p_val d + 2 ^ host_bits d \<le> p_val e"
  then have "p_addr e \<in> addrs_of d \<and> p_addr e \<in> addrs_of e"
    using assms by (simp add: in_addrs_of_interval)
  with assms(4) show False by blast
qed

lemma sorted_wrt_distinct:
  "sorted_wrt R xs \<Longrightarrow> distinct xs \<Longrightarrow> sorted_wrt (\<lambda>x y. R x y \<and> x \<noteq> y) xs"
  by (induction xs) auto

lemma exclude_run_sort:
  assumes "\<forall>e \<in> set es. network e \<and> p_fam e = f" "pairwise_disjoint (set es)" "distinct es"
  shows "exclude_run f (sort_key p_addr es)"
proof -
  let ?s = "sort_key p_addr es"
  have "sorted_wrt (\<lambda>d e. p_addr d \<le> p_addr e) ?s"
    using sorted_sort_key [of p_addr es] by (simp add: sorted_map)
  then have "sorted_wrt (\<lambda>d e. p_addr d \<le> p_addr e \<and> d \<noteq> e) ?s"
    using assms(3) by (intro sorted_wrt_distinct) simp_all
  then have "sorted_wrt (\<lambda>d e. p_val d + 2 ^ host_bits d \<le> p_val e) ?s"
  proof (rule sorted_wrt_mono_rel [rotated])
    fix d e assume de: "d \<in> set ?s" "e \<in> set ?s" "p_addr d \<le> p_addr e \<and> d \<noteq> e"
    then show "p_val d + 2 ^ host_bits d \<le> p_val e"
      using assms by (intro disjoint_networks_ordered)
        (auto simp: pairwise_disjoint_def less_eq_addr_same_family)
  qed
  with assms(1) show ?thesis by (simp add: exclude_run_def)
qed

lemma exclude_loop_correct:
  assumes "exclude_run f es" and "network p" "p_fam p = f" "cover frs \<subseteq> addrs_of p"
    and "\<forall>q \<in> set frs. network q"
  shows "cover (fst (exclude_loop (p_addr p) (rev es) frs ch)) = cover frs - cover es \<and>
    (\<forall>q \<in> set (fst (exclude_loop (p_addr p) (rev es) frs ch)). network q) \<and>
    snd (exclude_loop (p_addr p) (rev es) frs ch) = (ch \<or> (es \<noteq> [] \<and> \<not> last_addr (last es) < p_addr p)) \<and>
    (\<not> snd (exclude_loop (p_addr p) (rev es) frs ch) \<longrightarrow> fst (exclude_loop (p_addr p) (rev es) frs ch) = frs)"
  using assms
proof (induction es arbitrary: frs ch rule: rev_induct)
  case Nil
  then show ?case by simp
next
  case (snoc e es)
  have e: "network e" "p_fam e = f" and run: "exclude_run f es"
    and before: "\<forall>d \<in> set es. p_val d + 2 ^ host_bits d \<le> p_val e"
    using snoc.prems(1) by (auto simp: exclude_run_def sorted_wrt_append)
  show ?case
  proof (cases "last_addr e < p_addr p")
    case True
    then have "p_val e + 2 ^ host_bits e \<le> p_val p"
      using e snoc.prems(3) by (simp add: last_addr_less)
    then have far: "\<forall>d \<in> set (es @ [e]). p_val d + 2 ^ host_bits d \<le> p_val p"
      using before by (fastforce intro: order_trans)
    have "addrs_of d \<inter> addrs_of p = {}" if "d \<in> set (es @ [e])" for d
    proof -
      have "network d" using that snoc.prems(1) by (auto simp: exclude_run_def)
      moreover have "p_val d + 2 ^ host_bits d \<le> p_val p" using far that by blast
      ultimately show ?thesis
        using snoc.prems(2) by (auto simp: in_addrs_of_interval)
    qed
    then have "cover frs - cover (es @ [e]) = cover frs"
      using snoc.prems(4) by (fastforce simp: cover_def)
    with True snoc.prems(5) show ?thesis by simp
  next
    case False
    let ?n = "concat (map (\<lambda>g. subtract g e) frs)"
    note c = cover_concat_subtract [OF snoc.prems(5) e(1)]
    show ?thesis
    proof (cases "?n = []")
      case True
      then have "cover frs \<subseteq> addrs_of e" using c(1) by (metis Diff_eq_empty_iff cover_simps(1))
      with True False show ?thesis by (simp add: Let_def) blast
    next
      case nonempty: False
      have "cover (fst (exclude_loop (p_addr p) (rev es) ?n True)) = cover ?n - cover es \<and>
          (\<forall>q \<in> set (fst (exclude_loop (p_addr p) (rev es) ?n True)). network q) \<and>
          snd (exclude_loop (p_addr p) (rev es) ?n True)"
        using snoc.IH [OF run snoc.prems(2,3), of ?n True] c snoc.prems(4) by auto
      with False nonempty c(1) show ?thesis by auto
    qed
  qed
qed

definition exclude_ok :: "exclude_set \<Rightarrow> bool" where
  "exclude_ok e = (exclude_run IPv4 (ex_v4 e) \<and> exclude_run IPv6 (ex_v6 e))"

definition exclude_cover :: "exclude_set \<Rightarrow> addr set" where
  "exclude_cover e = cover (ex_v4 e) \<union> cover (ex_v6 e)"

lemma new_exclude_set_ok:
  assumes "well_formed ps"
  shows "exclude_ok (new_exclude_set ps)" and "exclude_cover (new_exclude_set ps) = cover ps"
proof -
  note n = normalize_wf [OF assms]
  have v6: "a_fam a \<noteq> IPv4 \<longleftrightarrow> a_fam a = IPv6" for a by (cases "a_fam a") simp_all
  show "exclude_ok (new_exclude_set ps)"
    using n by (auto simp: exclude_ok_def new_exclude_set_def Let_def v6 is4_def pairwise_disjoint_def
        intro!: exclude_run_sort)
  show "exclude_cover (new_exclude_set ps) = cover ps"
    using n(1) by (auto simp: exclude_cover_def new_exclude_set_def Let_def cover_def)
qed

lemma exclude_subtract_correct:
  assumes "exclude_ok e" and "prefix_ok p"
  shows "cover (fst (exclude_subtract e p)) = addrs_of p - exclude_cover e"
    and "\<forall>q \<in> set (fst (exclude_subtract e p)). network q"
    and "snd (exclude_subtract e p) \<longleftrightarrow> addrs_of p \<inter> exclude_cover e \<noteq> {}"
    and "\<not> snd (exclude_subtract e p) \<Longrightarrow> fst (exclude_subtract e p) = [masked p]"
proof -
  let ?p = "masked p"
  let ?f = "p_fam p"
  have np: "network ?p" using assms(2) by (rule network_masked)
  define xs where "xs = (if is6 (p_addr ?p) then ex_v6 e else ex_v4 e)"
  define f where "f = (\<lambda>i. last_addr ?p < p_addr (xs ! i))"
  define i where "i = sort_search (length xs) f"
  have run: "exclude_run ?f xs" and other: "exclude_cover e \<inter> addrs_of p = cover xs \<inter> addrs_of p"
  proof -
    have fam: "a \<in> cover ys \<Longrightarrow> exclude_run g ys \<Longrightarrow> a_fam a = g" for a ys g
      by (auto simp: cover_def exclude_run_def addrs_of_def contains_def)
    show "exclude_run ?f xs"
      using assms(1) by (cases ?f) (simp_all add: xs_def exclude_ok_def is4_def)
    show "exclude_cover e \<inter> addrs_of p = cover xs \<inter> addrs_of p"
      using assms(1) fam [of _ "ex_v4 e" IPv4] fam [of _ "ex_v6 e" IPv6]
      by (cases ?f) (auto simp: xs_def exclude_ok_def exclude_cover_def is4_def addrs_of_def contains_def)
  qed
  have net: "network x" "p_fam x = ?f" if "x \<in> set xs" for x
    using run that by (auto simp: exclude_run_def)
  have order: "p_val (xs ! k) + 2 ^ host_bits (xs ! k) \<le> p_val (xs ! l)" if "k < l" "l < length xs" for k l
    using run that by (auto simp: exclude_run_def sorted_wrt_iff_nth_less)
  have mono: "f l" if "k \<le> l" "l < length xs" "f k" for k l
  proof (cases "k = l")
    case True
    then show ?thesis using that by simp
  next
    case False
    then have "p_val (xs ! k) \<le> p_val (xs ! l)" using order [of k l] that by simp
    then show ?thesis
      using that net [of "xs ! k"] net [of "xs ! l"] by (auto simp: f_def last_addr_less [OF np])
  qed
  have i: "i \<le> length xs" "\<And>k. k < i \<Longrightarrow> \<not> f k" "\<And>k. i \<le> k \<Longrightarrow> k < length xs \<Longrightarrow> f k"
    unfolding i_def using sort_search_correct [of "length xs" f] mono by blast+
  let ?es = "take i xs"
  have run_es: "exclude_run ?f ?es"
    using run by (auto simp: exclude_run_def sorted_wrt_take dest: in_set_takeD)
  have eq: "exclude_subtract e p = exclude_loop (p_addr ?p) (rev ?es) [?p] False"
    by (simp add: exclude_subtract_def Let_def xs_def i_def f_def)
  have after: "addrs_of x \<inter> addrs_of p = {}" if mem: "x \<in> set (drop i xs)" for x
  proof -
    obtain j where j: "j < length (drop i xs)" "x = drop i xs ! j"
      using mem by (metis in_set_conv_nth)
    then have k: "i + j < length xs" "x = xs ! (i + j)" using i(1) by simp_all
    then have "last_addr ?p < p_addr x" using i(3) [of "i + j"] by (simp add: f_def)
    moreover have "network x" "p_fam x = ?f" using net k by auto
    ultimately have "p_val ?p + 2 ^ host_bits ?p \<le> p_val x"
      using last_addr_less [OF np, of "p_addr x"] by simp
    then have "addrs_of x \<inter> addrs_of ?p = {}"
      using in_addrs_of_interval [OF \<open>network x\<close>] in_addrs_of_interval [OF np] by (auto simp del: addrs_of_masked)
    then show ?thesis by simp
  qed
  have cov: "addrs_of p - cover ?es = addrs_of p - exclude_cover e"
  proof -
    have "cover xs = cover ?es \<union> cover (drop i xs)" by (metis append_take_drop_id cover_simps(3))
    moreover have "cover (drop i xs) \<inter> addrs_of p = {}" using after by (auto simp: cover_def)
    ultimately show ?thesis using other by blast
  qed
  note L = exclude_loop_correct [OF run_es np, of "[?p]" False]
  show "cover (fst (exclude_subtract e p)) = addrs_of p - exclude_cover e"
    "\<forall>q \<in> set (fst (exclude_subtract e p)). network q"
    "\<not> snd (exclude_subtract e p) \<Longrightarrow> fst (exclude_subtract e p) = [?p]"
    using L np cov by (simp_all add: eq)
  show "snd (exclude_subtract e p) \<longleftrightarrow> addrs_of p \<inter> exclude_cover e \<noteq> {}"
  proof
    assume "snd (exclude_subtract e p)"
    then have ne: "?es \<noteq> []" "\<not> last_addr (last ?es) < p_addr ?p" using L np by (simp_all add: eq)
    let ?x = "last ?es"
    have x: "?x \<in> set xs" "?x \<in> set ?es" using ne(1) in_set_takeD last_in_set by metis+
    have ip: "0 < i" "0 < length xs" using ne(1) by auto
    then have "?x = xs ! (i - 1)" using i(1) by (simp add: last_conv_nth)
    then have "\<not> last_addr ?p < p_addr ?x" using i(2) [of "i - 1"] ip by (simp add: f_def)
    then have "p_val ?x < p_val ?p + 2 ^ host_bits ?p"
      using net [OF x(1)] last_addr_less [OF np, of "p_addr ?x"] by (simp add: not_le)
    moreover have "p_val ?p < p_val ?x + 2 ^ host_bits ?x"
      using ne(2) net [OF x(1)] last_addr_less [of ?x "p_addr ?p"] by (simp add: not_le)
    ultimately have "Addr ?f (max (p_val ?p) (p_val ?x)) \<in> addrs_of ?x \<inter> addrs_of ?p"
      using net [OF x(1)] in_addrs_of_interval [of ?x] in_addrs_of_interval [OF np]
      by (simp add: max_def del: addrs_of_masked)
    then have "addrs_of ?x \<inter> addrs_of p \<noteq> {}" by auto
    with x(1) other show "addrs_of p \<inter> exclude_cover e \<noteq> {}" by (fastforce simp: cover_def)
  next
    assume "addrs_of p \<inter> exclude_cover e \<noteq> {}"
    then have "addrs_of p - exclude_cover e \<noteq> addrs_of p" by blast
    then show "snd (exclude_subtract e p)" using L np cov by (auto simp: eq)
  qed
qed

section \<open>Properties\<close>

text \<open>C8: subtracting a prepared exclude set removes exactly the excluded addresses, reports a change
  exactly when some address was excluded, and without a change returns the masked input alone; the
  binary search and the early break lose no overlap.\<close>

theorem exclude_set_exact:
  assumes "well_formed excludes" and "prefix_ok p"
  shows "cover (fst (exclude_subtract (new_exclude_set excludes) p)) = addrs_of p - cover excludes \<and>
    (\<forall>q \<in> set (fst (exclude_subtract (new_exclude_set excludes) p)). network q) \<and>
    (snd (exclude_subtract (new_exclude_set excludes) p) \<longleftrightarrow> addrs_of p \<inter> cover excludes \<noteq> {}) \<and>
    (snd (exclude_subtract (new_exclude_set excludes) p) \<or>
      fst (exclude_subtract (new_exclude_set excludes) p) = [masked p])"
proof -
  note e = new_exclude_set_ok [OF assms(1)]
  note s = exclude_subtract_correct [OF e(1) assms(2)]
  from s show ?thesis unfolding e(2) by blast
qed

theorem exclude_set_exact_witness:
  "cover (fst (exclude_subtract (new_exclude_set [net25]) net24)) = addrs_of net24 - cover [net25]"
  using exclude_set_exact [of "[net25]" net24]
  by (simp add: well_formed_def prefix_ok_def addr_ok_def prefix_is_valid_def del: cover_simps)
    (simp add: net24_def net25_def)

end
