(* ===== verification/Prefix_Aggregate.thy ===== *)
theory Prefix_Aggregate
  imports Prefix_Filter
begin

text \<open>
  \<open>internal/prefixfilter/aggregate.go\<close>: the minimal list of prefixes that covers the same
  addresses. Prefixes become inclusive ranges of big integers, sorted ranges are merged when they
  overlap or touch, and each merged range is cut greedily into aligned blocks.
\<close>

section \<open>The operations\<close>

record addr_range =
  r_start :: nat
  r_end :: nat
  r_is4 :: bool

definition prefix_to_range :: "prefix \<Rightarrow> nat \<times> nat" where
  "prefix_to_range p =
     (let start = be_nat (as_slice (p_addr p));
          host = p_bitlen p - p_bits p;
          span = 2 ^ host
      in (start, start + span - 1))"

text \<open>\<open>merged\<close> grows at its end; \<open>t\<close> is its last element.\<close>

fun merge_ranges :: "addr_range \<Rightarrow> addr_range list \<Rightarrow> addr_range list" where
  "merge_ranges t [] = [t]"
| "merge_ranges t (r # rs) =
     (if int (r_start r) - int (r_end t) \<le> 1
      then merge_ranges (if r_end t < r_end r then t\<lparr>r_end := r_end r\<rparr> else t) rs
      else t # merge_ranges r rs)"

definition trailing_zero_bits :: "nat \<Rightarrow> nat \<Rightarrow> nat" where
  "trailing_zero_bits v width =
     (case List.find (\<lambda>i. odd (v div 2 ^ i)) [0..<width] of Some i \<Rightarrow> i | None \<Rightarrow> width)"

text \<open>\<open>big.Int.BitLen\<close>.\<close>

fun bit_len :: "nat \<Rightarrow> nat" where
  "bit_len n = (if n = 0 then 0 else Suc (bit_len (n div 2)))"

declare bit_len.simps [simp del]

definition big_int_to_addr :: "nat \<Rightarrow> bool \<Rightarrow> addr" where
  "big_int_to_addr v v4 =
     (case addr_from_slice (nat_be (if v4 then 4 else 16) v) of Some a \<Rightarrow> a | None \<Rightarrow> Addr IPv4 0)"

definition block_host_bits :: "bool \<Rightarrow> nat \<Rightarrow> nat \<Rightarrow> nat" where
  "block_host_bits v4 cur r_last =
     (let width = (if v4 then 32 else 128);
          align_bits = (if cur \<noteq> 0 then trailing_zero_bits cur width else width);
          remaining = r_last - cur + 1;
          fit_bits = bit_len remaining - 1
      in if fit_bits < align_bits then fit_bits else align_bits)"

function range_loop :: "bool \<Rightarrow> nat \<Rightarrow> nat \<Rightarrow> prefix list" where
  "range_loop v4 cur r_last =
     (if cur \<le> r_last then
        prefix_from (big_int_to_addr cur v4)
          (int (if v4 then 32 else 128) - int (block_host_bits v4 cur r_last))
        # range_loop v4 (cur + 2 ^ block_host_bits v4 cur r_last) r_last
      else [])"
  by pat_completeness auto
termination
  by (relation "measure (\<lambda>(v4, cur, r_last). Suc r_last - cur)") (auto intro: diff_less_mono2)

declare range_loop.simps [simp del]

definition range_to_prefixes :: "addr_range \<Rightarrow> prefix list" where
  "range_to_prefixes r = range_loop (r_is4 r) (r_start r) (r_end r)"

definition aggregate_family :: "prefix list \<Rightarrow> prefix list" where
  "aggregate_family prefixes =
     (case sort_key r_start
        (map (\<lambda>p. let (s, e) = prefix_to_range p in \<lparr>r_start = s, r_end = e, r_is4 = is4 (p_addr p)\<rparr>) prefixes)
      of [] \<Rightarrow> []
       | r # rs \<Rightarrow> concat (map range_to_prefixes (merge_ranges r rs)))"

definition Aggregate :: "prefix list \<Rightarrow> prefix list" where
  "Aggregate prefixes =
     (let ps = map masked (filter prefix_is_valid prefixes) in
      aggregate_family (filter (\<lambda>p. is4 (p_addr p)) ps) @
      aggregate_family (filter (\<lambda>p. \<not> is4 (p_addr p)) ps))"

section \<open>Blocks of a range\<close>

lemma bit_len_bounds: "0 < n \<Longrightarrow> 2 ^ (bit_len n - 1) \<le> n \<and> n < 2 ^ bit_len n"
proof (induction n rule: bit_len.induct)
  case (1 n)
  show ?case
  proof (cases "n div 2 = 0")
    case True
    then have "n = 1" using "1.prems" by linarith
    then show ?thesis by (simp add: bit_len.simps)
  next
    case False
    have b: "bit_len n = Suc (bit_len (n div 2))" using "1.prems" by (subst bit_len.simps) simp
    have pos: "0 < bit_len (n div 2)" using False by (subst bit_len.simps) simp
    have "2 ^ (bit_len (n div 2) - 1) \<le> n div 2 \<and> n div 2 < 2 ^ bit_len (n div 2)"
      using "1.IH" "1.prems" False by simp
    moreover have "(2::nat) ^ bit_len (n div 2) = 2 * 2 ^ (bit_len (n div 2) - 1)"
      using pos by (metis Suc_diff_1 power_Suc)
    ultimately show ?thesis unfolding b by simp linarith
  qed
qed

lemma power_le_of_bit_len: "0 < n \<Longrightarrow> 2 ^ k \<le> n \<longleftrightarrow> k \<le> bit_len n - 1"
proof -
  assume n: "0 < n"
  then have pos: "0 < bit_len n" by (subst bit_len.simps) simp
  have "k \<le> bit_len n - 1" if "2 ^ k \<le> n"
  proof -
    have "(2::nat) ^ k < 2 ^ bit_len n" using that bit_len_bounds [OF n] by linarith
    then show ?thesis using pos by simp
  qed
  moreover have "2 ^ k \<le> n" if "k \<le> bit_len n - 1"
  proof -
    have "(2::nat) ^ k \<le> 2 ^ (bit_len n - 1)" using that by simp
    with bit_len_bounds [OF n] show ?thesis by linarith
  qed
  ultimately show ?thesis by blast
qed

lemma dvd_of_low_bits: "(\<forall>i < k. even (v div 2 ^ i)) \<longleftrightarrow> 2 ^ k dvd (v :: nat)"
proof (induction k)
  case 0
  then show ?case by simp
next
  case (Suc k)
  have "2 ^ Suc k dvd v \<longleftrightarrow> 2 ^ k dvd v \<and> even (v div 2 ^ k)"
    by (metis dvd_div_iff_mult dvd_mult_right power_Suc power_not_zero zero_neq_numeral mult.commute)
  with Suc show ?case by (auto simp: less_Suc_eq)
qed

lemma find_upt_Some:
  "List.find P [0..<w] = Some i \<longleftrightarrow> i < w \<and> P i \<and> (\<forall>j < i. \<not> P j)"
  by (auto simp: find_Some_iff)

lemma trailing_zero_bits_dvd:
  assumes "0 < v" "v < 2 ^ w"
  shows "2 ^ k dvd v \<longleftrightarrow> k \<le> trailing_zero_bits v w"
proof (cases "List.find (\<lambda>i. odd (v div 2 ^ i)) [0..<w]")
  case None
  then have "\<forall>i < w. even (v div 2 ^ i)" by (auto simp: find_None_iff)
  then have "2 ^ w dvd v" by (simp add: dvd_of_low_bits)
  then show ?thesis using assms by (auto dest: dvd_imp_le)
next
  case (Some t)
  then have t: "odd (v div 2 ^ t)" "\<forall>j < t. even (v div 2 ^ j)"
    by (auto simp: find_upt_Some)
  then have "2 ^ k dvd v \<longleftrightarrow> k \<le> t"
    unfolding dvd_of_low_bits [symmetric] by (metis leI order_less_le_trans)
  with Some show ?thesis by (simp add: trailing_zero_bits_def)
qed

lemma block_host_bits_iff:
  assumes "cur \<le> r_last" and "r_last < 2 ^ (if v4 then 32 else 128)"
  shows "k \<le> block_host_bits v4 cur r_last \<longleftrightarrow> 2 ^ k dvd cur \<and> cur + 2 ^ k \<le> Suc r_last"
proof -
  let ?w = "if v4 then 32 else 128 :: nat"
  have fit: "k \<le> bit_len (r_last - cur + 1) - 1 \<longleftrightarrow> cur + 2 ^ k \<le> Suc r_last"
    using power_le_of_bit_len [of "r_last - cur + 1" k] assms(1) by auto
  show ?thesis
  proof (cases "cur = 0")
    case True
    have "k \<le> ?w" if "cur + 2 ^ k \<le> Suc r_last"
    proof -
      have "(2::nat) ^ k \<le> 2 ^ ?w" using that True assms(2) by linarith
      then show ?thesis by (simp split: if_splits)
    qed
    then show ?thesis using True fit by (auto simp: block_host_bits_def Let_def)
  next
    case False
    have "2 ^ k dvd cur \<longleftrightarrow> k \<le> trailing_zero_bits cur ?w"
      using False assms by (intro trailing_zero_bits_dvd) auto
    then show ?thesis using False fit by (auto simp: block_host_bits_def Let_def)
  qed
qed

definition fam_of :: "bool \<Rightarrow> family" where
  "fam_of v4 = (if v4 then IPv4 else IPv6)"

lemma bitlen_fam_of: "bitlen (fam_of v4) = (if v4 then 32 else 128)"
  by (simp add: fam_of_def)

lemma big_int_to_addr_eq: "v < 2 ^ bitlen (fam_of v4) \<Longrightarrow> big_int_to_addr v v4 = Addr (fam_of v4) v"
  by (auto simp: big_int_to_addr_def addr_from_slice_def addr_from4_def addr_from16_def fam_of_def
      be_nat_nat_be simp del: nat_be.simps split: if_splits)

text \<open>The block taken at \<open>cur\<close>.\<close>

lemma range_loop_step:
  assumes "cur \<le> r_last" and "r_last < 2 ^ bitlen (fam_of v4)"
  defines "b \<equiv> block_host_bits v4 cur r_last"
  shows "range_loop v4 cur r_last =
      Prefix (Addr (fam_of v4) cur) (bitlen (fam_of v4) - b) # range_loop v4 (cur + 2 ^ b) r_last"
    and "network (Prefix (Addr (fam_of v4) cur) (bitlen (fam_of v4) - b))"
    and "b \<le> bitlen (fam_of v4)" "2 ^ b dvd cur" "cur + 2 ^ b \<le> Suc r_last"
proof -
  let ?w = "bitlen (fam_of v4)"
  have b: "2 ^ b dvd cur" "cur + 2 ^ b \<le> Suc r_last"
    using block_host_bits_iff [of cur r_last v4 b] assms by (auto simp: bitlen_fam_of b_def)
  have "(2::nat) ^ b \<le> 2 ^ ?w" using b(2) assms(2) by linarith
  then have bw: "b \<le> ?w" by simp
  have bits: "nat (int (if v4 then 32 else 128) - int b) = ?w - b" "0 \<le> int (if v4 then 32 else 128) - int b"
    using bw by (auto simp: bitlen_fam_of nat_diff_distrib)
  have cur: "cur < 2 ^ ?w" using assms(1,2) by linarith
  then show "range_loop v4 cur r_last =
      Prefix (Addr (fam_of v4) cur) (?w - b) # range_loop v4 (cur + 2 ^ b) r_last"
    using assms(1) bits bw
    by (subst range_loop.simps) (simp add: prefix_from_def big_int_to_addr_eq bitlen_fam_of flip: b_def)
  have "?w - (?w - b) = b" using bw by simp
  then show "network (Prefix (Addr (fam_of v4) cur) (?w - b))"
    using cur b(1) by (simp add: network_def prefix_ok_def prefix_is_valid_def addr_ok_def masked_def)
  show "b \<le> ?w" "2 ^ b dvd cur" "cur + 2 ^ b \<le> Suc r_last" by fact+
qed

lemma range_loop_done: "r_last < cur \<Longrightarrow> range_loop v4 cur r_last = []"
  by (subst range_loop.simps) simp

lemma aligned_nested:
  fixes c x :: nat
  assumes "2 ^ b dvd x" "2 ^ k dvd c" "k \<le> b" "x \<le> c" "c < x + 2 ^ b"
  shows "c + 2 ^ k \<le> x + 2 ^ b"
proof -
  have "2 ^ k dvd x + 2 ^ b - c"
    using assms by (metis dvd_add dvd_diff_nat dvd_trans dvd_refl le_imp_power_dvd)
  then have "2 ^ k \<le> x + 2 ^ b - c" using assms(5) by (intro dvd_imp_le) auto
  with assms(5) show ?thesis by linarith
qed

lemma aligned_before:
  fixes c x :: nat
  assumes "2 ^ b dvd x" "2 ^ k dvd c" "b \<le> k" "x < c"
  shows "x + 2 ^ b \<le> c"
proof -
  have "2 ^ b dvd c - x"
    using assms by (metis dvd_diff_nat dvd_trans le_imp_power_dvd)
  then have "2 ^ b \<le> c - x" using assms(4) by (intro dvd_imp_le) auto
  with assms(4) show ?thesis by linarith
qed

definition range_addrs :: "family \<Rightarrow> nat \<Rightarrow> nat \<Rightarrow> addr set" where
  "range_addrs f lo hi = {a. a_fam a = f \<and> lo \<le> a_val a \<and> a_val a \<le> hi}"

text \<open>
  No aligned block inside the range that reaches \<open>cur\<close> starts before it: the greedy cut never
  stops in the middle of a larger block.
\<close>

definition frontier :: "nat \<Rightarrow> nat \<Rightarrow> nat \<Rightarrow> bool" where
  "frontier lo hi cur =
     (\<forall>k c. 2 ^ k dvd c \<and> lo \<le> c \<and> c \<le> cur \<and> cur < c + 2 ^ k \<and> c + 2 ^ k \<le> Suc hi \<longrightarrow> c = cur)"

lemma frontier_step:
  assumes "frontier lo hi cur" "cur \<le> hi" "hi < 2 ^ bitlen (fam_of v4)"
  shows "frontier lo hi (cur + 2 ^ block_host_bits v4 cur hi)"
  unfolding frontier_def
proof (intro allI impI)
  fix k c
  define b where "b = block_host_bits v4 cur hi"
  assume "2 ^ k dvd c \<and> lo \<le> c \<and> c \<le> cur + 2 ^ block_host_bits v4 cur hi \<and>
    cur + 2 ^ block_host_bits v4 cur hi < c + 2 ^ k \<and> c + 2 ^ k \<le> Suc hi"
  then have kc: "2 ^ k dvd c" "lo \<le> c" "c \<le> cur + 2 ^ b" "cur + 2 ^ b < c + 2 ^ k" "c + 2 ^ k \<le> Suc hi"
    by (simp_all add: b_def)
  note step = range_loop_step(3-5) [OF assms(2,3)]
  show "c = cur + 2 ^ block_host_bits v4 cur hi"
  proof (rule ccontr)
    assume "c \<noteq> cur + 2 ^ block_host_bits v4 cur hi"
    then have lt: "c < cur + 2 ^ b" using kc(3) by (simp add: b_def)
    show False
    proof (cases "c \<le> cur")
      case True
      have "cur < c + 2 ^ k" using kc(4) by simp
      then have "c = cur" using assms(1) kc True unfolding frontier_def by blast
      then have "k \<le> b"
        using block_host_bits_iff [OF assms(2), of v4 k] assms(3) kc(1,5) by (simp add: b_def bitlen_fam_of)
      then have "(2::nat) ^ k \<le> 2 ^ b" by simp
      with kc(4) \<open>c = cur\<close> show False by simp
    next
      case False
      show False
      proof (cases "k \<le> b")
        case True
        then show False using aligned_nested [of b cur k c] step kc lt False by (simp add: b_def)
      next
        case big: False
        then have "cur + 2 ^ b \<le> c"
          using aligned_before [of b cur k c] step(2) kc(1) False by (simp add: b_def)
        with lt show False by simp
      qed
    qed
  qed
qed

section \<open>The blocks of one range\<close>

definition before :: "prefix \<Rightarrow> prefix \<Rightarrow> bool" where
  "before p q = (p_val p + 2 ^ host_bits p \<le> p_val q)"

text \<open>A prefix that no other prefix inside the set extends.\<close>

definition maximal_in :: "addr set \<Rightarrow> prefix \<Rightarrow> bool" where
  "maximal_in A p = (\<forall>q. network q \<and> p_addr p \<in> addrs_of q \<and> addrs_of q \<subseteq> A \<longrightarrow> addrs_of q \<subseteq> addrs_of p)"

lemma frontier_start: "frontier lo hi lo"
  by (simp add: frontier_def)

lemma last_in_addrs:
  assumes "network q"
  shows "Addr (p_fam q) (p_val q + 2 ^ host_bits q - 1) \<in> addrs_of q"
proof -
  have "1 \<le> (2::nat) ^ host_bits q" by simp
  then have "p_val q \<le> p_val q + 2 ^ host_bits q - 1" "p_val q + 2 ^ host_bits q - 1 < p_val q + 2 ^ host_bits q"
    by linarith+
  then show ?thesis using assms by (simp only: in_addrs_of_interval addr.sel)
qed

lemma subset_range_addrs:
  assumes "network q" "addrs_of q \<subseteq> range_addrs f lo hi"
  shows "p_fam q = f" "lo \<le> p_val q" "p_val q + 2 ^ host_bits q \<le> Suc hi"
proof -
  have "p_addr q \<in> range_addrs f lo hi"
    using assms p_addr_in_addrs network_sel(1) by blast
  then show "p_fam q = f" "lo \<le> p_val q" by (simp_all add: range_addrs_def)
  have "0 < (2::nat) ^ host_bits q" by simp
  then show "p_val q + 2 ^ host_bits q \<le> Suc hi"
    using last_in_addrs [OF assms(1)] assms(2) by (auto simp: range_addrs_def)
qed

lemma block_maximal:
  assumes "frontier lo hi cur" "cur \<le> hi" "hi < 2 ^ bitlen (fam_of v4)"
  defines "b \<equiv> block_host_bits v4 cur hi"
  shows "maximal_in (range_addrs (fam_of v4) lo hi) (Prefix (Addr (fam_of v4) cur) (bitlen (fam_of v4) - b))"
  unfolding maximal_in_def
proof (intro allI impI)
  fix q
  let ?p = "Prefix (Addr (fam_of v4) cur) (bitlen (fam_of v4) - b)"
  assume "network q \<and> p_addr ?p \<in> addrs_of q \<and> addrs_of q \<subseteq> range_addrs (fam_of v4) lo hi"
  then have q: "network q" "p_addr ?p \<in> addrs_of q" "addrs_of q \<subseteq> range_addrs (fam_of v4) lo hi" by auto
  note r = subset_range_addrs [OF q(1,3)]
  have i: "p_val q \<le> cur" "cur < p_val q + 2 ^ host_bits q"
    using q(2) by (simp_all add: in_addrs_of_interval [OF q(1)])
  note d = network_dvd [OF q(1)]
  have c: "p_val q = cur" using assms(1) d r(2,3) i unfolding frontier_def by blast
  then have hq: "host_bits q \<le> b"
    using block_host_bits_iff [OF assms(2), of v4 "host_bits q"] assms(3) d r by (simp add: b_def bitlen_fam_of)
  note step = range_loop_step [OF assms(2,3)]
  have "bitlen (fam_of v4) - (bitlen (fam_of v4) - b) = b" using step(3) by (simp add: b_def)
  moreover have "(2::nat) ^ host_bits q \<le> 2 ^ b" using hq by simp
  ultimately show "addrs_of q \<subseteq> addrs_of ?p"
    using r(1) c step(2)
    by (auto simp: in_addrs_of_interval q(1) simp flip: b_def elim!: less_le_trans [OF _ add_left_mono])
qed

lemma range_addrs_split:
  "cur \<le> m \<Longrightarrow> m \<le> Suc hi \<Longrightarrow>
    range_addrs f cur hi = {a. a_fam a = f \<and> cur \<le> a_val a \<and> a_val a < m} \<union> range_addrs f m hi"
  by (auto simp: range_addrs_def)

lemma range_loop_facts:
  assumes "hi < 2 ^ bitlen (fam_of v4)" "frontier lo hi cur"
  shows "cover (range_loop v4 cur hi) = range_addrs (fam_of v4) cur hi \<and>
    sorted_wrt before (range_loop v4 cur hi) \<and>
    (\<forall>p \<in> set (range_loop v4 cur hi). network p \<and> p_fam p = fam_of v4 \<and> cur \<le> p_val p \<and>
        maximal_in (range_addrs (fam_of v4) lo hi) p)"
  using assms(2)
proof (induction "Suc hi - cur" arbitrary: cur rule: less_induct)
  case less
  show ?case
  proof (cases "cur \<le> hi")
    case False
    then show ?thesis by (simp add: range_loop_done range_addrs_def)
  next
    case True
    let ?b = "block_host_bits v4 cur hi"
    let ?m = "cur + 2 ^ ?b"
    let ?p = "Prefix (Addr (fam_of v4) cur) (bitlen (fam_of v4) - ?b)"
    note step = range_loop_step [OF True assms(1)]
    have pos: "0 < (2::nat) ^ ?b" by simp
    have hb: "host_bits ?p = ?b" using step(3) by simp
    have "Suc hi - ?m < Suc hi - cur" using True pos by linarith
    note IH = less.hyps [OF this frontier_step [OF less.prems True assms(1)]]
    have ap: "addrs_of ?p = {a. a_fam a = fam_of v4 \<and> cur \<le> a_val a \<and> a_val a < ?m}"
      using in_addrs_of_interval [OF step(2)] hb by auto
    have "cover (range_loop v4 cur hi) = range_addrs (fam_of v4) cur hi"
      using IH step(5) by (simp add: step(1) ap range_addrs_split [of cur ?m hi])
    moreover have "before ?p q" if "q \<in> set (range_loop v4 ?m hi)" for q
      using IH that hb by (simp add: before_def)
    moreover have "cur \<le> p_val q" if "q \<in> set (range_loop v4 ?m hi)" for q
      using IH that by force
    ultimately show ?thesis
      using IH block_maximal [OF less.prems True assms(1)] step(2) by (simp add: step(1))
  qed
qed

lemma range_to_prefixes_facts:
  assumes "r_end r < 2 ^ bitlen (fam_of (r_is4 r))"
  shows "cover (range_to_prefixes r) = range_addrs (fam_of (r_is4 r)) (r_start r) (r_end r)"
    and "sorted_wrt before (range_to_prefixes r)"
    and "p \<in> set (range_to_prefixes r) \<Longrightarrow> network p"
    and "p \<in> set (range_to_prefixes r) \<Longrightarrow> p_fam p = fam_of (r_is4 r)"
    and "p \<in> set (range_to_prefixes r) \<Longrightarrow>
      maximal_in (range_addrs (fam_of (r_is4 r)) (r_start r) (r_end r)) p"
  using range_loop_facts [OF assms frontier_start [of "r_start r"]] by (simp_all add: range_to_prefixes_def)

section \<open>Merging ranges\<close>

definition rng :: "addr_range \<Rightarrow> addr set" where
  "rng r = range_addrs (fam_of (r_is4 r)) (r_start r) (r_end r)"

definition range_ok :: "bool \<Rightarrow> addr_range \<Rightarrow> bool" where
  "range_ok v4 r = (r_is4 r = v4 \<and> r_start r \<le> r_end r \<and> r_end r < 2 ^ bitlen (fam_of v4))"

lemma merge_ranges_facts:
  assumes "sorted (map r_start (t # rs))" "\<forall>r \<in> set (t # rs). range_ok v4 r"
  shows "(\<Union>r \<in> set (merge_ranges t rs). rng r) = (\<Union>r \<in> set (t # rs). rng r) \<and>
    sorted_wrt (\<lambda>x y. r_end x + 1 < r_start y) (merge_ranges t rs) \<and>
    (\<forall>r \<in> set (merge_ranges t rs). range_ok v4 r \<and> r_start t \<le> r_start r)"
  using assms
proof (induction t rs rule: merge_ranges.induct)
  case (1 t)
  then show ?case by simp
next
  case (2 t r rs)
  show ?case
  proof (cases "int (r_start r) - int (r_end t) \<le> 1")
    case True
    let ?t = "if r_end t < r_end r then t\<lparr>r_end := r_end r\<rparr> else t"
    have ok: "range_ok v4 t" "range_ok v4 r" "r_start t \<le> r_start r" using 2 by auto
    have "rng ?t = rng t \<union> rng r" using ok True
      by (auto simp: rng_def range_ok_def range_addrs_def)
    moreover have "r_start ?t = r_start t" by simp
    moreover have "range_ok v4 ?t" using ok by (auto simp: range_ok_def)
    ultimately show ?thesis using "2.IH"(1) [OF True] "2.prems" True by (simp add: Un_assoc)
  next
    case False
    have ok: "range_ok v4 r" "r_start t \<le> r_start r" using 2 by auto
    have IH: "(\<Union>r \<in> set (merge_ranges r rs). rng r) = (\<Union>r \<in> set (r # rs). rng r) \<and>
      sorted_wrt (\<lambda>x y. r_end x + 1 < r_start y) (merge_ranges r rs) \<and>
      (\<forall>x \<in> set (merge_ranges r rs). range_ok v4 x \<and> r_start r \<le> r_start x)"
      using "2.IH"(2) [OF False] "2.prems" by simp
    have gap: "r_end t + 1 < r_start r" using False by simp
    have "r_end t + 1 < r_start x" if "x \<in> set (merge_ranges r rs)" for x
      using IH gap that by (meson le_trans less_le_trans)
    moreover have "r_start t \<le> r_start x" if "x \<in> set (merge_ranges r rs)" for x
      using IH ok that by (meson le_trans)
    ultimately show ?thesis using IH False "2.prems" by simp
  qed
qed

section \<open>One family\<close>

lemma interval_in_one_range:
  assumes sep: "sorted_wrt (\<lambda>x y. r_end x + 1 < r_start y) rs"
    and ok: "\<forall>r \<in> set rs. range_ok v4 r"
    and q: "network q" "addrs_of q \<subseteq> (\<Union>r \<in> set rs. rng r)"
    and r0: "r0 \<in> set rs" "x \<in> rng r0" "x \<in> addrs_of q"
  shows "addrs_of q \<subseteq> rng r0"
proof
  fix a assume a: "a \<in> addrs_of q"
  note iv = in_addrs_of_interval [OF q(1)]
  have apart: "r' = r0 \<or> r_end r' + 1 < r_start r0 \<or> r_end r0 + 1 < r_start r'" if "r' \<in> set rs" for r'
    using sorted_wrt_nth_less [OF sep] that r0(1) by (metis in_set_conv_nth nat_neq_iff)
  have mid: "Addr (p_fam q) v \<in> rng r0 \<or>
      (\<exists>r' :: addr_range. (r_end r' + 1 < r_start r0 \<or> r_end r0 + 1 < r_start r') \<and> r_start r' \<le> v \<and> v \<le> r_end r')"
    if "p_val q \<le> v" "v < p_val q + 2 ^ host_bits q" for v
  proof -
    have "Addr (p_fam q) v \<in> addrs_of q" using that by (simp add: iv)
    then obtain r' where "r' \<in> set rs" "Addr (p_fam q) v \<in> rng r'" using q(2) by blast
    moreover from this have "r_start r' \<le> v \<and> v \<le> r_end r'" by (simp add: rng_def range_addrs_def)
    ultimately show ?thesis using apart [of r'] by blast
  qed
  have x: "r_start r0 \<le> a_val x" "a_val x \<le> r_end r0" "a_fam x = fam_of (r_is4 r0)"
    using r0(2) by (simp_all add: rng_def range_addrs_def)
  have fam: "a_fam a = fam_of (r_is4 r0)" using a r0(3) x(3) by (simp add: iv)
  have "\<not> r_end r0 < a_val a"
  proof
    assume gt: "r_end r0 < a_val a"
    then have "p_val q \<le> r_end r0 + 1" "r_end r0 + 1 < p_val q + 2 ^ host_bits q"
      using a r0(3) x(2) by (simp_all add: iv)
    from mid [OF this] show False using ok r0(1) by (auto simp: rng_def range_addrs_def range_ok_def)
  qed
  moreover have "\<not> a_val a < r_start r0"
  proof
    assume lt: "a_val a < r_start r0"
    then have "p_val q \<le> r_start r0 - 1" "r_start r0 - 1 < p_val q + 2 ^ host_bits q"
      using a r0(3) x(1) by (auto simp only: iv)
    from mid [OF this] show False using ok r0(1) lt by (auto simp: rng_def range_addrs_def range_ok_def)
  qed
  ultimately show "a \<in> rng r0" using fam by (simp add: rng_def range_addrs_def)
qed

lemma concat_blocks_facts:
  assumes "sorted_wrt (\<lambda>x y. r_end x + 1 < r_start y) rs" "\<forall>r \<in> set rs. range_ok v4 r"
  shows "cover (concat (map range_to_prefixes rs)) = (\<Union>r \<in> set rs. rng r)"
    and "sorted_wrt before (concat (map range_to_prefixes rs))"
proof -
  have blocks: "cover (range_to_prefixes r) = rng r" "sorted_wrt before (range_to_prefixes r)"
    if "range_ok v4 r" for r
    using that range_to_prefixes_facts(1,2) [of r] by (auto simp: range_ok_def rng_def)
  have inside: "r_start r \<le> p_val p \<and> p_val p + 2 ^ host_bits p \<le> Suc (r_end r)"
    if r: "range_ok v4 r" and p: "p \<in> set (range_to_prefixes r)" for r p
  proof -
    have "addrs_of p \<subseteq> rng r" using blocks(1) [OF r] p by (auto simp: cover_def)
    moreover have "network p" using r p by (intro range_to_prefixes_facts(3)) (auto simp: range_ok_def)
    ultimately show ?thesis using subset_range_addrs(2,3) by (simp add: rng_def)
  qed
  show "cover (concat (map range_to_prefixes rs)) = (\<Union>r \<in> set rs. rng r)"
    using assms(2) blocks(1) by (auto simp: cover_def)
  show "sorted_wrt before (concat (map range_to_prefixes rs))"
    using assms
  proof (induction rs)
    case Nil
    then show ?case by simp
  next
    case (Cons r rs)
    have "before p q" if pq: "p \<in> set (range_to_prefixes r)" "y \<in> set rs" "q \<in> set (range_to_prefixes y)" for p q y
    proof -
      have "r_end r + 1 < r_start y" using Cons.prems(1) pq(2) by simp
      moreover have "p_val p + 2 ^ host_bits p \<le> Suc (r_end r)" "r_start y \<le> p_val q"
        using inside Cons.prems(2) pq by (auto simp del: One_nat_def)
      ultimately show ?thesis by (simp add: before_def)
    qed
    with Cons blocks(2) show ?case by (auto simp: sorted_wrt_append)
  qed
qed

lemma is4_fam_of [simp]: "p_fam p = fam_of v4 \<Longrightarrow> is4 (p_addr p) = v4"
  by (auto simp: is4_def fam_of_def split: if_splits)

lemma aggregate_family_facts:
  assumes "\<forall>p \<in> set ps. network p \<and> p_fam p = fam_of v4"
  shows "cover (aggregate_family ps) = cover ps"
    and "sorted_wrt before (aggregate_family ps)"
    and "p \<in> set (aggregate_family ps) \<Longrightarrow> network p \<and> p_fam p = fam_of v4 \<and> maximal_in (cover ps) p"
proof -
  define to_range where
    "to_range = (\<lambda>p. let (s, e) = prefix_to_range p in \<lparr>r_start = s, r_end = e, r_is4 = is4 (p_addr p)\<rparr>)"
  define rs where "rs = sort_key r_start (map to_range ps)"
  have one: "rng (to_range p) = addrs_of p \<and> range_ok v4 (to_range p)" if "p \<in> set ps" for p
  proof -
    have p: "network p" "p_fam p = fam_of v4" using assms that by auto
    have pos: "1 \<le> (2::nat) ^ host_bits p" by simp
    have "be_nat (as_slice (p_addr p)) = p_val p" using p(1) by (simp add: be_nat_as_slice network_sel)
    then have e: "to_range p = \<lparr>r_start = p_val p, r_end = p_val p + 2 ^ host_bits p - 1, r_is4 = v4\<rparr>"
      using p(2) by (simp add: to_range_def prefix_to_range_def Let_def)
    have "p_val p + 2 ^ host_bits p - 1 < 2 ^ bitlen (fam_of v4)"
      using network_top [OF p(1)] pos unfolding p(2) by linarith
    moreover have "p_val p \<le> p_val p + 2 ^ host_bits p - 1" using pos by linarith
    moreover have "v \<le> p_val p + 2 ^ host_bits p - 1 \<longleftrightarrow> v < p_val p + 2 ^ host_bits p" for v
      using pos by linarith
    ultimately show ?thesis
      using in_addrs_of_interval [OF p(1)] p(2) by (auto simp: e rng_def range_addrs_def range_ok_def)
  qed
  have srs: "set rs = to_range ` set ps" by (simp add: rs_def)
  have "cover (aggregate_family ps) = cover ps \<and> sorted_wrt before (aggregate_family ps) \<and>
    (\<forall>p \<in> set (aggregate_family ps). network p \<and> p_fam p = fam_of v4 \<and> maximal_in (cover ps) p)"
  proof (cases rs)
    case Nil
    then have "ps = []" using srs by simp
    then show ?thesis by (simp add: aggregate_family_def)
  next
    case (Cons t ts)
    let ?m = "merge_ranges t ts"
    have eq: "aggregate_family ps = concat (map range_to_prefixes ?m)"
      using Cons by (simp add: aggregate_family_def rs_def to_range_def)
    have sorted: "sorted (map r_start (t # ts))"
      using sorted_sort_key [of r_start "map to_range ps"] by (simp only: rs_def [symmetric] Cons)
    have oks: "\<forall>r \<in> set (t # ts). range_ok v4 r" using one srs by (auto simp only: Cons)
    note m = merge_ranges_facts [OF sorted oks]
    have mok: "\<forall>r \<in> set ?m. range_ok v4 r" using m by blast
    have "(\<Union>r \<in> set (t # ts). rng r) = cover ps"
      using one by (auto simp only: cover_def Cons [symmetric] srs)
    then have un: "(\<Union>r \<in> set ?m. rng r) = cover ps" using m by simp
    note cb = concat_blocks_facts [OF m [THEN conjunct2, THEN conjunct1] mok]
    have "network p \<and> p_fam p = fam_of v4 \<and> maximal_in (cover ps) p" if mem: "p \<in> set (aggregate_family ps)" for p
    proof -
      obtain r where r: "r \<in> set ?m" "p \<in> set (range_to_prefixes r)" using mem by (auto simp: eq)
      have rok: "range_ok v4 r" "r_end r < 2 ^ bitlen (fam_of (r_is4 r))" "r_is4 r = v4"
        using mok r(1) by (auto simp: range_ok_def)
      note f = range_to_prefixes_facts [OF rok(2)]
      have mx: "maximal_in (rng r) p" using f(5) [OF r(2)] by (simp add: rng_def)
      have "p_addr p \<in> rng r"
        using f(1) r(2) p_addr_in_addrs [OF network_sel(1) [OF f(3) [OF r(2)]]] by (auto simp: rng_def cover_def)
      then have "addrs_of q \<subseteq> rng r" if "network q" "p_addr p \<in> addrs_of q" "addrs_of q \<subseteq> cover ps" for q
        using interval_in_one_range [OF m [THEN conjunct2, THEN conjunct1] mok that(1)] that r(1) un by blast
      then have "maximal_in (cover ps) p" using mx unfolding maximal_in_def by blast
      then show ?thesis using f(3,4) [OF r(2)] rok(3) by simp
    qed
    then show ?thesis using cb un by (simp add: eq)
  qed
  then show "cover (aggregate_family ps) = cover ps" "sorted_wrt before (aggregate_family ps)"
    and "p \<in> set (aggregate_family ps) \<Longrightarrow> network p \<and> p_fam p = fam_of v4 \<and> maximal_in (cover ps) p"
    by blast+
qed

section \<open>Both families\<close>

lemma family_cover:
  assumes "\<forall>p \<in> set ps. p_fam p = f" "a \<in> cover ps"
  shows "a_fam a = f"
  using assms by (auto simp: cover_def addrs_of_def contains_def)

lemma network_nonempty_addr: "network p \<Longrightarrow> p_addr p \<in> addrs_of p"
  by (simp add: p_addr_in_addrs network_sel)

lemma addrs_of_fam: "a \<in> addrs_of p \<Longrightarrow> a_fam a = p_fam p"
  by (simp add: addrs_of_def contains_def)

lemma network_of_addrs:
  assumes "network p" "network q" "addrs_of p = addrs_of q"
  shows "p = q"
proof -
  have pq: "p_addr p \<in> addrs_of q" "p_addr q \<in> addrs_of p"
    using assms network_nonempty_addr by blast+
  have "addrs_of p \<inter> addrs_of q \<noteq> {}" using pq assms by auto
  have fam: "p_fam p = p_fam q" using pq(1) by (rule addrs_of_fam)
  have v: "p_val p = p_val q"
    using pq by (simp add: in_addrs_of_interval assms(1,2))
  have "Addr (p_fam p) (p_val p + 2 ^ host_bits p - 1) \<in> addrs_of q"
    "Addr (p_fam q) (p_val q + 2 ^ host_bits q - 1) \<in> addrs_of p"
    using last_in_addrs assms by blast+
  then have "p_val p + 2 ^ host_bits p - 1 < p_val q + 2 ^ host_bits q"
    "p_val q + 2 ^ host_bits q - 1 < p_val p + 2 ^ host_bits p"
    by (simp_all only: in_addrs_of_interval assms(1,2) addr.sel fam)
  moreover have "1 \<le> (2::nat) ^ host_bits p" "1 \<le> (2::nat) ^ host_bits q" by simp_all
  ultimately have "(2::nat) ^ host_bits p = 2 ^ host_bits q" unfolding v by linarith
  then have "host_bits p = host_bits q" by simp
  then have "p_bits p = p_bits q"
    using fam network_sel(5) [OF assms(1)] network_sel(5) [OF assms(2)] by simp
  moreover have "contains p (p_addr q)" using pq(2) by (simp add: addrs_of_def)
  ultimately show ?thesis using assms(1,2) by (intro network_eq)
qed

lemma maximal_in_families:
  assumes "maximal_in A p" "\<forall>a \<in> B. a_fam a \<noteq> p_fam p"
  shows "maximal_in (A \<union> B) p"
  unfolding maximal_in_def
proof (intro allI impI)
  fix q assume q: "network q \<and> p_addr p \<in> addrs_of q \<and> addrs_of q \<subseteq> A \<union> B"
  have "p_fam p = p_fam q" using q by (blast dest: addrs_of_fam)
  then have "addrs_of q \<subseteq> A" using q assms(2) addrs_of_fam by fastforce
  with q assms(1) show "addrs_of q \<subseteq> addrs_of p" by (simp add: maximal_in_def)
qed

lemma before_disjoint:
  assumes "network p" "network q" "before p q"
  shows "addrs_of p \<inter> addrs_of q = {}"
  using assms by (auto simp: in_addrs_of_interval before_def)

lemma before_less: "network p \<Longrightarrow> before p q \<Longrightarrow> p_fam p = p_fam q \<Longrightarrow> p_addr p < p_addr q"
proof -
  assume "before p q" "p_fam p = p_fam q"
  moreover have "0 < (2::nat) ^ host_bits p" by simp
  ultimately have "p_val p < p_val q" unfolding before_def by linarith
  with \<open>p_fam p = p_fam q\<close> show ?thesis by (simp add: less_addr_same_family)
qed

lemma Aggregate_facts:
  assumes "well_formed ps"
  shows "cover (Aggregate ps) = cover ps"
    and "sorted_wrt (\<lambda>p q. p_addr p < p_addr q \<and> addrs_of p \<inter> addrs_of q = {}) (Aggregate ps)"
    and "p \<in> set (Aggregate ps) \<Longrightarrow> network p \<and> maximal_in (cover ps) p"
proof -
  define ms where "ms = map masked (filter prefix_is_valid ps)"
  define m4 where "m4 = filter (\<lambda>p. is4 (p_addr p)) ms"
  define m6 where "m6 = filter (\<lambda>p. \<not> is4 (p_addr p)) ms"
  have net: "\<forall>p \<in> set ms. network p"
    using assms by (auto simp: ms_def well_formed_def prefix_ok_def intro: network_masked)
  have f4: "\<forall>p \<in> set m4. network p \<and> p_fam p = fam_of True"
    using net by (auto simp: m4_def is4_def fam_of_def)
  have f6: "\<forall>p \<in> set m6. network p \<and> p_fam p = fam_of False"
    using net by (auto simp: m6_def is4_def fam_of_def) (metis family.exhaust)+
  have cms: "cover ms = cover ps"
    by (auto simp: ms_def cover_def dest: addrs_of_valid)
  have c46: "cover m4 \<union> cover m6 = cover ps"
    unfolding cms [symmetric] by (auto simp: m4_def m6_def cover_def)
  note a4 = aggregate_family_facts [OF f4] and a6 = aggregate_family_facts [OF f6]
  have agg: "Aggregate ps = aggregate_family m4 @ aggregate_family m6"
    by (simp add: Aggregate_def ms_def m4_def m6_def Let_def)
  have net4: "\<forall>p \<in> set m4. p_fam p = fam_of True" and net6: "\<forall>p \<in> set m6. p_fam p = fam_of False"
    using f4 f6 by blast+
  have fams: "a_fam a = fam_of True" if "a \<in> cover m4" for a using net4 that by (rule family_cover)
  have fams6: "a_fam a = fam_of False" if "a \<in> cover m6" for a using net6 that by (rule family_cover)
  show "cover (Aggregate ps) = cover ps" by (simp add: agg a4(1) a6(1) c46)
  have ord: "sorted_wrt (\<lambda>p q. p_addr p < p_addr q \<and> addrs_of p \<inter> addrs_of q = {}) xs"
    if "sorted_wrt before xs" "\<forall>p \<in> set xs. network p \<and> p_fam p = f" for xs f
    using that(1)
  proof (rule sorted_wrt_mono_rel [rotated])
    fix p q assume "p \<in> set xs" "q \<in> set xs" "before p q"
    moreover from this have "network p" "network q" "p_fam p = p_fam q" using that(2) by auto
    ultimately show "p_addr p < p_addr q \<and> addrs_of p \<inter> addrs_of q = {}"
      using before_less before_disjoint by blast
  qed
  have "p_addr p < p_addr q \<and> addrs_of p \<inter> addrs_of q = {}"
    if "p \<in> set (aggregate_family m4)" "q \<in> set (aggregate_family m6)" for p q
  proof -
    have fam: "p_fam p = IPv4" "p_fam q = IPv6" using a4(3) a6(3) that by (auto simp: fam_of_def)
    then have "p_addr p < p_addr q" by (simp add: less_addr_def less_family_def)
    with fam show ?thesis by (auto dest!: addrs_of_fam)
  qed
  then show "sorted_wrt (\<lambda>p q. p_addr p < p_addr q \<and> addrs_of p \<inter> addrs_of q = {}) (Aggregate ps)"
    using ord [OF a4(2)] ord [OF a6(2)] a4(3) a6(3) unfolding agg sorted_wrt_append by blast
  have mx4: "maximal_in (cover ps) p" if "p \<in> set (aggregate_family m4)" for p
    unfolding c46 [symmetric] using a4(3) [OF that] fams6
    by (intro maximal_in_families) (auto simp: fam_of_def)
  have mx6: "maximal_in (cover ps) p" if "p \<in> set (aggregate_family m6)" for p
    unfolding c46 [symmetric] Un_commute [of "cover m4"] using a6(3) [OF that] fams
    by (intro maximal_in_families) (auto simp: fam_of_def)
  show "network p \<and> maximal_in (cover ps) p" if "p \<in> set (Aggregate ps)"
    using that a4(3) a6(3) mx4 mx6 by (auto simp: agg)
qed

lemma Aggregate_disjoint:
  assumes "well_formed ps" "p \<in> set (Aggregate ps)" "q \<in> set (Aggregate ps)" "p \<noteq> q"
  shows "addrs_of p \<inter> addrs_of q = {}"
proof -
  obtain i j where ij: "p = Aggregate ps ! i" "q = Aggregate ps ! j" "i < length (Aggregate ps)"
      "j < length (Aggregate ps)"
    using assms(2,3) by (metis in_set_conv_nth)
  then have "i < j \<or> j < i" using assms(4) by (metis nat_neq_iff)
  then show ?thesis
    using sorted_wrt_nth_less [OF Aggregate_facts(2) [OF assms(1)]] ij by (metis inf_commute)
qed

lemma Aggregate_distinct: "well_formed ps \<Longrightarrow> distinct (map p_addr (Aggregate ps)) \<and> sorted (map p_addr (Aggregate ps))"
proof -
  assume "well_formed ps"
  from Aggregate_facts(2) [OF this] have "sorted_wrt (\<lambda>p q. p_addr p < p_addr q) (Aggregate ps)"
    by (rule sorted_wrt_mono_rel [rotated]) simp
  then have "sorted_wrt (<) (map p_addr (Aggregate ps))" by (simp add: sorted_wrt_map)
  then show ?thesis by (simp add: strict_sorted_iff)
qed

text \<open>Every block of the result lies inside one prefix of any other list with the same addresses.\<close>

lemma Aggregate_injection:
  assumes "well_formed ps" "\<forall>q \<in> set qs. prefix_ok q" "cover qs = cover ps"
  shows "\<exists>f. inj_on f (set (Aggregate ps)) \<and> f ` set (Aggregate ps) \<subseteq> set qs"
proof -
  note agg = Aggregate_facts [OF assms(1)]
  have ex: "\<exists>q \<in> set qs. p_addr p \<in> addrs_of q" if "p \<in> set (Aggregate ps)" for p
  proof -
    have "p_addr p \<in> cover (Aggregate ps)"
      using that agg(3) network_nonempty_addr by (fastforce simp: cover_def)
    then have "p_addr p \<in> cover qs" using agg(1) assms(3) by simp
    then show ?thesis by (simp add: cover_def)
  qed
  then obtain f where f: "\<And>p. p \<in> set (Aggregate ps) \<Longrightarrow> f p \<in> set qs \<and> p_addr p \<in> addrs_of (f p)"
    by metis
  have sub: "addrs_of (f p) \<subseteq> addrs_of p" if p: "p \<in> set (Aggregate ps)" for p
  proof -
    have "network (masked (f p))" using f [OF p] assms(2) by (simp add: network_masked)
    moreover have "addrs_of (masked (f p)) \<subseteq> cover ps"
      using f [OF p] unfolding assms(3) [symmetric] by (auto simp: cover_def)
    ultimately have "addrs_of (masked (f p)) \<subseteq> addrs_of p"
      using agg(3) [OF p] f [OF p] unfolding maximal_in_def by (metis addrs_of_masked)
    then show ?thesis by simp
  qed
  have "inj_on f (set (Aggregate ps))"
  proof (rule inj_onI, rule ccontr)
    fix p q assume pq: "p \<in> set (Aggregate ps)" "q \<in> set (Aggregate ps)" "f p = f q" "p \<noteq> q"
    then have "addrs_of (f p) = {}" using sub [of p] sub [of q] Aggregate_disjoint [OF assms(1) pq(1,2,4)] by auto
    then show False using f [OF pq(1)] by simp
  qed
  with f show ?thesis by blast
qed

section \<open>Properties\<close>

text \<open>C3: \<open>Aggregate\<close> covers exactly the addresses of its input, as valid masked prefixes in strictly
  increasing address order that are pairwise disjoint.\<close>

theorem Aggregate_exact:
  assumes "well_formed ps"
  shows "cover (Aggregate ps) = cover ps \<and> disjoint_prefixes (Aggregate ps) \<and>
    (\<forall>p \<in> set (Aggregate ps). network p) \<and> sorted (map p_addr (Aggregate ps))"
  using Aggregate_facts [OF assms] Aggregate_distinct [OF assms] Aggregate_disjoint [OF assms]
  by (auto simp: disjoint_prefixes_def distinct_map)

theorem Aggregate_exact_witness:
  "cover (Aggregate [Prefix (Addr IPv4 10) 31, Prefix (Addr IPv6 7) 128, Prefix (Addr IPv4 8) 31]) =
    cover [Prefix (Addr IPv4 10) 31, Prefix (Addr IPv6 7) 128, Prefix (Addr IPv4 8) 31]"
  using Aggregate_exact [of "[Prefix (Addr IPv4 10) 31, Prefix (Addr IPv6 7) 128, Prefix (Addr IPv4 8) 31]"]
  by (simp add: well_formed_def addr_ok_def)

lemma cover_sample: "cover [Prefix (Addr IPv4 10) 31, Prefix (Addr IPv4 8) 30] = cover [Prefix (Addr IPv4 8) 30]"
proof -
  have "v div 4 = 2" if "v div 2 = 5" for v :: nat using that by linarith
  then show ?thesis by (auto simp: addrs_of_def contains_def prefix_is_valid_def)
qed

text \<open>C4: \<open>Aggregate\<close> is minimal: no list of prefixes with the same addresses is shorter.\<close>

theorem Aggregate_minimal:
  assumes "well_formed ps" "\<forall>q \<in> set qs. prefix_ok q" "cover qs = cover ps"
  shows "length (Aggregate ps) \<le> length qs"
proof -
  obtain f where f: "inj_on f (set (Aggregate ps))" "f ` set (Aggregate ps) \<subseteq> set qs"
    using Aggregate_injection [OF assms] by blast
  have "length (Aggregate ps) = card (set (Aggregate ps))"
    using Aggregate_distinct [OF assms(1)] by (simp add: distinct_map distinct_card)
  also have "\<dots> \<le> card (set qs)" using f by (intro card_inj_on_le) auto
  also have "\<dots> \<le> length qs" by (rule card_length)
  finally show ?thesis .
qed

theorem Aggregate_minimal_witness:
  "length (Aggregate [Prefix (Addr IPv4 10) 31, Prefix (Addr IPv4 8) 30]) \<le> 1"
  using Aggregate_minimal [of "[Prefix (Addr IPv4 10) 31, Prefix (Addr IPv4 8) 30]" "[Prefix (Addr IPv4 8) 30]"]
    cover_sample
  by (simp add: well_formed_def addr_ok_def prefix_ok_def prefix_is_valid_def del: cover_simps)

text \<open>C5: the result of \<open>Aggregate\<close> depends on the set of addresses only: lists that cover the same
  addresses aggregate to the same list, so the order of equal range starts under Go's unstable
  \<open>sort.Slice\<close> cannot show.\<close>

theorem Aggregate_canonical:
  assumes "well_formed ps" "well_formed qs" "cover ps = cover qs"
  shows "Aggregate ps = Aggregate qs"
proof -
  have half: "set (Aggregate xs) \<subseteq> set (Aggregate ys)"
    if wf: "well_formed xs" "well_formed ys" and eq: "cover xs = cover ys" for xs ys
  proof
    fix p assume p: "p \<in> set (Aggregate xs)"
    note x = Aggregate_facts [OF wf(1)] and y = Aggregate_facts [OF wf(2)]
    have np: "network p" using x(3) [OF p] by simp
    have "p_addr p \<in> cover (Aggregate ys)"
      using p np network_nonempty_addr unfolding y(1) eq [symmetric] x(1) [symmetric] by (auto simp: cover_def)
    then obtain q where q: "q \<in> set (Aggregate ys)" "p_addr p \<in> addrs_of q" by (auto simp: cover_def)
    have nq: "network q" using y(3) [OF q(1)] by simp
    have sub: "addrs_of s \<subseteq> cover ss" if "s \<in> set ss" for s ss using that by (auto simp: cover_def)
    have "addrs_of q \<subseteq> cover xs" "addrs_of p \<subseteq> cover ys"
      using sub [OF p] sub [OF q(1)] x(1) y(1) eq by simp_all
    then have "addrs_of q \<subseteq> addrs_of p"
      using x(3) [OF p] nq q(2) unfolding maximal_in_def by blast
    moreover from this have "p_addr q \<in> addrs_of p" using network_nonempty_addr [OF nq] by blast
    with \<open>addrs_of p \<subseteq> cover ys\<close> have "addrs_of p \<subseteq> addrs_of q"
      using y(3) [OF q(1)] np unfolding maximal_in_def by blast
    ultimately have "p = q" using np nq by (intro network_of_addrs) auto
    with q(1) show "p \<in> set (Aggregate ys)" by simp
  qed
  have set: "set (Aggregate ps) = set (Aggregate qs)"
    using half [OF assms] half [OF assms(2,1)] assms(3) by auto
  have "inj_on p_addr (set (Aggregate ps))"
    using Aggregate_distinct [OF assms(1)] by (simp add: distinct_map)
  then show ?thesis
    using set Aggregate_distinct [OF assms(1)] Aggregate_distinct [OF assms(2)]
    by (intro map_sorted_distinct_set_unique [of p_addr]) simp_all
qed

theorem Aggregate_canonical_witness:
  "Aggregate [Prefix (Addr IPv4 10) 31, Prefix (Addr IPv4 8) 30] = Aggregate [Prefix (Addr IPv4 8) 30]"
  using Aggregate_canonical [of "[Prefix (Addr IPv4 10) 31, Prefix (Addr IPv4 8) 30]" "[Prefix (Addr IPv4 8) 30]"]
    cover_sample
  by (simp add: well_formed_def addr_ok_def del: cover_simps)

end
