(* ===== verification/Bgp_Wire.thy ===== *)
theory Bgp_Wire
  imports Netip
begin

text \<open>
  \<open>internal/bgp/wire_types.go\<close>, \<open>wire_encode.go\<close> and \<open>wire_decode.go\<close>: the BGP messages, their
  encoding and the decoder. The encoder fills a buffer of computed size; here it concatenates, with
  every length field converted to its width as the code converts it. The decoder reads its slices
  through \<open>idx\<close> and \<open>slice\<close>, so an index out of range is the value \<open>Panic\<close>.
\<close>

section \<open>Messages\<close>

definition MsgOpen :: byte where "MsgOpen = 1"
definition MsgUpdate :: byte where "MsgUpdate = 2"
definition MsgNotification :: byte where "MsgNotification = 3"
definition MsgKeepalive :: byte where "MsgKeepalive = 4"
definition MsgRouteRefresh :: byte where "MsgRouteRefresh = 5"

definition AttrOrigin :: byte where "AttrOrigin = 1"
definition AttrASPath :: byte where "AttrASPath = 2"
definition AttrNextHop :: byte where "AttrNextHop = 3"
definition AttrMpReachNLRI :: byte where "AttrMpReachNLRI = 14"
definition AttrMpUnreachNLRI :: byte where "AttrMpUnreachNLRI = 15"
definition AttrLargeCommunities :: byte where "AttrLargeCommunities = 32"

definition attrFlagOptional :: byte where "attrFlagOptional = 0x80"
definition attrFlagTransitive :: byte where "attrFlagTransitive = 0x40"
definition attrFlagExtendedLength :: byte where "attrFlagExtendedLength = 0x10"

lemmas msg_types = MsgOpen_def MsgUpdate_def MsgNotification_def MsgKeepalive_def MsgRouteRefresh_def
lemmas attr_codes = AttrOrigin_def AttrASPath_def AttrNextHop_def AttrMpReachNLRI_def
  AttrMpUnreachNLRI_def AttrLargeCommunities_def
lemmas attr_flags = attrFlagOptional_def attrFlagTransitive_def attrFlagExtendedLength_def

definition HeaderLen :: nat where "HeaderLen = 19"

record header =
  Length :: u16
  Type :: byte

record open_message =
  Version :: byte
  MyASN :: u16
  MyASN32 :: u32
  HoldTime :: u16
  BGPID :: "byte list"
  OptParmLen :: byte
  HasIPv6Unicast :: bool
  HasAS4Cap :: bool

record route_refresh_message =
  AFI :: u16
  Subtype :: byte
  SAFI :: byte

record notification_message =
  ErrorCode :: byte
  ErrorSubcode :: byte
  Data :: "byte list"

record large_community =
  GlobalAdmin :: u32
  LocalData1 :: u32
  LocalData2 :: u32

datatype path_attribute =
    OriginAttribute byte
  | NextHopAttribute addr
  | MpReachNLRIAttribute addr "prefix list"
  | MpUnreachNLRIAttribute "prefix list"
  | ASPathAttribute u32 bool
  | LargeCommunitiesAttribute "large_community list"

record update_message =
  WithdrawnRoutes :: "prefix list"
  PathAttributes :: "path_attribute list"
  NLRI :: "prefix list"

datatype message =
    Open open_message
  | Update update_message
  | Keepalive
  | Notification notification_message
  | RouteRefresh route_refresh_message

fun TypeCode :: "path_attribute \<Rightarrow> byte" where
  "TypeCode (OriginAttribute v) = AttrOrigin"
| "TypeCode (NextHopAttribute nh) = AttrNextHop"
| "TypeCode (MpReachNLRIAttribute nh ps) = AttrMpReachNLRI"
| "TypeCode (MpUnreachNLRIAttribute ps) = AttrMpUnreachNLRI"
| "TypeCode (ASPathAttribute asn four) = AttrASPath"
| "TypeCode (LargeCommunitiesAttribute cs) = AttrLargeCommunities"

section \<open>Encoding\<close>

definition encode_path_attribute :: "byte \<Rightarrow> byte \<Rightarrow> byte list \<Rightarrow> byte list" where
  "encode_path_attribute flags type_code val =
     (if 255 < length val
      then [flags OR attrFlagExtendedLength, type_code] @ put_u16 (word_of_nat (length val)) @ val
      else [flags, type_code, word_of_nat (length val)] @ val)"

definition bytes_needed :: "nat \<Rightarrow> nat" where
  "bytes_needed bits = (bits + 7) div 8"

definition encode_prefix :: "prefix \<Rightarrow> byte list" where
  "encode_prefix p = word_of_nat (p_bits p) # take (bytes_needed (p_bits p)) (as_slice (p_addr p))"

definition encode_prefixes :: "prefix list \<Rightarrow> byte list" where
  "encode_prefixes ps = concat (map encode_prefix ps)"

text \<open>\<open>netip.Addr.As4\<close>: an IPv4-mapped IPv6 address is unmapped, any other IPv6 address panics.\<close>

definition addr_as4 :: "addr \<Rightarrow> ('e, byte list) result" where
  "addr_as4 a =
     (if is4 a then Inr (as_slice a)
      else if a_val a div 2 ^ 32 = 0xFFFF then Inr (nat_be 4 (a_val a mod 2 ^ 32))
      else Inl Panic)"

definition encode_community :: "large_community \<Rightarrow> byte list" where
  "encode_community c = put_u32 (GlobalAdmin c) @ put_u32 (LocalData1 c) @ put_u32 (LocalData2 c)"

fun serialize_attribute :: "path_attribute \<Rightarrow> ('e, byte list) result" where
  "serialize_attribute (OriginAttribute v) = Inr (encode_path_attribute attrFlagTransitive AttrOrigin [v])"
| "serialize_attribute (NextHopAttribute nh) =
     bindE (addr_as4 nh) (\<lambda>ip. Inr (encode_path_attribute attrFlagTransitive AttrNextHop ip))"
| "serialize_attribute (MpReachNLRIAttribute next_hop nlri) =
     (let nh = as_slice next_hop in
      Inr (encode_path_attribute attrFlagOptional AttrMpReachNLRI
        ([0, 2, 1, word_of_nat (length nh)] @ nh @ [0] @ encode_prefixes nlri)))"
| "serialize_attribute (MpUnreachNLRIAttribute nlri) =
     Inr (encode_path_attribute attrFlagOptional AttrMpUnreachNLRI ([0, 2, 1] @ encode_prefixes nlri))"
| "serialize_attribute (ASPathAttribute asn four_octet) =
     (if 65535 < asn \<or> four_octet
      then Inr (encode_path_attribute attrFlagTransitive AttrASPath ([2, 1] @ put_u32 asn))
      else Inr (encode_path_attribute attrFlagTransitive AttrASPath ([2, 1] @ put_u16 (ucast asn))))"
| "serialize_attribute (LargeCommunitiesAttribute cs) =
     Inr (encode_path_attribute (attrFlagOptional OR attrFlagTransitive) AttrLargeCommunities
       (concat (map encode_community cs)))"

fun encode_path_attributes :: "path_attribute list \<Rightarrow> ('e, byte list) result" where
  "encode_path_attributes [] = Inr []"
| "encode_path_attributes (a # as) =
     bindE (serialize_attribute a) (\<lambda>s. bindE (encode_path_attributes as) (\<lambda>rest. Inr (s @ rest)))"

definition wrap_message :: "byte \<Rightarrow> byte list \<Rightarrow> byte list" where
  "wrap_message msg_type body =
     replicate 16 0xFF @ put_u16 (word_of_nat (HeaderLen + length body)) @ [msg_type] @ body"

definition cap_param :: "u32 \<Rightarrow> byte list" where
  "cap_param asn =
     [2, 20] @
     [1, 4, 0x00, 0x02, 0x00, 0x01] @
     [1, 4, 0x00, 0x01, 0x00, 0x01] @
     [65, 4] @ put_u32 asn @
     [2, 0]"

text \<open>\<open>OpenMessage.Serialize\<close> also fills two fields of its receiver.\<close>

definition serialize_open :: "open_message \<Rightarrow> byte list \<times> open_message" where
  "serialize_open o0 =
     (let caps = cap_param (MyASN32 o0);
          o1 = o0\<lparr>OptParmLen := word_of_nat (length caps),
                  MyASN := if 65535 < MyASN32 o0 then 23456 else ucast (MyASN32 o0)\<rparr>;
          body = [Version o1] @ put_u16 (MyASN o1) @ put_u16 (HoldTime o1) @ BGPID o1 @ [OptParmLen o1] @ caps
      in (wrap_message MsgOpen body, o1))"

definition serialize_update :: "update_message \<Rightarrow> ('e, byte list) result" where
  "serialize_update u =
     (let withdrawn = encode_prefixes (WithdrawnRoutes u) in
      bindE (encode_path_attributes (PathAttributes u)) (\<lambda>attrs.
        let nlri = encode_prefixes (NLRI u);
            body = put_u16 (word_of_nat (length withdrawn)) @ withdrawn @
                   put_u16 (word_of_nat (length attrs)) @ attrs @ nlri
        in Inr (wrap_message MsgUpdate body)))"

definition serialize_keepalive :: "byte list" where
  "serialize_keepalive = wrap_message MsgKeepalive []"

definition serialize_notification :: "notification_message \<Rightarrow> byte list" where
  "serialize_notification n = wrap_message MsgNotification ([ErrorCode n, ErrorSubcode n] @ Data n)"

section \<open>Decoding\<close>

datatype wire_error =
    HeaderTooShort nat | InvalidMarker | HeaderLengthTooSmall u16
  | ReadHeader | ReadBody | KeepaliveBody nat | UnknownMessageType byte
  | RouteRefreshLength nat | OpenTooShort nat | UnsupportedVersion byte
  | UpdateTooShort | WithdrawnLengthExceeds u16 | PathAttrLengthExceeds u16
  | NotificationTooShort nat
  | AttrTooShort nat | AttrExtendedTooShort | AttrTruncated nat nat
  | OriginBadLength nat | NextHopBadLength nat | CommunitiesBadLength nat
  | MpReachTooShort nat | MpReachTruncated nat | MpReachBadNextHop nat | MpUnreachTooShort nat
  | ASPathTooShort nat | ASPathSegmentType byte | ASPathZeroLength | ASPathTruncated nat
  | PrefixTruncated nat nat | InvalidPrefix nat

type_synonym 'a wire = "(wire_error, 'a) result"

text \<open>\<open>copy(ip[:], src)\<close> into a zeroed array of \<open>n\<close> bytes.\<close>

definition copy_into :: "nat \<Rightarrow> byte list \<Rightarrow> byte list" where
  "copy_into n src = take n (src @ replicate n 0)"

definition decode_header :: "byte list \<Rightarrow> header wire" where
  "decode_header data =
     (if length data < HeaderLen then fail (HeaderTooShort (length data))
      else
        bindE (slice data 0 16) (\<lambda>marker.
        bindE (slice data 16 18) (\<lambda>len.
        bindE (idx data 18) (\<lambda>t.
          let h = \<lparr>Length = get_u16 len, Type = t\<rparr> in
          if list_ex (\<lambda>b. b \<noteq> 0xFF) marker then fail InvalidMarker
          else if Length h < word_of_nat HeaderLen then fail (HeaderLengthTooSmall (Length h))
          else Inr h))))"

function decode_prefixes :: "byte list \<Rightarrow> u16 \<Rightarrow> prefix list \<Rightarrow> prefix list wire" where
  "decode_prefixes data afi prefixes =
     (if data = [] then Inr prefixes
      else
        bindE (idx data 0) (\<lambda>b.
        bindE (slice data 1 (length data)) (\<lambda>data.
          let prefix_len = unat b; need = (prefix_len + 7) div 8 in
          if length data < need then fail (PrefixTruncated need (length data))
          else
            bindE (slice data 0 need) (\<lambda>prefix_bytes.
            bindE (slice data need (length data)) (\<lambda>data.
              let addr = (if afi = 2 then addr_from16 (copy_into 16 prefix_bytes)
                          else addr_from4 (copy_into 4 prefix_bytes));
                  prefix = prefix_from addr (int prefix_len)
              in if \<not> prefix_is_valid prefix then fail (InvalidPrefix prefix_len)
                 else decode_prefixes data afi (prefixes @ [prefix]))))))"
  by pat_completeness auto
termination
  by (relation "measure (\<lambda>(data, afi, prefixes). length data)") (auto dest!: slice_length)

declare decode_prefixes.simps [simp del]

definition decode_as_path :: "byte list \<Rightarrow> path_attribute wire" where
  "decode_as_path val =
     (if length val < 2 then fail (ASPathTooShort (length val))
      else
        bindE (idx val 0) (\<lambda>seg_type.
        bindE (idx val 1) (\<lambda>n.
          let seg_len = unat n in
          if seg_type \<noteq> 1 \<and> seg_type \<noteq> 2 then fail (ASPathSegmentType seg_type)
          else if seg_len = 0 then fail ASPathZeroLength
          else if 2 + seg_len * 4 \<le> length val then
            bindE (slice val 2 6) (\<lambda>w. Inr (ASPathAttribute (get_u32 w) False))
          else if 2 + seg_len * 2 \<le> length val then
            bindE (slice val 2 4) (\<lambda>w. Inr (ASPathAttribute (ucast (get_u16 w)) False))
          else fail (ASPathTruncated (length val)))))"

text \<open>The conversion \<open>[n]byte(slice)\<close> of a slice to an array panics when the slice is too short.\<close>

definition to_array :: "nat \<Rightarrow> byte list \<Rightarrow> byte list wire" where
  "to_array n bs = (if length bs < n then Inl Panic else Inr (take n bs))"

definition decode_mp_reach :: "byte list \<Rightarrow> path_attribute wire" where
  "decode_mp_reach val =
     (if length val < 5 then fail (MpReachTooShort (length val))
      else
        bindE (slice val 0 2) (\<lambda>afi_bytes.
        bindE (idx val 3) (\<lambda>n.
          let afi = get_u16 afi_bytes; nh_len = unat n in
          if length val < 4 + nh_len then fail (MpReachTruncated nh_len)
          else
            bindE (slice val 4 (4 + nh_len)) (\<lambda>nh_bytes.
            bindE
              (if nh_len = 4 then bindE (to_array 4 nh_bytes) (\<lambda>a. Inr (addr_from4 a))
               else if nh_len = 16 then bindE (to_array 16 nh_bytes) (\<lambda>a. Inr (addr_from16 a))
               else if nh_len = 32 then
                 bindE (slice nh_bytes 0 16) (\<lambda>h. bindE (to_array 16 h) (\<lambda>a. Inr (addr_from16 a)))
               else fail (MpReachBadNextHop nh_len))
              (\<lambda>nh.
                 let nlri_start = 4 + nh_len + 1 in
                 bindE
                   (if nlri_start < length val
                    then bindE (slice val nlri_start (length val)) (\<lambda>d. decode_prefixes d afi [])
                    else Inr [])
                   (\<lambda>nlri. Inr (MpReachNLRIAttribute nh nlri)))))))"

definition decode_mp_unreach :: "byte list \<Rightarrow> path_attribute wire" where
  "decode_mp_unreach val =
     (if length val < 3 then fail (MpUnreachTooShort (length val))
      else
        bindE (slice val 0 2) (\<lambda>afi_bytes.
        bindE (slice val 3 (length val)) (\<lambda>nlri_data.
          bindE (if 0 < length nlri_data then decode_prefixes nlri_data (get_u16 afi_bytes) [] else Inr [])
            (\<lambda>nlri. Inr (MpUnreachNLRIAttribute nlri)))))"

fun decode_communities :: "nat \<Rightarrow> byte list \<Rightarrow> nat \<Rightarrow> large_community list wire" where
  "decode_communities 0 val i = Inr []"
| "decode_communities (Suc num) val i =
     (let off = i * 12 in
      bindE (slice val off (off + 4)) (\<lambda>a.
      bindE (slice val (off + 4) (off + 8)) (\<lambda>b.
      bindE (slice val (off + 8) (off + 12)) (\<lambda>c.
      bindE (decode_communities num val (Suc i)) (\<lambda>rest.
        Inr (\<lparr>GlobalAdmin = get_u32 a, LocalData1 = get_u32 b, LocalData2 = get_u32 c\<rparr> # rest))))))"

text \<open>\<open>None\<close> is the nil attribute of an unknown type, which is skipped.\<close>

definition decode_path_attribute :: "byte \<Rightarrow> byte \<Rightarrow> byte list \<Rightarrow> path_attribute option wire" where
  "decode_path_attribute flags type_code val =
     (if type_code = AttrOrigin then
        (if length val \<noteq> 1 then fail (OriginBadLength (length val))
         else bindE (idx val 0) (\<lambda>v. Inr (Some (OriginAttribute v))))
      else if type_code = AttrASPath then bindE (decode_as_path val) (\<lambda>a. Inr (Some a))
      else if type_code = AttrNextHop then
        (if length val \<noteq> 4 then fail (NextHopBadLength (length val))
         else Inr (Some (NextHopAttribute (addr_from4 (copy_into 4 val)))))
      else if type_code = AttrMpReachNLRI then bindE (decode_mp_reach val) (\<lambda>a. Inr (Some a))
      else if type_code = AttrMpUnreachNLRI then bindE (decode_mp_unreach val) (\<lambda>a. Inr (Some a))
      else if type_code = AttrLargeCommunities then
        (if length val mod 12 \<noteq> 0 then fail (CommunitiesBadLength (length val))
         else bindE (decode_communities (length val div 12) val 0) (\<lambda>cs. Inr (Some (LargeCommunitiesAttribute cs))))
      else Inr None)"

definition attr_lengths :: "byte list \<Rightarrow> byte \<Rightarrow> (nat \<times> nat) wire" where
  "attr_lengths data flags =
     (if flags AND attrFlagExtendedLength \<noteq> 0 then
        (if length data < 4 then fail AttrExtendedTooShort
         else bindE (slice data 2 4) (\<lambda>w. Inr (unat (get_u16 w), 4)))
      else bindE (idx data 2) (\<lambda>b. Inr (unat b, 3)))"

function decode_path_attributes :: "byte list \<Rightarrow> path_attribute list \<Rightarrow> path_attribute list wire" where
  "decode_path_attributes data attrs =
     (if data = [] then Inr attrs
      else if length data < 3 then fail (AttrTooShort (length data))
      else
        bindE (idx data 0) (\<lambda>flags.
        bindE (idx data 1) (\<lambda>type_code.
        bindE (attr_lengths data flags) (\<lambda>(attr_len, hdr_len).
          if length data < hdr_len + attr_len then fail (AttrTruncated (hdr_len + attr_len) (length data))
          else
            bindE (slice data hdr_len (hdr_len + attr_len)) (\<lambda>val.
            bindE (slice data (hdr_len + attr_len) (length data)) (\<lambda>data'.
            bindE (decode_path_attribute flags type_code val) (\<lambda>attr.
              decode_path_attributes data' (case attr of None \<Rightarrow> attrs | Some a \<Rightarrow> attrs @ [a]))))))))"
  by pat_completeness auto
termination
proof (relation "measure (\<lambda>(data, attrs). length data)", goal_cases)
  case 1
  then show ?case by simp
next
  case (2 data attrs flags type_code x attr_len hdr_len val data' attr)
  have "0 < hdr_len" using 2 by (auto simp: attr_lengths_def bindE_eq_Inr_iff split: if_splits)
  moreover have "length data' = length data - (hdr_len + attr_len)" using 2 by (auto dest: slice_length)
  ultimately show ?case using 2(1,2) by simp
qed

declare decode_path_attributes.simps [simp del]

definition decode_update :: "byte list \<Rightarrow> update_message wire" where
  "decode_update data =
     (if length data < 2 then fail UpdateTooShort
      else
        bindE (slice data 0 2) (\<lambda>w.
        bindE (slice data 2 (length data)) (\<lambda>data.
          let withdrawn_len = get_u16 w in
          if length data < unat withdrawn_len then fail (WithdrawnLengthExceeds withdrawn_len)
          else
            bindE (slice data 0 (unat withdrawn_len)) (\<lambda>wd.
            bindE (decode_prefixes wd 1 []) (\<lambda>withdrawn.
            bindE (slice data (unat withdrawn_len) (length data)) (\<lambda>data.
              if length data < 2 then fail UpdateTooShort
              else
                bindE (slice data 0 2) (\<lambda>w.
                bindE (slice data 2 (length data)) (\<lambda>data.
                  let path_attr_len = get_u16 w in
                  if length data < unat path_attr_len then fail (PathAttrLengthExceeds path_attr_len)
                  else
                    bindE (slice data 0 (unat path_attr_len)) (\<lambda>pa.
                    bindE (decode_path_attributes pa []) (\<lambda>attrs.
                    bindE (slice data (unat path_attr_len) (length data)) (\<lambda>data.
                    bindE (decode_prefixes data 1 []) (\<lambda>nlri.
                      Inr \<lparr>WithdrawnRoutes = withdrawn, PathAttributes = attrs, NLRI = nlri\<rparr>))))))))))))"

definition decode_notification :: "byte list \<Rightarrow> notification_message wire" where
  "decode_notification data =
     (if length data < 2 then fail (NotificationTooShort (length data))
      else
        bindE (idx data 0) (\<lambda>c.
        bindE (idx data 1) (\<lambda>s.
        bindE (slice data 2 (length data)) (\<lambda>d.
          Inr \<lparr>ErrorCode = c, ErrorSubcode = s, Data = d\<rparr>))))"

definition decode_route_refresh :: "byte list \<Rightarrow> route_refresh_message wire" where
  "decode_route_refresh data =
     (if length data \<noteq> 4 then fail (RouteRefreshLength (length data))
      else
        bindE (slice data 0 2) (\<lambda>w.
        bindE (idx data 2) (\<lambda>s.
        bindE (idx data 3) (\<lambda>f.
          Inr \<lparr>AFI = get_u16 w, Subtype = s, SAFI = f\<rparr>))))"

text \<open>The two loops over the optional parameters of OPEN; both stop at a malformed entry.\<close>

function decode_capabilities :: "byte list \<Rightarrow> open_message \<Rightarrow> open_message wire" where
  "decode_capabilities cap_data m =
     (if length cap_data < 2 then Inr m
      else
        bindE (idx cap_data 0) (\<lambda>cap_code.
        bindE (idx cap_data 1) (\<lambda>n.
          let cap_len = unat n in
          if length cap_data < 2 + cap_len then Inr m
          else
            bindE
              (if cap_code = 65 \<and> cap_len = 4
               then bindE (slice cap_data 2 (2 + cap_len)) (\<lambda>w. Inr (m\<lparr>MyASN32 := get_u32 w, HasAS4Cap := True\<rparr>))
               else Inr m)
              (\<lambda>m.
            bindE
              (if cap_code = 1 \<and> cap_len = 4
               then bindE (slice cap_data 2 4) (\<lambda>afi. bindE (idx cap_data 5) (\<lambda>safi.
                 Inr (if get_u16 afi = 2 \<and> safi = 1 then m\<lparr>HasIPv6Unicast := True\<rparr> else m)))
               else Inr m)
              (\<lambda>m.
            bindE (slice cap_data (2 + cap_len) (length cap_data)) (\<lambda>cap_data.
              decode_capabilities cap_data m))))))"
  by pat_completeness auto
termination
  by (relation "measure (\<lambda>(cap_data, m). length cap_data)") (auto dest!: slice_length)

declare decode_capabilities.simps [simp del]

function decode_opts :: "byte list \<Rightarrow> open_message \<Rightarrow> open_message wire" where
  "decode_opts opts m =
     (if length opts < 2 then Inr m
      else
        bindE (idx opts 0) (\<lambda>param_type.
        bindE (idx opts 1) (\<lambda>n.
          let param_len = unat n in
          if length opts < 2 + param_len then Inr m
          else
            bindE (slice opts 2 (2 + param_len)) (\<lambda>param_data.
            bindE (if param_type = 2 then decode_capabilities param_data m else Inr m) (\<lambda>m.
            bindE (slice opts (2 + param_len) (length opts)) (\<lambda>opts.
              decode_opts opts m))))))"
  by pat_completeness auto
termination
  by (relation "measure (\<lambda>(opts, m). length opts)") (auto dest!: slice_length)

declare decode_opts.simps [simp del]

definition decode_open :: "byte list \<Rightarrow> open_message wire" where
  "decode_open data =
     (if length data < 10 then fail (OpenTooShort (length data))
      else
        bindE (idx data 0) (\<lambda>version.
        bindE (slice data 1 3) (\<lambda>asn.
        bindE (slice data 3 5) (\<lambda>hold.
        bindE (idx data 9) (\<lambda>opt_len.
          if version \<noteq> 4 then fail (UnsupportedVersion version)
          else
            bindE (slice data 5 9) (\<lambda>bgpid.
              let m = \<lparr>Version = version, MyASN = get_u16 asn, MyASN32 = 0, HoldTime = get_u16 hold,
                       BGPID = bgpid, OptParmLen = opt_len, HasIPv6Unicast = False, HasAS4Cap = False\<rparr>
              in if 0 < opt_len \<and> 10 + unat opt_len \<le> length data
                 then bindE (slice data 10 (10 + unat opt_len)) (\<lambda>opts. decode_opts opts m)
                 else Inr m))))))"

text \<open>
  \<open>ReadMessage\<close> on the bytes the reader still delivers; \<open>io.ReadFull\<close> fails when fewer are left.
  The result carries the bytes not consumed.
\<close>

definition decode_body :: "byte \<Rightarrow> byte list \<Rightarrow> message wire" where
  "decode_body t body =
     (if t = MsgOpen then bindE (decode_open body) (\<lambda>m. Inr (Open m))
      else if t = MsgUpdate then bindE (decode_update body) (\<lambda>m. Inr (Update m))
      else if t = MsgKeepalive then (if length body \<noteq> 0 then fail (KeepaliveBody (length body)) else Inr Keepalive)
      else if t = MsgNotification then bindE (decode_notification body) (\<lambda>m. Inr (Notification m))
      else if t = MsgRouteRefresh then bindE (decode_route_refresh body) (\<lambda>m. Inr (RouteRefresh m))
      else fail (UnknownMessageType t))"

definition read_message :: "byte list \<Rightarrow> (message \<times> byte list) wire" where
  "read_message r =
     (if length r < HeaderLen then fail ReadHeader
      else
        bindE (decode_header (take HeaderLen r)) (\<lambda>h.
          let r = drop HeaderLen r; body_len = unat (Length h) - HeaderLen in
          if length r < body_len then fail ReadBody
          else bindE (decode_body (Type h) (take body_len r)) (\<lambda>m. Inr (m, drop body_len r))))"

end
