(* ===== verification/Bgp_Wire_Roundtrip.thy ===== *)
theory Bgp_Wire_Roundtrip
  imports Bgp_Wire_Safety
begin

text \<open>
  What the encoder writes the decoder reads back, message by message and on a stream of messages.
\<close>

section \<open>Reading back a front part\<close>

lemma slice_front: "i = length xs \<Longrightarrow> slice (xs @ ys) 0 i = Inr xs"
  by (simp add: slice_def)

lemma slice_back: "i = length xs \<Longrightarrow> n = length xs + length ys \<Longrightarrow> slice (xs @ ys) i n = Inr ys"
  by (simp add: slice_def)

lemma slice_all: "n = length xs \<Longrightarrow> slice xs 0 n = Inr xs"
  by (simp add: slice_def)

lemma slice_tail: "n = Suc (length xs) \<Longrightarrow> slice (x # xs) (Suc 0) n = Inr xs"
  by (simp add: slice_def)

lemma idx_Cons: "idx (x # xs) 0 = Inr x" "idx (x # xs) (Suc i) = idx xs i"
  by (simp_all add: idx_def)

section \<open>Prefixes\<close>

lemma nat_be_append: "nat_be (k + m) v = nat_be k (v div 256 ^ m) @ nat_be m v"
proof (induction m arbitrary: v)
  case 0
  then show ?case by simp
next
  case (Suc m)
  then show ?case by (simp add: div_mult2_eq)
qed

lemma nat_be_zero: "256 ^ m dvd v \<Longrightarrow> nat_be m v = replicate m 0"
proof (induction m arbitrary: v)
  case 0
  then show ?case by simp
next
  case (Suc m)
  then obtain c where c: "v = 256 * (256 ^ m * c)" by (auto simp: dvd_def mult.assoc)
  then have "v div 256 = 256 ^ m * c" "v mod 256 = 0" by simp_all
  moreover have "nat_be m (256 ^ m * c) = replicate m 0" by (rule Suc.IH) simp
  ultimately show ?case by (simp add: replicate_append_same)
qed

lemma copy_into_nat_be:
  assumes "k \<le> n" "256 ^ (n - k) dvd v"
  shows "copy_into n (take k (nat_be n v)) = nat_be n v"
proof -
  have "nat_be n v = nat_be k (v div 256 ^ (n - k)) @ replicate (n - k) 0"
    using nat_be_append [of k "n - k" v] nat_be_zero [OF assms(2)] assms(1) by simp
  then show ?thesis using assms(1) by (simp add: copy_into_def)
qed

text \<open>The address bytes a network needs on the wire.\<close>

lemma bytes_needed_le: "p_bits p \<le> p_bitlen p \<Longrightarrow> bytes_needed (p_bits p) \<le> p_bitlen p div 8"
  by (cases "p_fam p") (auto simp: bytes_needed_def)

lemma network_wire_bytes:
  assumes "network p"
  shows "copy_into (p_bitlen p div 8) (take (bytes_needed (p_bits p)) (as_slice (p_addr p))) = as_slice (p_addr p)"
proof -
  let ?k = "bytes_needed (p_bits p)" and ?n = "p_bitlen p div 8"
  have k: "?k \<le> ?n" using assms bytes_needed_le network_sel(5) by blast
  have "p_bits p \<le> 8 * ?k" by (simp add: bytes_needed_def)
  then have "8 * (?n - ?k) \<le> host_bits p" using k bitlen_div8 [of "p_fam p"] by linarith
  then have "(2::nat) ^ (8 * (?n - ?k)) dvd p_val p"
    using network_dvd [OF assms] by (meson dvd_trans le_imp_power_dvd)
  then have "256 ^ (?n - ?k) dvd p_val p" by (simp add: power_mult)
  then show ?thesis using copy_into_nat_be [OF k] by (simp add: as_slice_def)
qed

definition wire_family :: "u16 \<Rightarrow> family" where
  "wire_family afi = (if afi = 2 then IPv6 else IPv4)"

lemma addr_of_slice_family:
  "addr_ok a \<Longrightarrow> a_fam a = IPv6 \<Longrightarrow> addr_from16 (as_slice a) = a"
  "addr_ok a \<Longrightarrow> a_fam a = IPv4 \<Longrightarrow> addr_from4 (as_slice a) = a"
  using be_nat_as_slice [of a] by (cases a; simp add: addr_from16_def addr_from4_def)+

lemma length_encode_prefix: "network p \<Longrightarrow> length (encode_prefix p) = Suc (bytes_needed (p_bits p))"
  using bytes_needed_le [of p] by (simp add: encode_prefix_def network_sel)

lemma decode_prefixes_step:
  assumes "network p" "p_fam p = wire_family afi"
  shows "decode_prefixes (encode_prefix p @ rest) afi acc = decode_prefixes rest afi (acc @ [p])"
proof -
  define k where "k = bytes_needed (p_bits p)"
  define bs where "bs = take k (as_slice (p_addr p))"
  have le: "p_bits p \<le> p_bitlen p" "p_bits p < 256"
    using network_sel(5) [OF assms(1)] bitlen_le_128 [of "p_fam p"] by simp_all
  have len: "length bs = k" using bytes_needed_le [OF le(1)] by (simp add: bs_def k_def)
  have b: "unat (word_of_nat (p_bits p) :: byte) = p_bits p" using le(2) by (rule unat_byte_of_nat)
  have addr: "(if afi = 2 then addr_from16 (copy_into 16 bs) else addr_from4 (copy_into 4 bs)) = p_addr p"
    using network_wire_bytes [OF assms(1)] assms(2) network_sel(4) [OF assms(1)]
    by (auto simp: bs_def k_def wire_family_def addr_of_slice_family split: if_splits)
  have p: "prefix_from (p_addr p) (int (p_bits p)) = p"
    using le(1) by (cases p) (simp add: prefix_from_def)
  have valid: "prefix_is_valid p" using assms(1) by (simp add: network_sel)
  have need: "(p_bits p + 7) div 8 = k" by (simp add: k_def bytes_needed_def)
  have "decode_prefixes (word_of_nat (p_bits p) # (bs @ rest)) afi acc = decode_prefixes rest afi (acc @ [p])"
    by (subst decode_prefixes.simps)
      (simp only: Let_def idx_Cons slice_tail slice_front slice_back bindE_Inr b need len addr p valid
        length_append list.size list.distinct if_False not_True_eq_False One_nat_def add_Suc_right add_0_right
        not_add_less1 refl)
  then show ?thesis by (simp add: encode_prefix_def bs_def k_def)
qed

lemma decode_prefixes_Nil: "decode_prefixes [] afi acc = Inr acc"
  by (simp add: decode_prefixes.simps)

lemma decode_encode_prefixes:
  "\<forall>p \<in> set ps. network p \<and> p_fam p = wire_family afi \<Longrightarrow>
     decode_prefixes (encode_prefixes ps) afi acc = Inr (acc @ ps)"
proof (induction ps arbitrary: acc)
  case Nil
  then show ?case by (simp add: encode_prefixes_def decode_prefixes_Nil)
next
  case (Cons p ps)
  then show ?case
    using decode_prefixes_step [of p afi "encode_prefixes ps" acc] by (simp add: encode_prefixes_def)
qed

section \<open>Path attributes\<close>

fun attr_value :: "path_attribute \<Rightarrow> byte list" where
  "attr_value (OriginAttribute v) = [v]"
| "attr_value (NextHopAttribute nh) = as_slice nh"
| "attr_value (MpReachNLRIAttribute nh ps) =
     [0, 2, 1, word_of_nat (length (as_slice nh))] @ as_slice nh @ [0] @ encode_prefixes ps"
| "attr_value (MpUnreachNLRIAttribute ps) = [0, 2, 1] @ encode_prefixes ps"
| "attr_value (ASPathAttribute asn four) = [2, 1] @ (if 65535 < asn \<or> four then put_u32 asn else put_u16 (ucast asn))"
| "attr_value (LargeCommunitiesAttribute cs) = concat (map encode_community cs)"

fun attr_wire_flags :: "path_attribute \<Rightarrow> byte" where
  "attr_wire_flags (MpReachNLRIAttribute nh ps) = attrFlagOptional"
| "attr_wire_flags (MpUnreachNLRIAttribute ps) = attrFlagOptional"
| "attr_wire_flags (LargeCommunitiesAttribute cs) = (attrFlagOptional OR attrFlagTransitive)"
| "attr_wire_flags _ = attrFlagTransitive"

text \<open>Attributes that fit on the wire.\<close>

fun attr_ok :: "path_attribute \<Rightarrow> bool" where
  "attr_ok (NextHopAttribute nh) = (is4 nh \<and> addr_ok nh)"
| "attr_ok (MpReachNLRIAttribute nh ps) = (addr_ok nh \<and> (\<forall>p \<in> set ps. network p \<and> p_fam p = IPv6))"
| "attr_ok (MpUnreachNLRIAttribute ps) = (\<forall>p \<in> set ps. network p \<and> p_fam p = IPv6)"
| "attr_ok _ = True"

text \<open>The decoder does not recover whether AS_PATH was written with four octets.\<close>

fun attr_seen :: "path_attribute \<Rightarrow> path_attribute" where
  "attr_seen (ASPathAttribute asn four) = ASPathAttribute asn False"
| "attr_seen a = a"

lemma serialize_attribute_ok:
  "attr_ok a \<Longrightarrow> serialize_attribute a = Inr (encode_path_attribute (attr_wire_flags a) (TypeCode a) (attr_value a))"
  by (cases a) (auto simp: addr_as4_def)

lemma flags_not_extended: "attr_wire_flags a AND attrFlagExtendedLength = 0"
  by (cases a) (simp_all add: attr_flags)

lemma flags_extended: "attrFlagExtendedLength \<noteq> 0"
  by (simp add: attr_flags)

lemma decode_path_attributes_step:
  assumes "length val \<le> 65535" "flags AND attrFlagExtendedLength = 0"
    and "\<And>f. decode_path_attribute f t val = Inr (Some a)"
  shows "decode_path_attributes (encode_path_attribute flags t val @ rest) acc =
    decode_path_attributes rest (acc @ [a])"
proof (cases "255 < length val")
  case True
  define len where "len = put_u16 (word_of_nat (length val) :: u16)"
  have len: "length len = 2" "unat (get_u16 len) = length val"
    using assms(1) by (simp_all add: len_def unat_u16_of_nat)
  let ?d = "(flags OR attrFlagExtendedLength) # t # len @ val @ rest"
  have s2: "(slice ?d 2 4 :: byte list wire) = Inr len" using len(1) by (simp add: slice_def numeral_eq_Suc)
  have s4: "(slice ?d 4 (4 + length val) :: byte list wire) = Inr val"
    and sr: "\<And>n. n = 4 + (length val + length rest) \<Longrightarrow> (slice ?d (4 + length val) n :: byte list wire) = Inr rest"
    using len(1) by (simp_all add: slice_def numeral_eq_Suc)
  have al: "attr_lengths ?d (flags OR attrFlagExtendedLength) = Inr (length val, 4)"
    using len s2 by (simp add: attr_lengths_def flags_extended)
  have "decode_path_attributes ?d acc = decode_path_attributes rest (acc @ [a])"
    using len(1) by (subst decode_path_attributes.simps) (simp add: idx_def al s4 sr assms(3) del: append_Cons)
  then show ?thesis using True by (simp add: encode_path_attribute_def len_def)
next
  case False
  have n: "unat (word_of_nat (length val) :: byte) = length val" using False by (simp add: unat_byte_of_nat)
  let ?d = "flags # t # word_of_nat (length val) # val @ rest"
  have s3: "(slice ?d 3 (3 + length val) :: byte list wire) = Inr val"
    and sr: "\<And>n. n = 3 + (length val + length rest) \<Longrightarrow> (slice ?d (3 + length val) n :: byte list wire) = Inr rest"
    by (simp_all add: slice_def numeral_eq_Suc)
  have al: "attr_lengths ?d flags = Inr (length val, 3)"
    using n by (simp add: attr_lengths_def assms(2) idx_def)
  have "decode_path_attributes ?d acc = decode_path_attributes rest (acc @ [a])"
    by (subst decode_path_attributes.simps) (simp add: idx_def al s3 sr assms(3) del: append_Cons)
  then show ?thesis using False by (simp add: encode_path_attribute_def)
qed

lemma copy_into_exact: "length bs = n \<Longrightarrow> copy_into n bs = bs"
  by (simp add: copy_into_def)

lemma length_encode_community [simp]: "length (encode_community c) = 12"
  by (simp add: encode_community_def)

lemma decode_communities_encode:
  "length pre = 12 * i \<Longrightarrow>
     decode_communities (length cs) (pre @ concat (map encode_community cs)) i = Inr cs"
proof (induction cs arbitrary: pre i)
  case Nil
  then show ?case by simp
next
  case (Cons c cs)
  let ?rest = "concat (map encode_community cs)"
  have "(slice (pre @ encode_community c @ ?rest) (i * 12) (i * 12 + 4) :: byte list wire) = Inr (put_u32 (GlobalAdmin c))"
    "(slice (pre @ encode_community c @ ?rest) (i * 12 + 4) (i * 12 + 8) :: byte list wire) = Inr (put_u32 (LocalData1 c))"
    "(slice (pre @ encode_community c @ ?rest) (i * 12 + 8) (i * 12 + 12) :: byte list wire) = Inr (put_u32 (LocalData2 c))"
    using Cons.prems by (simp_all add: slice_def encode_community_def)
  moreover have "decode_communities (length cs) ((pre @ encode_community c) @ ?rest) (Suc i) = Inr cs"
    using Cons.prems by (intro Cons.IH) simp
  ultimately show ?case by (simp add: Let_def)
qed

lemma length_concat_communities: "length (concat (map encode_community cs)) = 12 * length cs"
  by (induction cs) simp_all

lemma bitlen_bytes: "bitlen f div 8 = 4 \<and> f = IPv4 \<or> bitlen f div 8 = 16 \<and> f = IPv6"
  by (cases f) simp_all

lemma decode_mp_reach_encode:
  assumes "addr_ok nh" "\<forall>p \<in> set ps. network p \<and> p_fam p = IPv6"
  shows "decode_mp_reach (attr_value (MpReachNLRIAttribute nh ps)) = Inr (MpReachNLRIAttribute nh ps)"
proof -
  define bs where "bs = as_slice nh"
  define d where "d = encode_prefixes ps"
  define n where "n = length bs"
  have n: "n = 4 \<and> a_fam nh = IPv4 \<or> n = 16 \<and> a_fam nh = IPv6"
    using bitlen_bytes [of "a_fam nh"] by (auto simp: n_def bs_def)
  then have un: "unat (word_of_nat n :: byte) = n" by (intro unat_byte_of_nat) auto
  have dec: "decode_prefixes d 2 [] = Inr ps"
    using assms(2) decode_encode_prefixes [of ps 2 "[]"] by (simp add: d_def wire_family_def)
  have dps: "d = [] \<Longrightarrow> ps = []" by (cases ps) (simp_all add: d_def encode_prefixes_def encode_prefix_def)
  let ?v = "0 # 2 # 1 # word_of_nat n # bs @ 0 # d"
  have s: "(slice ?v 0 2 :: byte list wire) = Inr [0, 2]" "(idx ?v 3 :: byte wire) = Inr (word_of_nat n)"
    "(slice ?v 4 (4 + n) :: byte list wire) = Inr bs"
    "\<And>m. m = 5 + n + length d \<Longrightarrow> (slice ?v (5 + n) m :: byte list wire) = Inr d"
    by (simp_all add: slice_def idx_def n_def numeral_eq_Suc)
  have afi: "get_u16 [0, 2] = 2" by (simp add: get_u16_def be_nat_def)
  have nh: "addr_from4 bs = nh" if "n = 4" using that n assms(1) addr_of_slice_family(2) by (auto simp: bs_def)
  have nh6: "addr_from16 bs = nh" if "n = 16" using that n assms(1) addr_of_slice_family(1) by (auto simp: bs_def)
  have nh_ok: "(if n = 4 then bindE (to_array 4 bs) (\<lambda>a. Inr (addr_from4 a))
      else if n = 16 then bindE (to_array 16 bs) (\<lambda>a. Inr (addr_from16 a))
      else if n = 32 then bindE (slice bs 0 16) (\<lambda>h. bindE (to_array 16 h) (\<lambda>a. Inr (addr_from16 a)))
      else fail (MpReachBadNextHop n)) = (Inr nh :: addr wire)"
    using n nh nh6 by (auto simp: to_array_def simp flip: n_def)
  have "decode_mp_reach ?v = Inr (MpReachNLRIAttribute nh ps)"
  proof (cases "d = []")
    case True
    then have "ps = []" by (rule dps)
    then show ?thesis
      using s(1-3) True nh_ok
      by (simp add: decode_mp_reach_def un Let_def split del: if_split cong: if_cong flip: n_def)
  next
    case False
    then show ?thesis
      by (simp add: decode_mp_reach_def s un afi dec nh_ok Let_def split del: if_split cong: if_cong flip: n_def)
  qed
  then show ?thesis by (simp add: bs_def d_def n_def)
qed

lemma ucast_u16_u32: "(asn :: u32) \<le> 65535 \<Longrightarrow> ucast (ucast asn :: u16) = asn"
proof -
  assume "asn \<le> 65535"
  then have "unat asn < 65536" by (simp add: word_le_nat_alt)
  then show ?thesis by (simp add: word_unat_eq_iff unsigned_ucast_eq unsigned_take_bit_eq take_bit_nat_eq_self)
qed

lemma decode_attribute_encode:
  assumes "attr_ok a"
  shows "decode_path_attribute f (TypeCode a) (attr_value a) = Inr (Some (attr_seen a))"
proof (cases a)
  case (OriginAttribute v)
  then show ?thesis by (simp add: decode_path_attribute_def idx_def)
next
  case (NextHopAttribute nh)
  then have "length (as_slice nh) = 4" "addr_from4 (as_slice nh) = nh"
    using assms addr_of_slice_family(2) by (auto simp: is4_def)
  with NextHopAttribute show ?thesis
    by (simp add: decode_path_attribute_def attr_codes copy_into_exact del: length_as_slice)
next
  case (MpReachNLRIAttribute nh ps)
  with assms decode_mp_reach_encode [of nh ps] show ?thesis
    by (simp add: decode_path_attribute_def attr_codes)
next
  case (MpUnreachNLRIAttribute ps)
  have dec: "decode_prefixes (encode_prefixes ps) 2 [] = Inr ps"
    using assms MpUnreachNLRIAttribute decode_encode_prefixes [of ps 2 "[]"] by (simp add: wire_family_def)
  have dps: "encode_prefixes ps = [] \<Longrightarrow> ps = []"
    by (cases ps) (simp_all add: encode_prefixes_def encode_prefix_def)
  have "get_u16 [0, 2] = 2" by (simp add: get_u16_def be_nat_def)
  moreover have "(slice (0 # 2 # 1 # d) 0 2 :: byte list wire) = Inr [0, 2]"
    "(slice (0 # 2 # 1 # d) 3 (Suc (Suc (Suc (length d)))) :: byte list wire) = Inr d" for d :: "byte list"
    by (simp_all add: slice_def numeral_eq_Suc)
  ultimately have "decode_mp_unreach (attr_value a) = Inr a"
    using MpUnreachNLRIAttribute dec dps by (auto simp: decode_mp_unreach_def)
  with MpUnreachNLRIAttribute show ?thesis
    by (simp add: decode_path_attribute_def attr_codes)
next
  case (ASPathAttribute asn four)
  show ?thesis
  proof (cases "65535 < asn \<or> four")
    case True
    then have "attr_value a = 2 # 1 # put_u32 asn" using ASPathAttribute by simp
    with ASPathAttribute show ?thesis
      by (simp add: decode_path_attribute_def attr_codes decode_as_path_def idx_def slice_def Let_def)
  next
    case False
    then have v: "attr_value a = 2 # 1 # put_u16 (ucast asn)" using ASPathAttribute by simp
    have "ucast (ucast asn :: u16) = asn" using False by (intro ucast_u16_u32) (simp add: not_less)
    with v ASPathAttribute show ?thesis
      by (simp add: decode_path_attribute_def attr_codes decode_as_path_def idx_def slice_def Let_def)
  qed
next
  case (LargeCommunitiesAttribute cs)
  with decode_communities_encode [of "[]" 0 cs] show ?thesis
    by (simp add: decode_path_attribute_def attr_codes length_concat_communities)
qed

section \<open>Attribute lists and UPDATE\<close>

definition attrs_bytes :: "path_attribute list \<Rightarrow> byte list" where
  "attrs_bytes as = concat (map (\<lambda>a. encode_path_attribute (attr_wire_flags a) (TypeCode a) (attr_value a)) as)"

lemma attrs_bytes_simps [simp]:
  "attrs_bytes [] = []"
  "attrs_bytes (a # as) = encode_path_attribute (attr_wire_flags a) (TypeCode a) (attr_value a) @ attrs_bytes as"
  by (simp_all add: attrs_bytes_def)

lemma encode_path_attributes_ok:
  "\<forall>a \<in> set as. attr_ok a \<Longrightarrow> encode_path_attributes as = Inr (attrs_bytes as)"
  by (induction as) (simp_all add: serialize_attribute_ok)

lemma length_encode_path_attribute:
  "length val \<le> length (encode_path_attribute f t val)"
  by (simp add: encode_path_attribute_def)

lemma decode_encode_attributes:
  assumes "\<forall>a \<in> set as. attr_ok a" "length (attrs_bytes as) \<le> 65535"
  shows "decode_path_attributes (attrs_bytes as) acc = Inr (acc @ map attr_seen as)"
  using assms
proof (induction as arbitrary: acc)
  case Nil
  then show ?case by (simp add: decode_path_attributes.simps)
next
  case (Cons a as)
  have "length (attr_value a) \<le> 65535"
    using Cons.prems(2) length_encode_path_attribute [of "attr_value a" "attr_wire_flags a" "TypeCode a"]
    by simp
  then have "decode_path_attributes (attrs_bytes (a # as)) acc = decode_path_attributes (attrs_bytes as) (acc @ [attr_seen a])"
    using Cons.prems(1) flags_not_extended
    by (simp only: attrs_bytes_simps) (intro decode_path_attributes_step decode_attribute_encode, auto)
  also have "\<dots> = Inr ((acc @ [attr_seen a]) @ map attr_seen as)"
    using Cons.prems by (intro Cons.IH) simp_all
  finally show ?case by simp
qed

definition update_ok :: "update_message \<Rightarrow> bool" where
  "update_ok u =
     ((\<forall>p \<in> set (WithdrawnRoutes u) \<union> set (NLRI u). network p \<and> p_fam p = IPv4) \<and>
      (\<forall>a \<in> set (PathAttributes u). attr_ok a))"

definition update_body :: "update_message \<Rightarrow> byte list" where
  "update_body u =
     put_u16 (word_of_nat (length (encode_prefixes (WithdrawnRoutes u)))) @ encode_prefixes (WithdrawnRoutes u) @
     put_u16 (word_of_nat (length (attrs_bytes (PathAttributes u)))) @ attrs_bytes (PathAttributes u) @
     encode_prefixes (NLRI u)"

definition update_seen :: "update_message \<Rightarrow> update_message" where
  "update_seen u = u\<lparr>PathAttributes := map attr_seen (PathAttributes u)\<rparr>"

lemma serialize_update_ok: "update_ok u \<Longrightarrow> serialize_update u = Inr (wrap_message MsgUpdate (update_body u))"
  by (simp add: serialize_update_def update_ok_def encode_path_attributes_ok update_body_def Let_def)

lemma decode_update_parts:
  assumes "length wd \<le> 65535" "length pa \<le> 65535"
    and "decode_prefixes wd 1 [] = Inr ws" "decode_path_attributes pa [] = Inr as" "decode_prefixes nl 1 [] = Inr ns"
  shows "decode_update (put_u16 (word_of_nat (length wd)) @ wd @ put_u16 (word_of_nat (length pa)) @ pa @ nl) =
    Inr \<lparr>WithdrawnRoutes = ws, PathAttributes = as, NLRI = ns\<rparr>"
proof -
  let ?n = "put_u16 (word_of_nat (length wd))" and ?m = "put_u16 (word_of_nat (length pa))"
  have n: "unat (get_u16 ?n) = length wd" "unat (get_u16 ?m) = length pa"
    using assms(1,2) by (simp_all add: unat_u16_of_nat)
  have s: "(slice (?n @ xs) 0 2 :: byte list wire) = Inr ?n"
    "k = 2 + length xs \<Longrightarrow> (slice (?n @ xs) 2 k :: byte list wire) = Inr xs"
    "(slice (?m @ xs) 0 2 :: byte list wire) = Inr ?m"
    "k = 2 + length xs \<Longrightarrow> (slice (?m @ xs) 2 k :: byte list wire) = Inr xs"
    "(slice (wd @ xs) 0 (length wd) :: byte list wire) = Inr wd"
    "k = length wd + length xs \<Longrightarrow> (slice (wd @ xs) (length wd) k :: byte list wire) = Inr xs"
    "(slice (pa @ xs) 0 (length pa) :: byte list wire) = Inr pa"
    "k = length pa + length xs \<Longrightarrow> (slice (pa @ xs) (length pa) k :: byte list wire) = Inr xs" for xs k
    by (simp_all add: slice_def)
  show ?thesis
    by (simp only: decode_update_def Let_def length_append length_put s n bindE_Inr assms not_less le_add1
        if_False not_add_less1)
qed

lemma decode_update_body:
  assumes "update_ok u" "length (update_body u) \<le> 65535"
  shows "decode_update (update_body u) = Inr (update_seen u)"
proof -
  have p: "decode_prefixes (encode_prefixes ps) 1 [] = Inr ps" if "\<forall>p \<in> set ps. network p \<and> p_fam p = IPv4" for ps
    using that decode_encode_prefixes [of ps 1 "[]"] by (simp add: wire_family_def)
  have a: "decode_path_attributes (attrs_bytes (PathAttributes u)) [] = Inr (map attr_seen (PathAttributes u))"
    using assms decode_encode_attributes [of "PathAttributes u" "[]"] by (simp add: update_ok_def update_body_def)
  have "decode_update (update_body u) =
      Inr \<lparr>WithdrawnRoutes = WithdrawnRoutes u, PathAttributes = map attr_seen (PathAttributes u), NLRI = NLRI u\<rparr>"
    unfolding update_body_def
    using assms a by (intro decode_update_parts p) (auto simp: update_body_def update_ok_def)
  then show ?thesis by (simp add: update_seen_def)
qed

section \<open>The other messages\<close>

lemma decode_notification_body:
  "decode_notification ([ErrorCode n, ErrorSubcode n] @ Data n) = Inr n"
  by (simp add: decode_notification_def idx_def slice_def)

lemma decode_capabilities_step:
  assumes "length val = unat n"
  shows "decode_capabilities (code # n # val @ rest) m =
    bindE (if code = 65 \<and> unat n = 4 then Inr (m\<lparr>MyASN32 := get_u32 val, HasAS4Cap := True\<rparr>) else Inr m) (\<lambda>m.
    decode_capabilities rest
      (if code = 1 \<and> unat n = 4 \<and> get_u16 (take 2 val) = 2 \<and> val ! 3 = 1 then m\<lparr>HasIPv6Unicast := True\<rparr> else m))"
  using assms
  by (subst decode_capabilities.simps) (auto simp: idx_def slice_def Let_def nth_append numeral_eq_Suc)

lemma decode_capabilities_Nil: "decode_capabilities [] m = Inr m"
  by (simp add: decode_capabilities.simps)

lemma decode_cap_list:
  "decode_capabilities ([1, 4, 0, 2, 0, 1] @ [1, 4, 0, 1, 0, 1] @ [65, 4] @ put_u32 asn @ [2, 0]) m =
    Inr (m\<lparr>HasIPv6Unicast := True, MyASN32 := asn, HasAS4Cap := True\<rparr>)"
proof -
  have afi: "get_u16 [0, 2] = 2" "get_u16 [0, 1] \<noteq> 2" by (simp_all add: get_u16_def be_nat_def)
  have a: "decode_capabilities (1 # 4 # [0, 2, 0, 1] @ xs) m = decode_capabilities xs (m\<lparr>HasIPv6Unicast := True\<rparr>)" for xs m
    using decode_capabilities_step [of "[0, 2, 0, 1]" 4 1 xs m] afi by simp
  have b: "decode_capabilities (1 # 4 # [0, 1, 0, 1] @ xs) m = decode_capabilities xs m" for xs m
    using decode_capabilities_step [of "[0, 1, 0, 1]" 4 1 xs m] afi by simp
  have c: "decode_capabilities (65 # 4 # put_u32 asn @ xs) m = decode_capabilities xs (m\<lparr>MyASN32 := asn, HasAS4Cap := True\<rparr>)" for xs m
    using decode_capabilities_step [of "put_u32 asn" 4 65 xs m] by simp
  have d: "decode_capabilities [2, 0] m = Inr m" for m
    using decode_capabilities_step [of "[]" 0 2 "[]" m] by (simp add: decode_capabilities_Nil)
  show ?thesis using a b c d by simp
qed

lemma decode_opts_cap_param:
  "decode_opts (cap_param asn) m = Inr (m\<lparr>HasIPv6Unicast := True, MyASN32 := asn, HasAS4Cap := True\<rparr>)"
proof -
  define caps where "caps = [1, 4, 0, 2, 0, 1] @ [1, 4, 0, 1, 0, 1] @ [65, 4] @ put_u32 asn @ [2, 0 :: byte]"
  have c: "cap_param asn = 2 # 20 # caps" by (simp add: cap_param_def caps_def)
  have "length caps = 20" by (simp add: caps_def)
  then have "(slice (2 # 20 # caps) 2 22 :: byte list wire) = Inr caps"
    "(slice (2 # 20 # caps) 22 22 :: byte list wire) = Inr []"
    by (simp_all add: slice_def)
  with \<open>length caps = 20\<close> decode_cap_list [of asn m, folded caps_def]
  have "decode_opts (2 # 20 # caps) m = Inr (m\<lparr>HasIPv6Unicast := True, MyASN32 := asn, HasAS4Cap := True\<rparr>)"
    by (subst decode_opts.simps) (simp add: idx_def decode_opts.simps [of "[]"])
  then show ?thesis by (simp add: c)
qed

definition open_ok :: "open_message \<Rightarrow> bool" where
  "open_ok o1 = (Version o1 = 4 \<and> length (BGPID o1) = 4)"

text \<open>What the peer learns from an OPEN.\<close>

definition open_seen :: "open_message \<Rightarrow> open_message" where
  "open_seen o1 =
     o1\<lparr>MyASN := (if 65535 < MyASN32 o1 then 23456 else ucast (MyASN32 o1)),
        OptParmLen := 22, HasIPv6Unicast := True, HasAS4Cap := True\<rparr>"

definition open_body :: "open_message \<Rightarrow> byte list" where
  "open_body o1 = [Version o1] @ put_u16 (MyASN o1) @ put_u16 (HoldTime o1) @ BGPID o1 @ [OptParmLen o1] @ cap_param (MyASN32 o1)"

lemma length_cap_param [simp]: "length (cap_param asn) = 22"
  by (simp add: cap_param_def)

lemma serialize_open_eq:
  "serialize_open o1 =
    (wrap_message MsgOpen (open_body (o1\<lparr>OptParmLen := 22, MyASN := (if 65535 < MyASN32 o1 then 23456 else ucast (MyASN32 o1))\<rparr>)),
     o1\<lparr>OptParmLen := 22, MyASN := (if 65535 < MyASN32 o1 then 23456 else ucast (MyASN32 o1))\<rparr>)"
  by (simp add: serialize_open_def open_body_def Let_def)

lemma decode_open_body:
  assumes "open_ok o1" "OptParmLen o1 = 22"
  shows "decode_open (open_body o1) = Inr (o1\<lparr>HasIPv6Unicast := True, HasAS4Cap := True\<rparr>)"
proof -
  let ?b = "open_body o1"
  have v: "Version o1 = 4" and id: "length (BGPID o1) = 4" using assms(1) by (auto simp: open_ok_def)
  have len: "length ?b = 32" using id by (simp add: open_body_def)
  have s: "(idx ?b 0 :: byte wire) = Inr 4" "(idx ?b 9 :: byte wire) = Inr 22"
    "(slice ?b 1 3 :: byte list wire) = Inr (put_u16 (MyASN o1))"
    "(slice ?b 3 5 :: byte list wire) = Inr (put_u16 (HoldTime o1))"
    "(slice ?b 5 9 :: byte list wire) = Inr (BGPID o1)"
    "(slice ?b 10 32 :: byte list wire) = Inr (cap_param (MyASN32 o1))"
    using id v assms(2) by (simp_all add: open_body_def idx_def slice_def nth_append)
  show ?thesis
    using s len assms(2) v by (simp add: decode_open_def Let_def decode_opts_cap_param)
qed

section \<open>Framing\<close>

lemma decode_header_wrap:
  assumes "length body \<le> 65516"
  shows "decode_header (take HeaderLen (wrap_message t body @ rest)) =
    Inr \<lparr>Length = word_of_nat (HeaderLen + length body), Type = t\<rparr>"
proof -
  define w where "w = (word_of_nat (HeaderLen + length body) :: u16)"
  define n where "n = put_u16 w"
  have n: "length n = 2" "get_u16 n = w" by (simp_all add: n_def)
  have t: "take HeaderLen (wrap_message t body @ rest) = replicate 16 0xFF @ n @ [t]"
    by (simp add: wrap_message_def HeaderLen_def w_def n_def)
  have s: "(slice (replicate 16 0xFF @ n @ [t]) 0 16 :: byte list wire) = Inr (replicate 16 0xFF)"
    "(slice (replicate 16 0xFF @ n @ [t]) 16 18 :: byte list wire) = Inr n"
    "(idx (replicate 16 0xFF @ n @ [t]) 18 :: byte wire) = Inr t"
    using n(1) by (simp_all add: slice_def idx_def nth_append)
  have all: "\<not> list_ex (\<lambda>b. b \<noteq> 0xFF) (replicate 16 (0xFF :: byte))" by (simp add: list_ex_iff)
  have "unat w = HeaderLen + length body" using assms by (simp add: w_def HeaderLen_def unat_u16_of_nat del: of_nat_add of_nat_numeral)
  then have le: "\<not> w < word_of_nat HeaderLen" by (simp add: word_less_nat_alt HeaderLen_def)
  have "\<not> length (replicate 16 (0xFF :: byte) @ n @ [t]) < HeaderLen" using n(1) by (simp add: HeaderLen_def)
  then show ?thesis
    unfolding t w_def [symmetric] by (simp only: decode_header_def s bindE_Inr all Let_def header.simps n le if_False)
qed

lemma read_wrapped:
  assumes "length body \<le> 65516" "decode_body t body = Inr m"
  shows "read_message (wrap_message t body @ rest) = Inr (m, rest)"
proof -
  have d: "drop HeaderLen (wrap_message t body @ rest) = body @ rest"
    and l: "length (wrap_message t body) = HeaderLen + length body"
    by (simp_all add: wrap_message_def HeaderLen_def)
  have n: "unat (word_of_nat (HeaderLen + length body) :: u16) - HeaderLen = length body"
    using assms(1) by (subst unat_u16_of_nat) (simp_all add: HeaderLen_def)
  have "\<not> length (wrap_message t body @ rest) < HeaderLen" "\<not> length (body @ rest) < length body"
    using l by simp_all
  then show ?thesis
    using assms(2)
    by (simp only: read_message_def decode_header_wrap [OF assms(1)] bindE_Inr Let_def d if_False header.simps n)
      simp
qed

section \<open>What the decoder returns\<close>

text \<open>\<open>gives P r\<close>: if \<open>r\<close> is a value, it satisfies \<open>P\<close>.\<close>

definition gives :: "('a \<Rightarrow> bool) \<Rightarrow> ('e, 'a) result \<Rightarrow> bool" where
  "gives P r = (\<forall>x. r = Inr x \<longrightarrow> P x)"

lemma gives_Inr: "P x \<Longrightarrow> gives P (Inr x)" and gives_fail: "gives P (fail e)"
  by (simp_all add: gives_def)

lemma gives_bindE: "(\<And>x. r = Inr x \<Longrightarrow> gives P (f x)) \<Longrightarrow> gives P (bindE r f)"
  by (auto simp: gives_def bindE_eq_Inr_iff)

lemma gives_if: "(c \<Longrightarrow> gives P a) \<Longrightarrow> (\<not> c \<Longrightarrow> gives P b) \<Longrightarrow> gives P (if c then a else b)"
  by simp

lemma gives_let: "(\<And>x. x = e \<Longrightarrow> gives P (f x)) \<Longrightarrow> gives P (Let e f)"
  by simp

lemma givesD: "gives P r \<Longrightarrow> r = Inr x \<Longrightarrow> P x"
  by (simp add: gives_def)

lemmas gives_steps = gives_Inr gives_fail gives_bindE gives_if gives_let

lemma addr_from_ok: "length bs = 16 \<Longrightarrow> addr_ok (addr_from16 bs)" "length bs = 4 \<Longrightarrow> addr_ok (addr_from4 bs)"
  using be_nat_bound [of bs] by (simp_all add: addr_ok_def addr_from16_def addr_from4_def)

lemma addr_from_fam [simp]: "a_fam (addr_from16 bs) = IPv6" "a_fam (addr_from4 bs) = IPv4"
  by (simp_all add: addr_from16_def addr_from4_def)

lemma length_copy_into [simp]: "length (copy_into n bs) = n"
  by (simp add: copy_into_def)

lemma prefix_from_ok: "addr_ok a \<Longrightarrow> prefix_is_valid (prefix_from a b) \<Longrightarrow> prefix_ok (prefix_from a b)"
  by (auto simp: prefix_ok_def prefix_from_def split: if_splits)

lemma p_fam_prefix_from [simp]: "p_fam (prefix_from a b) = a_fam a"
  by (simp add: prefix_from_def)

definition received :: "family \<Rightarrow> prefix list \<Rightarrow> bool" where
  "received f ps = (\<forall>p \<in> set ps. prefix_ok p \<and> p_fam p = f)"

lemma received_append:
  assumes "received (wire_family afi) acc"
    and "prefix_is_valid (prefix_from (if afi = 2 then addr_from16 (copy_into 16 bs) else addr_from4 (copy_into 4 bs)) b)"
  shows "received (wire_family afi)
    (acc @ [prefix_from (if afi = 2 then addr_from16 (copy_into 16 bs) else addr_from4 (copy_into 4 bs)) b])"
  using assms by (auto simp: received_def wire_family_def intro!: prefix_from_ok addr_from_ok)

lemma decode_prefixes_received:
  "received (wire_family afi) acc \<Longrightarrow> gives (received (wire_family afi)) (decode_prefixes data afi acc)"
proof (induction "length data" arbitrary: data acc rule: less_induct)
  case less
  from less.prems show ?case
    by (subst decode_prefixes.simps)
      (auto intro!: gives_steps less.hyps received_append dest!: slice_length split del: if_split)
qed

lemma decode_prefixes_start: "gives (received (wire_family afi)) (decode_prefixes data afi [])"
  by (rule decode_prefixes_received) (simp add: received_def)

fun attr_valid :: "path_attribute \<Rightarrow> bool" where
  "attr_valid (NextHopAttribute nh) = (is4 nh \<and> addr_ok nh)"
| "attr_valid (MpReachNLRIAttribute nh ps) = (addr_ok nh \<and> (\<forall>p \<in> set ps. prefix_ok p))"
| "attr_valid (MpUnreachNLRIAttribute ps) = (\<forall>p \<in> set ps. prefix_ok p)"
| "attr_valid _ = True"

lemma to_array_length: "to_array n bs = Inr a \<Longrightarrow> length a = n"
  by (auto simp: to_array_def split: if_splits)

lemma decode_prefixes_prefix_ok:
  "(if c then decode_prefixes data afi [] else Inr []) = Inr ps \<Longrightarrow> \<forall>p \<in> set ps. prefix_ok p"
  using decode_prefixes_start [of afi data] by (auto simp: gives_def received_def split: if_splits)

lemma decode_path_attribute_valid:
  "decode_path_attribute f t val = Inr (Some a) \<Longrightarrow> attr_valid a"
proof -
  have reach: "gives attr_valid (decode_mp_reach val)"
    by (auto simp: decode_mp_reach_def bindE_eq_Inr_iff addr_from_ok split: if_splits
        intro!: gives_steps dest!: to_array_length givesD [OF decode_prefixes_start])
      (auto simp: received_def addr_from_ok)
  have unreach: "gives attr_valid (decode_mp_unreach val)"
    by (auto simp: decode_mp_unreach_def received_def split: if_splits
        intro!: gives_steps dest!: givesD [OF decode_prefixes_start])
  have as_path: "gives attr_valid (decode_as_path val)"
    by (auto simp: decode_as_path_def intro!: gives_steps)
  have "gives (\<lambda>r. case r of None \<Rightarrow> True | Some a \<Rightarrow> attr_valid a) (decode_path_attribute f t val)"
    using givesD [OF reach] givesD [OF unreach] givesD [OF as_path]
    by (auto simp: decode_path_attribute_def is4_def addr_from_ok intro!: gives_steps)
  then show "decode_path_attribute f t val = Inr (Some a) \<Longrightarrow> attr_valid a" by (auto dest: givesD)
qed

lemma decode_path_attributes_valid:
  "\<forall>a \<in> set acc. attr_valid a \<Longrightarrow> gives (\<lambda>as. \<forall>a \<in> set as. attr_valid a) (decode_path_attributes data acc)"
proof (induction "length data" arbitrary: data acc rule: less_induct)
  case less
  from less.prems show ?case
    by (subst decode_path_attributes.simps)
      (auto intro!: gives_steps less.hyps dest!: slice_length attr_lengths_header
        dest: decode_path_attribute_valid split del: if_split split: option.splits prod.split)
qed

definition same_open :: "open_message \<Rightarrow> open_message \<Rightarrow> bool" where
  "same_open m m' = (Version m' = Version m \<and> BGPID m' = BGPID m)"

lemma same_open_simps [simp]: "same_open m m"
    "same_open m (m'\<lparr>MyASN32 := a, HasAS4Cap := b\<rparr>) = same_open m m'"
    "same_open m (m'\<lparr>HasIPv6Unicast := b\<rparr>) = same_open m m'"
  by (simp_all add: same_open_def)

lemma gives_via: "gives Q r \<Longrightarrow> (\<And>x. Q x \<Longrightarrow> gives P (f x)) \<Longrightarrow> gives P (bindE r f)"
  by (auto simp: gives_def bindE_eq_Inr_iff)

lemma decode_capabilities_keeps: "same_open m0 m \<Longrightarrow> gives (same_open m0) (decode_capabilities data m)"
proof (induction "length data" arbitrary: data m rule: less_induct)
  case less
  have step: "gives (same_open m0)
      (bindE (if c then bindE r (\<lambda>w. Inr (m\<lparr>MyASN32 := get_u32 w, HasAS4Cap := True\<rparr>)) else Inr m) (\<lambda>m.
       bindE (if c' then bindE r1 (\<lambda>afi. bindE r2 (\<lambda>safi.
          Inr (if get_u16 afi = 2 \<and> safi = 1 then m\<lparr>HasIPv6Unicast := True\<rparr> else m))) else Inr m) (\<lambda>m.
       bindE (slice data (2 + n) (length data)) (\<lambda>d. decode_capabilities d m))))"
    if "\<not> length data < 2" for c c' r r1 r2 n
  proof (rule gives_via [of "same_open m0"], goal_cases)
    case 1
    then show ?case using less.prems by (auto intro!: gives_steps)
  next
    case (2 m1)
    show ?case
    proof (rule gives_via [of "same_open m0"], goal_cases)
      case 1
      then show ?case using 2 by (auto intro!: gives_steps)
    next
      case (2 m2)
      then show ?case using less.hyps that by (auto intro!: gives_bindE dest!: slice_length)
    qed
  qed
  show ?case
    by (subst decode_capabilities.simps) (intro gives_if gives_let gives_bindE gives_Inr less.prems step; simp)
qed

lemma decode_opts_keeps: "same_open m0 m \<Longrightarrow> gives (same_open m0) (decode_opts data m)"
proof (induction "length data" arbitrary: data m rule: less_induct)
  case less
  have step: "gives (same_open m0) (bindE (if c then decode_capabilities d m else Inr m) (\<lambda>m.
      bindE (slice data (2 + n) (length data)) (\<lambda>d. decode_opts d m)))"
    if "\<not> length data < 2" for c d n
    using decode_capabilities_keeps [OF less.prems] less.prems less.hyps that
    by (intro gives_via [of "same_open m0"]) (auto intro!: gives_bindE gives_Inr dest!: slice_length)
  show ?case
    by (subst decode_opts.simps) (intro gives_if gives_let gives_bindE gives_Inr less.prems step; simp)
qed

fun message_valid :: "message \<Rightarrow> bool" where
  "message_valid (Open m) = (Version m = 4 \<and> length (BGPID m) = 4)"
| "message_valid (Update u) =
     (received IPv4 (WithdrawnRoutes u) \<and> received IPv4 (NLRI u) \<and> (\<forall>a \<in> set (PathAttributes u). attr_valid a))"
| "message_valid _ = True"

lemma decode_update_valid: "decode_update data = Inr u \<Longrightarrow> message_valid (Update u)"
proof -
  have "decode_prefixes d 1 [] = Inr ps \<Longrightarrow> received IPv4 ps" for d ps
    using givesD [OF decode_prefixes_start [of 1 d]] by (simp add: wire_family_def)
  moreover have "decode_path_attributes d [] = Inr as \<Longrightarrow> \<forall>a \<in> set as. attr_valid a" for d as
    using givesD [OF decode_path_attributes_valid [of "[]" d]] by simp
  ultimately have "gives (\<lambda>u. message_valid (Update u)) (decode_update data)"
    by (auto simp: decode_update_def intro!: gives_steps)
  then show "decode_update data = Inr u \<Longrightarrow> message_valid (Update u)" by (rule givesD)
qed

lemma decode_open_valid: "decode_open data = Inr m \<Longrightarrow> message_valid (Open m)"
  by (auto simp: decode_open_def bindE_eq_Inr_iff Let_def same_open_def split: if_splits
      dest!: slice_length givesD [OF decode_opts_keeps [OF same_open_simps(1)]])

lemma decode_body_valid: "decode_body t body = Inr m \<Longrightarrow> message_valid m"
  by (auto simp: decode_body_def bindE_eq_Inr_iff split: if_splits
      dest!: decode_open_valid decode_update_valid)

section \<open>Properties\<close>


text \<open>C34: an UPDATE that fits its length fields is read back from the stream as it was written, with
  the bytes after it untouched; only the choice of four-octet AS_PATH encoding is not recovered.\<close>

theorem read_update_roundtrip:
  assumes "update_ok u" "length (update_body u) \<le> 65516"
  shows "\<exists>bs. serialize_update u = Inr bs \<and> read_message (bs @ rest) = Inr (Update (update_seen u), rest)"
proof -
  have "decode_body MsgUpdate (update_body u) = Inr (Update (update_seen u))"
    using assms by (simp add: decode_body_def msg_types decode_update_body)
  then show ?thesis using read_wrapped [OF assms(2)] assms(1) by (simp add: serialize_update_ok)
qed

definition sample_update :: update_message where
  "sample_update = \<lparr>WithdrawnRoutes = [Prefix (Addr IPv4 0x0A000000) 8],
     PathAttributes = [OriginAttribute 0, ASPathAttribute 65001 True, NextHopAttribute (Addr IPv4 1),
       MpReachNLRIAttribute (Addr IPv6 1) [Prefix (Addr IPv6 0) 0],
       LargeCommunitiesAttribute [\<lparr>GlobalAdmin = 65001, LocalData1 = 7, LocalData2 = 0\<rparr>]],
     NLRI = [Prefix (Addr IPv4 0x0A000080) 25]\<rparr>"

theorem read_update_roundtrip_witness:
  "\<exists>bs. serialize_update sample_update = Inr bs \<and> read_message (bs @ [1, 2]) = Inr (Update (update_seen sample_update), [1, 2])"
  by (rule read_update_roundtrip)
    (simp_all add: sample_update_def update_ok_def network_def prefix_ok_def prefix_is_valid_def addr_ok_def masked_def
      is4_def update_body_def encode_prefixes_def encode_prefix_def bytes_needed_def encode_path_attribute_def)

text \<open>an OPEN of version 4 is read back with the four-octet AS number and both capabilities, and
  its two-byte AS field carries AS_TRANS exactly when the AS number does not fit.\<close>

theorem read_open_roundtrip:
  assumes "open_ok m"
  shows "read_message (fst (serialize_open m) @ rest) = Inr (Open (open_seen m), rest)"
proof -
  let ?m = "m\<lparr>OptParmLen := 22, MyASN := (if 65535 < MyASN32 m then 23456 else ucast (MyASN32 m))\<rparr>"
  have ok: "open_ok ?m" "OptParmLen ?m = 22" using assms by (simp_all add: open_ok_def)
  have "length (open_body ?m) \<le> 65516" using assms by (simp add: open_body_def open_ok_def)
  moreover have "decode_body MsgOpen (open_body ?m) = Inr (Open (open_seen m))"
    by (simp only: decode_body_def decode_open_body [OF ok]) (simp add: open_seen_def)
  ultimately show ?thesis unfolding serialize_open_eq fst_conv by (rule read_wrapped)
qed

theorem read_open_roundtrip_witness:
  "read_message (fst (serialize_open \<lparr>Version = 4, MyASN = 0, MyASN32 = 4200000000, HoldTime = 90,
      BGPID = [10, 0, 0, 1], OptParmLen = 0, HasIPv6Unicast = False, HasAS4Cap = False\<rparr>) @ []) =
    Inr (Open \<lparr>Version = 4, MyASN = 23456, MyASN32 = 4200000000, HoldTime = 90,
      BGPID = [10, 0, 0, 1], OptParmLen = 22, HasIPv6Unicast = True, HasAS4Cap = True\<rparr>, [])"
  by (subst read_open_roundtrip) (simp_all add: open_ok_def open_seen_def)

text \<open>KEEPALIVE and NOTIFICATION are read back as written.\<close>

theorem read_short_messages:
  assumes "length (Data n) \<le> 65514"
  shows "read_message (serialize_keepalive @ rest) = Inr (Keepalive, rest) \<and>
    read_message (serialize_notification n @ rest) = Inr (Notification n, rest)"
proof
  show "read_message (serialize_keepalive @ rest) = Inr (Keepalive, rest)"
    unfolding serialize_keepalive_def by (rule read_wrapped) (simp_all add: decode_body_def msg_types)
  have "decode_body MsgNotification ([ErrorCode n, ErrorSubcode n] @ Data n) = Inr (Notification n)"
    by (simp only: decode_body_def decode_notification_body) (simp add: msg_types)
  then show "read_message (serialize_notification n @ rest) = Inr (Notification n, rest)"
    unfolding serialize_notification_def using assms by (intro read_wrapped) simp_all
qed

theorem read_short_messages_witness:
  "read_message (serialize_notification \<lparr>ErrorCode = 6, ErrorSubcode = 2, Data = []\<rparr> @ []) =
    Inr (Notification \<lparr>ErrorCode = 6, ErrorSubcode = 2, Data = []\<rparr>, [])"
  using read_short_messages [of "\<lparr>ErrorCode = 6, ErrorSubcode = 2, Data = []\<rparr>" "[]"] by simp

lemma nat_be_2: "nat_be 2 v = [word_of_nat (v div 256 mod 256), word_of_nat (v mod 256)]"
  by (simp add: numeral_2_eq_2)

text \<open>\<open>decodeASPath\<close> guesses the width of AS numbers from the length of the whole attribute, so
  the two-octet path of two segments AS_SEQUENCE(65000), AS_SET(100) is read as the four-octet AS number
  0xFDE80101.\<close>

theorem as_path_width_misread:
  "decode_as_path ([2, 1] @ put_u16 65000 @ [1, 1] @ put_u16 100) = Inr (ASPathAttribute 0xFDE80101 False)"
proof -
  have "put_u16 65000 = [0xFD, 0xE8]" "put_u16 100 = [0, 100]"
    by (simp_all add: put_u16_def nat_be_2)
  then show ?thesis
    by (simp add: decode_as_path_def idx_def slice_def get_u32_def be_nat_def)
qed

end
