(* ===== verification/Bgp_Peer.thy ===== *)
theory Bgp_Peer
  imports Bgp_Wire_Roundtrip
begin

text \<open>
  \<open>internal/bgp/peer_routes.go\<close>, \<open>peer_fsm.go\<close> and the configuration records of \<open>speaker.go\<close>:
  one BGP peer, the resynchronisation of its routes, and its state machine. What a socket does is
  the environment of a run: the outcome of every write and the result of every read.
\<close>

section \<open>Configuration and state\<close>

record speaker_config =
  spk_ASN :: u32
  spk_RouterID :: addr
  spk_Port :: int
  spk_LocalAddr :: "addr option"
  spk_HoldTime :: u16
  spk_DynamicPeerMD5Match :: bool

record peer_config =
  pc_ID :: int
  pc_Address :: addr
  pc_Port :: int
  pc_ASN :: u32
  pc_Password :: "byte list"
  pc_Name :: string
  pc_LocalAddr :: "addr option"

record route =
  r_prefix :: prefix
  r_communities :: "large_community list"
  r_next_hop :: addr

datatype fsm_state = StateIdle | StateConnect | StateOpenSent | StateOpenConfirm | StateEstablished

text \<open>\<open>conn\<close> tells whether a connection is set; \<open>holdTime\<close> is in seconds.\<close>

record peer =
  p_cfg :: peer_config
  p_spk :: speaker_config
  p_conn :: bool
  p_routes :: "route list"
  p_state :: fsm_state
  p_holdTime :: nat
  p_stopping :: bool
  p_needsUpdate :: bool
  p_hasIPv6Cap :: bool
  p_hasAS4Cap :: bool
  p_lastSent :: "prefix list"

definition NewPeer :: "peer_config \<Rightarrow> speaker_config \<Rightarrow> peer" where
  "NewPeer c s = \<lparr>p_cfg = c, p_spk = s, p_conn = False, p_routes = [], p_state = StateIdle, p_holdTime = 0,
     p_stopping = False, p_needsUpdate = False, p_hasIPv6Cap = False, p_hasAS4Cap = False, p_lastSent = []\<rparr>"

section \<open>Routes\<close>

definition maxPrefixesPerUpdate :: nat where "maxPrefixesPerUpdate = 100"

definition TriggerUpdate :: "peer \<Rightarrow> peer" where
  "TriggerUpdate p = p\<lparr>p_needsUpdate := True\<rparr>"

definition resetSent :: "peer \<Rightarrow> peer" where
  "resetSent p = p\<lparr>p_lastSent := []\<rparr>"

function chunk_loop :: "prefix list \<Rightarrow> nat \<Rightarrow> prefix list list" where
  "chunk_loop prefixes start =
     (if start < length prefixes then
        (let end_i = (if length prefixes < start + maxPrefixesPerUpdate then length prefixes
                      else start + maxPrefixesPerUpdate)
         in take (end_i - start) (drop start prefixes) # chunk_loop prefixes (start + maxPrefixesPerUpdate))
      else [])"
  by pat_completeness auto
termination
  by (relation "measure (\<lambda>(prefixes, start). length prefixes - start)") (auto simp: maxPrefixesPerUpdate_def)

declare chunk_loop.simps [simp del]

definition chunkPrefixes :: "prefix list \<Rightarrow> prefix list list" where
  "chunkPrefixes prefixes = chunk_loop prefixes 0"

text \<open>
  The key of a group is the string \<open>6|next hop|communities\<close> or \<open>4|...\<close>; it renders the family, the
  next hop and the community list, which are kept as a triple. The groups are in the order of their
  first route (\<open>order\<close> and \<open>groups\<close> of the code).
\<close>

type_synonym attr_key = "bool \<times> addr \<times> large_community list"

fun add_to_group :: "attr_key \<Rightarrow> prefix \<Rightarrow> (attr_key \<times> prefix list) list \<Rightarrow> (attr_key \<times> prefix list) list" where
  "add_to_group k p [] = [(k, [p])]"
| "add_to_group k p ((k', ps) # gs) = (if k = k' then (k', ps @ [p]) # gs else (k', ps) # add_to_group k p gs)"

fun group_routes ::
  "bool \<Rightarrow> route list \<Rightarrow> (attr_key \<times> prefix list) list \<Rightarrow> prefix list \<Rightarrow> (attr_key \<times> prefix list) list \<times> prefix list" where
  "group_routes cap [] groups sent = (groups, sent)"
| "group_routes cap (r # rs) groups sent =
     (let v6 = is6 (p_addr (r_prefix r)) in
      if v6 \<and> \<not> cap then group_routes cap rs groups sent
      else group_routes cap rs (add_to_group (v6, r_next_hop r, r_communities r) (r_prefix r) groups)
             (sent @ [r_prefix r]))"

definition group_update :: "peer \<Rightarrow> attr_key \<Rightarrow> prefix list \<Rightarrow> update_message" where
  "group_update p k chunk =
     (let (v6, next_hop, comms) = k in
      if v6 then
        \<lparr>WithdrawnRoutes = [],
         PathAttributes = [OriginAttribute 0, ASPathAttribute (spk_ASN (p_spk p)) (p_hasAS4Cap p),
           MpReachNLRIAttribute next_hop chunk, LargeCommunitiesAttribute comms],
         NLRI = []\<rparr>
      else
        \<lparr>WithdrawnRoutes = [],
         PathAttributes = [OriginAttribute 0, ASPathAttribute (spk_ASN (p_spk p)) (p_hasAS4Cap p),
           NextHopAttribute next_hop, LargeCommunitiesAttribute comms],
         NLRI = chunk\<rparr>)"

definition withdraw_v4 :: "prefix list \<Rightarrow> update_message" where
  "withdraw_v4 chunk = \<lparr>WithdrawnRoutes = chunk, PathAttributes = [], NLRI = []\<rparr>"

definition withdraw_v6 :: "prefix list \<Rightarrow> update_message" where
  "withdraw_v6 chunk = \<lparr>WithdrawnRoutes = [], PathAttributes = [MpUnreachNLRIAttribute chunk], NLRI = []\<rparr>"

definition resync_updates :: "peer \<Rightarrow> update_message list \<times> prefix list" where
  "resync_updates p =
     (let desired = map r_prefix (p_routes p);
          gone = filter (\<lambda>pf. pf \<notin> set desired) (p_lastSent p);
          withdrawV6 = filter (\<lambda>pf. is6 (p_addr pf)) gone;
          withdrawV4 = filter (\<lambda>pf. \<not> is6 (p_addr pf)) gone;
          (groups, sent) = group_routes (p_hasIPv6Cap p) (p_routes p) [] []
      in (map withdraw_v4 (chunkPrefixes withdrawV4) @ map withdraw_v6 (chunkPrefixes withdrawV6) @
          concat (map (\<lambda>(k, nlri). map (group_update p k) (chunkPrefixes nlri)) groups),
          sent))"

text \<open>
  The updates are written in order until a write fails; \<open>ok i\<close> is the outcome of the \<open>i\<close>-th write of
  this call. The result is the updates the peer received, and whether all were written.
\<close>

fun write_all :: "(nat \<Rightarrow> bool) \<Rightarrow> nat \<Rightarrow> update_message list \<Rightarrow> update_message list \<times> bool" where
  "write_all ok i [] = ([], True)"
| "write_all ok i (u # us) =
     (if \<not> ok i then ([], False)
      else (let (sent, all) = write_all ok (Suc i) us in (u # sent, all)))"

definition resyncRoutes :: "(nat \<Rightarrow> bool) \<Rightarrow> peer \<Rightarrow> update_message list \<times> bool \<times> peer" where
  "resyncRoutes ok p =
     (let (updates, sent_prefixes) = resync_updates p;
          (sent, all) = write_all ok 0 updates
      in if all then (sent, True, p\<lparr>p_lastSent := sent_prefixes\<rparr>)
         else (sent, False, p\<lparr>p_needsUpdate := True\<rparr>))"

definition AnnounceRoutes :: "(nat \<Rightarrow> bool) \<Rightarrow> route list \<Rightarrow> peer \<Rightarrow> update_message list \<times> bool \<times> peer" where
  "AnnounceRoutes ok routes p0 =
     (let p = p0\<lparr>p_routes := routes\<rparr> in
      if p_conn p \<and> p_state p = StateEstablished then resyncRoutes ok p
      else ([], True, p\<lparr>p_needsUpdate := True\<rparr>))"

definition WithdrawRoutes :: "(nat \<Rightarrow> bool) \<Rightarrow> prefix list \<Rightarrow> peer \<Rightarrow> update_message list \<times> bool \<times> peer" where
  "WithdrawRoutes ok prefixes p0 =
     (let p = p0\<lparr>p_routes := filter (\<lambda>r. r_prefix r \<notin> set prefixes) (p_routes p0)\<rparr> in
      if p_conn p \<and> p_state p = StateEstablished then resyncRoutes ok p
      else ([], True, p\<lparr>p_needsUpdate := True\<rparr>))"

section \<open>Chunks\<close>

lemma chunk_loop_done: "length ps \<le> start \<Longrightarrow> chunk_loop ps start = []"
  by (simp add: chunk_loop.simps)

lemma chunk_loop_step:
  "start < length ps \<Longrightarrow> chunk_loop ps start = take 100 (drop start ps) # chunk_loop ps (start + 100)"
  by (subst chunk_loop.simps) (simp add: Let_def maxPrefixesPerUpdate_def)

lemma chunk_loop_facts:
  "concat (chunk_loop ps start) = drop start ps \<and>
    (\<forall>c \<in> set (chunk_loop ps start). c \<noteq> [] \<and> length c \<le> 100 \<and> set c \<subseteq> set ps)"
proof (induction "length ps - start" arbitrary: start rule: less_induct)
  case less
  show ?case
  proof (cases "start < length ps")
    case False
    then show ?thesis by (simp add: chunk_loop_done)
  next
    case True
    have "concat (chunk_loop ps (start + 100)) = drop (start + 100) ps \<and>
      (\<forall>c \<in> set (chunk_loop ps (start + 100)). c \<noteq> [] \<and> length c \<le> 100 \<and> set c \<subseteq> set ps)"
      using True by (intro less.hyps) simp
    moreover have "take 100 (drop start ps) @ drop (start + 100) ps = drop start ps"
      by (metis append_take_drop_id drop_drop add.commute)
    moreover have "set (take 100 (drop start ps)) \<subseteq> set ps"
      by (meson order.trans set_drop_subset set_take_subset)
    ultimately show ?thesis using True by (simp add: chunk_loop_step)
  qed
qed

lemma concat_chunks [simp]: "concat (chunkPrefixes ps) = ps"
  using chunk_loop_facts [of ps 0] by (simp add: chunkPrefixes_def)

lemma chunk_bounds: "c \<in> set (chunkPrefixes ps) \<Longrightarrow> c \<noteq> [] \<and> length c \<le> 100 \<and> set c \<subseteq> set ps"
  using chunk_loop_facts [of ps 0] by (simp add: chunkPrefixes_def)

section \<open>What the remote side holds\<close>

text \<open>
  The routes a peer holds from this speaker: a map from prefixes to next hop and communities, changed
  by every UPDATE as RFC 4271 and RFC 4760 say. This is the specification \<open>resyncRoutes\<close> is
  measured against.
\<close>

type_synonym rib = "prefix \<Rightarrow> (addr \<times> large_community list) option"

definition clear_all :: "prefix list \<Rightarrow> rib \<Rightarrow> rib" where
  "clear_all ps rib = (\<lambda>q. if q \<in> set ps then None else rib q)"

definition set_all :: "prefix list \<Rightarrow> addr \<times> large_community list \<Rightarrow> rib \<Rightarrow> rib" where
  "set_all ps v rib = (\<lambda>q. if q \<in> set ps then Some v else rib q)"

fun attrs_next_hop :: "path_attribute list \<Rightarrow> addr option" where
  "attrs_next_hop [] = None"
| "attrs_next_hop (NextHopAttribute nh # as) = Some nh"
| "attrs_next_hop (_ # as) = attrs_next_hop as"

fun attrs_communities :: "path_attribute list \<Rightarrow> large_community list" where
  "attrs_communities [] = []"
| "attrs_communities (LargeCommunitiesAttribute cs # as) = cs @ attrs_communities as"
| "attrs_communities (_ # as) = attrs_communities as"

fun mp_attribute :: "large_community list \<Rightarrow> path_attribute \<Rightarrow> rib \<Rightarrow> rib" where
  "mp_attribute cs (MpUnreachNLRIAttribute ps) rib = clear_all ps rib"
| "mp_attribute cs (MpReachNLRIAttribute nh ps) rib = set_all ps (nh, cs) rib"
| "mp_attribute cs _ rib = rib"

definition apply_update :: "update_message \<Rightarrow> rib \<Rightarrow> rib" where
  "apply_update u rib =
     (let cs = attrs_communities (PathAttributes u);
          r1 = clear_all (WithdrawnRoutes u) rib;
          r2 = fold (mp_attribute cs) (PathAttributes u) r1
      in case attrs_next_hop (PathAttributes u) of None \<Rightarrow> r2 | Some nh \<Rightarrow> set_all (NLRI u) (nh, cs) r2)"

lemma all_simps [simp]: "clear_all [] rib = rib" "set_all [] v rib = rib"
    "set_all ps v (set_all qs v rib) = set_all (qs @ ps) v rib"
    "clear_all ps (clear_all qs rib) = clear_all (qs @ ps) rib"
  by (auto simp: clear_all_def set_all_def fun_eq_iff)

lemma apply_withdraw [simp]:
  "apply_update (withdraw_v4 c) rib = clear_all c rib" "apply_update (withdraw_v6 c) rib = clear_all c rib"
  by (simp_all add: apply_update_def withdraw_v4_def withdraw_v6_def)

definition key_value :: "attr_key \<Rightarrow> addr \<times> large_community list" where
  "key_value k = snd k"

lemma apply_group_update [simp]: "apply_update (group_update p k c) rib = set_all c (key_value k) rib"
  by (cases k) (simp add: apply_update_def group_update_def key_value_def)

lemma apply_chunks:
  "fold apply_update (map withdraw_v4 cs) rib = clear_all (concat cs) rib"
  "fold apply_update (map withdraw_v6 cs) rib = clear_all (concat cs) rib"
  "fold apply_update (map (group_update p k) cs) rib = set_all (concat cs) (key_value k) rib"
  by (induction cs arbitrary: rib) simp_all

definition apply_groups :: "(attr_key \<times> prefix list) list \<Rightarrow> rib \<Rightarrow> rib" where
  "apply_groups gs rib = fold (\<lambda>(k, ps) r. set_all ps (key_value k) r) gs rib"

lemma apply_groups_simps [simp]:
  "apply_groups [] rib = rib" "apply_groups ((k, ps) # gs) rib = apply_groups gs (set_all ps (key_value k) rib)"
  by (simp_all add: apply_groups_def)

lemma apply_group_updates:
  "fold apply_update (concat (map (\<lambda>(k, nlri). map (group_update p k) (chunkPrefixes nlri)) gs)) rib = apply_groups gs rib"
  by (induction gs arbitrary: rib) (auto simp: apply_chunks)

section \<open>Grouping\<close>

definition grouped :: "(attr_key \<times> prefix list) list \<Rightarrow> prefix set" where
  "grouped gs = (\<Union>(k, ps) \<in> set gs. set ps)"

lemma grouped_simps [simp]: "grouped [] = {}" "grouped ((k, ps) # gs) = set ps \<union> grouped gs"
  by (auto simp: grouped_def)

lemma grouped_add [simp]: "grouped (add_to_group k p gs) = insert p (grouped gs)"
  by (induction k p gs rule: add_to_group.induct) auto

lemma apply_groups_fresh: "p \<notin> grouped gs \<Longrightarrow> apply_groups gs (rib(p \<mapsto> v)) = (apply_groups gs rib)(p \<mapsto> v)"
proof (induction gs arbitrary: rib)
  case Nil
  then show ?case by simp
next
  case (Cons g gs)
  obtain k ps where g: "g = (k, ps)" by fastforce
  have "set_all ps (key_value k) (rib(p \<mapsto> v)) = (set_all ps (key_value k) rib)(p \<mapsto> v)"
    using Cons.prems by (auto simp: g set_all_def fun_eq_iff)
  moreover have "p \<notin> grouped gs" using Cons.prems by (simp add: g)
  ultimately show ?case using Cons.IH by (simp only: g apply_groups_simps simp_thms)
qed

lemma apply_groups_add:
  "p \<notin> grouped gs \<Longrightarrow> apply_groups (add_to_group k p gs) rib = (apply_groups gs rib)(p \<mapsto> key_value k)"
proof (induction k p gs arbitrary: rib rule: add_to_group.induct)
  case (1 k p)
  then show ?case by (auto simp: set_all_def fun_eq_iff)
next
  case (2 k p k' ps gs)
  show ?case
  proof (cases "k = k'")
    case True
    have "set_all (ps @ [p]) (key_value k) rib = (set_all ps (key_value k) rib)(p \<mapsto> key_value k)"
      by (auto simp: set_all_def fun_eq_iff)
    with True 2 show ?thesis by (simp add: apply_groups_fresh)
  next
    case False
    with 2 show ?thesis by simp
  qed
qed

definition eligible :: "bool \<Rightarrow> route \<Rightarrow> bool" where
  "eligible cap r = (is6 (p_addr (r_prefix r)) \<longrightarrow> cap)"

definition route_entry :: "route \<Rightarrow> prefix \<times> addr \<times> large_community list" where
  "route_entry r = (r_prefix r, r_next_hop r, r_communities r)"

lemma group_routes_facts:
  assumes "distinct (map r_prefix rs)" "grouped gs \<inter> r_prefix ` set rs = {}"
  shows "snd (group_routes cap rs gs sent) = sent @ map r_prefix (filter (eligible cap) rs) \<and>
    apply_groups (fst (group_routes cap rs gs sent)) rib =
      apply_groups gs rib ++ map_of (map route_entry (filter (eligible cap) rs))"
  using assms
proof (induction cap rs gs sent rule: group_routes.induct)
  case (1 cap gs sent)
  then show ?case by simp
next
  case (2 cap r rs gs sent)
  let ?v6 = "is6 (p_addr (r_prefix r))"
  show ?case
  proof (cases "eligible cap r")
    case False
    with 2 show ?thesis by (simp add: eligible_def Let_def)
  next
    case True
    let ?k = "(?v6, r_next_hop r, r_communities r)"
    have fresh: "r_prefix r \<notin> grouped gs" "r_prefix r \<notin> r_prefix ` set rs" using 2(4,3) by auto
    have IH: "snd (group_routes cap rs (add_to_group ?k (r_prefix r) gs) (sent @ [r_prefix r])) =
        (sent @ [r_prefix r]) @ map r_prefix (filter (eligible cap) rs) \<and>
      apply_groups (fst (group_routes cap rs (add_to_group ?k (r_prefix r) gs) (sent @ [r_prefix r]))) rib =
        apply_groups (add_to_group ?k (r_prefix r) gs) rib ++ map_of (map route_entry (filter (eligible cap) rs))"
      using True 2(3,4) by (intro "2.IH"(2)) (auto simp: eligible_def)
    have "r_prefix r \<notin> dom (map_of (map route_entry (filter (eligible cap) rs)))"
      using fresh(2) by (auto simp: dom_map_of_conv_image_fst route_entry_def image_iff)
    then have "(apply_groups gs rib)(r_prefix r \<mapsto> key_value ?k) ++ map_of (map route_entry (filter (eligible cap) rs)) =
        apply_groups gs rib ++ (map_of (map route_entry (filter (eligible cap) rs)))(r_prefix r \<mapsto> key_value ?k)"
      by (simp add: map_add_upd_left)
    moreover have "map_of (map route_entry (filter (eligible cap) (r # rs))) =
        (map_of (map route_entry (filter (eligible cap) rs)))(r_prefix r \<mapsto> key_value ?k)"
      using True by (simp add: route_entry_def key_value_def)
    moreover have "group_routes cap (r # rs) gs sent =
        group_routes cap rs (add_to_group ?k (r_prefix r) gs) (sent @ [r_prefix r])"
      using True by (auto simp: eligible_def Let_def)
    moreover have "sent @ map r_prefix (filter (eligible cap) (r # rs)) =
        (sent @ [r_prefix r]) @ map r_prefix (filter (eligible cap) rs)"
      using True by simp
    ultimately show ?thesis using IH by (simp only: apply_groups_add [OF fresh(1)] simp_thms)
  qed
qed

section \<open>Convergence\<close>

text \<open>\<open>lastSent\<close> bounds what the remote holds.\<close>

definition rib_known :: "peer \<Rightarrow> rib \<Rightarrow> bool" where
  "rib_known p rib = (dom rib \<subseteq> set (p_lastSent p) \<and> (\<forall>q \<in> set (p_lastSent p). is6 (p_addr q) \<longrightarrow> p_hasIPv6Cap p))"

definition desired_rib :: "peer \<Rightarrow> rib" where
  "desired_rib p = map_of (map route_entry (filter (eligible (p_hasIPv6Cap p)) (p_routes p)))"

lemma dom_desired_rib: "dom (desired_rib p) = r_prefix ` set (filter (eligible (p_hasIPv6Cap p)) (p_routes p))"
  by (simp add: desired_rib_def dom_map_of_conv_image_fst route_entry_def image_image)

lemma resync_updates_rib:
  assumes "rib_known p rib" "distinct (map r_prefix (p_routes p))"
  shows "fold apply_update (fst (resync_updates p)) rib = desired_rib p"
    and "snd (resync_updates p) = map r_prefix (filter (eligible (p_hasIPv6Cap p)) (p_routes p))"
proof -
  define desired where "desired = map r_prefix (p_routes p)"
  define gone where "gone = filter (\<lambda>pf. pf \<notin> set desired) (p_lastSent p)"
  define w4 where "w4 = filter (\<lambda>pf. \<not> is6 (p_addr pf)) gone"
  define w6 where "w6 = filter (\<lambda>pf. is6 (p_addr pf)) gone"
  let ?cap = "p_hasIPv6Cap p"
  let ?g = "group_routes ?cap (p_routes p) [] []"
  have r: "resync_updates p =
      (map withdraw_v4 (chunkPrefixes w4) @ map withdraw_v6 (chunkPrefixes w6) @
        concat (map (\<lambda>(k, nlri). map (group_update p k) (chunkPrefixes nlri)) (fst ?g)), snd ?g)"
    by (simp add: resync_updates_def Let_def desired_def gone_def w4_def w6_def case_prod_unfold)
  note g = group_routes_facts [OF assms(2), of "[]" ?cap "[]", simplified]
  show "snd (resync_updates p) = map r_prefix (filter (eligible ?cap) (p_routes p))"
    using g by (simp add: r)
  have "fold apply_update (fst (resync_updates p)) rib = clear_all gone rib ++ desired_rib p"
    using g by (simp add: r apply_chunks apply_group_updates desired_rib_def)
      (auto simp: clear_all_def w4_def w6_def fun_eq_iff map_add_def split: option.splits)
  also have "\<dots> = desired_rib p"
  proof
    fix q
    show "(clear_all gone rib ++ desired_rib p) q = desired_rib p q"
    proof (cases "desired_rib p q")
      case (Some v)
      then show ?thesis by simp
    next
      case None
      have "rib q = None" if "q \<notin> set gone"
      proof (rule ccontr)
        assume "rib q \<noteq> None"
        then have q: "q \<in> set (p_lastSent p)" "is6 (p_addr q) \<longrightarrow> ?cap"
          using assms(1) by (auto simp: rib_known_def)
        then have "q \<in> set desired" using that by (auto simp: gone_def)
        then obtain r where "r \<in> set (p_routes p)" "r_prefix r = q" by (auto simp: desired_def)
        then have "q \<in> dom (desired_rib p)"
          using q(2) by (auto simp: dom_desired_rib eligible_def image_iff simp del: is4_is6)
        with None show False by (simp add: dom_def)
      qed
      with None show ?thesis by (simp add: map_add_def clear_all_def)
    qed
  qed
  finally show "fold apply_update (fst (resync_updates p)) rib = desired_rib p" .
qed

lemma write_all_True: "write_all ok i us = (sent, True) \<Longrightarrow> sent = us"
  by (induction us arbitrary: i sent) (auto split: if_splits prod.splits)

lemma write_all_prefix: "\<exists>n. fst (write_all ok i us) = take n us"
proof (induction us arbitrary: i)
  case Nil
  then show ?case by simp
next
  case (Cons u us)
  obtain n where "fst (write_all ok (Suc i) us) = take n us" using Cons by blast
  then have "fst (write_all ok i (u # us)) = take (if ok i then Suc n else 0) (u # us)"
    by (simp add: case_prod_unfold Let_def)
  then show ?case by blast
qed

section \<open>Every update fits a BGP message\<close>

definition route_ok :: "route \<Rightarrow> bool" where
  "route_ok r =
     (network (r_prefix r) \<and> addr_ok (r_next_hop r) \<and> (is4 (p_addr (r_prefix r)) \<longrightarrow> is4 (r_next_hop r)) \<and>
      length (r_communities r) \<le> 3)"

definition group_ok :: "attr_key \<times> prefix list \<Rightarrow> bool" where
  "group_ok g =
     (let ((v6, nh, cs), ps) = g in
      addr_ok nh \<and> (\<not> v6 \<longrightarrow> is4 nh) \<and> length cs \<le> 3 \<and>
      (\<forall>p \<in> set ps. network p \<and> p_fam p = (if v6 then IPv6 else IPv4)))"

lemma fam_neq: "f \<noteq> IPv4 \<longleftrightarrow> f = IPv6"
  by (cases f) simp_all

lemma group_ok_add:
  assumes "\<forall>g \<in> set gs. group_ok g" "route_ok r"
  shows "\<forall>g \<in> set (add_to_group (is6 (p_addr (r_prefix r)), r_next_hop r, r_communities r) (r_prefix r) gs). group_ok g"
  using assms
proof (induction gs)
  case Nil
  then show ?case by (cases "p_fam (r_prefix r)") (auto simp: group_ok_def route_ok_def is4_def)
next
  case (Cons g gs)
  then show ?case
    by (cases g; cases "p_fam (r_prefix r)") (auto simp: group_ok_def route_ok_def is4_def)
qed

lemma group_routes_ok:
  "\<forall>r \<in> set rs. route_ok r \<Longrightarrow> \<forall>g \<in> set gs. group_ok g \<Longrightarrow>
     \<forall>g \<in> set (fst (group_routes cap rs gs sent)). group_ok g"
proof (induction cap rs gs sent rule: group_routes.induct)
  case (1 cap gs sent)
  then show ?case by simp
next
  case (2 cap r rs gs sent)
  let ?v6 = "is6 (p_addr (r_prefix r))"
  show ?case
  proof (cases "?v6 \<and> \<not> cap")
    case True
    then have "group_routes cap (r # rs) gs sent = group_routes cap rs gs sent" by simp
    moreover have "\<forall>g \<in> set (fst (group_routes cap rs gs sent)). group_ok g"
      using "2.IH"(1) [OF refl True] "2.prems" by simp
    ultimately show ?thesis by simp
  next
    case False
    let ?gs = "add_to_group (?v6, r_next_hop r, r_communities r) (r_prefix r) gs"
    have "group_routes cap (r # rs) gs sent = group_routes cap rs ?gs (sent @ [r_prefix r])"
      using False by (auto simp: Let_def)
    moreover have "\<forall>g \<in> set (fst (group_routes cap rs ?gs (sent @ [r_prefix r]))). group_ok g"
      using "2.IH"(2) [OF refl False] "2.prems" group_ok_add [of gs r] by simp
    ultimately show ?thesis by simp
  qed
qed

lemma length_encode_prefixes_le:
  "\<forall>p \<in> set ps. network p \<Longrightarrow> length (encode_prefixes ps) \<le> 17 * length ps"
proof (induction ps)
  case Nil
  then show ?case by (simp add: encode_prefixes_def)
next
  case (Cons p ps)
  have "bytes_needed (p_bits p) \<le> 16"
    using Cons.prems network_sel(5) [of p] bitlen_le_128 [of "p_fam p"] by (simp add: bytes_needed_def)
  with Cons show ?case by (simp add: encode_prefixes_def length_encode_prefix)
qed

lemma length_attribute_le: "length (encode_path_attribute f t val) \<le> length val + 4"
  by (simp add: encode_path_attribute_def)

lemma chunk_encoded:
  assumes "\<forall>p \<in> set ps. network p" "c \<in> set (chunkPrefixes ps)"
  shows "length (encode_prefixes c) \<le> 1700"
proof -
  have "\<forall>p \<in> set c. network p" "length c \<le> 100" using assms chunk_bounds by blast+
  then show ?thesis using length_encode_prefixes_le [of c] by linarith
qed

lemma withdraw_ok:
  assumes "\<forall>p \<in> set ps. network p" "c \<in> set (chunkPrefixes ps)"
  shows "\<forall>p \<in> set ps. p_fam p = IPv4 \<Longrightarrow> update_ok (withdraw_v4 c)"
    and "\<forall>p \<in> set ps. p_fam p = IPv6 \<Longrightarrow> update_ok (withdraw_v6 c)"
    and "length (update_body (withdraw_v4 c)) \<le> 4077" "length (update_body (withdraw_v6 c)) \<le> 4077"
proof -
  show "\<forall>p \<in> set ps. p_fam p = IPv4 \<Longrightarrow> update_ok (withdraw_v4 c)"
    "\<forall>p \<in> set ps. p_fam p = IPv6 \<Longrightarrow> update_ok (withdraw_v6 c)"
    using assms chunk_bounds by (fastforce simp: update_ok_def withdraw_v4_def withdraw_v6_def)+
  have "length (encode_prefixes c) \<le> 1700" using chunk_encoded assms by blast
  then show "length (update_body (withdraw_v4 c)) \<le> 4077" "length (update_body (withdraw_v6 c)) \<le> 4077"
    using length_attribute_le [of attrFlagOptional AttrMpUnreachNLRI "[0, 2, 1] @ encode_prefixes c"]
    by (simp_all add: update_body_def withdraw_v4_def withdraw_v6_def encode_prefixes_def [of "[]"])
qed

lemma group_update_ok:
  assumes "group_ok (k, ps)" "c \<in> set (chunkPrefixes ps)"
  shows "update_ok (group_update p k c)" "length (update_body (group_update p k c)) \<le> 4077"
proof -
  obtain v6 nh cs where k: "k = (v6, nh, cs)" by (cases k) auto
  have ps: "\<forall>p \<in> set ps. network p \<and> p_fam p = (if v6 then IPv6 else IPv4)" and len: "length cs \<le> 3"
    and nh: "addr_ok nh" "\<not> v6 \<longrightarrow> is4 nh"
    using assms(1) by (auto simp: group_ok_def k)
  have c: "\<forall>p \<in> set c. network p \<and> p_fam p = (if v6 then IPv6 else IPv4)"
    using ps chunk_bounds [OF assms(2)] by blast
  show "update_ok (group_update p k c)"
    using c nh by (auto simp: update_ok_def group_update_def k)
  have e: "length (encode_prefixes c) \<le> 1700" using chunk_encoded assms(2) ps by blast
  have nhl: "length (as_slice nh) \<le> 16" using bitlen_le_128 [of "a_fam nh"] by simp
  note le = length_attribute_le [of attrFlagTransitive AttrOrigin "[0]"]
    length_attribute_le [of attrFlagTransitive AttrASPath
      "attr_value (ASPathAttribute (spk_ASN (p_spk p)) (p_hasAS4Cap p))"]
    length_attribute_le [of attrFlagTransitive AttrNextHop "as_slice nh"]
    length_attribute_le [of attrFlagOptional AttrMpReachNLRI "attr_value (MpReachNLRIAttribute nh c)"]
    length_attribute_le [of "attrFlagOptional OR attrFlagTransitive" AttrLargeCommunities "concat (map encode_community cs)"]
  have asl: "length (attr_value (ASPathAttribute (spk_ASN (p_spk p)) (p_hasAS4Cap p))) \<le> 6" by simp
  have mpl: "length (attr_value (MpReachNLRIAttribute nh c)) \<le> 1721" using e nhl by simp
  have cl: "length (concat (map encode_community cs)) \<le> 36" using len by (simp add: length_concat_communities)
  show "length (update_body (group_update p k c)) \<le> 4077"
  proof (cases v6)
    case True
    then have "length (update_body (group_update p k c)) =
        4 + (length (encode_path_attribute attrFlagTransitive AttrOrigin [0]) +
        (length (encode_path_attribute attrFlagTransitive AttrASPath (attr_value (ASPathAttribute (spk_ASN (p_spk p)) (p_hasAS4Cap p)))) +
        (length (encode_path_attribute attrFlagOptional AttrMpReachNLRI (attr_value (MpReachNLRIAttribute nh c))) +
         length (encode_path_attribute (attrFlagOptional OR attrFlagTransitive) AttrLargeCommunities (concat (map encode_community cs))))))"
      by (simp add: update_body_def group_update_def k encode_prefixes_def [of "[]"] del: attr_value.simps(3,5))
    with le asl mpl cl show ?thesis by simp
  next
    case False
    then have "length (update_body (group_update p k c)) =
        4 + (length (encode_path_attribute attrFlagTransitive AttrOrigin [0]) +
        (length (encode_path_attribute attrFlagTransitive AttrASPath (attr_value (ASPathAttribute (spk_ASN (p_spk p)) (p_hasAS4Cap p)))) +
        (length (encode_path_attribute attrFlagTransitive AttrNextHop (as_slice nh)) +
         length (encode_path_attribute (attrFlagOptional OR attrFlagTransitive) AttrLargeCommunities (concat (map encode_community cs)))))) +
        length (encode_prefixes c)"
      by (simp add: update_body_def group_update_def k encode_prefixes_def [of "[]"] del: attr_value.simps(5))
    with le asl nhl cl e show ?thesis by simp
  qed
qed

definition peer_ok :: "peer \<Rightarrow> bool" where
  "peer_ok p = ((\<forall>r \<in> set (p_routes p). route_ok r) \<and> (\<forall>q \<in> set (p_lastSent p). network q))"

lemma resync_updates_ok:
  assumes "peer_ok p" "u \<in> set (fst (resync_updates p))"
  shows "update_ok u" "length (update_body u) \<le> 4077"
proof -
  define gone where "gone = filter (\<lambda>pf. pf \<notin> set (map r_prefix (p_routes p))) (p_lastSent p)"
  define w4 where "w4 = filter (\<lambda>pf. \<not> is6 (p_addr pf)) gone"
  define w6 where "w6 = filter (\<lambda>pf. is6 (p_addr pf)) gone"
  let ?g = "fst (group_routes (p_hasIPv6Cap p) (p_routes p) [] [])"
  have u: "u \<in> set (map withdraw_v4 (chunkPrefixes w4)) \<or> u \<in> set (map withdraw_v6 (chunkPrefixes w6)) \<or>
      u \<in> set (concat (map (\<lambda>(k, nlri). map (group_update p k) (chunkPrefixes nlri)) ?g))"
    using assms(2) by (auto simp: resync_updates_def Let_def gone_def w4_def w6_def case_prod_unfold)
  have net: "\<forall>q \<in> set w4. network q" "\<forall>q \<in> set w6. network q" "\<forall>q \<in> set w4. p_fam q = IPv4" "\<forall>q \<in> set w6. p_fam q = IPv6"
    using assms(1) by (auto simp: peer_ok_def w4_def w6_def gone_def is4_def fam_neq)
  have gs: "\<forall>g \<in> set ?g. group_ok g" using assms(1) by (intro group_routes_ok) (auto simp: peer_ok_def)
  show "update_ok u" using u net gs withdraw_ok(1,2) group_update_ok(1) by fastforce
  show "length (update_body u) \<le> 4077" using u net gs withdraw_ok(3,4) group_update_ok(2) by fastforce
qed

section \<open>Properties of the resynchronisation\<close>

text \<open>The remote side, reading \<open>n\<close> messages off the session and changing its routes by each.\<close>

fun receive :: "nat \<Rightarrow> byte list \<Rightarrow> rib \<Rightarrow> (rib \<times> byte list) option" where
  "receive 0 bs rib = Some (rib, bs)"
| "receive (Suc n) bs rib =
     (case read_message bs of
        Inr (Update u, rest) \<Rightarrow> receive n rest (apply_update u rib)
      | _ \<Rightarrow> None)"

definition wire_bytes :: "update_message list \<Rightarrow> byte list" where
  "wire_bytes us = concat (map (\<lambda>u. wrap_message MsgUpdate (update_body u)) us)"

lemma apply_update_seen [simp]: "apply_update (update_seen u) = apply_update u"
proof -
  have nh: "attrs_next_hop (map attr_seen as) = attrs_next_hop as" for as
    by (induction as rule: attrs_next_hop.induct) simp_all
  have cs: "attrs_communities (map attr_seen as) = attrs_communities as" for as
    by (induction as rule: attrs_communities.induct) simp_all
  have one: "mp_attribute c (attr_seen a) r = mp_attribute c a r" for c a r by (cases a) simp_all
  have "fold (mp_attribute c) (map attr_seen as) r = fold (mp_attribute c) as r" for c as r
    by (induction as arbitrary: r) (simp_all add: one)
  with nh cs show ?thesis by (intro ext) (simp add: apply_update_def update_seen_def Let_def split: option.split)
qed

lemma receive_wire_bytes:
  "\<forall>u \<in> set us. update_ok u \<and> length (update_body u) \<le> 65516 \<Longrightarrow>
     receive (length us) (wire_bytes us @ rest) rib = Some (fold apply_update us rib, rest)"
proof (induction us arbitrary: rib)
  case Nil
  then show ?case by (simp add: wire_bytes_def)
next
  case (Cons u us)
  have "decode_body MsgUpdate (update_body u) = Inr (Update (update_seen u))"
    using Cons.prems by (simp add: decode_body_def msg_types decode_update_body)
  then have "read_message (wrap_message MsgUpdate (update_body u) @ wire_bytes us @ rest) =
      Inr (Update (update_seen u), wire_bytes us @ rest)"
    using Cons.prems by (intro read_wrapped) simp_all
  with Cons show ?case by (simp add: wire_bytes_def)
qed


definition sample_peer :: peer where
  "sample_peer =
     (NewPeer \<lparr>pc_ID = 1, pc_Address = Addr IPv4 0xC0000201, pc_Port = -1, pc_ASN = 65001, pc_Password = [],
        pc_Name = ''r1'', pc_LocalAddr = None\<rparr>
      \<lparr>spk_ASN = 65000, spk_RouterID = Addr IPv4 1, spk_Port = 179, spk_LocalAddr = None, spk_HoldTime = 90,
       spk_DynamicPeerMD5Match = False\<rparr>)\<lparr>p_conn := True, p_state := StateEstablished\<rparr>"

definition sample_route :: "nat \<Rightarrow> route" where
  "sample_route n = \<lparr>r_prefix = Prefix (Addr IPv4 n) 32, r_communities = [], r_next_hop = Addr IPv4 1\<rparr>"

lemma sample_route_ok: "n < 2 ^ 32 \<Longrightarrow> route_ok (sample_route n)"
  by (simp add: route_ok_def sample_route_def network_def prefix_ok_def prefix_is_valid_def addr_ok_def masked_def is4_def)

lemma resync_all_written: "write_all (\<lambda>i. True) i us = (us, True)"
  by (induction us arbitrary: i) simp_all


text \<open>C32: every UPDATE of a resync of routes that the manager builds (networks, at most three
  communities, an IPv4 next hop for an IPv4 prefix) serialises without a panic into at most the 4096
  bytes of RFC 4271.\<close>

theorem resync_updates_fit:
  assumes "peer_ok p" "u \<in> set (fst (resync_updates p))"
  shows "\<exists>bs. serialize_update u = Inr bs \<and> length bs \<le> 4096"
proof -
  have "length (wrap_message MsgUpdate (update_body u)) \<le> 4096"
    using resync_updates_ok(2) [OF assms] by (simp add: wrap_message_def)
  then show ?thesis using serialize_update_ok [OF resync_updates_ok(1) [OF assms]] by blast
qed

text \<open>a resync that fails keeps \<open>lastSent\<close>, re-arms the update flag and has delivered a front part
  of its updates.\<close>

theorem failed_resync:
  assumes "resyncRoutes ok p = (us, False, p')"
  shows "p' = p\<lparr>p_needsUpdate := True\<rparr> \<and> (\<exists>n. us = take n (fst (resync_updates p)))"
proof -
  have "us = fst (write_all ok 0 (fst (resync_updates p)))" and p': "p' = p\<lparr>p_needsUpdate := True\<rparr>"
    using assms by (auto simp: resyncRoutes_def case_prod_unfold Let_def prod_eq_iff split: if_splits)
  with write_all_prefix [of ok 0 "fst (resync_updates p)"] show ?thesis by auto
qed

definition two_groups :: peer where
  "two_groups = sample_peer\<lparr>p_routes := [sample_route 7, (sample_route 9)\<lparr>r_next_hop := Addr IPv4 2\<rparr>]\<rparr>"

lemma chunk_one: "chunkPrefixes [p] = [[p]]" "chunkPrefixes [] = []"
  by (simp_all add: chunkPrefixes_def chunk_loop_step chunk_loop_done)

lemma two_groups_updates:
  "resync_updates two_groups =
    ([group_update two_groups (False, Addr IPv4 1, []) [Prefix (Addr IPv4 7) 32],
      group_update two_groups (False, Addr IPv4 2, []) [Prefix (Addr IPv4 9) 32]],
     [Prefix (Addr IPv4 7) 32, Prefix (Addr IPv4 9) 32])"
  by (simp add: resync_updates_def two_groups_def sample_peer_def NewPeer_def sample_route_def is4_def chunk_one)

theorem resync_updates_fit_witness:
  "\<exists>bs. serialize_update (hd (fst (resync_updates two_groups))) = Inr bs \<and> length bs \<le> 4096"
proof -
  have "peer_ok two_groups"
    using sample_route_ok by (auto simp: peer_ok_def two_groups_def sample_peer_def NewPeer_def
      sample_route_def route_ok_def addr_ok_def is4_def)
  then show ?thesis by (rule resync_updates_fit) (simp add: two_groups_updates)
qed

theorem failed_resync_witness:
  "snd (snd (resyncRoutes (\<lambda>i. i = 0) two_groups)) = two_groups\<lparr>p_needsUpdate := True\<rparr>"
proof -
  have r: "resyncRoutes (\<lambda>i. i = 0) two_groups =
      ([group_update two_groups (False, Addr IPv4 1, []) [Prefix (Addr IPv4 7) 32]], False, two_groups\<lparr>p_needsUpdate := True\<rparr>)"
    by (simp add: resyncRoutes_def two_groups_updates)
  from failed_resync [OF r] show ?thesis using r by simp
qed

text \<open>because a failed resync does not record what it delivered, a route that it announced and that
  is no longer desired at the next, successful resync stays with the peer: the withdrawal is computed from
  the old \<open>lastSent\<close>. Here the second write times out, the manager then announces the other route only,
  and the peer keeps 0.0.0.7/32, which the speaker believes it does not hold.\<close>

theorem failed_resync_leaves_stale_route:
  "\<exists>us1 p1 us2 p2 rib.
     AnnounceRoutes (\<lambda>i. i = 0) (p_routes two_groups) sample_peer = (us1, False, p1) \<and>
     AnnounceRoutes (\<lambda>i. True) [sample_route 9] p1 = (us2, True, p2) \<and>
     rib = fold apply_update (us1 @ us2) (\<lambda>q. None) \<and>
     Prefix (Addr IPv4 7) 32 \<in> dom rib \<and> Prefix (Addr IPv4 7) 32 \<notin> set (p_lastSent p2) \<and>
     Prefix (Addr IPv4 7) 32 \<notin> r_prefix ` set (p_routes p2)"
proof -
  let ?u = "group_update two_groups (False, Addr IPv4 1, []) [Prefix (Addr IPv4 7) 32]"
  have tg: "sample_peer\<lparr>p_routes := p_routes two_groups\<rparr> = two_groups"
    by (simp add: two_groups_def)
  have est: "p_conn two_groups" "p_state two_groups = StateEstablished" "p_lastSent two_groups = []"
    "p_hasIPv6Cap two_groups = False"
    by (simp_all add: two_groups_def sample_peer_def NewPeer_def)
  have a1: "AnnounceRoutes (\<lambda>i. i = 0) (p_routes two_groups) sample_peer =
      ([?u], False, two_groups\<lparr>p_needsUpdate := True\<rparr>)"
    by (simp add: AnnounceRoutes_def tg est resyncRoutes_def two_groups_updates)
  let ?p1 = "two_groups\<lparr>p_needsUpdate := True, p_routes := [sample_route 9]\<rparr>"
  have ru: "resync_updates ?p1 = ([group_update ?p1 (False, Addr IPv4 1, []) [Prefix (Addr IPv4 9) 32]], [Prefix (Addr IPv4 9) 32])"
    by (simp add: resync_updates_def est sample_route_def is4_def chunk_one)
  have a2: "AnnounceRoutes (\<lambda>i. True) [sample_route 9] (two_groups\<lparr>p_needsUpdate := True\<rparr>) =
      ([group_update ?p1 (False, Addr IPv4 1, []) [Prefix (Addr IPv4 9) 32]], True,
       ?p1\<lparr>p_lastSent := [Prefix (Addr IPv4 9) 32]\<rparr>)"
    by (simp add: AnnounceRoutes_def est resyncRoutes_def ru Let_def)
  show ?thesis
    using a1 a2 by (intro exI conjI) (auto simp: set_all_def key_value_def sample_route_def)
qed

end
