(* ===== verification/Bgp_Fsm.thy ===== *)
theory Bgp_Fsm
  imports Bgp_Peer
begin

text \<open>
  \<open>internal/bgp/peer_fsm.go\<close> and \<open>peer_keepalive.go\<close>: the session of one peer, dialled
  (\<open>connectAndRun\<close>) or accepted (\<open>Accept\<close>, \<open>AcceptWithOpen\<close>), from the handshake to the main loop
  and its end. The environment of a run is the outcome of every write (\<open>ok\<close>), and the list of what
  happens while the session goroutine is blocked in a read: an operation of another goroutine on the
  peer, or the end of the read. The list ends where the observation ends.
\<close>

section \<open>Sessions\<close>

datatype read_result = Got message | ReadTimeout | ReadEOF | ReadError

datatype peer_op = Announce "route list" | Withdraw "prefix list" | Trigger | StopPeer | KeepaliveTick

datatype session_event = Read read_result | Other peer_op

text \<open>The errors \<open>connectAndRun\<close> and \<open>mainLoop\<close> return, and those \<open>Accept\<close> only logs.\<close>

datatype fsm_error =
    ActiveSession | PassiveStopped | DialFailed | WriteOpen | ReadOpen | ExpectedOpen | AsnMismatch u32
  | WriteKeepalive | ReadKeepalive | ReceivedNotification byte byte | ExpectedKeepalive
  | InitialRoutes | RouteUpdate | HoldTimerExpired | PeerClosed | ReadFailed

text \<open>A run ends with a result, waits for an event, or dies of a run-time panic.\<close>

datatype run_result = Ended "fsm_error option" | Blocked | Crashed

text \<open>
  \<open>s_out\<close> are the messages written, \<open>s_writes\<close> counts the attempted writes, \<open>s_states\<close> are the
  arguments of \<open>setState\<close> in order, \<open>s_deadline\<close> is the read deadline last set (in seconds from when it
  was set, \<open>None\<close> for none), \<open>s_ka\<close> tells whether the keepalive goroutine runs, and \<open>s_seen\<close> are the
  arguments of the route callback.
\<close>

record session =
  s_peer :: peer
  s_out :: "message list"
  s_writes :: nat
  s_states :: "fsm_state list"
  s_deadline :: "nat option"
  s_ka :: bool
  s_closed :: bool
  s_has_cb :: bool
  s_seen :: "prefix list list"

definition setState :: "fsm_state \<Rightarrow> session \<Rightarrow> session" where
  "setState st s = s\<lparr>s_peer := (s_peer s)\<lparr>p_state := st\<rparr>, s_states := s_states s @ [st]\<rparr>"

definition setConn :: "bool \<Rightarrow> session \<Rightarrow> session" where
  "setConn b s = s\<lparr>s_peer := (s_peer s)\<lparr>p_conn := b\<rparr>\<rparr>"

definition writeConn :: "(nat \<Rightarrow> bool) \<Rightarrow> message \<Rightarrow> session \<Rightarrow> session \<times> bool" where
  "writeConn ok m s =
     (let s' = s\<lparr>s_writes := Suc (s_writes s)\<rparr> in
      if ok (s_writes s) then (s'\<lparr>s_out := s_out s @ [m]\<rparr>, True) else (s', False))"

definition sendNotification :: "(nat \<Rightarrow> bool) \<Rightarrow> byte \<Rightarrow> byte \<Rightarrow> session \<Rightarrow> session" where
  "sendNotification ok code subcode s =
     fst (writeConn ok (Notification \<lparr>ErrorCode = code, ErrorSubcode = subcode, Data = []\<rparr>) s)"

text \<open>A resynchronisation writes its updates through the session.\<close>

definition deliver :: "session \<Rightarrow> update_message list \<times> bool \<times> peer \<Rightarrow> session \<times> bool" where
  "deliver s r =
     (let (us, all, p) = r in
      (s\<lparr>s_peer := p, s_out := s_out s @ map Update us,
         s_writes := s_writes s + length us + (if all then 0 else 1)\<rparr>, all))"

definition shift :: "(nat \<Rightarrow> bool) \<Rightarrow> session \<Rightarrow> nat \<Rightarrow> bool" where
  "shift ok s i = ok (s_writes s + i)"

definition resync :: "(nat \<Rightarrow> bool) \<Rightarrow> session \<Rightarrow> session \<times> bool" where
  "resync ok s = deliver s (resyncRoutes (shift ok s) (s_peer s))"

definition Stop :: "session \<Rightarrow> session" where
  "Stop s =
     (let p = (s_peer s)\<lparr>p_stopping := True\<rparr> in
      s\<lparr>s_peer := p\<lparr>p_conn := False\<rparr>, s_closed := s_closed s \<or> p_conn p\<rparr>)"

text \<open>
  One tick of \<open>keepaliveLoop\<close>: the goroutine ends when its write fails. Its ticker fires every third
  of the hold time.
\<close>

definition keepalive_tick :: "(nat \<Rightarrow> bool) \<Rightarrow> session \<Rightarrow> session" where
  "keepalive_tick ok s =
     (if s_ka s then (let (s', sent) = writeConn ok Keepalive s in s'\<lparr>s_ka := sent\<rparr>) else s)"

fun run_op :: "(nat \<Rightarrow> bool) \<Rightarrow> peer_op \<Rightarrow> session \<Rightarrow> session" where
  "run_op ok (Announce routes) s = fst (deliver s (AnnounceRoutes (shift ok s) routes (s_peer s)))"
| "run_op ok (Withdraw prefixes) s = fst (deliver s (WithdrawRoutes (shift ok s) prefixes (s_peer s)))"
| "run_op ok Trigger s = s\<lparr>s_peer := TriggerUpdate (s_peer s)\<rparr>"
| "run_op ok StopPeer s = Stop s"
| "run_op ok KeepaliveTick s = keepalive_tick ok s"

fun wait_message ::
  "(nat \<Rightarrow> bool) \<Rightarrow> session_event list \<Rightarrow> session \<Rightarrow> session \<times> (read_result \<times> session_event list) option" where
  "wait_message ok [] s = (s, None)"
| "wait_message ok (Read r # evs) s = (s, Some (r, evs))"
| "wait_message ok (Other a # evs) s = wait_message ok evs (run_op ok a s)"

lemma wait_message_length: "wait_message ok evs s = (s', Some (r, evs')) \<Longrightarrow> length evs' < length evs"
  by (induction ok evs s rule: wait_message.induct) auto

section \<open>The main loop\<close>

fun mp_reach_nlri :: "path_attribute \<Rightarrow> prefix list" where
  "mp_reach_nlri (MpReachNLRIAttribute nh ps) = ps"
| "mp_reach_nlri a = []"

definition routeCB :: "update_message \<Rightarrow> session \<Rightarrow> session" where
  "routeCB u s =
     (if s_has_cb s then s\<lparr>s_seen := s_seen s @ [NLRI u @ concat (map mp_reach_nlri (PathAttributes u))]\<rparr> else s)"

definition set_needs_update :: "bool \<Rightarrow> session \<Rightarrow> session" where
  "set_needs_update b s = s\<lparr>s_peer := (s_peer s)\<lparr>p_needsUpdate := b\<rparr>\<rparr>"

text \<open>What the type switch of the loop does with a message: the new session, and whether it returns.\<close>

fun handle_message :: "message \<Rightarrow> session \<Rightarrow> session \<times> fsm_error option" where
  "handle_message Keepalive s = (s, None)"
| "handle_message (Update u) s = (routeCB u s, None)"
| "handle_message (Notification n) s = (s, Some (ReceivedNotification (ErrorCode n) (ErrorSubcode n)))"
| "handle_message (RouteRefresh r) s = (if Subtype r \<noteq> 0 then s else set_needs_update True s, None)"
| "handle_message (Open o') s = (s, None)"

definition arm_deadline :: "nat \<Rightarrow> session \<Rightarrow> session" where
  "arm_deadline hold s = (if 0 < hold then s\<lparr>s_deadline := Some hold\<rparr> else s)"

lemma arm_deadline_peer [simp]: "s_peer (arm_deadline hold s) = s_peer s"
  by (simp add: arm_deadline_def)

lemma resync_clears_flag:
  "(s2, True) = resync ok (set_needs_update False s) \<Longrightarrow> \<not> p_needsUpdate (s_peer s2)"
  by (auto simp: resync_def deliver_def resyncRoutes_def set_needs_update_def case_prod_unfold Let_def split: if_splits)

function loop :: "(nat \<Rightarrow> bool) \<Rightarrow> nat \<Rightarrow> session_event list \<Rightarrow> session \<Rightarrow> session \<times> run_result" where
  "loop ok hold evs s =
     (if p_stopping (s_peer s) then (s, Ended None)
      else
        (let s1 = arm_deadline hold s in
         if p_needsUpdate (s_peer s1) then
           (let (s2, sent) = resync ok (set_needs_update False s1) in
            if \<not> sent then (s2, Ended (Some RouteUpdate))
            else loop ok hold evs s2)
         else
           (case wait_message ok evs s1 of
              (s2, None) \<Rightarrow> (s2, Blocked)
            | (s2, Some (ReadTimeout, evs')) \<Rightarrow> (sendNotification ok 4 0 s2, Ended (Some HoldTimerExpired))
            | (s2, Some (ReadEOF, evs')) \<Rightarrow> (s2, Ended (Some PeerClosed))
            | (s2, Some (ReadError, evs')) \<Rightarrow> (s2, Ended (Some ReadFailed))
            | (s2, Some (Got m, evs')) \<Rightarrow>
                (case handle_message m s2 of
                   (s3, Some e) \<Rightarrow> (s3, Ended (Some e))
                 | (s3, None) \<Rightarrow> loop ok hold evs' s3))))"
  by pat_completeness auto
termination
  by (relation "measures [\<lambda>(ok, hold, evs, s). length evs, \<lambda>(ok, hold, evs, s). if p_needsUpdate (s_peer s) then 1 else 0]")
    (auto dest: wait_message_length [OF sym] resync_clears_flag)

declare loop.simps [simp del]

text \<open>\<open>mainLoop\<close>: the keepalive goroutine lives as long as the loop; without a hold time the deadline is cleared.\<close>

definition mainLoop :: "(nat \<Rightarrow> bool) \<Rightarrow> session_event list \<Rightarrow> session \<Rightarrow> session \<times> run_result" where
  "mainLoop ok evs s =
     (let hold = p_holdTime (s_peer s);
          s1 = (if 0 < hold then s\<lparr>s_ka := True\<rparr> else s\<lparr>s_deadline := None\<rparr>);
          (s2, res) = loop ok hold evs s1
      in (if res = Blocked then s2 else s2\<lparr>s_ka := False\<rparr>, res))"

section \<open>The handshake\<close>

definition local_hold :: "peer \<Rightarrow> u16" where
  "local_hold p = (if spk_HoldTime (p_spk p) = 0 then 90 else spk_HoldTime (p_spk p))"

definition open_out :: "peer \<Rightarrow> u16 \<Rightarrow> byte list \<Rightarrow> message" where
  "open_out p hold bgp_id =
     Open (snd (serialize_open \<lparr>Version = 4, MyASN = 0, MyASN32 = spk_ASN (p_spk p), HoldTime = hold, BGPID = bgp_id,
       OptParmLen = 0, HasIPv6Unicast = False, HasAS4Cap = False\<rparr>))"

definition remote_asn :: "open_message \<Rightarrow> u32" where
  "remote_asn oin = (if MyASN32 oin = 0 then ucast (MyASN oin) else MyASN32 oin)"

text \<open>The dialling side accepts the two-byte field before it looks at the capability.\<close>

definition active_asn_check :: "peer \<Rightarrow> open_message \<Rightarrow> fsm_error option" where
  "active_asn_check p oin =
     (if ucast (MyASN oin) \<noteq> pc_ASN (p_cfg p) then
        (if remote_asn oin \<noteq> pc_ASN (p_cfg p) then Some (AsnMismatch (remote_asn oin)) else None)
      else None)"

definition passive_asn_check :: "peer \<Rightarrow> open_message \<Rightarrow> fsm_error option" where
  "passive_asn_check p oin =
     (if remote_asn oin \<noteq> pc_ASN (p_cfg p) then Some (AsnMismatch (remote_asn oin)) else None)"

definition active_hold :: "peer \<Rightarrow> open_message \<Rightarrow> nat" where
  "active_hold p oin =
     (let localHold = (if unat (spk_HoldTime (p_spk p)) = 0 then 90 else unat (spk_HoldTime (p_spk p)));
          remoteHold = unat (HoldTime oin)
      in if HoldTime oin = 0 then 0 else if remoteHold < localHold then remoteHold else localHold)"

text \<open>The accepting side computes the negotiated time and the hold time of its own OPEN.\<close>

definition passive_hold :: "peer \<Rightarrow> open_message \<Rightarrow> nat \<times> u16" where
  "passive_hold p oin =
     (let localHold = local_hold p in
      if HoldTime oin = 0 then (0, localHold)
      else if HoldTime oin < localHold then (unat (HoldTime oin), HoldTime oin)
      else (unat localHold, localHold))"

definition set_hold :: "nat \<Rightarrow> session \<Rightarrow> session" where
  "set_hold h s = s\<lparr>s_peer := (s_peer s)\<lparr>p_holdTime := h\<rparr>\<rparr>"

definition set_caps :: "open_message \<Rightarrow> session \<Rightarrow> session" where
  "set_caps oin s = s\<lparr>s_peer := (s_peer s)\<lparr>p_hasIPv6Cap := HasIPv6Unicast oin, p_hasAS4Cap := HasAS4Cap oin\<rparr>\<rparr>"

definition deadline30 :: "session \<Rightarrow> session" where
  "deadline30 s = s\<lparr>s_deadline := Some 30\<rparr>"

type_synonym handshake_result = "run_result + session_event list"

text \<open>The last step of both handshakes: the KEEPALIVE of the other side.\<close>

definition await_keepalive :: "(nat \<Rightarrow> bool) \<Rightarrow> session_event list \<Rightarrow> session \<Rightarrow> session \<times> handshake_result" where
  "await_keepalive ok evs s =
     (case wait_message ok evs (deadline30 s) of
        (s, None) \<Rightarrow> (s, Inl Blocked)
      | (s, Some (Got Keepalive, evs)) \<Rightarrow> (s, Inr evs)
      | (s, Some (Got (Notification n), evs)) \<Rightarrow>
          (s, Inl (Ended (Some (ReceivedNotification (ErrorCode n) (ErrorSubcode n)))))
      | (s, Some (Got m, evs)) \<Rightarrow> (sendNotification ok 5 0 s, Inl (Ended (Some ExpectedKeepalive)))
      | (s, Some (_, evs)) \<Rightarrow> (s, Inl (Ended (Some ReadKeepalive))))"

definition await_open :: "(nat \<Rightarrow> bool) \<Rightarrow> session_event list \<Rightarrow> session \<Rightarrow> session \<times> (run_result + open_message \<times> session_event list)" where
  "await_open ok evs s =
     (case wait_message ok evs (deadline30 s) of
        (s, None) \<Rightarrow> (s, Inl Blocked)
      | (s, Some (Got (Open oin), evs)) \<Rightarrow> (s, Inr (oin, evs))
      | (s, Some (Got m, evs)) \<Rightarrow> (sendNotification ok 2 4 s, Inl (Ended (Some ExpectedOpen)))
      | (s, Some (_, evs)) \<Rightarrow> (s, Inl (Ended (Some ReadOpen))))"

definition active_handshake :: "(nat \<Rightarrow> bool) \<Rightarrow> session_event list \<Rightarrow> session \<Rightarrow> session \<times> handshake_result" where
  "active_handshake ok evs s0 =
     (let s = deadline30 s0; p = s_peer s in
      case addr_as4 (spk_RouterID (p_spk p)) :: (unit, byte list) result of
        Inl _ \<Rightarrow> (s, Inl Crashed)
      | Inr bgp_id \<Rightarrow>
          (case writeConn ok (open_out p (local_hold p) bgp_id) s of
             (s, False) \<Rightarrow> (s, Inl (Ended (Some WriteOpen)))
           | (s, True) \<Rightarrow>
               (case await_open ok evs (setState StateOpenSent s) of
                  (s, Inl res) \<Rightarrow> (s, Inl res)
                | (s, Inr (oin, evs)) \<Rightarrow>
                    (case active_asn_check (s_peer s) oin of
                       Some e \<Rightarrow> (sendNotification ok 2 2 s, Inl (Ended (Some e)))
                     | None \<Rightarrow>
                         (case writeConn ok Keepalive (set_caps oin (set_hold (active_hold (s_peer s) oin) s)) of
                            (s, False) \<Rightarrow> (s, Inl (Ended (Some WriteKeepalive)))
                          | (s, True) \<Rightarrow> await_keepalive ok evs (setState StateOpenConfirm s))))))"

definition passive_handshake ::
  "(nat \<Rightarrow> bool) \<Rightarrow> open_message \<Rightarrow> session_event list \<Rightarrow> session \<Rightarrow> session \<times> handshake_result" where
  "passive_handshake ok oin evs s =
     (case passive_asn_check (s_peer s) oin of
        Some e \<Rightarrow> (sendNotification ok 2 2 s, Inl (Ended (Some e)))
      | None \<Rightarrow>
          (let (negotiated, hold) = passive_hold (s_peer s) oin; s = set_hold negotiated s; p = s_peer s in
           case addr_as4 (spk_RouterID (p_spk p)) :: (unit, byte list) result of
             Inl _ \<Rightarrow> (s, Inl Crashed)
           | Inr bgp_id \<Rightarrow>
               (case writeConn ok (open_out p hold bgp_id) s of
                  (s, False) \<Rightarrow> (s, Inl (Ended (Some WriteOpen)))
                | (s, True) \<Rightarrow>
                    (case writeConn ok Keepalive (setState StateOpenSent s) of
                       (s, False) \<Rightarrow> (s, Inl (Ended (Some WriteKeepalive)))
                     | (s, True) \<Rightarrow> await_keepalive ok evs (setState StateOpenConfirm s)))))"

section \<open>The established session\<close>

text \<open>
  \<open>before\<close> and \<open>after\<close> are the operations of other goroutines that run between \<open>setState\<close> and
  \<open>resetSent\<close>, and between \<open>resetSent\<close> and the first resynchronisation.
\<close>

definition run_ops :: "(nat \<Rightarrow> bool) \<Rightarrow> peer_op list \<Rightarrow> session \<Rightarrow> session" where
  "run_ops ok ops s = fold (run_op ok) ops s"

definition reset_sent :: "session \<Rightarrow> session" where
  "reset_sent s = s\<lparr>s_peer := resetSent (s_peer s)\<rparr>"

definition initial_routes ::
  "(nat \<Rightarrow> bool) \<Rightarrow> peer_op list \<Rightarrow> peer_op list \<Rightarrow> session \<Rightarrow> session \<times> bool" where
  "initial_routes ok before after s = resync ok (run_ops ok after (reset_sent (run_ops ok before s)))"

definition main_loop_and_idle :: "(nat \<Rightarrow> bool) \<Rightarrow> session_event list \<Rightarrow> session \<Rightarrow> session \<times> run_result" where
  "main_loop_and_idle ok evs s =
     (let (s, res) = mainLoop ok evs s in (if res = Blocked then s else setState StateIdle s, res))"

text \<open>The deferred functions of both sides: the connection is closed and forgotten.\<close>

definition close_conn :: "session \<times> run_result \<Rightarrow> session \<times> run_result" where
  "close_conn r = (let (s, res) = r in (if res = Blocked then s else (setConn False s)\<lparr>s_closed := True\<rparr>, res))"

text \<open>
  The dial: the peer's address and port (179 when the port is 0), the local address to bind, and the
  password whose key the socket gets before it connects (none when empty). Whether it succeeds is up
  to the environment.
\<close>

type_synonym dialer = "addr \<Rightarrow> int \<Rightarrow> addr option \<Rightarrow> byte list \<Rightarrow> bool"

definition dial_peer :: "dialer \<Rightarrow> peer \<Rightarrow> bool" where
  "dial_peer dial p =
     (let port = (if pc_Port (p_cfg p) = 0 then 179 else pc_Port (p_cfg p));
          localAddr = (if pc_LocalAddr (p_cfg p) = None then spk_LocalAddr (p_spk p) else pc_LocalAddr (p_cfg p))
      in dial (pc_Address (p_cfg p)) port localAddr (pc_Password (p_cfg p)))"

definition connectAndRun ::
  "(nat \<Rightarrow> bool) \<Rightarrow> dialer \<Rightarrow> peer_op list \<Rightarrow> peer_op list \<Rightarrow> session_event list \<Rightarrow> session \<Rightarrow> session \<times> run_result" where
  "connectAndRun ok dial before after evs s =
     (if p_conn (s_peer s) then (s, if p_stopping (s_peer s) then Ended (Some ActiveSession) else Blocked)
      else if pc_Port (p_cfg (s_peer s)) < 0
      then (s, if p_stopping (s_peer s) then Ended (Some PassiveStopped) else Blocked)
      else
        (let s = setState StateConnect s in
         if \<not> dial_peer dial (s_peer s) then (s, Ended (Some DialFailed))
         else close_conn
           (case active_handshake ok evs (setConn True s) of
              (s, Inl res) \<Rightarrow> (s, res)
            | (s, Inr evs) \<Rightarrow>
                (case initial_routes ok before after (setState StateEstablished s) of
                   (s, False) \<Rightarrow> (setState StateIdle s, Ended (Some InitialRoutes))
                 | (s, True) \<Rightarrow> main_loop_and_idle ok evs s))))"

definition AcceptWithOpen ::
  "(nat \<Rightarrow> bool) \<Rightarrow> open_message \<Rightarrow> peer_op list \<Rightarrow> peer_op list \<Rightarrow> session_event list \<Rightarrow> session \<Rightarrow> session \<times> run_result" where
  "AcceptWithOpen ok oin before after evs s =
     close_conn
       (case passive_handshake ok oin evs (setConn True s) of
          (s, Inl res) \<Rightarrow> (s, res)
        | (s, Inr evs) \<Rightarrow>
            (let s = set_caps oin (run_ops ok before (setState StateEstablished s)) in
             case initial_routes ok [] after s of
               (s, False) \<Rightarrow> (setState StateIdle s, Ended (Some InitialRoutes))
             | (s, True) \<Rightarrow> main_loop_and_idle ok evs s))"

definition Accept ::
  "(nat \<Rightarrow> bool) \<Rightarrow> peer_op list \<Rightarrow> peer_op list \<Rightarrow> session_event list \<Rightarrow> session \<Rightarrow> session \<times> run_result" where
  "Accept ok before after evs s =
     (case await_open ok evs (setConn True s) of
        (s, Inl res) \<Rightarrow> close_conn (s, res)
      | (s, Inr (oin, evs)) \<Rightarrow> AcceptWithOpen ok oin before after evs s)"

section \<open>Reconnecting\<close>

text \<open>
  \<open>Run\<close> over the results of its successive \<open>connectAndRun\<close> calls: the delays in seconds it sleeps for
  (0 when it reconnects at once). \<open>stop\<close> tells whether \<open>stopping\<close> was set when the call returned.
\<close>

fun Run :: "nat \<Rightarrow> (bool \<times> fsm_error option) list \<Rightarrow> nat list" where
  "Run attempt [] = []"
| "Run attempt ((stop, res) # rest) =
     (if stop then []
      else case res of
        None \<Rightarrow> 0 # Run 0 rest
      | Some e \<Rightarrow>
          (let attempt = attempt + 1; backoff = (if 60 < attempt then 60 else attempt) in
           backoff # Run attempt rest))"

section \<open>Waiting\<close>

fun reads :: "session_event list \<Rightarrow> read_result list" where
  "reads [] = []"
| "reads (Read r # evs) = r # reads evs"
| "reads (Other a # evs) = reads evs"

definition quiet :: "session \<Rightarrow> bool" where
  "quiet s = (p_state (s_peer s) \<noteq> StateEstablished \<and> \<not> s_ka s)"

text \<open>What operations of other goroutines leave alone before the session is established.\<close>

definition undisturbed :: "session \<Rightarrow> session \<Rightarrow> bool" where
  "undisturbed s s' =
     (s_out s' = s_out s \<and> s_writes s' = s_writes s \<and> s_states s' = s_states s \<and> s_ka s' = s_ka s \<and>
      p_state (s_peer s') = p_state (s_peer s) \<and> p_cfg (s_peer s') = p_cfg (s_peer s) \<and>
      p_spk (s_peer s') = p_spk (s_peer s) \<and> p_holdTime (s_peer s') = p_holdTime (s_peer s) \<and>
      p_hasIPv6Cap (s_peer s') = p_hasIPv6Cap (s_peer s) \<and> p_hasAS4Cap (s_peer s') = p_hasAS4Cap (s_peer s) \<and>
      p_lastSent (s_peer s') = p_lastSent (s_peer s))"

lemma undisturbed_refl [simp]: "undisturbed s s"
  by (simp add: undisturbed_def)

lemma undisturbed_trans: "undisturbed s t \<Longrightarrow> undisturbed t u \<Longrightarrow> undisturbed s u"
  by (simp add: undisturbed_def)

lemma undisturbed_quiet: "undisturbed s s' \<Longrightarrow> quiet s \<Longrightarrow> quiet s'"
  by (simp add: undisturbed_def quiet_def)

lemma run_op_undisturbed: "quiet s \<Longrightarrow> undisturbed s (run_op ok a s)"
  by (cases a) (auto simp: undisturbed_def quiet_def deliver_def AnnounceRoutes_def WithdrawRoutes_def
    TriggerUpdate_def Stop_def keepalive_tick_def Let_def)

lemma wait_undisturbed: "wait_message ok evs s = (s', x) \<Longrightarrow> quiet s \<Longrightarrow> undisturbed s s'"
proof (induction ok evs s rule: wait_message.induct)
  case (3 ok a evs s)
  have "undisturbed s (run_op ok a s)" using 3 by (intro run_op_undisturbed)
  moreover have "undisturbed (run_op ok a s) s'"
    using 3 undisturbed_quiet [OF \<open>undisturbed s (run_op ok a s)\<close>] by auto
  ultimately show ?case by (rule undisturbed_trans)
qed auto

lemma wait_reads: "wait_message ok evs s = (s', Some (r, evs')) \<Longrightarrow> reads evs = r # reads evs'"
  by (induction ok evs s rule: wait_message.induct) auto

section \<open>The handshake\<close>

lemma deadline30_undisturbed [simp]: "undisturbed s (deadline30 s)" "quiet (deadline30 s) = quiet s"
  by (simp_all add: undisturbed_def deadline30_def quiet_def)

lemma await_open_Inr:
  assumes "await_open ok evs s = (s', Inr (oin, evs'))" "quiet s"
  shows "reads evs = Got (Open oin) # reads evs' \<and> undisturbed s s'"
proof -
  have w: "wait_message ok evs (deadline30 s) = (s', Some (Got (Open oin), evs'))"
    using assms(1) by (auto simp: await_open_def split: prod.splits option.splits read_result.splits message.splits)
  show ?thesis using wait_reads [OF w] wait_undisturbed [OF w] assms(2) by (simp add: undisturbed_trans [OF deadline30_undisturbed(1)])
qed

lemma await_keepalive_Inr:
  assumes "await_keepalive ok evs s = (s', Inr evs')" "quiet s"
  shows "reads evs = Got Keepalive # reads evs' \<and> undisturbed s s'"
proof -
  have w: "wait_message ok evs (deadline30 s) = (s', Some (Got Keepalive, evs'))"
    using assms(1) by (auto simp: await_keepalive_def split: prod.splits option.splits read_result.splits message.splits)
  show ?thesis using wait_reads [OF w] wait_undisturbed [OF w] assms(2) by (simp add: undisturbed_trans [OF deadline30_undisturbed(1)])
qed

lemma writeConn_True: "writeConn ok m s = (s', True) \<Longrightarrow> s' = s\<lparr>s_writes := Suc (s_writes s), s_out := s_out s @ [m]\<rparr>"
  by (auto simp: writeConn_def Let_def split: if_splits)

lemma active_hold_min:
  "active_hold p oin = (if HoldTime oin = 0 then 0 else min (unat (HoldTime oin)) (unat (local_hold p)))"
  by (auto simp: active_hold_def local_hold_def Let_def unat_eq_0 min_def)

lemma passive_hold_min:
  "fst (passive_hold p oin) = (if HoldTime oin = 0 then 0 else min (unat (HoldTime oin)) (unat (local_hold p)))"
  by (auto simp: passive_hold_def Let_def min_def word_less_nat_alt)

lemma active_handshake_Inr:
  assumes h: "active_handshake ok evs s = (s', Inr evs')" and q: "quiet s"
  shows "\<exists>oin bgp_id. reads evs = Got (Open oin) # Got Keepalive # reads evs' \<and>
    active_asn_check (s_peer s) oin = None \<and>
    s_out s' = s_out s @ [open_out (s_peer s) (local_hold (s_peer s)) bgp_id, Keepalive] \<and>
    p_holdTime (s_peer s') = active_hold (s_peer s) oin \<and>
    p_hasIPv6Cap (s_peer s') = HasIPv6Unicast oin \<and> p_hasAS4Cap (s_peer s') = HasAS4Cap oin \<and>
    s_states s' = s_states s @ [StateOpenSent, StateOpenConfirm] \<and> quiet s'"
proof -
  obtain bgp_id s1 s2 oin evs1 s3 where
    w1: "writeConn ok (open_out (s_peer s) (local_hold (s_peer s)) bgp_id) (deadline30 s) = (s1, True)" and
    o1: "await_open ok evs (setState StateOpenSent s1) = (s2, Inr (oin, evs1))" and
    chk: "active_asn_check (s_peer s2) oin = None" and
    w2: "writeConn ok Keepalive (set_caps oin (set_hold (active_hold (s_peer s2) oin) s2)) = (s3, True)" and
    k: "await_keepalive ok evs1 (setState StateOpenConfirm s3) = (s', Inr evs')"
    using h by (auto simp: active_handshake_def Let_def deadline30_def split: sum.splits prod.splits bool.splits option.splits)
  have q1: "quiet (setState StateOpenSent s1)"
    using q writeConn_True [OF w1] by (auto simp: quiet_def setState_def deadline30_def)
  note a1 = await_open_Inr [OF o1 q1]
  have q3: "quiet (setState StateOpenConfirm s3)"
    using q1 undisturbed_quiet writeConn_True [OF w2] a1
    by (auto simp: quiet_def setState_def set_caps_def set_hold_def)
  note a2 = await_keepalive_Inr [OF k q3]
  have cfg: "active_asn_check (s_peer s2) = active_asn_check (s_peer s)" "active_hold (s_peer s2) = active_hold (s_peer s)"
    using a1 writeConn_True [OF w1]
    by (auto simp: fun_eq_iff active_asn_check_def active_hold_def undisturbed_def setState_def deadline30_def)
  have "quiet s'" using a2 q3 undisturbed_quiet by blast
  then show ?thesis
    using a1 a2 cfg chk writeConn_True [OF w1] writeConn_True [OF w2]
    by (intro exI [of _ oin] exI [of _ bgp_id])
      (auto simp: undisturbed_def setState_def set_caps_def set_hold_def deadline30_def)
qed

lemma passive_handshake_Inr:
  assumes h: "passive_handshake ok oin evs s = (s', Inr evs')" and q: "quiet s"
  shows "\<exists>bgp_id. reads evs = Got Keepalive # reads evs' \<and>
    passive_asn_check (s_peer s) oin = None \<and>
    s_out s' = s_out s @ [open_out (s_peer s) (snd (passive_hold (s_peer s) oin)) bgp_id, Keepalive] \<and>
    p_holdTime (s_peer s') = fst (passive_hold (s_peer s) oin) \<and>
    s_states s' = s_states s @ [StateOpenSent, StateOpenConfirm] \<and> quiet s'"
proof -
  let ?s = "set_hold (fst (passive_hold (s_peer s) oin)) s"
  obtain bgp_id s1 s2 where chk: "passive_asn_check (s_peer s) oin = None" and
    w1: "writeConn ok (open_out (s_peer ?s) (snd (passive_hold (s_peer s) oin)) bgp_id) ?s = (s1, True)" and
    w2: "writeConn ok Keepalive (setState StateOpenSent s1) = (s2, True)" and
    k: "await_keepalive ok evs (setState StateOpenConfirm s2) = (s', Inr evs')"
    using h by (auto simp: passive_handshake_def Let_def split: sum.splits prod.splits bool.splits option.splits)
  have q2: "quiet (setState StateOpenConfirm s2)"
    using q writeConn_True [OF w1] writeConn_True [OF w2] by (auto simp: quiet_def setState_def set_hold_def)
  note a = await_keepalive_Inr [OF k q2]
  have out: "open_out (s_peer ?s) = open_out (s_peer s)" by (simp add: open_out_def set_hold_def fun_eq_iff)
  have "quiet s'" using a q2 undisturbed_quiet by blast
  then show ?thesis
    using a chk out writeConn_True [OF w1] writeConn_True [OF w2]
    by (intro exI [of _ bgp_id]) (auto simp: undisturbed_def setState_def set_hold_def)
qed

section \<open>What the remote side holds during a session\<close>

fun apply_message :: "message \<Rightarrow> rib \<Rightarrow> rib" where
  "apply_message (Update u) rib = apply_update u rib"
| "apply_message m rib = rib"

text \<open>The routes of a remote side that started the session with none; \<open>n\<close> messages were written before it.\<close>

definition rib_of :: "nat \<Rightarrow> session \<Rightarrow> rib" where
  "rib_of n s = fold apply_message (drop n (s_out s)) (\<lambda>q. None)"

definition live :: "nat \<Rightarrow> session \<Rightarrow> bool" where
  "live n s =
     (n \<le> length (s_out s) \<and> rib_known (s_peer s) (rib_of n s) \<and> p_conn (s_peer s) \<and>
      p_state (s_peer s) = StateEstablished \<and> distinct (map r_prefix (p_routes (s_peer s))))"

definition in_sync :: "nat \<Rightarrow> session \<Rightarrow> bool" where
  "in_sync n s = (live n s \<and> rib_of n s = desired_rib (s_peer s))"

fun op_ok :: "peer_op \<Rightarrow> bool" where
  "op_ok (Announce routes) = distinct (map r_prefix routes)"
| "op_ok StopPeer = False"
| "op_ok a = True"

fun event_ok :: "session_event \<Rightarrow> bool" where
  "event_ok (Other a) = op_ok a"
| "event_ok (Read r) = True"

lemma fold_apply_Update [simp]: "fold apply_message (map Update us) rib = fold apply_update us rib"
  by (induction us arbitrary: rib) simp_all

text \<open>Every write of the session succeeds.\<close>

definition delivers :: "(nat \<Rightarrow> bool) \<Rightarrow> bool" where
  "delivers ok = (\<forall>i. ok i)"

lemma write_all_ok: "delivers ok \<Longrightarrow> write_all ok i us = (us, True)"
  by (induction us arbitrary: i) (simp_all add: delivers_def)

lemma resyncRoutes_ok:
  "delivers ok \<Longrightarrow> resyncRoutes ok p = (fst (resync_updates p), True, p\<lparr>p_lastSent := snd (resync_updates p)\<rparr>)"
  by (simp add: resyncRoutes_def write_all_ok case_prod_unfold Let_def)

lemma rib_known_resync:
  assumes "distinct (map r_prefix (p_routes p))" "rib_known p rib"
  shows "rib_known (p\<lparr>p_lastSent := snd (resync_updates p)\<rparr>) (desired_rib p)"
  using resync_updates_rib(2) [OF assms(2,1)] by (auto simp: rib_known_def dom_desired_rib eligible_def simp del: is4_is6)

lemma desired_rib_cong:
  "p_routes p = p_routes q \<Longrightarrow> p_hasIPv6Cap p = p_hasIPv6Cap q \<Longrightarrow> desired_rib p = desired_rib q"
  by (simp add: desired_rib_def)

lemma rib_of_append: "n \<le> length (s_out s) \<Longrightarrow> s_out s' = s_out s @ ms \<Longrightarrow> rib_of n s' = fold apply_message ms (rib_of n s)"
  by (simp add: rib_of_def)

lemma deliver_in_sync:
  assumes "delivers ok" "live n s"
    and p: "p_conn p" "p_state p = StateEstablished" "distinct (map r_prefix (p_routes p))"
      "p_lastSent p = p_lastSent (s_peer s)" "p_hasIPv6Cap p = p_hasIPv6Cap (s_peer s)"
  shows "in_sync n (fst (deliver s (resyncRoutes (shift ok s) p)))" "snd (deliver s (resyncRoutes (shift ok s) p))"
proof -
  let ?s' = "fst (deliver s (resyncRoutes (shift ok s) p))"
  have ok: "delivers (shift ok s)" using assms(1) by (simp add: delivers_def shift_def)
  have known: "rib_known p (rib_of n s)" using assms(2) p(4,5) by (simp add: live_def rib_known_def)
  have s': "s_peer ?s' = p\<lparr>p_lastSent := snd (resync_updates p)\<rparr>" "s_out ?s' = s_out s @ map Update (fst (resync_updates p))"
    by (simp_all add: deliver_def resyncRoutes_ok [OF ok])
  have rib: "rib_of n ?s' = desired_rib p"
    using rib_of_append [OF _ s'(2), of n] assms(2) resync_updates_rib(1) [OF known p(3)] by (simp add: live_def)
  have "rib_known (s_peer ?s') (rib_of n ?s')" using rib_known_resync [OF p(3) known] by (simp add: rib s'(1))
  moreover have "desired_rib (s_peer ?s') = desired_rib p" by (rule desired_rib_cong) (simp_all add: s'(1))
  ultimately show "in_sync n ?s'" using assms(2) p rib by (simp add: in_sync_def live_def s')
  show "snd (deliver s (resyncRoutes (shift ok s) p))" by (simp add: deliver_def resyncRoutes_ok [OF ok])
qed

lemma resync_in_sync:
  assumes "delivers ok" "live n s"
  shows "in_sync n (fst (resync ok s))" "snd (resync ok s)"
  using deliver_in_sync [OF assms, of "s_peer s"] assms(2) by (simp_all add: resync_def live_def)

text \<open>A change of the session that writes no update and leaves the routes alone.\<close>

lemma in_sync_cong:
  assumes "s_out s' = s_out s @ ms" "\<forall>u. Update u \<notin> set ms" "p_conn (s_peer s') = p_conn (s_peer s)"
    "p_state (s_peer s') = p_state (s_peer s)" "p_routes (s_peer s') = p_routes (s_peer s)"
    "p_hasIPv6Cap (s_peer s') = p_hasIPv6Cap (s_peer s)" "p_lastSent (s_peer s') = p_lastSent (s_peer s)"
    "n \<le> length (s_out s)"
  shows "in_sync n s' = in_sync n s" "live n s' = live n s"
proof -
  have "fold apply_message ms rib = rib" for rib
    using assms(2)
  proof (induction ms arbitrary: rib)
    case (Cons m ms)
    then show ?case by (cases m) auto
  qed simp
  then have "rib_of n s' = rib_of n s" using rib_of_append [OF assms(8,1)] by simp
  then show "in_sync n s' = in_sync n s" "live n s' = live n s"
    using assms desired_rib_cong [OF assms(5,6)] by (simp_all add: in_sync_def live_def rib_known_def)
qed

lemma run_op_in_sync:
  assumes "delivers ok" "live n s" "op_ok a"
  shows "live n (run_op ok a s)" "in_sync n s \<Longrightarrow> in_sync n (run_op ok a s)"
proof -
  have n: "n \<le> length (s_out s)" using assms(2) by (simp add: live_def)
  have "live n (run_op ok a s) \<and> (in_sync n s \<longrightarrow> in_sync n (run_op ok a s))"
  proof (cases a)
    case (Announce rs)
    then have "in_sync n (run_op ok a s)"
      using assms deliver_in_sync(1) [OF assms(1,2), of "(s_peer s)\<lparr>p_routes := rs\<rparr>"]
      by (simp add: AnnounceRoutes_def live_def)
    then show ?thesis by (simp add: in_sync_def)
  next
    case (Withdraw ps)
    then have "in_sync n (run_op ok a s)"
      using assms deliver_in_sync(1) [OF assms(1,2), of "(s_peer s)\<lparr>p_routes := filter (\<lambda>r. r_prefix r \<notin> set ps) (p_routes (s_peer s))\<rparr>"]
      by (simp add: WithdrawRoutes_def live_def distinct_map_filter)
    then show ?thesis by (simp add: in_sync_def)
  next
    case Trigger
    then show ?thesis using assms n in_sync_cong [of "run_op ok a s" s "[]" n] by (simp add: TriggerUpdate_def)
  next
    case StopPeer
    then show ?thesis using assms(3) by simp
  next
    case KeepaliveTick
    then show ?thesis
      using assms n in_sync_cong [of "run_op ok a s" s "if s_ka s then [Keepalive] else []" n]
      by (simp add: keepalive_tick_def writeConn_def Let_def delivers_def)
  qed
  then show "live n (run_op ok a s)" "in_sync n s \<Longrightarrow> in_sync n (run_op ok a s)" by blast+
qed

lemma in_sync_live: "in_sync n s \<Longrightarrow> live n s"
  by (simp add: in_sync_def)

lemma wait_in_sync:
  "wait_message ok evs s = (s', x) \<Longrightarrow> delivers ok \<Longrightarrow> in_sync n s \<Longrightarrow> \<forall>e \<in> set evs. event_ok e \<Longrightarrow>
     in_sync n s' \<and> (\<forall>r evs'. x = Some (r, evs') \<longrightarrow> set evs' \<subseteq> set evs)"
proof (induction ok evs s rule: wait_message.induct)
  case (3 ok a evs s)
  then show ?case using run_op_in_sync [of ok n s a] in_sync_live [of n s] by auto
qed auto

lemma handle_in_sync: "handle_message m s = (s', x) \<Longrightarrow> in_sync n s \<Longrightarrow> in_sync n s'"
  using in_sync_cong(1) [of s' s "[]" n]
  by (cases m) (auto simp: routeCB_def set_needs_update_def in_sync_def live_def split: if_splits)

lemma sendNotification_in_sync:
  assumes "in_sync n s"
  shows "in_sync n (sendNotification ok c d s)"
proof -
  let ?m = "Notification \<lparr>ErrorCode = c, ErrorSubcode = d, Data = []\<rparr>"
  have "n \<le> length (s_out s)" using assms by (simp add: in_sync_def live_def)
  then have "in_sync n (sendNotification ok c d s) = in_sync n s"
    by (intro in_sync_cong(1) [where ms = "if ok (s_writes s) then [?m] else []"])
      (simp_all add: sendNotification_def writeConn_def Let_def)
  with assms show ?thesis by simp
qed

lemma loop_in_sync:
  "loop ok hold evs s = (s', res) \<Longrightarrow> delivers ok \<Longrightarrow> in_sync n s \<Longrightarrow> \<forall>e \<in> set evs. event_ok e \<Longrightarrow>
     in_sync n s'"
proof (induction ok hold evs s rule: loop.induct)
  case (1 ok hold evs s)
  let ?s1 = "arm_deadline hold s"
  have n: "n \<le> length (s_out s)" using "1.prems"(3) by (simp add: in_sync_def live_def)
  have s1: "in_sync n ?s1"
    using "1.prems"(3) n in_sync_cong(1) [of ?s1 s "[]" n] by (simp add: arm_deadline_def)
  show ?case
  proof (cases "p_stopping (s_peer s)")
    case True
    then show ?thesis using "1.prems"(1,3) by (simp add: loop.simps [of ok hold evs s])
  next
    case run: False
    show ?thesis
    proof (cases "p_needsUpdate (s_peer ?s1)")
      case True
      obtain s2 b where r: "resync ok (set_needs_update False ?s1) = (s2, b)" by fastforce
      have "in_sync n (set_needs_update False ?s1)"
        using s1 n in_sync_cong(1) [of "set_needs_update False ?s1" ?s1 "[]" n]
        by (simp add: set_needs_update_def arm_deadline_def)
      then have "in_sync n s2" "b" using resync_in_sync [OF "1.prems"(2) in_sync_live] r by fastforce+
      then show ?thesis
        using "1.IH"(1) [OF run refl True r [symmetric] refl] "1.prems" True run r
        by (simp add: loop.simps [of ok hold evs s] Let_def)
    next
      case False
      obtain s2 x where w: "wait_message ok evs ?s1 = (s2, x)" by fastforce
      note ws = wait_in_sync [OF w "1.prems"(2) s1 "1.prems"(4)]
      have note_sync: "in_sync n (sendNotification ok c d s2)" for c d
        using ws by (intro sendNotification_in_sync) blast
      show ?thesis
      proof (cases "\<exists>m evs'. x = Some (Got m, evs')")
        case True
        then obtain m evs' where x: "x = Some (Got m, evs')" by blast
        obtain s3 y where h: "handle_message m s2 = (s3, y)" by fastforce
        have s3: "in_sync n s3" using handle_in_sync [OF h] ws by blast
        have "\<forall>e \<in> set evs'. event_ok e" using ws x "1.prems"(4) by blast
        then show ?thesis
          using "1.IH"(2) [OF run refl False w [symmetric], of "(Got m, evs')" "Got m" evs' m] h s3 x "1.prems" False run w
          by (cases y) (simp_all add: loop.simps [of ok hold evs s] Let_def)
      next
        case False
        then show ?thesis
          using ws note_sync "1.prems"(1) \<open>\<not> p_needsUpdate (s_peer ?s1)\<close> run w
          by (auto simp: loop.simps [of ok hold evs s] Let_def split: option.splits read_result.splits)
      qed
    qed
  qed
qed

section \<open>Whole sessions\<close>

lemma run_ops_live: "\<forall>a \<in> set ops. op_ok a \<Longrightarrow> delivers ok \<Longrightarrow> live n s \<Longrightarrow> live n (run_ops ok ops s)"
  unfolding run_ops_def
proof (induction ops arbitrary: s)
  case (Cons a ops)
  then show ?case using run_op_in_sync(1) [of ok n s a] by simp
qed simp

lemma mainLoop_in_sync:
  assumes "mainLoop ok evs s = (s', res)" "delivers ok" "in_sync n s" "\<forall>e \<in> set evs. event_ok e"
  shows "in_sync n s'"
proof -
  let ?hold = "p_holdTime (s_peer s)"
  let ?s1 = "if 0 < ?hold then s\<lparr>s_ka := True\<rparr> else s\<lparr>s_deadline := None\<rparr>"
  obtain s2 where l: "loop ok ?hold evs ?s1 = (s2, res)" and s': "s' = (if res = Blocked then s2 else s2\<lparr>s_ka := False\<rparr>)"
    using assms(1) by (auto simp: mainLoop_def Let_def split: prod.splits)
  have n: "n \<le> length (s_out s)" using assms(3) by (simp add: in_sync_def live_def)
  have "in_sync n ?s1" using assms(3) n by (subst in_sync_cong(1) [of _ s "[]" n]) simp_all
  then have s2: "in_sync n s2" using loop_in_sync [OF l assms(2) _ assms(4)] by simp
  then have "n \<le> length (s_out s2)" by (simp add: in_sync_def live_def)
  with s2 show ?thesis unfolding s' by (subst in_sync_cong(1) [of _ s2 "[]" n]) simp_all
qed

text \<open>The part both sides share once the handshake is over.\<close>

lemma established_in_sync:
  assumes "initial_routes ok [] after s = (s1, b)" "main_loop_and_idle ok evs s1 = (s', Blocked)" "delivers ok"
    "\<forall>a \<in> set after. op_ok a" "\<forall>e \<in> set evs. event_ok e"
    and s: "p_conn (s_peer s)" "p_state (s_peer s) = StateEstablished" "distinct (map r_prefix (p_routes (s_peer s)))"
      "n \<le> length (s_out s)" "\<forall>m \<in> set (drop n (s_out s)). \<forall>u. m \<noteq> Update u"
  shows "in_sync n s'"
proof -
  have "fold apply_message ms rib = rib" if "\<forall>m \<in> set ms. \<forall>u. m \<noteq> Update u" for ms rib
    using that
  proof (induction ms arbitrary: rib)
    case (Cons m ms)
    then show ?case by (cases m) auto
  qed simp
  then have "rib_of n s = (\<lambda>q. None)" using s(5) by (simp add: rib_of_def)
  then have "live n (reset_sent s)"
    using s by (simp add: live_def reset_sent_def resetSent_def rib_known_def rib_of_def)
  then have "live n (run_ops ok after (reset_sent s))" using assms(3,4) by (intro run_ops_live)
  then have "in_sync n s1"
    using resync_in_sync(1) [OF assms(3)] assms(1) by (fastforce simp: initial_routes_def run_ops_def)
  moreover obtain s2 res where "mainLoop ok evs s1 = (s2, res)" by fastforce
  ultimately show ?thesis
    using assms(2) mainLoop_in_sync [OF _ assms(3) _ assms(5)] by (fastforce simp: main_loop_and_idle_def split: if_splits)
qed

text \<open>The handshake keeps the connection and sets routes only as announced.\<close>

definition routes_distinct :: "session \<Rightarrow> bool" where
  "routes_distinct s = distinct (map r_prefix (p_routes (s_peer s)))"

lemma run_op_routes: "op_ok a \<Longrightarrow> quiet s \<Longrightarrow> routes_distinct s \<Longrightarrow> routes_distinct (run_op ok a s) \<and> p_conn (s_peer (run_op ok a s)) = p_conn (s_peer s)"
  by (cases a) (auto simp: routes_distinct_def quiet_def deliver_def AnnounceRoutes_def WithdrawRoutes_def
    TriggerUpdate_def keepalive_tick_def Let_def distinct_map_filter)

lemma wait_routes:
  "wait_message ok evs s = (s', x) \<Longrightarrow> quiet s \<Longrightarrow> routes_distinct s \<Longrightarrow> \<forall>e \<in> set evs. event_ok e \<Longrightarrow>
     routes_distinct s' \<and> p_conn (s_peer s') = p_conn (s_peer s) \<and> (\<forall>r evs'. x = Some (r, evs') \<longrightarrow> set evs' \<subseteq> set evs)"
proof (induction ok evs s rule: wait_message.induct)
  case (3 ok a evs s)
  then show ?case
    using run_op_routes [of a s ok] undisturbed_quiet [OF run_op_undisturbed [of s ok a]] by fastforce
qed auto

lemma await_open_routes:
  assumes "await_open ok evs s = (s', Inr (oin, evs'))" "quiet s" "routes_distinct s" "\<forall>e \<in> set evs. event_ok e"
  shows "routes_distinct s' \<and> p_conn (s_peer s') = p_conn (s_peer s) \<and> (\<forall>e \<in> set evs'. event_ok e)"
proof -
  have w: "wait_message ok evs (deadline30 s) = (s', Some (Got (Open oin), evs'))"
    using assms(1) by (auto simp: await_open_def split: prod.splits option.splits read_result.splits message.splits)
  show ?thesis using wait_routes [OF w] assms(2-4) by (auto simp: routes_distinct_def deadline30_def quiet_def)
qed

lemma await_keepalive_routes:
  assumes "await_keepalive ok evs s = (s', Inr evs')" "quiet s" "routes_distinct s" "\<forall>e \<in> set evs. event_ok e"
  shows "routes_distinct s' \<and> p_conn (s_peer s') = p_conn (s_peer s) \<and> (\<forall>e \<in> set evs'. event_ok e)"
proof -
  have w: "wait_message ok evs (deadline30 s) = (s', Some (Got Keepalive, evs'))"
    using assms(1) by (auto simp: await_keepalive_def split: prod.splits option.splits read_result.splits message.splits)
  show ?thesis using wait_routes [OF w] assms(2-4) by (auto simp: routes_distinct_def deadline30_def quiet_def)
qed

lemma step_routes [simp]:
  "routes_distinct (setState st s) = routes_distinct s" "p_conn (s_peer (setState st s)) = p_conn (s_peer s)"
  "routes_distinct (set_caps oin s) = routes_distinct s" "p_conn (s_peer (set_caps oin s)) = p_conn (s_peer s)"
  "routes_distinct (set_hold h s) = routes_distinct s" "p_conn (s_peer (set_hold h s)) = p_conn (s_peer s)"
  "routes_distinct (deadline30 s) = routes_distinct s" "p_conn (s_peer (deadline30 s)) = p_conn (s_peer s)"
  by (simp_all add: routes_distinct_def setState_def set_caps_def set_hold_def deadline30_def)

lemma writeConn_routes:
  assumes "writeConn ok m s = (s', b)"
  shows "routes_distinct s' = routes_distinct s" "p_conn (s_peer s') = p_conn (s_peer s)" "quiet s' = quiet s"
  using assms by (auto simp: writeConn_def Let_def routes_distinct_def quiet_def split: if_splits)

lemma quiet_steps [simp]:
  "quiet (set_caps oin s) = quiet s" "quiet (set_hold h s) = quiet s"
  by (auto simp: quiet_def set_caps_def set_hold_def setState_def)

lemma quiet_setState: "quiet s \<Longrightarrow> st \<noteq> StateEstablished \<Longrightarrow> quiet (setState st s)"
  by (simp add: quiet_def setState_def)

lemma active_handshake_routes:
  assumes h: "active_handshake ok evs s = (s', Inr evs')" and q: "quiet s" "routes_distinct s" "\<forall>e \<in> set evs. event_ok e"
  shows "routes_distinct s' \<and> p_conn (s_peer s') = p_conn (s_peer s) \<and> (\<forall>e \<in> set evs'. event_ok e)"
proof -
  obtain bgp_id s1 s2 oin evs1 s3 where
    w1: "writeConn ok (open_out (s_peer s) (local_hold (s_peer s)) bgp_id) (deadline30 s) = (s1, True)" and
    o1: "await_open ok evs (setState StateOpenSent s1) = (s2, Inr (oin, evs1))" and
    w2: "writeConn ok Keepalive (set_caps oin (set_hold (active_hold (s_peer s2) oin) s2)) = (s3, True)" and
    k: "await_keepalive ok evs1 (setState StateOpenConfirm s3) = (s', Inr evs')"
    using h by (auto simp: active_handshake_def Let_def deadline30_def split: sum.splits prod.splits bool.splits option.splits)
  have q1: "quiet s1" using q writeConn_routes(3) [OF w1] by simp
  then have q1': "quiet (setState StateOpenSent s1)" by (simp add: quiet_setState)
  have r1: "routes_distinct (setState StateOpenSent s1)" using q(2) writeConn_routes(1) [OF w1] by simp
  note a = await_open_routes [OF o1 q1' r1 q(3)]
  have q2: "quiet s2" using await_open_Inr [OF o1 q1'] undisturbed_quiet q1' by blast
  then have q3: "quiet (setState StateOpenConfirm s3)" using writeConn_routes(3) [OF w2] by (simp add: quiet_setState)
  have r3: "routes_distinct (setState StateOpenConfirm s3)" using a writeConn_routes(1) [OF w2] by simp
  show ?thesis
    using await_keepalive_routes [OF k q3 r3] a writeConn_routes(2) [OF w1] writeConn_routes(2) [OF w2] by simp
qed

lemma passive_handshake_routes:
  assumes h: "passive_handshake ok oin evs s = (s', Inr evs')" and q: "quiet s" "routes_distinct s" "\<forall>e \<in> set evs. event_ok e"
  shows "routes_distinct s' \<and> p_conn (s_peer s') = p_conn (s_peer s) \<and> (\<forall>e \<in> set evs'. event_ok e)"
proof -
  let ?s = "set_hold (fst (passive_hold (s_peer s) oin)) s"
  obtain m s1 s2 where
    w1: "writeConn ok m ?s = (s1, True)" and
    w2: "writeConn ok Keepalive (setState StateOpenSent s1) = (s2, True)" and
    k: "await_keepalive ok evs (setState StateOpenConfirm s2) = (s', Inr evs')"
    using h by (auto simp: passive_handshake_def Let_def split: sum.splits prod.splits bool.splits option.splits)
  have "quiet s1" using q writeConn_routes(3) [OF w1] by simp
  then have "quiet s2" using writeConn_routes(3) [OF w2] by (simp add: quiet_setState)
  then have "quiet (setState StateOpenConfirm s2)" by (simp add: quiet_setState)
  moreover have "routes_distinct (setState StateOpenConfirm s2)"
    using q(2) writeConn_routes(1) [OF w1] writeConn_routes(1) [OF w2] by simp
  ultimately show ?thesis
    using await_keepalive_routes [OF k _ _ q(3)] writeConn_routes(2) [OF w1] writeConn_routes(2) [OF w2] by simp
qed

lemma run_blocked_cases:
  assumes "close_conn r = (s', Blocked)"
  shows "r = (s', Blocked)"
  using assms by (auto simp: close_conn_def split: prod.splits if_splits)

lemma quiet_not_established: "quiet s \<Longrightarrow> p_state (s_peer s) \<noteq> StateEstablished"
  by (simp add: quiet_def)

lemma wait_quiet: "wait_message ok evs s = (s', x) \<Longrightarrow> quiet s \<Longrightarrow> quiet s'"
  using wait_undisturbed undisturbed_quiet by blast

lemma writeConn_quiet: "writeConn ok m s = (s', b) \<Longrightarrow> quiet s \<Longrightarrow> quiet s'"
  using writeConn_routes(3) by simp

lemma sendNotification_quiet: "quiet s \<Longrightarrow> quiet (sendNotification ok c d s)"
  by (simp add: sendNotification_def quiet_def writeConn_def Let_def)

lemmas quiet_rules = quiet_setState sendNotification_quiet wait_quiet writeConn_quiet

lemma await_open_quiet: "await_open ok evs s = (s', x) \<Longrightarrow> quiet s \<Longrightarrow> quiet s'"
  using wait_quiet [of ok evs "deadline30 s"]
  by (auto simp: await_open_def intro: sendNotification_quiet
    split: prod.splits option.splits read_result.splits message.splits)

lemma await_keepalive_quiet: "await_keepalive ok evs s = (s', x) \<Longrightarrow> quiet s \<Longrightarrow> quiet s'"
  using wait_quiet [of ok evs "deadline30 s"]
  by (auto simp: await_keepalive_def intro: sendNotification_quiet
    split: prod.splits option.splits read_result.splits message.splits)

lemma active_handshake_quiet:
  assumes "active_handshake ok evs s = (s', x)" "quiet s"
  shows "quiet s'"
  using assms unfolding active_handshake_def Let_def
  by (auto intro: sendNotification_quiet quiet_setState split: sum.splits prod.splits bool.splits option.splits
    dest!: writeConn_quiet await_open_quiet await_keepalive_quiet)

lemma passive_handshake_quiet:
  assumes "passive_handshake ok oin evs s = (s', x)" "quiet s"
  shows "quiet s'"
  using assms unfolding passive_handshake_def Let_def
  by (auto intro: sendNotification_quiet quiet_setState split: sum.splits prod.splits bool.splits option.splits
    dest!: writeConn_quiet await_keepalive_quiet)

section \<open>Properties of a session\<close>

text \<open>C23: a dialled session gets past its handshake only after the remote side sent an OPEN that the AS
  check accepts and then a KEEPALIVE; until then exactly the OPEN and one KEEPALIVE of this side were
  written, the hold time is the smaller of both sides' (none if the remote offers 0), and the
  capabilities of the OPEN are recorded.\<close>

theorem dialled_session_validated:
  assumes "active_handshake ok evs s = (s', Inr evs')" "p_state (s_peer s) \<noteq> StateEstablished" "\<not> s_ka s"
  shows "\<exists>oin bgp_id. reads evs = Got (Open oin) # Got Keepalive # reads evs' \<and>
    (remote_asn oin = pc_ASN (p_cfg (s_peer s)) \<or> ucast (MyASN oin) = pc_ASN (p_cfg (s_peer s))) \<and>
    s_out s' = s_out s @ [open_out (s_peer s) (local_hold (s_peer s)) bgp_id, Keepalive] \<and>
    p_holdTime (s_peer s') =
      (if HoldTime oin = 0 then 0 else min (unat (HoldTime oin)) (unat (local_hold (s_peer s)))) \<and>
    p_hasIPv6Cap (s_peer s') = HasIPv6Unicast oin \<and> p_hasAS4Cap (s_peer s') = HasAS4Cap oin"
proof -
  have "quiet s" using assms(2,3) by (simp add: quiet_def)
  from active_handshake_Inr [OF assms(1) this] obtain oin bgp_id where
    h: "reads evs = Got (Open oin) # Got Keepalive # reads evs'" "active_asn_check (s_peer s) oin = None"
      "s_out s' = s_out s @ [open_out (s_peer s) (local_hold (s_peer s)) bgp_id, Keepalive]"
      "p_holdTime (s_peer s') = active_hold (s_peer s) oin"
      "p_hasIPv6Cap (s_peer s') = HasIPv6Unicast oin" "p_hasAS4Cap (s_peer s') = HasAS4Cap oin"
    by blast
  then show ?thesis
    by (intro exI [of _ oin] exI [of _ bgp_id]) (auto simp: active_asn_check_def active_hold_min split: if_splits)
qed

definition sample_session :: session where
  "sample_session =
     \<lparr>s_peer = sample_peer\<lparr>p_state := StateIdle, p_conn := False\<rparr>, s_out = [], s_writes = 0, s_states = [], s_deadline = None,
      s_ka = False, s_closed = False, s_has_cb = False, s_seen = []\<rparr>"

definition sample_open :: open_message where
  "sample_open = \<lparr>Version = 4, MyASN = 65001, MyASN32 = 65001, HoldTime = 60, BGPID = [10, 0, 0, 1], OptParmLen = 22,
     HasIPv6Unicast = True, HasAS4Cap = True\<rparr>"

lemmas session_eval = sample_session_def sample_open_def sample_peer_def NewPeer_def deadline30_def writeConn_def
  setState_def await_open_def await_keepalive_def set_caps_def set_hold_def addr_as4_def is4_def local_hold_def

theorem dialled_session_validated_witness:
  "\<exists>s'. active_handshake (\<lambda>i. True) [Read (Got (Open sample_open)), Other Trigger, Read (Got Keepalive)] sample_session =
      (s', Inr []) \<and> p_holdTime (s_peer s') = 60 \<and> p_hasIPv6Cap (s_peer s')"
proof -
  let ?evs = "[Read (Got (Open sample_open)), Other Trigger, Read (Got Keepalive)]"
  obtain s' where h: "active_handshake (\<lambda>i. True) ?evs sample_session = (s', Inr [])"
    by (simp add: active_handshake_def session_eval active_asn_check_def TriggerUpdate_def Let_def)
  have "p_state (s_peer sample_session) \<noteq> StateEstablished" "\<not> s_ka sample_session" by (simp_all add: sample_session_def)
  from dialled_session_validated [OF h this] have "p_holdTime (s_peer s') = 60" "p_hasIPv6Cap (s_peer s')"
    by (auto simp: sample_open_def local_hold_def sample_session_def sample_peer_def NewPeer_def)
  with h show ?thesis by blast
qed

text \<open>C24: an accepted session gets past its handshake only if the AS of the OPEN, the four-octet one when
  it carries that capability, is the configured one and a KEEPALIVE followed; it wrote exactly its OPEN
  and one KEEPALIVE, its hold time is the one the dialling side would compute, and its own OPEN offers
  that hold time (its own when the remote offers 0).\<close>

theorem accepted_session_validated:
  assumes "passive_handshake ok oin evs s = (s', Inr evs')" "p_state (s_peer s) \<noteq> StateEstablished" "\<not> s_ka s"
  shows "\<exists>bgp_id. reads evs = Got Keepalive # reads evs' \<and> remote_asn oin = pc_ASN (p_cfg (s_peer s)) \<and>
    s_out s' = s_out s @ [open_out (s_peer s) (snd (passive_hold (s_peer s) oin)) bgp_id, Keepalive] \<and>
    p_holdTime (s_peer s') = active_hold (s_peer s) oin \<and>
    unat (snd (passive_hold (s_peer s) oin)) =
      (if HoldTime oin = 0 then unat (local_hold (s_peer s)) else active_hold (s_peer s) oin)"
proof -
  have "quiet s" using assms(2,3) by (simp add: quiet_def)
  from passive_handshake_Inr [OF assms(1) this] obtain bgp_id where
    h: "reads evs = Got Keepalive # reads evs'" "passive_asn_check (s_peer s) oin = None"
      "s_out s' = s_out s @ [open_out (s_peer s) (snd (passive_hold (s_peer s) oin)) bgp_id, Keepalive]"
      "p_holdTime (s_peer s') = fst (passive_hold (s_peer s) oin)"
    by blast
  then show ?thesis
    by (intro exI [of _ bgp_id])
      (auto simp: passive_asn_check_def active_hold_min passive_hold_min passive_hold_def Let_def min_def word_less_nat_alt split: if_splits)
qed

theorem accepted_session_validated_witness:
  "\<exists>s'. passive_handshake (\<lambda>i. True) sample_open [Read (Got Keepalive)] sample_session = (s', Inr []) \<and>
    p_holdTime (s_peer s') = 60"
proof -
  obtain s' where h: "passive_handshake (\<lambda>i. True) sample_open [Read (Got Keepalive)] sample_session = (s', Inr [])"
    by (simp add: passive_handshake_def passive_hold_def session_eval passive_asn_check_def remote_asn_def Let_def)
  have "p_state (s_peer sample_session) \<noteq> StateEstablished" "\<not> s_ka sample_session" by (simp_all add: sample_session_def)
  from accepted_session_validated [OF h this] have "p_holdTime (s_peer s') = 60"
    by (auto simp: active_hold_def sample_open_def sample_session_def sample_peer_def NewPeer_def)
  with h show ?thesis by blast
qed

text \<open>the AS checks of the two sides differ exactly on an OPEN whose two-byte field is the configured
  AS while its four-octet capability names another one: the dialling side accepts it, the accepting side
  rejects it.\<close>

theorem asn_checks_differ:
  "active_asn_check p oin \<noteq> passive_asn_check p oin \<longleftrightarrow>
     ucast (MyASN oin) = pc_ASN (p_cfg p) \<and> MyASN32 oin \<noteq> 0 \<and> MyASN32 oin \<noteq> ucast (MyASN oin)"
  by (auto simp: active_asn_check_def passive_asn_check_def remote_asn_def)


lemma resync_nothing:
  "p_routes p = [] \<Longrightarrow> p_lastSent p = [] \<Longrightarrow> resync_updates p = ([], [])"
  by (simp add: resync_updates_def chunk_one)

lemma resync_one:
  "p_routes p = [sample_route n] \<Longrightarrow> p_lastSent p = [] \<Longrightarrow>
     resync_updates p = ([group_update p (False, Addr IPv4 1, []) [Prefix (Addr IPv4 n) 32]], [Prefix (Addr IPv4 n) 32])"
  by (simp add: resync_updates_def sample_route_def is4_def chunk_one)


text \<open>\<open>setState\<close> makes the established state visible before \<open>resetSent\<close> forgets what the previous
  session sent, so a reconcile that announces in between is forgotten: after a second one that drops the
  route, the remote side keeps 0.0.0.7/32, which neither \<open>lastSent\<close> nor the desired routes contain.\<close>

theorem established_race:
  "\<exists>s'. initial_routes (\<lambda>i. True) [Announce [sample_route 7]] [Announce []] (sample_session\<lparr>s_peer := sample_peer\<rparr>) = (s', True) \<and>
    Prefix (Addr IPv4 7) 32 \<in> dom (fold apply_message (s_out s') (\<lambda>q. None)) \<and>
    p_lastSent (s_peer s') = [] \<and> p_routes (s_peer s') = []"
  by (simp add: initial_routes_def run_ops_def reset_sent_def resetSent_def resync_def resyncRoutes_def deliver_def
      AnnounceRoutes_def resync_one resync_nothing shift_def sample_session_def sample_peer_def NewPeer_def Let_def)
    (auto simp: group_update_def apply_update_def set_all_def Let_def dom_def)

section \<open>The end of a session\<close>

lemma run_op_ka: "\<not> s_ka s \<Longrightarrow> \<not> s_ka (run_op ok a s)"
  by (cases a) (auto simp: deliver_def Stop_def keepalive_tick_def Let_def split: prod.splits)

lemma initial_routes_ka: "\<not> s_ka s \<Longrightarrow> initial_routes ok before after s = (s', b) \<Longrightarrow> \<not> s_ka s'"
proof -
  have ops: "\<not> s_ka s \<Longrightarrow> \<not> s_ka (run_ops ok ops s)" for ops s
    unfolding run_ops_def by (induction ops arbitrary: s) (simp_all add: run_op_ka)
  assume "\<not> s_ka s" "initial_routes ok before after s = (s', b)"
  moreover have "\<not> s_ka (run_ops ok after (reset_sent (run_ops ok before s)))"
    using \<open>\<not> s_ka s\<close> by (intro ops) (simp add: reset_sent_def ops)
  ultimately show ?thesis by (auto simp: initial_routes_def resync_def deliver_def split: prod.splits)
qed

lemma idle_quiet: "\<not> s_ka s \<Longrightarrow> quiet (setState StateIdle s)"
  by (simp add: quiet_def setState_def)

lemma main_loop_and_idle_quiet: "main_loop_and_idle ok evs s = (s', res) \<Longrightarrow> res \<noteq> Blocked \<Longrightarrow> quiet s'"
  by (auto simp: main_loop_and_idle_def mainLoop_def Let_def quiet_def setState_def split: prod.splits if_splits)

lemma close_conn_quiet:
  "close_conn (s1, res) = (s', res') \<Longrightarrow> quiet s1 \<Longrightarrow> res' \<noteq> Blocked \<Longrightarrow> quiet s' \<and> \<not> p_conn (s_peer s')"
  by (auto simp: close_conn_def quiet_def setConn_def split: if_splits)

lemma close_main_loop:
  assumes "close_conn (main_loop_and_idle ok evs s) = (s', Ended e)"
  shows "quiet s' \<and> \<not> p_conn (s_peer s')"
proof -
  obtain s1 res where m: "main_loop_and_idle ok evs s = (s1, res)" by fastforce
  then have "res \<noteq> Blocked" using assms by (auto simp: close_conn_def)
  then show ?thesis using assms main_loop_and_idle_quiet [OF m] close_conn_quiet [of s1 res s' "Ended e"] m by simp
qed

text \<open>C25: however a dialled or accepted session ends, the peer is left without a connection, outside the
  established state and without a keepalive goroutine.\<close>

theorem session_teardown:
  assumes "connectAndRun ok dial before after evs s = (s', Ended e) \<or>
      AcceptWithOpen ok oin before after evs s = (s', Ended e)"
    "p_state (s_peer s) \<noteq> StateEstablished" "\<not> s_ka s" "\<not> p_conn (s_peer s)"
  shows "p_state (s_peer s') \<noteq> StateEstablished \<and> \<not> s_ka s' \<and> \<not> p_conn (s_peer s')"
proof -
  have q: "quiet s" "quiet (setConn True s)" "quiet (setConn True (setState StateConnect s))"
    using assms(2,3) by (simp_all add: quiet_def setConn_def setState_def)
  have "quiet s' \<and> \<not> p_conn (s_peer s')"
    using assms(1)
  proof
    assume c: "connectAndRun ok dial before after evs s = (s', Ended e)"
    obtain s1 x where h: "active_handshake ok evs (setConn True (setState StateConnect s)) = (s1, x)" by fastforce
    have q1: "quiet s1" by (rule active_handshake_quiet [OF h q(3)])
    have ka: "\<not> s_ka (setState StateEstablished s1)" using q1 by (simp add: quiet_def setState_def)
    show ?thesis
      using c h q q1 assms(4) initial_routes_ka [OF ka]
      by (auto simp: connectAndRun_def Let_def quiet_setState split: if_splits sum.splits prod.splits bool.splits
        intro: idle_quiet dest!: close_main_loop close_conn_quiet)
  next
    assume c: "AcceptWithOpen ok oin before after evs s = (s', Ended e)"
    obtain s1 x where h: "passive_handshake ok oin evs (setConn True s) = (s1, x)" by fastforce
    have q1: "quiet s1" by (rule passive_handshake_quiet [OF h q(2)])
    have "\<not> s_ka (run_ops ok before (setState StateEstablished s1))"
      using q1 run_op_ka unfolding run_ops_def
      by (induction before rule: rev_induct) (auto simp: quiet_def setState_def)
    then have ka: "\<not> s_ka (set_caps oin (run_ops ok before (setState StateEstablished s1)))" by (simp add: set_caps_def)
    show ?thesis
      using c h q1 initial_routes_ka [OF ka]
      by (auto simp: AcceptWithOpen_def Let_def split: sum.splits prod.splits bool.splits
        intro: idle_quiet dest!: close_main_loop close_conn_quiet)
  qed
  then show ?thesis by (simp add: quiet_def)
qed

theorem session_teardown_witness:
  "p_state (s_peer (fst (AcceptWithOpen (\<lambda>i. True) sample_open [] [] [Read (Got Keepalive), Read ReadEOF] sample_session))) \<noteq>
     StateEstablished"
proof -
  let ?r = "AcceptWithOpen (\<lambda>i. True) sample_open [] [] [Read (Got Keepalive), Read ReadEOF] sample_session"
  obtain s' e where h: "?r = (s', Ended e)"
    by (simp add: AcceptWithOpen_def passive_handshake_def passive_hold_def session_eval passive_asn_check_def remote_asn_def
      Let_def setConn_def initial_routes_def run_ops_def reset_sent_def resetSent_def resync_def resyncRoutes_def deliver_def
      resync_nothing main_loop_and_idle_def mainLoop_def loop.simps arm_deadline_def close_conn_def)
  then have "p_state (s_peer s') \<noteq> StateEstablished"
    using session_teardown [of "\<lambda>i. True" "\<lambda>a p l k. True" "[]" "[]" "[Read (Got Keepalive), Read ReadEOF]" sample_session s' e sample_open]
    by (simp add: sample_session_def sample_peer_def NewPeer_def)
  with h show ?thesis by simp
qed

section \<open>What the remote side is told\<close>

fun note_for :: "fsm_error \<Rightarrow> (byte \<times> byte) option" where
  "note_for ExpectedOpen = Some (2, 4)"
| "note_for (AsnMismatch a) = Some (2, 2)"
| "note_for ExpectedKeepalive = Some (5, 0)"
| "note_for HoldTimerExpired = Some (4, 0)"
| "note_for e = None"

definition notified :: "run_result \<Rightarrow> session \<Rightarrow> bool" where
  "notified res s =
     (\<forall>e c d. res = Ended (Some e) \<and> note_for e = Some (c, d) \<longrightarrow>
        s_out s \<noteq> [] \<and> last (s_out s) = Notification \<lparr>ErrorCode = c, ErrorSubcode = d, Data = []\<rparr>)"

lemma notified_none [simp]:
  "notified Blocked s" "notified Crashed s" "notified (Ended None) s" "note_for e = None \<Longrightarrow> notified (Ended (Some e)) s"
  by (simp_all add: notified_def)

lemma notified_sent: "delivers ok \<Longrightarrow> note_for e = Some (c, d) \<Longrightarrow> notified (Ended (Some e)) (sendNotification ok c d s)"
  by (simp add: notified_def sendNotification_def writeConn_def Let_def delivers_def)

lemma notified_cong: "s_out s = s_out s' \<Longrightarrow> notified res s = notified res s'"
  by (simp add: notified_def)

lemma await_open_notified: "await_open ok evs s = (s', Inl res) \<Longrightarrow> delivers ok \<Longrightarrow> notified res s'"
  by (auto simp: await_open_def notified_sent split: prod.splits option.splits read_result.splits message.splits)

lemma await_keepalive_notified: "await_keepalive ok evs s = (s', Inl res) \<Longrightarrow> delivers ok \<Longrightarrow> notified res s'"
  by (auto simp: await_keepalive_def notified_sent split: prod.splits option.splits read_result.splits message.splits)

lemma asn_check_error:
  "active_asn_check p oin = Some e \<Longrightarrow> note_for e = Some (2, 2)" "passive_asn_check p oin = Some e \<Longrightarrow> note_for e = Some (2, 2)"
  by (auto simp: active_asn_check_def passive_asn_check_def split: if_splits)

lemma active_handshake_notified: "active_handshake ok evs s = (s', Inl res) \<Longrightarrow> delivers ok \<Longrightarrow> notified res s'"
  unfolding active_handshake_def Let_def
  by (auto simp: notified_sent asn_check_error split: sum.splits prod.splits bool.splits option.splits
    dest: await_open_notified await_keepalive_notified)

lemma passive_handshake_notified: "passive_handshake ok oin evs s = (s', Inl res) \<Longrightarrow> delivers ok \<Longrightarrow> notified res s'"
  unfolding passive_handshake_def Let_def
  by (auto simp: notified_sent asn_check_error split: sum.splits prod.splits bool.splits option.splits
    dest: await_keepalive_notified)

lemma handle_message_error: "handle_message m s = (s', Some e) \<Longrightarrow> note_for e = None"
  by (cases m) (auto split: if_splits)

lemma loop_notified: "loop ok hold evs s = (s', res) \<Longrightarrow> delivers ok \<Longrightarrow> notified res s'"
proof (induction ok hold evs s rule: loop.induct)
  case (1 ok hold evs s)
  let ?s1 = "arm_deadline hold s"
  show ?case
  proof (cases "p_stopping (s_peer s)")
    case True
    then show ?thesis using "1.prems"(1) by (auto simp: loop.simps [of ok hold evs s])
  next
    case run: False
    show ?thesis
    proof (cases "p_needsUpdate (s_peer ?s1)")
      case True
      obtain s2 b where r: "resync ok (set_needs_update False ?s1) = (s2, b)" by fastforce
      then show ?thesis
        using "1.IH"(1) [OF run refl True r [symmetric] refl] "1.prems" True run
        by (cases b) (auto simp: loop.simps [of ok hold evs s] Let_def)
    next
      case False
      obtain s2 x where w: "wait_message ok evs ?s1 = (s2, x)" by fastforce
      show ?thesis
      proof (cases "\<exists>m evs'. x = Some (Got m, evs')")
        case True
        then obtain m evs' where x: "x = Some (Got m, evs')" by blast
        obtain s3 y where h: "handle_message m s2 = (s3, y)" by fastforce
        then show ?thesis
          using "1.IH"(2) [OF run refl False w [symmetric], of "(Got m, evs')" "Got m" evs' m] x "1.prems" False run w
            handle_message_error [of m s2 s3]
          by (cases y) (auto simp: loop.simps [of ok hold evs s] Let_def)
      next
        case nomsg: False
        then show ?thesis
          using "1.prems" False run w
          by (auto simp: loop.simps [of ok hold evs s] Let_def notified_sent split: option.splits read_result.splits)
      qed
    qed
  qed
qed

lemma main_loop_notified:
  assumes "main_loop_and_idle ok evs s = (s', res)" "delivers ok"
  shows "notified res s'"
proof -
  let ?s1 = "if 0 < p_holdTime (s_peer s) then s\<lparr>s_ka := True\<rparr> else s\<lparr>s_deadline := None\<rparr>"
  obtain s2 r where l: "loop ok (p_holdTime (s_peer s)) evs ?s1 = (s2, r)" by fastforce
  then have res: "r = res" and o: "s_out s' = s_out s2"
    using assms(1) by (auto simp: main_loop_and_idle_def mainLoop_def Let_def setState_def split: if_splits)
  show ?thesis using loop_notified [OF l assms(2)] notified_cong [OF o] res by simp
qed

lemma close_conn_notified:
  assumes "close_conn (s1, res) = (s', res')" "notified res s1"
  shows "notified res' s'"
proof -
  have "s_out s' = s_out s1" "res' = res" using assms(1) by (auto simp: close_conn_def setConn_def split: if_splits)
  with assms(2) show ?thesis by (simp add: notified_def)
qed

lemma connectAndRun_notified:
  assumes "connectAndRun ok dial before after evs s = (s', res)" "delivers ok"
  shows "notified res s'"
proof -
  let ?s0 = "setState StateConnect s"
  let ?dialled = "\<not> p_conn (s_peer s) \<and> \<not> pc_Port (p_cfg (s_peer s)) < 0 \<and> dial_peer dial (s_peer ?s0)"
  obtain s1 x where h: "active_handshake ok evs (setConn True ?s0) = (s1, x)" by fastforce
  obtain s2 b where i: "initial_routes ok before after (setState StateEstablished s1) = (s2, b)" by fastforce
  obtain s3 r where m: "main_loop_and_idle ok (projr x) s2 = (s3, r)" by fastforce
  show ?thesis
  proof (cases ?dialled)
    case False
    then show ?thesis using assms(1) by (auto simp: connectAndRun_def Let_def split: if_splits)
  next
    case True
    have x1: "notified y s1" if "x = Inl y" for y using active_handshake_notified [OF h [unfolded that] assms(2)] .
    have x2: "notified r s3" by (rule main_loop_notified [OF m assms(2)])
    have "\<exists>s4 r4. close_conn (s4, r4) = (s', res) \<and> notified r4 s4"
      using assms(1) True h i m x1 x2
      by (cases x; cases b) (auto simp: connectAndRun_def Let_def simp del: split_paired_Ex intro!: exI)
    then show ?thesis using close_conn_notified by blast
  qed
qed

lemma AcceptWithOpen_notified:
  assumes "AcceptWithOpen ok oin before after evs s = (s', res)" "delivers ok"
  shows "notified res s'"
proof -
  obtain s1 x where h: "passive_handshake ok oin evs (setConn True s) = (s1, x)" by fastforce
  obtain s2 b where i: "initial_routes ok [] after (set_caps oin (run_ops ok before (setState StateEstablished s1))) = (s2, b)"
    by fastforce
  obtain s3 r where m: "main_loop_and_idle ok (projr x) s2 = (s3, r)" by fastforce
  have x1: "notified y s1" if "x = Inl y" for y using passive_handshake_notified [OF h [unfolded that] assms(2)] .
  have x2: "notified r s3" by (rule main_loop_notified [OF m assms(2)])
  have "\<exists>s4 r4. close_conn (s4, r4) = (s', res) \<and> notified r4 s4"
    using assms(1) h i m x1 x2
    by (cases x; cases b) (auto simp: AcceptWithOpen_def Let_def simp del: split_paired_Ex intro!: exI)
  then show ?thesis using close_conn_notified by blast
qed

lemma Accept_notified:
  assumes "Accept ok before after evs s = (s', res)" "delivers ok"
  shows "notified res s'"
proof -
  obtain s1 x where o: "await_open ok evs (setConn True s) = (s1, x)" by fastforce
  show ?thesis
  proof (cases x)
    case (Inl y)
    then show ?thesis
      using assms o await_open_notified [OF o [unfolded Inl] assms(2)] close_conn_notified [of s1 y s' res]
      by (simp add: Accept_def)
  next
    case (Inr z)
    then show ?thesis using assms o AcceptWithOpen_notified by (cases z) (fastforce simp: Accept_def)
  qed
qed



lemma Run_failures:
  "Run a (map (\<lambda>e. (False, Some e)) es @ rest) =
     map (\<lambda>k. min (a + Suc k) 60) [0..<length es] @ Run (a + length es) rest"
proof (induction es arbitrary: a)
  case (Cons e es)
  have "map (\<lambda>k. min (a + Suc k) 60) [0..<Suc (length es)] =
      min (Suc a) 60 # map (\<lambda>k. min (Suc a + Suc k) 60) [0..<length es]"
    by (simp add: upt_conv_Cons map_Suc_upt [symmetric] del: upt_Suc)
  then show ?case using Cons by (simp add: Let_def min_def)
qed simp

text \<open>\<open>Run\<close> waits one second more after every failed session in a row, at most 60, and a session
  that ended gracefully resets the count and is followed by an immediate reconnect.\<close>

theorem Run_backoff:
  "Run 0 (map (\<lambda>e. (False, Some e)) es @ (False, None) # rest) =
     map (\<lambda>k. min (Suc k) 60) [0..<length es] @ 0 # Run 0 rest"
  using Run_failures [of 0 es "(False, None) # rest"] by simp

end
