(* ===== verification/Srs.thy ===== *)
theory Srs
  imports Prefix_Aggregate "HOL-Library.Sublist"
begin

text \<open>
  \<open>internal/feeds/srs.go\<close>, \<open>srs_parse.go\<close>, \<open>srs_skip.go\<close>, \<open>srs_cidr.go\<close> and \<open>srs_adguard.go\<close>: the
  parser of sing-box binary rule sets. A reader is the list of the bytes it still delivers before it
  fails (at its end, at corrupt data, or at the limit of \<open>countReader\<close>), so a parser maps the list to an
  error or a value together with what is left to read. \<open>dn n\<close> tells whether the context is done when \<open>n\<close>
  bytes are left.
\<close>

section \<open>Readers\<close>

datatype srs_error =
    ShortRead | Cancelled | UvarintOverflow | CountExceeds nat | BadIPSetVersion byte | BadAddrLen nat
  | AddrLenMismatch nat nat | BadAddr nat | BadRange addr addr | IPSetBuild | BadPrefixAddrLen nat
  | UnknownItem byte | UnknownRuleType byte | UnknownMode byte | DepthExceeded
  | ConfigError | TooShort | BadMagic | BadVersion byte | ZlibError | StreamError

type_synonym stream = "byte list"
type_synonym 'a reader = "stream \<Rightarrow> (srs_error + 'a) \<times> stream"

definition rpure :: "'a \<Rightarrow> 'a reader" where "rpure x s = (Inr x, s)"
definition rfail :: "srs_error \<Rightarrow> 'a reader" where "rfail e s = (Inl e, s)"

definition rbind :: "'a reader \<Rightarrow> ('a \<Rightarrow> 'b reader) \<Rightarrow> 'b reader" where
  "rbind m f s = (case m s of (Inl e, s') \<Rightarrow> (Inl e, s') | (Inr x, s') \<Rightarrow> f x s')"

text \<open>\<open>io.ReadFull\<close> consumes what there is when it falls short.\<close>

definition read_full :: "nat \<Rightarrow> byte list reader" where
  "read_full n s = (if n \<le> length s then (Inr (take n s), drop n s) else (Inl ShortRead, []))"

definition read_byte :: "byte reader" where
  "read_byte = rbind (read_full 1) (\<lambda>bs. rpure (hd bs))"

text \<open>\<open>binary.ReadUvarint\<close>: at most ten bytes; \<open>left\<close> is 10 minus the index of the byte.\<close>

fun uvarint_loop :: "nat \<Rightarrow> u64 \<Rightarrow> nat \<Rightarrow> u64 reader" where
  "uvarint_loop 0 x sh = rfail UvarintOverflow"
| "uvarint_loop (Suc left) x sh =
     rbind read_byte (\<lambda>b.
       if b < 0x80 then (if left = 0 \<and> 1 < b then rfail UvarintOverflow else rpure (x OR push_bit sh (ucast b)))
       else uvarint_loop left (x OR push_bit sh (ucast (b AND 0x7F))) (sh + 7))"

definition read_uvarint :: "u64 reader" where
  "read_uvarint = uvarint_loop 10 0 0"

definition read_u64 :: "u64 reader" where
  "read_u64 = rbind (read_full 8) (\<lambda>bs. rpure (get_u64 bs))"

text \<open>\<open>skipBytes(r, int64(n))\<close>: \<open>io.CopyN\<close> copies nothing when the count is not positive.\<close>

definition skip_bytes :: "u64 \<Rightarrow> unit reader" where
  "skip_bytes n s =
     (if sint n \<le> 0 then (Inr (), s)
      else if nat (sint n) \<le> length s then (Inr (), drop (nat (sint n)) s) else (Inl ShortRead, []))"

definition check_ctx :: "(nat \<Rightarrow> bool) \<Rightarrow> unit reader" where
  "check_ctx dn s = (if dn (length s) then (Inl Cancelled, s) else (Inr (), s))"

definition max_count :: nat where "max_count = 10000000"
definition max_decompressed :: nat where "max_decompressed = 67108864"
definition max_depth :: nat where "max_depth = 100"

text \<open>\<open>if count > max \<dots> return error\<close>.\<close>

definition check_count :: "nat \<Rightarrow> u64 \<Rightarrow> unit reader" where
  "check_count limit n = (if limit < unat n then rfail (CountExceeds (unat n)) else rpure ())"

text \<open>\<open>for i := 0; i < count; i++\<close> around a body without a result.\<close>

fun repeat_read :: "nat \<Rightarrow> unit reader \<Rightarrow> unit reader" where
  "repeat_read 0 m = rpure ()"
| "repeat_read (Suc n) m = rbind m (\<lambda>_. repeat_read n m)"

section \<open>Skipping payloads\<close>

definition skip_ipset :: "(nat \<Rightarrow> bool) \<Rightarrow> unit reader" where
  "skip_ipset dn =
     rbind (check_ctx dn) (\<lambda>_.
     rbind read_byte (\<lambda>ver.
     if ver \<noteq> 1 then rfail (BadIPSetVersion ver) else
     rbind read_u64 (\<lambda>count.
     rbind (check_count max_count count) (\<lambda>_.
     repeat_read (unat count)
       (rbind (check_ctx dn) (\<lambda>_.
        rbind read_uvarint (\<lambda>fl.
        rbind (skip_bytes fl) (\<lambda>_.
        rbind read_uvarint skip_bytes))))))))"

definition skip_string_array :: "(nat \<Rightarrow> bool) \<Rightarrow> unit reader" where
  "skip_string_array dn =
     rbind (check_ctx dn) (\<lambda>_.
     rbind read_uvarint (\<lambda>count.
     rbind (check_count max_count count) (\<lambda>_.
     repeat_read (unat count)
       (rbind (check_ctx dn) (\<lambda>_. rbind read_uvarint skip_bytes)))))"

definition skip_uint16_array :: "unit reader" where
  "skip_uint16_array =
     rbind read_uvarint (\<lambda>count. rbind (check_count max_count count) (\<lambda>_. skip_bytes (count * 2)))"

definition skip_uint8_array :: "unit reader" where
  "skip_uint8_array =
     rbind read_uvarint (\<lambda>count. rbind (check_count max_count count) (\<lambda>_. skip_bytes count))"

definition skip_domain_matcher :: "unit reader" where
  "skip_domain_matcher =
     rbind read_byte (\<lambda>version.
     rbind read_uvarint (\<lambda>count.
     rbind (check_count max_count count) (\<lambda>_.
     rbind (skip_bytes (count * 8)) (\<lambda>_.
     rbind read_uvarint (\<lambda>count.
     rbind (check_count max_count count) (\<lambda>_.
     rbind (skip_bytes (count * 8)) (\<lambda>_.
     rbind read_uvarint (\<lambda>byte_len.
     rbind (check_count max_decompressed byte_len) (\<lambda>_.
     skip_bytes byte_len)))))))))"

definition skip_adguard_matcher :: "unit reader" where
  "skip_adguard_matcher =
     rbind read_byte (\<lambda>version.
     rbind read_uvarint (\<lambda>count.
     rbind (check_count max_count count) (\<lambda>_.
     rbind (skip_bytes (count * 8)) (\<lambda>_.
     rbind read_uvarint (\<lambda>count.
     rbind (check_count max_count count) (\<lambda>_.
     rbind (skip_bytes (count * 8)) (\<lambda>_.
     rbind read_uvarint (\<lambda>byte_len.
     rbind (check_count max_decompressed byte_len) (\<lambda>_.
     skip_bytes byte_len)))))))))"

text \<open>One address with its prefix byte, as in both arrays of interface addresses.\<close>

definition skip_prefix :: "(nat \<Rightarrow> bool) \<Rightarrow> unit reader" where
  "skip_prefix dn =
     rbind (check_ctx dn) (\<lambda>_.
     rbind read_uvarint (\<lambda>addr_len.
     if 16 < addr_len then rfail (BadPrefixAddrLen (unat addr_len)) else skip_bytes (addr_len + 1)))"

definition skip_prefix_array :: "(nat \<Rightarrow> bool) \<Rightarrow> unit reader" where
  "skip_prefix_array dn =
     rbind (check_ctx dn) (\<lambda>_.
     rbind read_uvarint (\<lambda>count.
     rbind (check_count max_count count) (\<lambda>_.
     repeat_read (unat count) (skip_prefix dn))))"

definition skip_interface_address :: "(nat \<Rightarrow> bool) \<Rightarrow> unit reader" where
  "skip_interface_address dn =
     rbind (check_ctx dn) (\<lambda>_.
     rbind read_uvarint (\<lambda>map_size.
     rbind (check_count max_count map_size) (\<lambda>_.
     repeat_read (unat map_size)
       (rbind (skip_bytes 1) (\<lambda>_.
        rbind read_uvarint (\<lambda>val_count.
        rbind (check_count max_count val_count) (\<lambda>_.
        rbind (repeat_read (unat val_count) (skip_prefix dn)) (\<lambda>_.
        check_ctx dn))))))))"

section \<open>Items\<close>

definition srsItemQueryType :: byte where "srsItemQueryType = 0"
definition srsItemNetwork :: byte where "srsItemNetwork = 1"
definition srsItemDomain :: byte where "srsItemDomain = 2"
definition srsItemDomainKeyword :: byte where "srsItemDomainKeyword = 3"
definition srsItemDomainRegex :: byte where "srsItemDomainRegex = 4"
definition srsItemSourceIPCIDR :: byte where "srsItemSourceIPCIDR = 5"
definition srsItemIPCIDR :: byte where "srsItemIPCIDR = 6"
definition srsItemSourcePort :: byte where "srsItemSourcePort = 7"
definition srsItemSourcePortRange :: byte where "srsItemSourcePortRange = 8"
definition srsItemPort :: byte where "srsItemPort = 9"
definition srsItemPortRange :: byte where "srsItemPortRange = 10"
definition srsItemProcessName :: byte where "srsItemProcessName = 11"
definition srsItemProcessPath :: byte where "srsItemProcessPath = 12"
definition srsItemPackageName :: byte where "srsItemPackageName = 13"
definition srsItemWIFISSID :: byte where "srsItemWIFISSID = 14"
definition srsItemWIFIBSSID :: byte where "srsItemWIFIBSSID = 15"
definition srsItemAdGuardDomain :: byte where "srsItemAdGuardDomain = 16"
definition srsItemProcessPathRegex :: byte where "srsItemProcessPathRegex = 17"
definition srsItemNetworkType :: byte where "srsItemNetworkType = 18"
definition srsItemNetworkIsExpensive :: byte where "srsItemNetworkIsExpensive = 19"
definition srsItemNetworkIsConstrained :: byte where "srsItemNetworkIsConstrained = 20"
definition srsItemNetworkInterfaceAddress :: byte where "srsItemNetworkInterfaceAddress = 21"
definition srsItemDefaultInterfaceAddress :: byte where "srsItemDefaultInterfaceAddress = 22"
definition srsItemPackageNameRegex :: byte where "srsItemPackageNameRegex = 23"
definition srsItemFinal :: byte where "srsItemFinal = 0xFF"

lemmas srs_items = srsItemQueryType_def srsItemNetwork_def srsItemDomain_def srsItemDomainKeyword_def
  srsItemDomainRegex_def srsItemSourceIPCIDR_def srsItemIPCIDR_def srsItemSourcePort_def srsItemSourcePortRange_def
  srsItemPort_def srsItemPortRange_def srsItemProcessName_def srsItemProcessPath_def srsItemPackageName_def
  srsItemWIFISSID_def srsItemWIFIBSSID_def srsItemAdGuardDomain_def srsItemProcessPathRegex_def srsItemNetworkType_def
  srsItemNetworkIsExpensive_def srsItemNetworkIsConstrained_def srsItemNetworkInterfaceAddress_def
  srsItemDefaultInterfaceAddress_def srsItemPackageNameRegex_def srsItemFinal_def

text \<open>The case labels both switches share.\<close>

definition uint16_items :: "byte list" where
  "uint16_items = [srsItemQueryType, srsItemSourcePort, srsItemPort]"

definition string_items :: "byte list" where
  "string_items = [srsItemNetwork, srsItemSourcePortRange, srsItemPortRange, srsItemProcessName, srsItemProcessPath,
     srsItemProcessPathRegex, srsItemPackageName, srsItemPackageNameRegex, srsItemWIFISSID, srsItemWIFIBSSID]"

definition keyword_items :: "byte list" where
  "keyword_items = [srsItemDomainKeyword, srsItemDomainRegex]"

definition flag_items :: "byte list" where
  "flag_items = [srsItemNetworkIsExpensive, srsItemNetworkIsConstrained]"

definition skip_item_payload :: "byte \<Rightarrow> unit reader" where
  "skip_item_payload t =
     (let background = (\<lambda>n. False) in
      if t = srsItemIPCIDR \<or> t = srsItemSourceIPCIDR then skip_ipset background
      else if t = srsItemDomain then skip_domain_matcher
      else if t = srsItemAdGuardDomain then skip_adguard_matcher
      else if t \<in> set uint16_items then skip_uint16_array
      else if t \<in> set string_items \<or> t \<in> set keyword_items then skip_string_array background
      else if t = srsItemNetworkType then skip_uint8_array
      else if t \<in> set flag_items then rpure ()
      else if t = srsItemNetworkInterfaceAddress then skip_interface_address background
      else if t = srsItemDefaultInterfaceAddress then skip_prefix_array background
      else rfail (UnknownItem t))"

section \<open>Readers only move forward\<close>

definition forward :: "'a reader \<Rightarrow> bool" where
  "forward m = (\<forall>s. suffix (snd (m s)) s)"

named_theorems forward_rules "readers that only move forward"

lemma forwardD: "forward m \<Longrightarrow> m s = (x, s') \<Longrightarrow> suffix s' s"
  unfolding forward_def by (metis snd_conv)

lemma forward_rpure [forward_rules]: "forward (rpure x)"
  by (simp add: forward_def rpure_def)

lemma forward_rfail [forward_rules]: "forward (rfail e)"
  by (simp add: forward_def rfail_def)

lemma forward_rbind [forward_rules]: "forward m \<Longrightarrow> (\<And>x. forward (f x)) \<Longrightarrow> forward (rbind m f)"
  unfolding forward_def rbind_def
  by (auto split: prod.splits sum.splits) (metis snd_conv suffix_order.trans)+

lemma forward_if [forward_rules]: "forward m \<Longrightarrow> forward m' \<Longrightarrow> forward (if c then m else m')"
  by simp

lemma forward_read_full [forward_rules]: "forward (read_full n)"
  by (simp add: forward_def read_full_def suffix_drop)

lemma forward_read_byte [forward_rules]: "forward read_byte"
  unfolding read_byte_def by (intro forward_rules)

lemma forward_uvarint_loop: "forward (uvarint_loop left x sh)"
  by (induction left arbitrary: x sh) (auto intro!: forward_rules)

lemma forward_readers [forward_rules]: "forward read_uvarint" "forward read_u64" "forward (skip_bytes n)"
    "forward (check_ctx dn)" "forward (check_count limit c)"
proof -
  show "forward (skip_bytes n)" by (simp add: forward_def skip_bytes_def suffix_drop)
  show "forward (check_ctx dn)" by (simp add: forward_def check_ctx_def)
qed (auto simp: read_uvarint_def read_u64_def check_count_def intro: forward_uvarint_loop intro!: forward_rules)

lemma forward_repeat [forward_rules]: "forward m \<Longrightarrow> forward (repeat_read n m)"
  by (induction n) (auto intro!: forward_rules)

lemma forward_skips [forward_rules]: "forward (skip_ipset dn)" "forward (skip_string_array dn)" "forward skip_uint16_array"
    "forward skip_uint8_array" "forward skip_domain_matcher" "forward skip_adguard_matcher" "forward (skip_prefix dn)"
    "forward (skip_prefix_array dn)" "forward (skip_interface_address dn)" "forward (skip_item_payload t)"
  unfolding skip_ipset_def skip_string_array_def skip_uint16_array_def skip_uint8_array_def skip_domain_matcher_def
    skip_adguard_matcher_def skip_prefix_array_def skip_interface_address_def skip_item_payload_def Let_def skip_prefix_def
  by (intro forward_rules)+

lemma read_byte_Inr: "read_byte s = (Inr b, s') \<longleftrightarrow> s = b # s'"
  by (cases s) (auto simp: read_byte_def rbind_def read_full_def rpure_def)

lemma read_byte_Nil [simp]: "read_byte [] = (Inl ShortRead, [])"
  by (simp add: read_byte_def rbind_def read_full_def)

lemma read_byte_Cons [simp]: "read_byte (b # s) = (Inr b, s)"
  by (simp add: read_byte_Inr)

section \<open>Address sets\<close>

text \<open>
  What the code uses of the package \<open>go4.org/netipx\<close>: an \<open>IPSet\<close> built from ranges or from prefixes, the
  intersection of two, and the prefixes of one. A builder may fail.
\<close>

record 's netipx =
  of_ranges :: "(addr \<times> addr) list \<Rightarrow> 's option"
  of_prefixes :: "prefix list \<Rightarrow> 's option"
  intersect_sets :: "'s \<Rightarrow> 's \<Rightarrow> 's option"
  prefixes_of :: "'s \<Rightarrow> prefix list"

definition read_range_addr :: "nat \<Rightarrow> addr reader" where
  "read_range_addr len =
     rbind (read_full len) (\<lambda>bs. case addr_from_slice bs of None \<Rightarrow> rfail (BadAddr len) | Some a \<Rightarrow> rpure a)"

text \<open>
  One range. The code reads both addresses before it converts them, and both conversions succeed for the
  lengths that passed the checks.
\<close>

definition read_range :: "(nat \<Rightarrow> bool) \<Rightarrow> (addr \<times> addr) reader" where
  "read_range dn =
     rbind (check_ctx dn) (\<lambda>_.
     rbind read_uvarint (\<lambda>from_len.
     if 16 < from_len \<or> (from_len \<noteq> 4 \<and> from_len \<noteq> 16) then rfail (BadAddrLen (unat from_len)) else
     rbind (read_full (unat from_len)) (\<lambda>from.
     rbind read_uvarint (\<lambda>to_len.
     if 16 < to_len \<or> (to_len \<noteq> 4 \<and> to_len \<noteq> 16) then rfail (BadAddrLen (unat to_len)) else
     if from_len \<noteq> to_len then rfail (AddrLenMismatch (unat from_len) (unat to_len)) else
     rbind (read_full (unat to_len)) (\<lambda>to.
     case addr_from_slice from of
       None \<Rightarrow> rfail (BadAddr (unat from_len))
     | Some from_addr \<Rightarrow>
         (case addr_from_slice to of
            None \<Rightarrow> rfail (BadAddr (unat to_len))
          | Some to_addr \<Rightarrow>
              if to_addr < from_addr then rfail (BadRange from_addr to_addr) else rpure (from_addr, to_addr)))))))"

fun read_ranges :: "nat \<Rightarrow> (nat \<Rightarrow> bool) \<Rightarrow> (addr \<times> addr) list reader" where
  "read_ranges 0 dn = rpure []"
| "read_ranges (Suc n) dn = rbind (read_range dn) (\<lambda>r. rbind (read_ranges n dn) (\<lambda>rs. rpure (r # rs)))"

definition read_ipset :: "'s netipx \<Rightarrow> (nat \<Rightarrow> bool) \<Rightarrow> prefix list reader" where
  "read_ipset nx dn =
     rbind read_byte (\<lambda>ver.
     if ver \<noteq> 1 then rfail (BadIPSetVersion ver) else
     rbind read_u64 (\<lambda>count.
     rbind (check_count max_count count) (\<lambda>_.
     rbind (read_ranges (unat count) dn) (\<lambda>rs.
     case of_ranges nx rs of None \<Rightarrow> rfail IPSetBuild | Some ips \<Rightarrow> rpure (prefixes_of nx ips)))))"

text \<open>
  A CIDR string is the prefix it renders; \<open>netip.ParsePrefix\<close> reads it back when the prefix is valid. A nil
  result is the empty list.
\<close>

fun intersect_loop :: "'s netipx \<Rightarrow> 's \<Rightarrow> prefix list list \<Rightarrow> prefix list" where
  "intersect_loop nx acc [] = prefixes_of nx acc"
| "intersect_loop nx acc (g # gs) =
     (case of_prefixes nx (filter prefix_is_valid g) of
        None \<Rightarrow> []
      | Some ips \<Rightarrow>
          (case intersect_sets nx acc ips of None \<Rightarrow> [] | Some acc' \<Rightarrow> intersect_loop nx acc' gs))"

fun intersect_cidrs :: "'s netipx \<Rightarrow> prefix list list \<Rightarrow> prefix list" where
  "intersect_cidrs nx [] = []"
| "intersect_cidrs nx (g # gs) =
     (case of_prefixes nx (filter prefix_is_valid g) of None \<Rightarrow> [] | Some ips \<Rightarrow> intersect_loop nx ips gs)"

lemma forward_read_range [forward_rules]: "forward (read_range dn)"
  unfolding read_range_def
  by (intro forward_rules) (auto split: option.splits intro!: forward_rules)

lemma forward_read_ranges [forward_rules]: "forward (read_ranges n dn)"
  by (induction n) (auto intro!: forward_rules)

lemma forward_read_ipset [forward_rules]: "forward (read_ipset nx dn)"
  unfolding read_ipset_def by (intro forward_rules) (auto split: option.splits intro!: forward_rules)

section \<open>Rules\<close>

function skip_remaining :: "unit reader" where
  "skip_remaining s =
     (case read_byte s of
        (Inl e, s1) \<Rightarrow> (Inl e, s1)
      | (Inr t, s1) \<Rightarrow>
          if t = srsItemFinal then rbind read_byte (\<lambda>invert. rpure ()) s1
          else (case skip_item_payload t s1 of
                  (Inl e, s2) \<Rightarrow> (Inl e, s2)
                | (Inr _, s2) \<Rightarrow> skip_remaining s2))"
  by pat_completeness auto
termination
  by (relation "measure length")
    (auto dest!: sym [of "(Inr _, _)" "read_byte _"] sym [of "(Inr _, _)" "skip_item_payload _ _"]
      forwardD [OF forward_skips(10)] simp: read_byte_Inr dest: suffix_length_le)

declare skip_remaining.simps [simp del]

text \<open>
  What one item of a default rule does to the loop: its CIDRs and whether it constrains the rule, or the
  rule is given up after an unreadable matcher, or it ends with its invert byte.
\<close>

datatype item_outcome = Item "prefix list" bool | Dropped | Final byte

definition parse_item :: "'s netipx \<Rightarrow> (nat \<Rightarrow> bool) \<Rightarrow> bool \<Rightarrow> byte \<Rightarrow> item_outcome reader" where
  "parse_item nx dn cidrs t =
     (let constraint = (\<lambda>m. rbind m (\<lambda>_. rpure (Item [] True)));
          plain = (\<lambda>m. rbind m (\<lambda>_. rpure (Item [] False)));
          matcher = (\<lambda>m s. case m s of
             (Inr _, s') \<Rightarrow> (Inr (Item [] False), s')
           | (Inl e, s') \<Rightarrow> rbind skip_remaining (\<lambda>_. rpure Dropped) s')
      in
      if t = srsItemIPCIDR then
        (if \<not> cidrs then plain (skip_ipset dn) else rbind (read_ipset nx dn) (\<lambda>ps. rpure (Item ps False)))
      else if t = srsItemSourceIPCIDR then constraint (skip_ipset dn)
      else if t = srsItemDomain then matcher skip_domain_matcher
      else if t \<in> set keyword_items then plain (skip_string_array dn)
      else if t = srsItemAdGuardDomain then matcher skip_adguard_matcher
      else if t \<in> set uint16_items then constraint skip_uint16_array
      else if t \<in> set string_items then constraint (skip_string_array dn)
      else if t = srsItemNetworkType then constraint skip_uint8_array
      else if t \<in> set flag_items then constraint (rpure ())
      else if t = srsItemNetworkInterfaceAddress then constraint (skip_interface_address dn)
      else if t = srsItemDefaultInterfaceAddress then constraint (skip_prefix_array dn)
      else if t = srsItemFinal then rbind read_byte (\<lambda>invert. rpure (Final invert))
      else rfail (UnknownItem t))"

lemma forward_skip_remaining [forward_rules]: "forward skip_remaining"
proof -
  have "suffix (snd (skip_remaining s)) s" for s
  proof (induction s rule: skip_remaining.induct)
    case (1 s)
    show ?case
    proof (cases s)
      case Nil
      then show ?thesis by (simp add: skip_remaining.simps)
    next
      case (Cons t s1)
      show ?thesis
      proof (cases "t = srsItemFinal")
        case True
        then show ?thesis
          using Cons forward_rbind [OF forward_read_byte forward_rpure, of "\<lambda>_. ()"]
          by (subst skip_remaining.simps) (auto simp: forward_def suffix_Cons)
      next
        case False
        obtain x s2 where p: "skip_item_payload t s1 = (x, s2)" by fastforce
        have "suffix s2 s1" using forwardD [OF forward_skips(10) p] .
        then show ?thesis
          using "1.IH" False Cons p
          by (subst skip_remaining.simps) (auto simp: suffix_Cons split: sum.splits intro: suffix_order.trans)
      qed
    qed
  qed
  then show ?thesis by (simp add: forward_def)
qed

lemma forward_matcher [forward_rules]:
  assumes "forward m"
  shows "forward (\<lambda>s. case m s of (Inr _, s') \<Rightarrow> (Inr x, s') | (Inl e, s') \<Rightarrow> rbind skip_remaining (\<lambda>_. rpure y) s')"
proof -
  have "forward (rbind skip_remaining (\<lambda>_. rpure y))" by (intro forward_rules)
  with assms show ?thesis
    unfolding forward_def by (auto split: prod.splits sum.splits) (metis snd_conv suffix_order.trans)+
qed

lemma forward_parse_item [forward_rules]: "forward (parse_item nx dn cidrs t)"
  unfolding parse_item_def Let_def by (intro forward_rules)

function parse_default ::
  "'s netipx \<Rightarrow> (nat \<Rightarrow> bool) \<Rightarrow> bool \<Rightarrow> prefix list \<Rightarrow> bool \<Rightarrow> (prefix list \<times> bool) reader" where
  "parse_default nx dn cidrs all con s =
     (if dn (length s) then (Inl Cancelled, s)
      else
        (case read_byte s of
           (Inl e, s1) \<Rightarrow> (Inl e, s1)
         | (Inr t, s1) \<Rightarrow>
             (case parse_item nx dn cidrs t s1 of
                (Inl e, s2) \<Rightarrow> (Inl e, s2)
              | (Inr (Item ps c), s2) \<Rightarrow> parse_default nx dn cidrs (all @ ps) (con \<or> c) s2
              | (Inr Dropped, s2) \<Rightarrow> (Inr ([], False), s2)
              | (Inr (Final invert), s2) \<Rightarrow>
                  if invert \<noteq> 0 \<or> con then (Inr ([], con), s2) else (Inr (all, False), s2))))"
  by pat_completeness auto
termination
  by (relation "measure (\<lambda>(nx, dn, cidrs, all, con, s). length s)")
    (auto dest!: sym [of "(Inr _, _)" "read_byte _"] sym [of "(Inr _, _)" "parse_item _ _ _ _ _"]
      forwardD [OF forward_parse_item] simp: read_byte_Inr dest: suffix_length_le)

declare parse_default.simps [simp del]

text \<open>A sub-rule: its type byte and its body; \<open>logical\<close> parses a logical rule one level deeper.\<close>

definition parse_sub ::
  "'s netipx \<Rightarrow> (nat \<Rightarrow> bool) \<Rightarrow> (bool \<Rightarrow> (prefix list \<times> bool) reader) \<Rightarrow> bool \<Rightarrow> (prefix list \<times> bool) reader" where
  "parse_sub nx dn logical cidrs =
     rbind read_byte (\<lambda>rt.
       if rt = 0 then parse_default nx dn cidrs [] False
       else if rt = 1 then logical cidrs
       else rfail (UnknownRuleType rt))"

definition skip_subs :: "(bool \<Rightarrow> (prefix list \<times> bool) reader) \<Rightarrow> nat \<Rightarrow> unit reader" where
  "skip_subs sub n = repeat_read n (rbind (sub False) (\<lambda>_. rpure ()))"

fun and_loop ::
  "'s netipx \<Rightarrow> (bool \<Rightarrow> (prefix list \<times> bool) reader) \<Rightarrow> bool \<Rightarrow> nat \<Rightarrow> prefix list list \<Rightarrow> (prefix list \<times> bool) reader" where
  "and_loop nx sub cidrs 0 groups =
     rbind read_byte (\<lambda>invert.
       rpure (if invert \<noteq> 0 then ([], True) else if groups = [] then ([], False) else (intersect_cidrs nx groups, False)))"
| "and_loop nx sub cidrs (Suc n) groups =
     rbind (sub cidrs) (\<lambda>(ps, con).
       if con \<or> ps = [] then rbind (skip_subs sub n) (\<lambda>_. rbind read_byte (\<lambda>invert. rpure ([], True)))
       else and_loop nx sub cidrs n (groups @ [ps]))"

fun or_loop ::
  "(bool \<Rightarrow> (prefix list \<times> bool) reader) \<Rightarrow> bool \<Rightarrow> nat \<Rightarrow> prefix list \<Rightarrow> bool \<Rightarrow> (prefix list \<times> bool) reader" where
  "or_loop sub cidrs 0 all all_con =
     rbind read_byte (\<lambda>invert. rpure (if invert \<noteq> 0 then ([], True) else (all, all_con)))"
| "or_loop sub cidrs (Suc n) all all_con =
     rbind (sub cidrs) (\<lambda>(ps, con).
       if \<not> con then or_loop sub cidrs n (all @ ps) False else or_loop sub cidrs n all all_con)"

text \<open>\<open>left\<close> is \<open>maxSRSRecursionDepth + 1 - depth\<close>.\<close>

fun parse_logical :: "nat \<Rightarrow> 's netipx \<Rightarrow> (nat \<Rightarrow> bool) \<Rightarrow> bool \<Rightarrow> (prefix list \<times> bool) reader" where
  "parse_logical 0 nx dn cidrs = rfail DepthExceeded"
| "parse_logical (Suc left) nx dn cidrs =
     (let sub = parse_sub nx dn (parse_logical left nx dn) in
      rbind read_byte (\<lambda>mode.
      rbind read_uvarint (\<lambda>sub_count.
      if mode \<noteq> 0 \<and> mode \<noteq> 1 then
        rbind (skip_subs sub (unat sub_count)) (\<lambda>_. rbind read_byte (\<lambda>invert. rfail (UnknownMode mode)))
      else if mode = 0 then and_loop nx sub cidrs (unat sub_count) []
      else or_loop sub cidrs (unat sub_count) [] True)))"

fun rules_loop ::
  "'s netipx \<Rightarrow> (nat \<Rightarrow> bool) \<Rightarrow> bool \<Rightarrow> nat \<Rightarrow> prefix list list \<Rightarrow> prefix list list reader" where
  "rules_loop nx dn cidrs 0 entries = rpure entries"
| "rules_loop nx dn cidrs (Suc n) entries =
     (let add = (\<lambda>(ps, con). rules_loop nx dn cidrs n (if ps \<noteq> [] then entries @ [ps] else entries)) in
      rbind (check_ctx dn) (\<lambda>_.
      rbind read_byte (\<lambda>t.
      if t = 0 then rbind (parse_default nx dn cidrs [] False) add
      else if t = 1 then rbind (parse_logical (Suc max_depth) nx dn cidrs) add
      else rfail (UnknownRuleType t))))"

text \<open>
  \<open>json\<close> is \<open>json.Unmarshal\<close> of the configuration, giving its \<open>cidrs\<close> field; \<open>inflate\<close> is the zlib reader
  under \<open>countReader\<close>: the bytes it delivers before it fails or ends, and whether it ends cleanly.
\<close>

definition ParseSRS ::
  "(string \<Rightarrow> bool option) \<Rightarrow> (byte list \<Rightarrow> (stream \<times> bool) option) \<Rightarrow> 's netipx \<Rightarrow> (nat \<Rightarrow> bool) \<Rightarrow>
     byte list \<Rightarrow> string \<Rightarrow> srs_error + prefix list list" where
  "ParseSRS json inflate nx dn data cfg_json =
     (case (if cfg_json = [] then Some True else json cfg_json) of
        None \<Rightarrow> Inl ConfigError
      | Some cidrs \<Rightarrow>
          if length data < 4 then Inl TooShort
          else if data ! 0 \<noteq> 0x53 \<or> data ! 1 \<noteq> 0x52 \<or> data ! 2 \<noteq> 0x53 then Inl BadMagic
          else if data ! 3 < 1 \<or> 5 < data ! 3 then Inl (BadVersion (data ! 3))
          else
            (case inflate (drop 4 data) of
               None \<Rightarrow> Inl ZlibError
             | Some (bs, clean) \<Rightarrow>
                 (case rbind read_uvarint (\<lambda>n. rules_loop nx dn cidrs (unat n) []) bs of
                    (Inl e, _) \<Rightarrow> Inl e
                  | (Inr entries, _) \<Rightarrow> if clean then Inr entries else Inl StreamError)))"

end
