(* ===== verification/Srs_Rules.thy ===== *)
theory Srs_Rules
  imports Srs
begin

text \<open>
  The rule sets that the parser of theory \<open>Srs\<close> reads: their syntax tree, its binary encoding, what the
  parser extracts from it, and what a rule matches. The encoding is the format of sing-box rule sets as
  the parser reads it.
\<close>

section \<open>Syntax trees and their encoding\<close>

fun uvarint :: "nat \<Rightarrow> byte list" where
  "uvarint n = (if n < 128 then [word_of_nat n] else word_of_nat (128 + n mod 128) # uvarint (n div 128))"

declare uvarint.simps [simp del]

datatype srs_item =
    IpCidr "(addr \<times> addr) list"
  | SourceIpCidr "(addr \<times> addr) list"
  | DomainSet byte "byte list list" "byte list list" "byte list"
  | AdGuardSet byte "byte list list" "byte list list" "byte list"
  | Keywords byte "byte list list"
  | Strings byte "byte list list"
  | Uint16s byte "byte list list"
  | NetworkTypes "byte list"
  | Flag byte
  | InterfaceAddrs "(byte \<times> (byte list \<times> byte) list) list"
  | DefaultAddrs "(byte list \<times> byte) list"

datatype srs_rule = DefaultRule "srs_item list" byte | LogicalRule bool "srs_rule list" byte

definition put_u64 :: "nat \<Rightarrow> byte list" where
  "put_u64 n = nat_be 8 n"

definition enc_addr :: "addr \<Rightarrow> byte list" where
  "enc_addr a = uvarint (length (as_slice a)) @ as_slice a"

definition enc_range :: "addr \<times> addr \<Rightarrow> byte list" where
  "enc_range r = enc_addr (fst r) @ enc_addr (snd r)"

definition enc_ipset :: "(addr \<times> addr) list \<Rightarrow> byte list" where
  "enc_ipset rs = [1] @ put_u64 (length rs) @ concat (map enc_range rs)"

definition enc_strings :: "byte list list \<Rightarrow> byte list" where
  "enc_strings ss = uvarint (length ss) @ concat (map (\<lambda>s. uvarint (length s) @ s) ss)"

definition enc_words :: "byte list list \<Rightarrow> byte list" where
  "enc_words ws = uvarint (length ws) @ concat ws"

definition enc_matcher :: "byte \<Rightarrow> byte list list \<Rightarrow> byte list list \<Rightarrow> byte list \<Rightarrow> byte list" where
  "enc_matcher v ws us bs = [v] @ enc_words ws @ enc_words us @ uvarint (length bs) @ bs"

definition enc_prefix :: "byte list \<times> byte \<Rightarrow> byte list" where
  "enc_prefix p = uvarint (length (fst p)) @ fst p @ [snd p]"

definition enc_prefixes :: "(byte list \<times> byte) list \<Rightarrow> byte list" where
  "enc_prefixes ps = uvarint (length ps) @ concat (map enc_prefix ps)"

fun enc_item :: "srs_item \<Rightarrow> byte list" where
  "enc_item (IpCidr rs) = srsItemIPCIDR # enc_ipset rs"
| "enc_item (SourceIpCidr rs) = srsItemSourceIPCIDR # enc_ipset rs"
| "enc_item (DomainSet v ws us bs) = srsItemDomain # enc_matcher v ws us bs"
| "enc_item (AdGuardSet v ws us bs) = srsItemAdGuardDomain # enc_matcher v ws us bs"
| "enc_item (Keywords t ss) = t # enc_strings ss"
| "enc_item (Strings t ss) = t # enc_strings ss"
| "enc_item (Uint16s t ws) = t # enc_words ws"
| "enc_item (NetworkTypes bs) = srsItemNetworkType # uvarint (length bs) @ bs"
| "enc_item (Flag t) = [t]"
| "enc_item (InterfaceAddrs m) =
     srsItemNetworkInterfaceAddress # uvarint (length m) @ concat (map (\<lambda>(k, ps). [k] @ enc_prefixes ps) m)"
| "enc_item (DefaultAddrs ps) = srsItemDefaultInterfaceAddress # enc_prefixes ps"

fun enc_rule :: "srs_rule \<Rightarrow> byte list" where
  "enc_rule (DefaultRule items neg) = [0] @ concat (map enc_item items) @ [srsItemFinal, neg]"
| "enc_rule (LogicalRule any rs neg) =
     [1, if any then 1 else 0] @ uvarint (length rs) @ concat (map enc_rule rs) @ [neg]"

definition enc_rules :: "srs_rule list \<Rightarrow> byte list" where
  "enc_rules rs = uvarint (length rs) @ concat (map enc_rule rs)"

text \<open>The sizes the parser accepts.\<close>

definition range_valid :: "addr \<times> addr \<Rightarrow> bool" where
  "range_valid r = (addr_ok (fst r) \<and> addr_ok (snd r) \<and> a_fam (fst r) = a_fam (snd r) \<and> fst r \<le> snd r)"

definition ranges_ok :: "(addr \<times> addr) list \<Rightarrow> bool" where
  "ranges_ok rs = (length rs \<le> max_count \<and> (\<forall>r \<in> set rs. range_valid r))"

definition strings_ok :: "byte list list \<Rightarrow> bool" where
  "strings_ok ss = (length ss \<le> max_count \<and> (\<forall>s \<in> set ss. length s < 2 ^ 63))"

definition words_ok :: "nat \<Rightarrow> byte list list \<Rightarrow> bool" where
  "words_ok n ws = (length ws \<le> max_count \<and> (\<forall>w \<in> set ws. length w = n))"

definition prefixes_ok :: "(byte list \<times> byte) list \<Rightarrow> bool" where
  "prefixes_ok ps = (length ps \<le> max_count \<and> (\<forall>p \<in> set ps. length (fst p) \<le> 16))"

fun item_ok :: "srs_item \<Rightarrow> bool" where
  "item_ok (IpCidr rs) = ranges_ok rs"
| "item_ok (SourceIpCidr rs) = ranges_ok rs"
| "item_ok (DomainSet v ws us bs) = (words_ok 8 ws \<and> words_ok 8 us \<and> length bs \<le> max_decompressed)"
| "item_ok (AdGuardSet v ws us bs) = (words_ok 8 ws \<and> words_ok 8 us \<and> length bs \<le> max_decompressed)"
| "item_ok (Keywords t ss) = (t \<in> set keyword_items \<and> strings_ok ss)"
| "item_ok (Strings t ss) = (t \<in> set string_items \<and> strings_ok ss)"
| "item_ok (Uint16s t ws) = (t \<in> set uint16_items \<and> words_ok 2 ws)"
| "item_ok (NetworkTypes bs) = (length bs \<le> max_count)"
| "item_ok (Flag t) = (t \<in> set flag_items)"
| "item_ok (InterfaceAddrs m) = (length m \<le> max_count \<and> (\<forall>e \<in> set m. prefixes_ok (snd e)))"
| "item_ok (DefaultAddrs ps) = prefixes_ok ps"

fun rule_ok :: "srs_rule \<Rightarrow> bool" where
  "rule_ok (DefaultRule items neg) = (\<forall>i \<in> set items. item_ok i)"
| "rule_ok (LogicalRule any rs neg) = (length rs < 2 ^ 63 \<and> (\<forall>r \<in> set rs. rule_ok r))"

text \<open>The nesting of logical rules.\<close>

fun rule_depth :: "srs_rule \<Rightarrow> nat" where
  "rule_depth (DefaultRule items neg) = 0"
| "rule_depth (LogicalRule any rs neg) = Suc (Max (insert 0 (set (map rule_depth rs))))"

section \<open>Reading encodings\<close>

definition reads :: "'a reader \<Rightarrow> byte list \<Rightarrow> 'a \<Rightarrow> bool" where
  "reads m bs x = (\<forall>rest. m (bs @ rest) = (Inr x, rest))"

lemma readsD: "reads m bs x \<Longrightarrow> m (bs @ rest) = (Inr x, rest)"
  by (simp add: reads_def)

lemma reads_rpure: "reads (rpure x) [] x"
  by (simp add: reads_def rpure_def)

lemma reads_bind: "reads m bs x \<Longrightarrow> reads (f x) bs' y \<Longrightarrow> reads (rbind m f) (bs @ bs') y"
  by (simp add: reads_def rbind_def)

lemma reads_bind_pure: "reads m bs x \<Longrightarrow> reads (rbind m (\<lambda>x. rpure (g x))) bs (g x)"
  using reads_bind [OF _ reads_rpure, of m bs x g] by simp

lemma reads_bind_none: "reads m [] x \<Longrightarrow> reads (f x) bs y \<Longrightarrow> reads (rbind m f) bs y"
  using reads_bind [of m "[]" x f bs y] by simp

lemma reads_byte: "reads read_byte [b] b"
  by (simp add: reads_def)

lemma reads_bind_byte: "reads (f b) bs y \<Longrightarrow> reads (rbind read_byte f) (b # bs) y"
  using reads_bind [OF reads_byte, of f b bs y] by simp

lemma reads_full: "n = length bs \<Longrightarrow> reads (read_full n) bs bs"
  by (simp add: reads_def read_full_def)

lemma reads_skip: "length bs < 2 ^ 63 \<Longrightarrow> reads (skip_bytes (word_of_nat (length bs))) bs ()"
proof -
  assume n: "length bs < 2 ^ 63"
  then have "sint (word_of_nat (length bs) :: u64) = int (length bs)"
    by (simp add: signed_of_nat signed_take_bit_int_eq_self)
  then show ?thesis by (auto simp: reads_def skip_bytes_def)
qed

lemma reads_repeat:
  "\<forall>bs \<in> set bss. reads m bs () \<Longrightarrow> n = length bss \<Longrightarrow> reads (repeat_read n m) (concat bss) ()"
  by (induction bss arbitrary: n) (auto intro: reads_rpure reads_bind)

lemma reads_check_count: "unat n \<le> limit \<Longrightarrow> reads (check_count limit n) [] ()"
  by (simp add: reads_def check_count_def rpure_def)

definition never :: "nat \<Rightarrow> bool" where "never n = False"

lemma reads_ctx: "reads (check_ctx never) [] ()"
  by (simp add: reads_def check_ctx_def never_def)

subsection \<open>Numbers\<close>

lemma or_shifted:
  fixes v m :: nat
  assumes "v < 2 ^ sh" "v + m * 2 ^ sh < 2 ^ 64"
  shows "word_of_nat v OR push_bit sh (word_of_nat m) = (word_of_nat (v + m * 2 ^ sh) :: u64)"
proof -
  have "word_of_nat v OR push_bit sh (word_of_nat m) = (word_of_nat v + push_bit sh (word_of_nat m) :: u64)"
  proof (rule disjunctive_add_eq_or [symmetric])
    show "word_of_nat v AND push_bit sh (word_of_nat m) = (0 :: u64)"
    proof (rule bit_word_eqI)
      fix n assume "n < LENGTH(64)"
      have "\<not> bit v n" if "sh \<le> n"
      proof -
        have "v < 2 ^ n" using assms(1) power_increasing [OF that, of "2 :: nat"] by linarith
        then show ?thesis by (simp add: bit_iff_odd)
      qed
      then show "bit (word_of_nat v AND push_bit sh (word_of_nat m) :: u64) n = bit (0 :: u64) n"
        by (auto simp: bit_and_iff bit_push_bit_iff bit_of_nat_iff not_le [symmetric])
    qed
  qed
  also have "\<dots> = word_of_nat (v + m * 2 ^ sh)"
    by (simp add: push_bit_eq_mult)
  finally show ?thesis .
qed

lemma uvarint_bytes:
  "n < 128 \<Longrightarrow> ucast (word_of_nat n :: byte) = (word_of_nat n :: u64)" (is "_ \<Longrightarrow> ?A")
  "n < 128 \<Longrightarrow> (word_of_nat n :: byte) < 0x80"
  "ucast ((word_of_nat (128 + n mod 128) :: byte) AND 0x7F) = (word_of_nat (n mod 128) :: u64)"
  "\<not> (word_of_nat (128 + n mod 128) :: byte) < 0x80"
proof -
  have u: "unat (word_of_nat k :: byte) = k" if "k < 256" for k
    using that by (rule unat_byte_of_nat)
  show ?A if "n < 128"
  proof -
    have "ucast (word_of_nat n :: byte) = (word_of_nat (unat (word_of_nat n :: byte)) :: u64)"
      by (rule of_nat_unat [symmetric])
    then show ?thesis using u [of n] that by (simp only:)
  qed
  show "(word_of_nat n :: byte) < 0x80" if "n < 128"
    using that u [of n] by (simp add: word_less_nat_alt)
  have lt: "128 + n mod 128 < 256" using mod_less_divisor [of 128 n] by simp
  show "\<not> (word_of_nat (128 + n mod 128) :: byte) < 0x80"
    using u [OF lt] by (simp add: word_less_nat_alt)
  have "(word_of_nat (128 + n mod 128) :: byte) AND 0x7F = take_bit 7 (word_of_nat (128 + n mod 128))"
    by (simp add: take_bit_eq_mask mask_eq_exp_minus_1)
  also have "unat \<dots> = (128 + n mod 128) mod 128"
    by (simp only: unsigned_take_bit_eq u [OF lt]) (simp add: take_bit_eq_mod)
  finally have "unat ((word_of_nat (128 + n mod 128) :: byte) AND 0x7F) = n mod 128" by simp
  then show "ucast ((word_of_nat (128 + n mod 128) :: byte) AND 0x7F) = (word_of_nat (n mod 128) :: u64)"
    by (metis of_nat_unat)
qed

lemma uvarint_loop_reads:
  "n < 2 ^ (7 * left) \<Longrightarrow> sh + 7 * left = 63 \<Longrightarrow> v < 2 ^ sh \<Longrightarrow>
     reads (uvarint_loop (Suc left) (word_of_nat v) sh) (uvarint n) (word_of_nat (v + n * 2 ^ sh))"
proof (induction n arbitrary: left sh v rule: uvarint.induct)
  case (1 n)
  have total: "v + n * 2 ^ sh < 2 ^ 64"
  proof -
    have "n * 2 ^ sh < 2 ^ (7 * left) * 2 ^ sh" using "1.prems"(1) by simp
    also have "\<dots> = 2 ^ 63" using "1.prems"(2) by (simp flip: power_add add: add.commute)
    finally have "n * 2 ^ sh < 2 ^ 63" .
    moreover have "(2::nat) ^ sh \<le> 2 ^ 63" using "1.prems"(2) by (intro power_increasing) auto
    ultimately show ?thesis using "1.prems"(3) by simp
  qed
  show ?case
  proof (cases "n < 128")
    case True
    have "n < 2" if "left = 0" using "1.prems"(1) that by simp
    then have "\<not> (left = 0 \<and> 1 < (word_of_nat n :: byte))"
      using unat_byte_of_nat [of n] True by (auto simp: word_less_nat_alt)
    then show ?thesis
      using True uvarint_bytes(1,2) [OF True] or_shifted [OF "1.prems"(3) total]
      by (subst uvarint.simps) (auto simp: reads_def rbind_def rpure_def)
  next
    case False
    let ?m = "n mod 128"
    obtain left' where l: "left = Suc left'" using False "1.prems"(1) by (cases left) auto
    have m: "v + ?m * 2 ^ sh < 2 ^ (sh + 7)"
    proof -
      have "?m * 2 ^ sh \<le> 127 * 2 ^ sh" by (intro mult_right_mono) (simp_all add: less_Suc_eq_le [symmetric])
      moreover have "(2::nat) ^ (sh + 7) = 128 * 2 ^ sh" by (simp add: power_add)
      ultimately show ?thesis using "1.prems"(3) by linarith
    qed
    have "v + ?m * 2 ^ sh \<le> v + n * 2 ^ sh" by (intro add_left_mono mult_right_mono) simp_all
    then have or: "word_of_nat v OR push_bit sh (word_of_nat ?m) = (word_of_nat (v + ?m * 2 ^ sh) :: u64)"
      using or_shifted [OF "1.prems"(3), of ?m] total by linarith
    have "n div 128 < 2 ^ (7 * left')" using "1.prems"(1) unfolding l
      by (simp add: power_add less_mult_imp_div_less mult.commute)
    moreover have "sh + 7 + 7 * left' = 63" using "1.prems"(2) l by simp
    ultimately have "reads (uvarint_loop (Suc left') (word_of_nat (v + ?m * 2 ^ sh)) (sh + 7)) (uvarint (n div 128))
        (word_of_nat (v + ?m * 2 ^ sh + n div 128 * 2 ^ (sh + 7)))"
      using "1.IH" [OF False _ _ m] by blast
    moreover have "v + ?m * 2 ^ sh + n div 128 * 2 ^ (sh + 7) = v + n * 2 ^ sh"
    proof -
      have "?m * 2 ^ sh + n div 128 * (128 * 2 ^ sh) = (?m + n div 128 * 128) * 2 ^ sh"
        by (simp only: distrib_right mult.assoc)
      moreover have "(2::nat) ^ (sh + 7) = 128 * 2 ^ sh" by (simp add: power_add)
      ultimately show ?thesis by simp
    qed
    ultimately show ?thesis
      using False l uvarint_bytes(3,4) [of n] or
      by (subst uvarint.simps) (simp add: reads_def rbind_def)
  qed
qed

lemma reads_uvarint: "n < 2 ^ 63 \<Longrightarrow> reads read_uvarint (uvarint n) (word_of_nat n)"
  using uvarint_loop_reads [of n 9 0 0] by (simp add: read_uvarint_def)

subsection \<open>Payloads\<close>

lemma unat_u64 [simp]: "n < 2 ^ 63 \<Longrightarrow> unat (word_of_nat n :: u64) = n"
  by (simp add: unat_of_nat take_bit_nat_eq_self)

lemma reads_count:
  assumes "n \<le> limit" "limit < 2 ^ 63" "reads (f (word_of_nat n)) bs y"
  shows "reads (rbind read_uvarint (\<lambda>c. rbind (check_count limit c) (\<lambda>_. f c))) (uvarint n @ bs) y"
proof (rule reads_bind)
  show "reads read_uvarint (uvarint n) (word_of_nat n)" using assms by (intro reads_uvarint) simp
  show "reads (rbind (check_count limit (word_of_nat n)) (\<lambda>_. f (word_of_nat n))) bs y"
    using assms by (intro reads_bind_none [OF reads_check_count]) (simp_all add: unat_u64)
qed

lemma max_count_small: "max_count < 2 ^ 63" "max_decompressed < 2 ^ 63"
  by (simp_all add: max_count_def max_decompressed_def)

lemma reads_sized: "length bs < 2 ^ 63 \<Longrightarrow> reads (rbind read_uvarint skip_bytes) (uvarint (length bs) @ bs) ()"
  by (intro reads_bind [OF reads_uvarint] reads_skip) simp_all

lemma length_concat_const: "\<forall>w \<in> set ws. length w = k \<Longrightarrow> length (concat ws) = length ws * k"
  by (induction ws) simp_all

lemma reads_words:
  assumes "words_ok k ws" "k \<le> 8" "k = unat m"
  shows "reads (rbind read_uvarint (\<lambda>c. rbind (check_count max_count c) (\<lambda>_. skip_bytes (c * m)))) (enc_words ws) ()"
proof -
  have len: "length (concat ws) = length ws * k" using assms(1) by (intro length_concat_const) (simp add: words_ok_def)
  have "length ws * k \<le> max_count * 8" using assms(1,2) by (intro mult_mono) (simp_all add: words_ok_def)
  then have small: "length (concat ws) < 2 ^ 63" by (simp add: len max_count_def)
  have "word_of_nat (length ws) * m = (word_of_nat (length (concat ws)) :: u64)"
    by (simp add: len assms(3))
  then have "reads (skip_bytes (word_of_nat (length ws) * m)) (concat ws) ()" using reads_skip [OF small] by simp
  then show ?thesis
    using assms(1) max_count_small(1) unfolding enc_words_def by (intro reads_count) (simp_all add: words_ok_def)
qed

lemma reads_strings: "strings_ok ss \<Longrightarrow> reads (skip_string_array never) (enc_strings ss) ()"
  unfolding skip_string_array_def enc_strings_def strings_ok_def
  by (intro reads_bind_none [OF reads_ctx] reads_count reads_repeat)
    (auto simp: max_count_def intro!: reads_bind_none [OF reads_ctx] reads_sized)

lemma reads_uint16s: "words_ok 2 ws \<Longrightarrow> reads skip_uint16_array (enc_words ws) ()"
  unfolding skip_uint16_array_def by (rule reads_words) simp_all

lemma reads_uint8s: "length bs \<le> max_count \<Longrightarrow> reads skip_uint8_array (uvarint (length bs) @ bs) ()"
  unfolding skip_uint8_array_def
  by (intro reads_count reads_skip) (simp_all add: max_count_def)

lemma reads_words_then:
  assumes "words_ok 8 ws" "reads m bs y"
  shows "reads (rbind read_uvarint (\<lambda>c. rbind (check_count max_count c) (\<lambda>_. rbind (skip_bytes (c * 8)) (\<lambda>_. m)))) (enc_words ws @ bs) y"
proof -
  have "reads (rbind (rbind read_uvarint (\<lambda>c. rbind (check_count max_count c) (\<lambda>_. skip_bytes (c * 8)))) (\<lambda>_. m)) (enc_words ws @ bs) y"
    using assms by (intro reads_bind [OF reads_words]) simp_all
  moreover have "rbind (rbind read_uvarint (\<lambda>c. rbind (check_count max_count c) (\<lambda>_. skip_bytes (c * 8)))) (\<lambda>_. m) =
      rbind read_uvarint (\<lambda>c. rbind (check_count max_count c) (\<lambda>_. rbind (skip_bytes (c * 8)) (\<lambda>_. m)))"
    by (rule ext) (simp add: rbind_def split: prod.split sum.split)
  ultimately show ?thesis by simp
qed

lemma reads_matcher:
  assumes "words_ok 8 ws" "words_ok 8 us" "length bs \<le> max_decompressed"
  shows "reads skip_domain_matcher (enc_matcher v ws us bs) ()" "reads skip_adguard_matcher (enc_matcher v ws us bs) ()"
proof -
  have "reads (rbind read_uvarint (\<lambda>c. rbind (check_count max_decompressed c) (\<lambda>_. skip_bytes c))) (uvarint (length bs) @ bs) ()"
    using assms(3) by (intro reads_count reads_skip) (simp_all add: max_decompressed_def)
  then show "reads skip_domain_matcher (enc_matcher v ws us bs) ()" "reads skip_adguard_matcher (enc_matcher v ws us bs) ()"
    using assms(1,2) unfolding skip_domain_matcher_def skip_adguard_matcher_def enc_matcher_def append_Cons append_Nil
    by (intro reads_bind_byte reads_words_then; simp)+
qed

lemma reads_prefix: "length (fst p) \<le> 16 \<Longrightarrow> reads (skip_prefix never) (enc_prefix p) ()"
proof -
  assume n: "length (fst p) \<le> 16"
  have u: "unat (word_of_nat (length (fst p)) :: u64) = length (fst p)" using n by simp
  have "\<not> 16 < (word_of_nat (length (fst p)) :: u64)" using n u by (simp add: word_less_nat_alt)
  moreover have "word_of_nat (length (fst p)) + 1 = (word_of_nat (length (fst p @ [snd p])) :: u64)" by simp
  moreover have "reads (skip_bytes (word_of_nat (length (fst p @ [snd p])))) (fst p @ [snd p]) ()"
    using n by (intro reads_skip) simp
  moreover have "reads read_uvarint (uvarint (length (fst p))) (word_of_nat (length (fst p)))"
    using n by (intro reads_uvarint) simp
  ultimately show ?thesis
    unfolding skip_prefix_def enc_prefix_def
    by (intro reads_bind_none [OF reads_ctx] reads_bind [of read_uvarint _ "word_of_nat (length (fst p))"])
      (simp_all add: add.commute)
qed

lemma reads_prefixes:
  "prefixes_ok ps \<Longrightarrow>
     reads (rbind read_uvarint (\<lambda>c. rbind (check_count max_count c) (\<lambda>_. repeat_read (unat c) (skip_prefix never)))) (enc_prefixes ps) ()"
  unfolding enc_prefixes_def prefixes_ok_def
  by (intro reads_count reads_repeat) (auto simp: max_count_def intro: reads_prefix)

lemma reads_prefix_array: "prefixes_ok ps \<Longrightarrow> reads (skip_prefix_array never) (enc_prefixes ps) ()"
  unfolding skip_prefix_array_def by (intro reads_bind_none [OF reads_ctx] reads_prefixes)

lemma reads_skip_one: "reads (skip_bytes 1) [k] ()"
  using reads_skip [of "[k]"] by simp

lemma reads_interface_entry:
  assumes "prefixes_ok ps"
  shows "reads (rbind (skip_bytes 1) (\<lambda>_. rbind read_uvarint (\<lambda>c. rbind (check_count max_count c) (\<lambda>_.
     rbind (repeat_read (unat c) (skip_prefix never)) (\<lambda>_. check_ctx never))))) ([k] @ enc_prefixes ps) ()"
proof (rule reads_bind [OF reads_skip_one])
  have "reads (repeat_read (length ps) (skip_prefix never)) (concat (map enc_prefix ps)) ()"
    using assms by (intro reads_repeat) (auto simp: prefixes_ok_def intro: reads_prefix)
  then have "reads (rbind (repeat_read (length ps) (skip_prefix never)) (\<lambda>_. check_ctx never)) (concat (map enc_prefix ps)) ()"
    using reads_bind [OF _ reads_ctx] by fastforce
  then show "reads (rbind read_uvarint (\<lambda>c. rbind (check_count max_count c) (\<lambda>_.
      rbind (repeat_read (unat c) (skip_prefix never)) (\<lambda>_. check_ctx never)))) (enc_prefixes ps) ()"
    using assms unfolding enc_prefixes_def by (intro reads_count) (auto simp: prefixes_ok_def max_count_def)
qed

lemma reads_interface:
  assumes "length m \<le> max_count" "\<forall>e \<in> set m. prefixes_ok (snd e)"
  shows "reads (skip_interface_address never) (uvarint (length m) @ concat (map (\<lambda>(k, ps). [k] @ enc_prefixes ps) m)) ()"
  unfolding skip_interface_address_def
proof (intro reads_bind_none [OF reads_ctx] reads_count reads_repeat)
  show "length m \<le> max_count" by (rule assms(1))
  show "max_count < 2 ^ 63" by (simp add: max_count_def)
  show "unat (word_of_nat (length m) :: u64) = length (map (\<lambda>(k, ps). [k] @ enc_prefixes ps) m)"
    using assms(1) by (simp add: max_count_def)
  show "\<forall>bs \<in> set (map (\<lambda>(k, ps). [k] @ enc_prefixes ps) m). reads (rbind (skip_bytes 1) (\<lambda>_. rbind read_uvarint
      (\<lambda>val_count. rbind (check_count max_count val_count) (\<lambda>_. rbind (repeat_read (unat val_count) (skip_prefix never)) (\<lambda>_. check_ctx never))))) bs ()"
    using assms(2) by (force intro: reads_interface_entry simp del: append_Cons append_Nil)
qed

subsection \<open>Address sets\<close>

lemma length_slice_cases: "length (as_slice a) = 4 \<or> length (as_slice a) = 16"
  using bitlen_cases [of "a_fam a"] by auto

lemma get_put_u64: "n < 2 ^ 63 \<Longrightarrow> get_u64 (put_u64 n) = word_of_nat n"
  by (simp add: get_u64_def put_u64_def be_nat_nat_be)

lemma reads_u64: "n < 2 ^ 63 \<Longrightarrow> reads read_u64 (put_u64 n) (word_of_nat n)"
  unfolding read_u64_def using reads_bind_pure [OF reads_full [of 8 "put_u64 n"], of get_u64]
  by (simp add: put_u64_def get_put_u64 [unfolded put_u64_def])

lemma rbind_assoc: "rbind (rbind m f) g = rbind m (\<lambda>x. rbind (f x) g)"
  by (rule ext) (simp add: rbind_def split: prod.split sum.split)

lemma reads_range: "range_valid r \<Longrightarrow> reads (read_range never) (enc_range r) r"
proof -
  assume r: "range_valid r"
  obtain a b where ab: "r = (a, b)" by fastforce
  let ?n = "word_of_nat (length (as_slice a)) :: u64"
  have ok: "addr_ok a" "addr_ok b" "a_fam a = a_fam b" "\<not> b < a" using r ab by (auto simp: range_valid_def)
  have n: "?n = 4 \<or> ?n = 16" "unat ?n = length (as_slice a)" using length_slice_cases [of a] by auto
  have sl: "addr_from_slice (as_slice a) = Some a" "addr_from_slice (as_slice b) = Some b"
    using ok by (simp_all add: addr_from_slice_as_slice)
  have u: "reads read_uvarint (uvarint (length (as_slice a))) ?n"
    using length_slice_cases [of a] by (intro reads_uvarint) auto
  have len: "length (as_slice b) = length (as_slice a)" using ok(3) by simp
  have cond: "(16 < ?n \<or> (?n \<noteq> 4 \<and> ?n \<noteq> 16)) = False" using n(1) by auto
  have fa: "reads (read_full (unat ?n)) (as_slice a) (as_slice a)" "reads (read_full (unat ?n)) (as_slice b) (as_slice b)"
    using n(2) len by (auto intro: reads_full)
  show ?thesis
    unfolding reads_def ab enc_range_def enc_addr_def read_range_def fst_conv snd_conv len append_assoc
    by (simp add: rbind_def check_ctx_def never_def readsD [OF u] readsD [OF fa(1)] readsD [OF fa(2)] cond n(1) sl ok(4) rpure_def
      del: length_as_slice)
qed

lemma reads_ranges: "\<forall>r \<in> set rs. range_valid r \<Longrightarrow> reads (read_ranges (length rs) never) (concat (map enc_range rs)) rs"
proof (induction rs)
  case Nil
  then show ?case by (simp add: reads_rpure)
next
  case (Cons r rs)
  have "reads (rbind (read_ranges (length rs) never) (\<lambda>rs. rpure (r # rs))) (concat (map enc_range rs)) (r # rs)"
    using Cons by (intro reads_bind_pure) simp
  then show ?case using Cons.prems by (auto intro!: reads_bind reads_range)
qed

lemma reads_ipset:
  assumes "ranges_ok rs" "of_ranges nx rs = Some s"
  shows "reads (read_ipset nx never) (enc_ipset rs) (prefixes_of nx s)"
proof -
  have n: "length rs < 2 ^ 63" "length rs \<le> max_count" using assms(1) by (simp_all add: ranges_ok_def max_count_def)
  have u: "unat (word_of_nat (length rs) :: u64) = length rs" by (rule unat_u64 [OF n(1)])
  have "reads (rbind (read_ranges (length rs) never) (\<lambda>rs. case of_ranges nx rs of None \<Rightarrow> rfail IPSetBuild | Some ips \<Rightarrow> rpure (prefixes_of nx ips)))
      (concat (map enc_range rs)) (prefixes_of nx s)"
    using assms reads_ranges [of rs] by (simp add: ranges_ok_def reads_def rbind_def rpure_def)
  then show ?thesis
    unfolding read_ipset_def enc_ipset_def append_Cons append_Nil
    by (intro reads_bind_byte) (auto intro!: reads_bind [OF reads_u64 [OF n(1)]] reads_bind_none [OF reads_check_count] simp: n(2) u)
qed

lemma reads_skip_addr: "reads (rbind read_uvarint skip_bytes) (enc_addr a) ()"
  unfolding enc_addr_def using length_slice_cases [of a] by (intro reads_sized) auto

lemma reads_skip_ipset:
  assumes "ranges_ok rs"
  shows "reads (skip_ipset never) (enc_ipset rs) ()"
proof -
  have n: "length rs < 2 ^ 63" "length rs \<le> max_count" using assms(1) by (simp_all add: ranges_ok_def max_count_def)
  have u: "unat (word_of_nat (length rs) :: u64) = length rs" by (rule unat_u64 [OF n(1)])
  have one: "reads (rbind (check_ctx never) (\<lambda>_. rbind read_uvarint (\<lambda>fl. rbind (skip_bytes fl) (\<lambda>_. rbind read_uvarint skip_bytes)))) (enc_range r) ()" for r
  proof (rule reads_bind_none [OF reads_ctx])
    have "reads (rbind (rbind read_uvarint skip_bytes) (\<lambda>_. rbind read_uvarint skip_bytes)) (enc_range r) ()"
      unfolding enc_range_def by (rule reads_bind [OF reads_skip_addr reads_skip_addr])
    then show "reads (rbind read_uvarint (\<lambda>fl. rbind (skip_bytes fl) (\<lambda>_. rbind read_uvarint skip_bytes))) (enc_range r) ()"
      by (simp add: rbind_assoc)
  qed
  have "reads (repeat_read (length rs) (rbind (check_ctx never) (\<lambda>_. rbind read_uvarint (\<lambda>fl. rbind (skip_bytes fl) (\<lambda>_. rbind read_uvarint skip_bytes)))))
      (concat (map enc_range rs)) ()"
    using one by (intro reads_repeat) auto
  then show ?thesis
    unfolding skip_ipset_def enc_ipset_def append_Cons append_Nil
    by (intro reads_bind_none [OF reads_ctx] reads_bind_byte)
      (auto intro!: reads_bind [OF reads_u64 [OF n(1)]] reads_bind_none [OF reads_check_count] simp: n(2) u)
qed

section \<open>What is extracted\<close>

text \<open>The specification of the parser on syntax trees; \<open>cidrs\<close> is the configuration.\<close>

fun item_cidrs :: "'s netipx \<Rightarrow> bool \<Rightarrow> srs_item \<Rightarrow> prefix list" where
  "item_cidrs nx cidrs (IpCidr rs) =
     (if cidrs then (case of_ranges nx rs of Some s \<Rightarrow> prefixes_of nx s | None \<Rightarrow> []) else [])"
| "item_cidrs nx cidrs i = []"

fun restricts :: "srs_item \<Rightarrow> bool" where
  "restricts (IpCidr rs) = False"
| "restricts (DomainSet v ws us bs) = False"
| "restricts (AdGuardSet v ws us bs) = False"
| "restricts (Keywords t ss) = False"
| "restricts i = True"

definition and_result :: "'s netipx \<Rightarrow> prefix list list \<Rightarrow> (prefix list \<times> bool) list \<Rightarrow> byte \<Rightarrow> prefix list \<times> bool" where
  "and_result nx groups es neg =
     (if \<exists>e \<in> set es. snd e \<or> fst e = [] then ([], True)
      else if neg \<noteq> 0 then ([], True)
      else if groups @ map fst es = [] then ([], False)
      else (intersect_cidrs nx (groups @ map fst es), False))"

definition or_result :: "prefix list \<Rightarrow> bool \<Rightarrow> (prefix list \<times> bool) list \<Rightarrow> byte \<Rightarrow> prefix list \<times> bool" where
  "or_result all con es neg =
     (if neg \<noteq> 0 then ([], True)
      else (all @ concat (map fst (filter (\<lambda>e. \<not> snd e) es)), con \<and> (\<forall>e \<in> set es. snd e)))"

definition default_result :: "'s netipx \<Rightarrow> bool \<Rightarrow> prefix list \<Rightarrow> bool \<Rightarrow> srs_item list \<Rightarrow> byte \<Rightarrow> prefix list \<times> bool" where
  "default_result nx cidrs all con items neg =
     (let con' = con \<or> (\<exists>i \<in> set items. restricts i) in
      if neg \<noteq> 0 \<or> con' then ([], con') else (all @ concat (map (item_cidrs nx cidrs) items), False))"

fun extracted :: "'s netipx \<Rightarrow> bool \<Rightarrow> srs_rule \<Rightarrow> prefix list \<times> bool" where
  "extracted nx cidrs (DefaultRule items neg) = default_result nx cidrs [] False items neg"
| "extracted nx cidrs (LogicalRule any rs neg) =
     (if any then or_result [] True (map (extracted nx cidrs) rs) neg
      else and_result nx [] (map (extracted nx cidrs) rs) neg)"

definition extract_all :: "'s netipx \<Rightarrow> bool \<Rightarrow> srs_rule list \<Rightarrow> prefix list list" where
  "extract_all nx cidrs rs = filter (\<lambda>ps. ps \<noteq> []) (map (\<lambda>r. fst (extracted nx cidrs r)) rs)"

text \<open>The laws of address sets the code relies on.\<close>

definition between :: "addr \<times> addr \<Rightarrow> addr set" where
  "between r = {a. addr_ok a \<and> fst r \<le> a \<and> a \<le> snd r}"

locale ip_sets =
  fixes nx :: "'s netipx" and valid :: "'s \<Rightarrow> bool"
  assumes of_ranges_law: "\<forall>r \<in> set rs. range_valid r \<Longrightarrow>
      \<exists>s. of_ranges nx rs = Some s \<and> valid s \<and> cover (prefixes_of nx s) = (\<Union>r \<in> set rs. between r)"
    and of_prefixes_law: "\<forall>p \<in> set ps. prefix_ok p \<Longrightarrow>
      \<exists>s. of_prefixes nx ps = Some s \<and> valid s \<and> cover (prefixes_of nx s) = cover ps"
    and intersect_law: "valid s \<Longrightarrow> valid t \<Longrightarrow>
      \<exists>u. intersect_sets nx s t = Some u \<and> valid u \<and>
        cover (prefixes_of nx u) = cover (prefixes_of nx s) \<inter> cover (prefixes_of nx t)"
    and prefixes_ok_law: "valid s \<Longrightarrow> p \<in> set (prefixes_of nx s) \<Longrightarrow> prefix_ok p"

section \<open>The parser reads what was encoded\<close>

lemma reads_matcher_item:
  assumes "reads m bs ()"
  shows "reads (\<lambda>s. case m s of (Inr _, s') \<Rightarrow> (Inr x, s') | (Inl e, s') \<Rightarrow> rbind skip_remaining (\<lambda>_. rpure y) s') bs x"
  using assms by (simp add: reads_def)

lemma reads_item:
  assumes "item_ok i" "\<forall>rs. i = IpCidr rs \<longrightarrow> of_ranges nx rs \<noteq> None"
  shows "\<exists>t payload. enc_item i = t # payload \<and> t \<noteq> srsItemFinal \<and>
    reads (parse_item nx never cidrs t) payload (Item (item_cidrs nx cidrs i) (restricts i))"
proof (cases i)
  case (IpCidr rs)
  then obtain s where s: "of_ranges nx rs = Some s" using assms(2) by auto
  have "ranges_ok rs" using assms(1) IpCidr by simp
  then have "reads (rbind (skip_ipset never) (\<lambda>_. rpure (Item [] False))) (enc_ipset rs) (Item [] False)"
    "reads (rbind (read_ipset nx never) (\<lambda>ps. rpure (Item ps False))) (enc_ipset rs) (Item (prefixes_of nx s) False)"
    using s by (auto intro: reads_bind_pure reads_skip_ipset reads_ipset)
  then show ?thesis using IpCidr s by (simp add: parse_item_def srs_items)
next
  case (SourceIpCidr rs)
  then show ?thesis using assms by (auto simp: parse_item_def srs_items intro: reads_bind_pure reads_skip_ipset)
next
  case (DomainSet v ws us bs)
  then show ?thesis using assms by (auto simp: parse_item_def srs_items intro: reads_matcher_item reads_matcher)
next
  case (AdGuardSet v ws us bs)
  then show ?thesis
    using assms by (auto simp: parse_item_def srs_items keyword_items_def intro: reads_matcher_item reads_matcher)
next
  case (Keywords t ss)
  then show ?thesis
    using assms by (auto simp: parse_item_def srs_items keyword_items_def intro: reads_bind_pure reads_strings)
next
  case (Strings t ss)
  then show ?thesis
    using assms by (auto simp: parse_item_def srs_items keyword_items_def uint16_items_def string_items_def
      intro: reads_bind_pure reads_strings)
next
  case (Uint16s t ws)
  then show ?thesis
    using assms by (auto simp: parse_item_def srs_items keyword_items_def uint16_items_def intro: reads_bind_pure reads_uint16s)
next
  case (NetworkTypes bs)
  then show ?thesis
    using assms by (auto simp: parse_item_def srs_items keyword_items_def uint16_items_def string_items_def
      intro: reads_bind_pure reads_uint8s)
next
  case (Flag t)
  then show ?thesis
    using assms by (auto simp: parse_item_def srs_items keyword_items_def uint16_items_def string_items_def flag_items_def
      intro: reads_bind_pure reads_rpure)
next
  case (InterfaceAddrs m)
  then show ?thesis
    using assms by (auto simp: parse_item_def srs_items keyword_items_def uint16_items_def string_items_def flag_items_def
      intro: reads_bind_pure reads_interface [simplified])
next
  case (DefaultAddrs ps)
  then show ?thesis
    using assms by (auto simp: parse_item_def srs_items keyword_items_def uint16_items_def string_items_def flag_items_def
      intro: reads_bind_pure reads_prefix_array)
qed

lemma parse_default_never:
  "parse_default nx never cidrs all con (t # s1) =
     (case parse_item nx never cidrs t s1 of
        (Inl e, s2) \<Rightarrow> (Inl e, s2)
      | (Inr (Item ps c), s2) \<Rightarrow> parse_default nx never cidrs (all @ ps) (con \<or> c) s2
      | (Inr Dropped, s2) \<Rightarrow> (Inr ([], False), s2)
      | (Inr (Final neg), s2) \<Rightarrow> if neg \<noteq> 0 \<or> con then (Inr ([], con), s2) else (Inr (all, False), s2))"
  by (subst parse_default.simps) (simp add: never_def)

lemma reads_default:
  assumes "\<forall>i \<in> set items. item_ok i \<and> (\<forall>rs. i = IpCidr rs \<longrightarrow> of_ranges nx rs \<noteq> None)"
  shows "reads (parse_default nx never cidrs all con) (concat (map enc_item items) @ [srsItemFinal, neg])
    (default_result nx cidrs all con items neg)"
  using assms
proof (induction items arbitrary: all con)
  case Nil
  have "parse_item nx never cidrs srsItemFinal (neg # rest) = (Inr (Final neg), rest)" for rest
    by (simp add: parse_item_def srs_items keyword_items_def uint16_items_def string_items_def flag_items_def rbind_def rpure_def)
  then show ?case
    by (simp add: reads_def default_result_def parse_default_never)
next
  case (Cons i items)
  obtain t payload where i: "enc_item i = t # payload"
    and p: "reads (parse_item nx never cidrs t) payload (Item (item_cidrs nx cidrs i) (restricts i))"
    using reads_item [of i nx cidrs] Cons.prems by auto
  have "reads (parse_default nx never cidrs (all @ item_cidrs nx cidrs i) (con \<or> restricts i))
      (concat (map enc_item items) @ [srsItemFinal, neg]) (default_result nx cidrs (all @ item_cidrs nx cidrs i) (con \<or> restricts i) items neg)"
    using Cons by simp
  moreover have "default_result nx cidrs (all @ item_cidrs nx cidrs i) (con \<or> restricts i) items neg =
      default_result nx cidrs all con (i # items) neg"
    by (auto simp: default_result_def Let_def)
  ultimately show ?case
    using i readsD [OF p]
    by (simp add: reads_def parse_default_never)
qed

lemma reads_skip_subs:
  "\<forall>r \<in> set rs. \<exists>x. reads (sub False) (enc_rule r) x \<Longrightarrow> reads (skip_subs sub (length rs)) (concat (map enc_rule rs)) ()"
  unfolding skip_subs_def
  by (intro reads_repeat) (auto dest!: bspec intro: reads_bind_pure)

lemma reads_and_loop:
  assumes "\<forall>r \<in> set rs. reads (sub cidrs) (enc_rule r) (ext r)" "\<forall>r \<in> set rs. \<exists>x. reads (sub False) (enc_rule r) x"
  shows "reads (and_loop nx sub cidrs (length rs) groups) (concat (map enc_rule rs) @ [neg]) (and_result nx groups (map ext rs) neg)"
  using assms
proof (induction rs arbitrary: groups)
  case Nil
  then show ?case by (auto simp: and_result_def reads_def rbind_def rpure_def)
next
  case (Cons r rs)
  obtain ps con where e: "ext r = (ps, con)" by fastforce
  have r: "reads (sub cidrs) (enc_rule r) (ps, con)" using Cons.prems(1) e by simp
  show ?case
  proof (cases "con \<or> ps = []")
    case True
    have "reads (rbind (skip_subs sub (length rs)) (\<lambda>_. rbind read_byte (\<lambda>b. rpure ([], True)))) (concat (map enc_rule rs) @ [neg]) ([], True)"
      using Cons.prems(2) by (intro reads_bind [OF reads_skip_subs] reads_bind_pure [OF reads_byte]) auto
    moreover have "and_result nx groups (map ext (r # rs)) neg = ([], True)"
      using True e by (auto simp: and_result_def)
    ultimately show ?thesis using r True by (auto simp: reads_def rbind_def)
  next
    case False
    have "and_result nx groups (map ext (r # rs)) neg = and_result nx (groups @ [ps]) (map ext rs) neg"
      using False e by (simp add: and_result_def)
    moreover have "reads (and_loop nx sub cidrs (length rs) (groups @ [ps])) (concat (map enc_rule rs) @ [neg])
        (and_result nx (groups @ [ps]) (map ext rs) neg)"
      using Cons by simp
    ultimately show ?thesis using r False by (auto simp: reads_def rbind_def)
  qed
qed

lemma reads_or_loop:
  assumes "\<forall>r \<in> set rs. reads (sub cidrs) (enc_rule r) (ext r)"
  shows "reads (or_loop sub cidrs (length rs) all con) (concat (map enc_rule rs) @ [neg]) (or_result all con (map ext rs) neg)"
  using assms
proof (induction rs arbitrary: all con)
  case Nil
  then show ?case by (auto simp: or_result_def reads_def rbind_def rpure_def)
next
  case (Cons r rs)
  obtain ps c where e: "ext r = (ps, c)" by fastforce
  have r: "reads (sub cidrs) (enc_rule r) (ps, c)" using Cons.prems e by simp
  let ?all = "if c then all else all @ ps" and ?con = "if c then con else False"
  have "or_result all con (map ext (r # rs)) neg = or_result ?all ?con (map ext rs) neg"
    using e by (simp add: or_result_def)
  moreover have "reads (or_loop sub cidrs (length rs) ?all ?con) (concat (map enc_rule rs) @ [neg]) (or_result ?all ?con (map ext rs) neg)"
    using Cons by simp
  ultimately show ?case using r by (cases c) (auto simp: reads_def rbind_def)
qed

context ip_sets
begin

lemma sets_build: "ranges_ok rs \<Longrightarrow> of_ranges nx rs \<noteq> None"
  using of_ranges_law [of rs] by (auto simp: ranges_ok_def)

lemma reads_sub:
  "rule_ok r \<Longrightarrow> rule_depth r \<le> left \<Longrightarrow>
     reads (parse_sub nx never (parse_logical left nx never) cidrs) (enc_rule r) (extracted nx cidrs r)"
proof (induction left arbitrary: r cidrs)
  case 0
  then obtain items neg where r: "r = DefaultRule items neg" by (cases r) auto
  have "reads (parse_default nx never cidrs [] False) (concat (map enc_item items) @ [srsItemFinal, neg]) (extracted nx cidrs r)"
    using 0 sets_build unfolding r by (auto intro!: reads_default)
  then show ?case by (simp add: r parse_sub_def reads_bind_byte)
next
  case (Suc left)
  show ?case
  proof (cases r)
    case (DefaultRule items neg)
    have "reads (parse_default nx never cidrs [] False) (concat (map enc_item items) @ [srsItemFinal, neg]) (extracted nx cidrs r)"
      using Suc.prems sets_build unfolding DefaultRule by (auto intro!: reads_default)
    then show ?thesis by (simp add: DefaultRule parse_sub_def reads_bind_byte)
  next
    case (LogicalRule any rs neg)
    let ?sub = "parse_sub nx never (parse_logical left nx never)"
    have sub: "\<forall>r \<in> set rs. reads (?sub c) (enc_rule r) (extracted nx c r)" for c
    proof
      fix q assume q: "q \<in> set rs"
      have "rule_depth q \<le> left" using Suc.prems(2) q by (simp add: LogicalRule)
      then show "reads (?sub c) (enc_rule q) (extracted nx c q)"
        using Suc.IH Suc.prems(1) q by (simp add: LogicalRule)
    qed
    have n: "length rs < 2 ^ 63" using Suc.prems(1) by (simp add: LogicalRule)
    have u: "unat (word_of_nat (length rs) :: u64) = length rs" by (rule unat_u64 [OF n])
    have ex: "\<forall>r \<in> set rs. \<exists>x. reads (?sub False) (enc_rule r) x" using sub by blast
    have "reads (parse_logical (Suc left) nx never cidrs) ((if any then 1 else 0) # uvarint (length rs) @ concat (map enc_rule rs) @ [neg])
        (extracted nx cidrs r)"
      unfolding parse_logical.simps Let_def
      using reads_or_loop [of rs ?sub cidrs "extracted nx cidrs" "[]" True neg] sub [of cidrs] ex
        reads_and_loop [of rs ?sub cidrs "extracted nx cidrs" nx "[]" neg]
      by (intro reads_bind_byte reads_bind [OF reads_uvarint [OF n]]) (simp add: u LogicalRule)
    then show ?thesis by (simp add: LogicalRule parse_sub_def reads_bind_byte del: parse_logical.simps)
  qed
qed

lemma reads_rules:
  assumes "\<forall>r \<in> set rs. rule_ok r \<and> rule_depth r \<le> Suc max_depth"
  shows "reads (rules_loop nx never cidrs (length rs) entries) (concat (map enc_rule rs)) (entries @ extract_all nx cidrs rs)"
  using assms
proof (induction rs arbitrary: entries)
  case Nil
  then show ?case by (simp add: extract_all_def reads_rpure)
next
  case (Cons r rs)
  obtain ps con where e: "extracted nx cidrs r = (ps, con)" by fastforce
  let ?next = "if ps \<noteq> [] then entries @ [ps] else entries"
  have rest: "reads (rules_loop nx never cidrs (length rs) ?next) (concat (map enc_rule rs)) (?next @ extract_all nx cidrs rs)"
    using Cons by simp
  have sub: "reads (parse_sub nx never (parse_logical (Suc max_depth) nx never) cidrs) (enc_rule r) (ps, con)"
    using reads_sub [of r "Suc max_depth" cidrs] Cons.prems e by simp
  let ?add = "\<lambda>(ps, con). rules_loop nx never cidrs (length rs) (if ps \<noteq> [] then entries @ [ps] else entries)"
  have "reads (rbind (parse_sub nx never (parse_logical (Suc max_depth) nx never) cidrs) ?add) (enc_rule r @ concat (map enc_rule rs))
      (?next @ extract_all nx cidrs rs)"
    by (rule reads_bind [OF sub]) (use rest in simp)
  moreover have "rbind (parse_sub nx never (parse_logical (Suc max_depth) nx never) cidrs) ?add =
      rbind read_byte (\<lambda>t. if t = 0 then rbind (parse_default nx never cidrs [] False) ?add
        else if t = 1 then rbind (parse_logical (Suc max_depth) nx never cidrs) ?add else rfail (UnknownRuleType t))"
    unfolding parse_sub_def rbind_assoc
    by (intro arg_cong [of _ _ "rbind read_byte"] ext) (auto simp: rbind_def rfail_def)
  ultimately have "reads (rules_loop nx never cidrs (length (r # rs)) entries) (enc_rule r @ concat (map enc_rule rs)) (?next @ extract_all nx cidrs rs)"
    by (auto simp: Let_def simp del: parse_logical.simps intro: reads_bind_none [OF reads_ctx])
  moreover have "?next @ extract_all nx cidrs rs = entries @ extract_all nx cidrs (r # rs)"
    using e by (simp add: extract_all_def)
  ultimately show ?case by simp
qed

lemma parse_encoded:
  assumes "\<forall>r \<in> set rs. rule_ok r \<and> rule_depth r \<le> Suc max_depth" "length rs < 2 ^ 63"
    "inflate body = Some (enc_rules rs @ rest, True)" "v \<in> {1..5}"
  shows "ParseSRS json inflate nx never ([0x53, 0x52, 0x53, v] @ body) [] = Inr (extract_all nx True rs)"
proof -
  have u: "unat (word_of_nat (length rs) :: u64) = length rs" by (rule unat_u64 [OF assms(2)])
  have "reads (rbind read_uvarint (\<lambda>n. rules_loop nx never True (unat n) [])) (enc_rules rs) (extract_all nx True rs)"
    unfolding enc_rules_def using reads_rules [OF assms(1), of True "[]"]
    by (intro reads_bind [OF reads_uvarint [OF assms(2)]]) (simp add: u)
  from readsD [OF this, of rest] show ?thesis
    using assms(3,4) by (auto simp: ParseSRS_def not_less numeral_nat)
qed

end

section \<open>What a rule matches\<close>

text \<open>
  A connection has a destination; whether it satisfies an item other than a list of destination ranges,
  or a group of restricting items, is up to the meaning. A default rule matches when one of its address
  items does (if it has any) and its restricting items hold, an inverted one in the other cases.
\<close>

record 'c meaning =
  destination :: "'c \<Rightarrow> addr"
  satisfies :: "srs_item \<Rightarrow> 'c \<Rightarrow> bool"
  restrictions_hold :: "srs_item list \<Rightarrow> 'c \<Rightarrow> bool"

fun item_matches :: "'c meaning \<Rightarrow> srs_item \<Rightarrow> 'c \<Rightarrow> bool" where
  "item_matches M (IpCidr rs) c = (\<exists>r \<in> set rs. destination M c \<in> between r)"
| "item_matches M i c = satisfies M i c"

fun rule_matches :: "'c meaning \<Rightarrow> srs_rule \<Rightarrow> 'c \<Rightarrow> bool" where
  "rule_matches M (DefaultRule items neg) c =
     (let addr_items = filter (\<lambda>i. \<not> restricts i) items; rest = filter restricts items in
      ((addr_items = [] \<or> (\<exists>i \<in> set addr_items. item_matches M i c)) \<and>
       (rest = [] \<or> restrictions_hold M rest c)) \<noteq> (neg \<noteq> 0))"
| "rule_matches M (LogicalRule any rs neg) c =
     ((if any then \<exists>r \<in> set rs. rule_matches M r c else \<forall>r \<in> set rs. rule_matches M r c) \<noteq> (neg \<noteq> 0))"

text \<open>Rules made of destination ranges only, without inversion.\<close>

fun pure_rule :: "srs_rule \<Rightarrow> bool" where
  "pure_rule (DefaultRule items neg) = (items \<noteq> [] \<and> neg = 0 \<and> (\<forall>i \<in> set items. \<exists>rs. i = IpCidr rs))"
| "pure_rule (LogicalRule any rs neg) = (rs \<noteq> [] \<and> neg = 0 \<and> (\<forall>r \<in> set rs. pure_rule r))"

lemma cover_append [simp]: "cover (ps @ qs) = cover ps \<union> cover qs"
  by (auto simp: cover_def)

lemma cover_concat: "cover (concat pss) = (\<Union>ps \<in> set pss. cover ps)"
  by (auto simp: cover_def)

lemma extracted_restricted: "snd (extracted nx cidrs r) \<Longrightarrow> fst (extracted nx cidrs r) = []"
proof (cases r)
  case (LogicalRule any rs neg)
  assume "snd (extracted nx cidrs r)"
  then have "\<not> any \<or> neg \<noteq> 0 \<or> filter (\<lambda>e. \<not> snd e) (map (extracted nx cidrs) rs) = []"
    by (auto simp: LogicalRule or_result_def filter_empty_conv)
  with \<open>snd (extracted nx cidrs r)\<close> show ?thesis
    by (auto simp: LogicalRule or_result_def and_result_def simp del: concat_eq_Nil_conv split: if_splits)
qed (auto simp: default_result_def Let_def split: if_splits)

context ip_sets
begin

lemma item_cidrs_facts:
  assumes "item_ok i"
  shows "cover (item_cidrs nx cidrs i) =
      (case i of IpCidr rs \<Rightarrow> if cidrs then (\<Union>r \<in> set rs. between r) else {} | _ \<Rightarrow> {}) \<and>
      (\<forall>p \<in> set (item_cidrs nx cidrs i). prefix_ok p)"
proof (cases i)
  case (IpCidr rs)
  then have "\<forall>r \<in> set rs. range_valid r" using assms by (simp add: ranges_ok_def)
  then obtain s where "of_ranges nx rs = Some s" "valid s"
    "cover (prefixes_of nx s) = (\<Union>r \<in> set rs. between r)" using of_ranges_law by metis
  then show ?thesis using IpCidr prefixes_ok_law [of s] by (cases cidrs) auto
qed auto

lemmas item_cidrs_cover = item_cidrs_facts [THEN conjunct1] item_cidrs_facts [THEN conjunct2, rule_format]

lemma filter_valid: "\<forall>p \<in> set g. prefix_ok p \<Longrightarrow> filter prefix_is_valid g = g"
  by (intro filter_True) (simp add: prefix_ok_def)

lemma intersect_loop_cover:
  "valid acc \<Longrightarrow> \<forall>g \<in> set gs. \<forall>p \<in> set g. prefix_ok p \<Longrightarrow>
     cover (intersect_loop nx acc gs) = cover (prefixes_of nx acc) \<inter> (\<Inter>g \<in> set gs. cover g) \<and>
     (\<forall>p \<in> set (intersect_loop nx acc gs). prefix_ok p)"
proof (induction gs arbitrary: acc)
  case Nil
  then show ?case using prefixes_ok_law by simp
next
  case (Cons g gs)
  obtain s where s: "of_prefixes nx g = Some s" "valid s" "cover (prefixes_of nx s) = cover g"
    using of_prefixes_law [of g] Cons.prems(2) by auto
  obtain u where u: "intersect_sets nx acc s = Some u" "valid u"
    "cover (prefixes_of nx u) = cover (prefixes_of nx acc) \<inter> cover (prefixes_of nx s)"
    using intersect_law [OF Cons.prems(1) s(2)] by blast
  have "filter prefix_is_valid g = g" using Cons.prems(2) by (intro filter_valid) simp
  then show ?case using Cons.IH [OF u(2)] Cons.prems(2) s u by auto
qed

lemma intersect_cidrs_cover:
  assumes "gs \<noteq> []" "\<forall>g \<in> set gs. \<forall>p \<in> set g. prefix_ok p"
  shows "cover (intersect_cidrs nx gs) = (\<Inter>g \<in> set gs. cover g)" "p \<in> set (intersect_cidrs nx gs) \<Longrightarrow> prefix_ok p"
proof -
  obtain g gs' where gs: "gs = g # gs'" using assms(1) by (cases gs) auto
  obtain s where s: "of_prefixes nx g = Some s" "valid s" "cover (prefixes_of nx s) = cover g"
    using of_prefixes_law [of g] assms(2) gs by auto
  have "filter prefix_is_valid g = g" using assms(2) gs by (intro filter_valid) simp
  then show "cover (intersect_cidrs nx gs) = (\<Inter>g \<in> set gs. cover g)" "p \<in> set (intersect_cidrs nx gs) \<Longrightarrow> prefix_ok p"
    using intersect_loop_cover [OF s(2), of gs'] assms(2) s gs by auto
qed

lemma extracted_ok: "rule_ok r \<Longrightarrow> p \<in> set (fst (extracted nx cidrs r)) \<Longrightarrow> prefix_ok p"
proof (induction r arbitrary: p)
  case (DefaultRule items neg)
  then show ?case using item_cidrs_cover(2) by (auto simp: default_result_def Let_def split: if_splits)
next
  case (LogicalRule any rs neg)
  have sub: "\<forall>g \<in> set (map fst (map (extracted nx cidrs) rs)). \<forall>p \<in> set g. prefix_ok p"
    using LogicalRule by auto
  show ?case
  proof (cases any)
    case True
    then show ?thesis using LogicalRule.prems sub by (auto simp: or_result_def split: if_splits)
  next
    case False
    then show ?thesis using LogicalRule.prems intersect_cidrs_cover(2) [OF _ sub] by (auto simp: and_result_def split: if_splits)
  qed
qed

text \<open>Soundness: a connection to an extracted address is matched by the rule.\<close>

lemma extracted_sound:
  "rule_ok r \<Longrightarrow> destination M c \<in> cover (fst (extracted nx cidrs r)) \<Longrightarrow> rule_matches M r c"
proof (induction r)
  case (DefaultRule items neg)
  let ?d = "destination M c"
  have e: "neg = 0" "\<not> (\<exists>i \<in> set items. restricts i)" "?d \<in> cover (concat (map (item_cidrs nx cidrs) items))"
    using DefaultRule.prems(2) by (auto simp: default_result_def Let_def split: if_splits)
  from e(3) obtain i where i: "i \<in> set items" "?d \<in> cover (item_cidrs nx cidrs i)" by (auto simp: cover_concat)
  have "item_ok i" using DefaultRule.prems(1) i(1) by simp
  then have "item_matches M i c"
    using i(2) item_cidrs_cover(1) [of i cidrs] by (cases i) (auto split: if_splits)
  moreover have "filter restricts items = []" using e(2) by (simp add: filter_empty_conv)
  ultimately show ?case using e i by auto
next
  case (LogicalRule any rs neg)
  let ?d = "destination M c"
  have ok: "\<forall>g \<in> set (map fst (map (extracted nx cidrs) rs)). \<forall>p \<in> set g. prefix_ok p"
    using LogicalRule.prems(1) extracted_ok by auto
  show ?case
  proof (cases any)
    case True
    then obtain r where "r \<in> set rs" "?d \<in> cover (fst (extracted nx cidrs r))" "neg = 0"
      using LogicalRule.prems(2) by (auto simp: or_result_def cover_concat split: if_splits)
    then show ?thesis using True LogicalRule by auto
  next
    case False
    have "neg = 0" "rs \<noteq> []" "?d \<in> cover (intersect_cidrs nx (map fst (map (extracted nx cidrs) rs)))"
      using LogicalRule.prems(2) False by (auto simp: and_result_def split: if_splits)
    then have "\<forall>r \<in> set rs. ?d \<in> cover (fst (extracted nx cidrs r))"
      using intersect_cidrs_cover(1) [OF _ ok] by auto
    then show ?thesis using False LogicalRule \<open>neg = 0\<close> by auto
  qed
qed

text \<open>Exactness: for rules of destination ranges nothing is lost.\<close>

lemma extracted_exact:
  "rule_ok r \<Longrightarrow> pure_rule r \<Longrightarrow> rule_matches M r c \<Longrightarrow> destination M c \<in> cover (fst (extracted nx True r))"
proof (induction r)
  case (DefaultRule items neg)
  let ?d = "destination M c"
  have nr: "\<not> (\<exists>i \<in> set items. restricts i)" using DefaultRule.prems(2) by auto
  then obtain i where i: "i \<in> set items" "item_matches M i c"
    using DefaultRule.prems(2,3) by (auto simp: Let_def filter_empty_conv split: if_splits)
  obtain rs where rs: "i = IpCidr rs" using DefaultRule.prems(2) i(1) by auto
  have "item_ok i" using DefaultRule.prems(1) i(1) by simp
  then have "?d \<in> cover (item_cidrs nx True i)" using i(2) rs item_cidrs_cover(1) [of i True] by simp
  then show ?case using i(1) nr DefaultRule.prems(2) by (auto simp: default_result_def Let_def cover_concat)
next
  case (LogicalRule any rs neg)
  let ?d = "destination M c"
  have ok: "\<forall>g \<in> set (map fst (map (extracted nx True) rs)). \<forall>p \<in> set g. prefix_ok p"
    using LogicalRule.prems(1) extracted_ok by auto
  have neg: "neg = 0" "rs \<noteq> []" using LogicalRule.prems(2) by simp_all
  show ?case
  proof (cases any)
    case True
    then obtain r where r: "r \<in> set rs" "rule_matches M r c" using LogicalRule.prems(3) neg by auto
    then have d: "?d \<in> cover (fst (extracted nx True r))" using LogicalRule by auto
    then have "\<not> snd (extracted nx True r)" using extracted_restricted [of nx True r] by auto
    then show ?thesis using True neg r(1) d by (auto simp: or_result_def cover_concat)
  next
    case False
    then have d: "\<forall>r \<in> set rs. ?d \<in> cover (fst (extracted nx True r))" using LogicalRule neg by auto
    then have n: "\<forall>r \<in> set rs. \<not> snd (extracted nx True r) \<and> fst (extracted nx True r) \<noteq> []"
      using extracted_restricted [of nx True] by fastforce
    have "?d \<in> cover (intersect_cidrs nx (map fst (map (extracted nx True) rs)))"
      using d neg intersect_cidrs_cover(1) [OF _ ok] by auto
    then show ?thesis using False neg n by (auto simp: and_result_def)
  qed
qed

end

section \<open>An implementation of address sets\<close>

text \<open>The contract is met by the range and prefix operations of theory \<open>Prefix_Aggregate\<close>.\<close>

definition meet :: "prefix \<Rightarrow> prefix \<Rightarrow> prefix list" where
  "meet p q =
     (if p_bits p \<le> p_bits q then (if contains p (p_addr q) then [q] else [])
      else (if contains q (p_addr p) then [p] else []))"

definition ranges_to_prefixes :: "(addr \<times> addr) list \<Rightarrow> prefix list" where
  "ranges_to_prefixes rs =
     concat (map (\<lambda>(a, b). range_to_prefixes \<lparr>r_start = a_val a, r_end = a_val b, r_is4 = is4 a\<rparr>) rs)"

definition model_netipx :: "prefix list netipx" where
  "model_netipx =
     \<lparr>of_ranges = (\<lambda>rs. Some (ranges_to_prefixes rs)), of_prefixes = Some,
      intersect_sets = (\<lambda>ps qs. Some (concat (map (\<lambda>p. concat (map (meet p) qs)) ps))), prefixes_of = (\<lambda>ps. ps)\<rparr>"

lemma cover_concat_map: "cover (concat (map f xs)) = (\<Union>x \<in> set xs. cover (f x))"
  by (simp add: cover_concat)

lemma cover_meet: "cover (meet p q) = addrs_of p \<inter> addrs_of q"
proof (cases "p_bits p \<le> p_bits q")
  case True
  then show ?thesis
    using addrs_of_subset [of p q] addrs_of_disjoint_or_nested [of p q] by (auto simp: meet_def)
next
  case False
  then show ?thesis
    using addrs_of_subset [of q p] addrs_of_disjoint_or_nested [of q p] by (auto simp: meet_def)
qed

lemma fam_of_is4 [simp]: "fam_of (is4 a) = a_fam a"
  by (cases "a_fam a") (simp_all add: fam_of_def is4_def)

lemma between_range: "range_valid (a, b) \<Longrightarrow> between (a, b) = range_addrs (a_fam a) (a_val a) (a_val b)"
proof -
  assume r: "range_valid (a, b)"
  then have f: "a_fam b = a_fam a" "a_val b < 2 ^ bitlen (a_fam a)" by (auto simp: range_valid_def addr_ok_def)
  have "a_fam x = a_fam a" if "a \<le> x" "x \<le> b" for x
    using that f(1) by (cases "a_fam a"; cases "a_fam x") (auto simp: less_eq_addr_def less_eq_family_def less_family_def)
  note fam = this
  have "x \<in> between (a, b) \<longleftrightarrow> x \<in> range_addrs (a_fam a) (a_val a) (a_val b)" for x
  proof (cases "a_fam x = a_fam a")
    case True
    then have "a \<le> x \<longleftrightarrow> a_val a \<le> a_val x" "x \<le> b \<longleftrightarrow> a_val x \<le> a_val b"
      using f(1) by (simp_all add: less_eq_addr_same_family)
    then show ?thesis using True f(2) by (auto simp: between_def range_addrs_def addr_ok_def)
  next
    case False
    then have "\<not> (a \<le> x \<and> x \<le> b)" using fam [of x] by blast
    then show ?thesis using False by (simp add: between_def range_addrs_def)
  qed
  then show ?thesis by blast
qed

lemma ranges_to_prefixes_facts:
  assumes "\<forall>r \<in> set rs. range_valid r"
  shows "cover (ranges_to_prefixes rs) = (\<Union>r \<in> set rs. between r)" "p \<in> set (ranges_to_prefixes rs) \<Longrightarrow> prefix_ok p"
proof -
  have one: "cover (range_to_prefixes \<lparr>r_start = a_val a, r_end = a_val b, r_is4 = is4 a\<rparr>) = between (a, b) \<and>
      (\<forall>p \<in> set (range_to_prefixes \<lparr>r_start = a_val a, r_end = a_val b, r_is4 = is4 a\<rparr>). prefix_ok p)"
    if "range_valid (a, b)" for a b
  proof -
    let ?r = "\<lparr>r_start = a_val a, r_end = a_val b, r_is4 = is4 a\<rparr>"
    have "r_end ?r < 2 ^ bitlen (fam_of (r_is4 ?r))" using that by (auto simp: range_valid_def addr_ok_def)
    from range_to_prefixes_facts(1,3) [OF this] show ?thesis
      using between_range [OF that] network_sel(1) by auto
  qed
  show "cover (ranges_to_prefixes rs) = (\<Union>r \<in> set rs. between r)"
    using assms one by (force simp: ranges_to_prefixes_def cover_concat)
  show "p \<in> set (ranges_to_prefixes rs) \<Longrightarrow> prefix_ok p"
    using assms one by (fastforce simp: ranges_to_prefixes_def)
qed

interpretation model_sets: ip_sets model_netipx "\<lambda>ps. \<forall>p \<in> set ps. prefix_ok p"
proof
  fix rs :: "(addr \<times> addr) list"
  assume "\<forall>r \<in> set rs. range_valid r"
  from ranges_to_prefixes_facts [OF this]
  show "\<exists>s. of_ranges model_netipx rs = Some s \<and> (\<forall>p \<in> set s. prefix_ok p) \<and>
      cover (prefixes_of model_netipx s) = (\<Union>r \<in> set rs. between r)"
    by (auto simp: model_netipx_def)
next
  fix ps :: "prefix list"
  assume "\<forall>p \<in> set ps. prefix_ok p"
  then show "\<exists>s. of_prefixes model_netipx ps = Some s \<and> (\<forall>p \<in> set s. prefix_ok p) \<and>
      cover (prefixes_of model_netipx s) = cover ps"
    by (simp add: model_netipx_def)
next
  fix s t :: "prefix list"
  assume "\<forall>p \<in> set s. prefix_ok p" "\<forall>p \<in> set t. prefix_ok p"
  moreover have "cover (concat (map (\<lambda>p. concat (map (meet p) t)) s)) = cover s \<inter> cover t"
    by (simp only: cover_concat_map cover_meet) (auto simp: cover_def)
  ultimately show "\<exists>u. intersect_sets model_netipx s t = Some u \<and> (\<forall>p \<in> set u. prefix_ok p) \<and>
      cover (prefixes_of model_netipx u) = cover (prefixes_of model_netipx s) \<inter> cover (prefixes_of model_netipx t)"
    by (auto simp: model_netipx_def meet_def split: if_splits)
next
  fix s p
  assume "\<forall>p \<in> set s. prefix_ok p" "p \<in> set (prefixes_of model_netipx s)"
  then show "prefix_ok p" by (simp add: model_netipx_def)
qed

section \<open>Properties\<close>

definition rules_ok :: "srs_rule list \<Rightarrow> bool" where
  "rules_ok rs = (length rs < 2 ^ 63 \<and> (\<forall>r \<in> set rs. rule_ok r \<and> rule_depth r \<le> Suc max_depth))"

definition srs_file :: "byte \<Rightarrow> byte list \<Rightarrow> byte list" where
  "srs_file v body = [0x53, 0x52, 0x53, v] @ body"

lemma parse_file:
  assumes "ip_sets nx valid" "rules_ok rs" "inflate body = Some (enc_rules rs @ rest, True)" "1 \<le> v" "v \<le> 5"
  shows "ParseSRS json inflate nx never (srs_file v body) [] = Inr (extract_all nx True rs)"
proof -
  have v: "v \<in> {1..5}" using assms(4,5) by simp
  show ?thesis
    unfolding srs_file_def
    using ip_sets.parse_encoded [OF assms(1), of rs inflate body rest v json] assms(2,3) v by (simp add: rules_ok_def)
qed

text \<open>C27: the parser reads every rule set that its format can express, of every kind of item and of
  logical rules nested up to the limit, and returns for each rule the CIDRs of the specification,
  leaving out the empty ones.\<close>

theorem ParseSRS_encoded:
  assumes "ip_sets nx valid" "rules_ok rs" "inflate body = Some (enc_rules rs @ rest, True)" "1 \<le> v" "v \<le> 5"
  shows "ParseSRS json inflate nx never (srs_file v body) [] = Inr (extract_all nx True rs)"
  using assms by (rule parse_file)

definition sample_rules :: "srs_rule list" where
  "sample_rules =
     [LogicalRule False
        [DefaultRule [Keywords srsItemDomainKeyword [[1, 2]], IpCidr [(Addr IPv4 0x0A000000, Addr IPv4 0x0A0000FF)]] 0,
         DefaultRule [IpCidr [(Addr IPv4 0x0A000080, Addr IPv4 0x0B000000)]] 0] 0,
      DefaultRule [Uint16s srsItemPort [[0, 80]], IpCidr [(Addr IPv4 1, Addr IPv4 2)]] 0]"

lemma sample_rules_ok: "rules_ok sample_rules"
  by (simp add: rules_ok_def sample_rules_def ranges_ok_def range_valid_def strings_ok_def words_ok_def max_count_def
      max_depth_def keyword_items_def uint16_items_def addr_ok_def less_eq_addr_same_family)

theorem ParseSRS_encoded_witness:
  "ParseSRS (\<lambda>s. None) (\<lambda>b. Some (enc_rules sample_rules, True)) model_netipx never (srs_file 3 []) [] =
     Inr (extract_all model_netipx True sample_rules)"
  using ParseSRS_encoded [OF model_sets.ip_sets_axioms sample_rules_ok, of "\<lambda>b. Some (enc_rules sample_rules, True)" "[]" "[]" 3] by simp


definition one_range :: "(addr \<times> addr) list" where
  "one_range = [(Addr IPv4 0x0A000000, Addr IPv4 0x0A0000FF)]"

definition one_range_rules :: "srs_rule list" where
  "one_range_rules = [DefaultRule [IpCidr one_range] 0]"

definition by_address :: "addr meaning" where
  "by_address = \<lparr>destination = (\<lambda>a. a), satisfies = (\<lambda>i a. False), restrictions_hold = (\<lambda>is a. False)\<rparr>"

lemma one_range_facts:
  "rules_ok one_range_rules" "extract_all model_netipx True one_range_rules = [ranges_to_prefixes one_range]"
  "Addr IPv4 0x0A000001 \<in> cover (ranges_to_prefixes one_range)"
proof -
  have v: "\<forall>r \<in> set one_range. range_valid r"
    by (simp add: one_range_def range_valid_def addr_ok_def less_eq_addr_same_family)
  then show "rules_ok one_range_rules"
    by (simp add: rules_ok_def one_range_rules_def ranges_ok_def one_range_def max_count_def)
  show c: "Addr IPv4 0x0A000001 \<in> cover (ranges_to_prefixes one_range)"
    using v by (simp add: ranges_to_prefixes_facts(1)) (simp add: one_range_def between_def addr_ok_def less_eq_addr_same_family)
  then have "ranges_to_prefixes one_range \<noteq> []" by auto
  then show "extract_all model_netipx True one_range_rules = [ranges_to_prefixes one_range]"
    by (simp add: extract_all_def one_range_rules_def default_result_def Let_def model_netipx_def)
qed




section \<open>Progress\<close>

definition strict :: "'a reader \<Rightarrow> bool" where
  "strict m = (\<forall>s x s'. m s = (Inr x, s') \<longrightarrow> length s' < length s)"

lemma strict_bind_byte: "(\<And>b. forward (f b)) \<Longrightarrow> strict (rbind read_byte f)"
proof -
  assume f: "\<And>b. forward (f b)"
  have "length s' < length s" if "rbind read_byte f s = (Inr x, s')" for s x s'
  proof (cases s)
    case Nil
    then show ?thesis using that by (simp add: rbind_def)
  next
    case (Cons b t)
    then have "suffix s' t" using that forwardD [OF f [of b], of t] by (simp add: rbind_def)
    then show ?thesis using Cons by (simp add: suffix_length_le less_Suc_eq_le)
  qed
  then show ?thesis by (simp add: strict_def)
qed

lemma parse_default_progress:
  "suffix (snd (parse_default nx dn cidrs all con s)) s \<and>
    (\<forall>x s'. parse_default nx dn cidrs all con s = (Inr x, s') \<longrightarrow> length s' < length s)"
proof (induction nx dn cidrs all con s rule: parse_default.induct)
  case (1 nx dn cidrs all con s)
  show ?case
  proof (cases "dn (length s) \<or> s = []")
    case True
    then show ?thesis by (subst (1 2) parse_default.simps) auto
  next
    case False
    then obtain t s1 where s: "s = t # s1" by (cases s) auto
    obtain y s2 where p: "parse_item nx dn cidrs t s1 = (y, s2)" by fastforce
    have suf: "suffix s2 s1" by (rule forwardD [OF forward_parse_item p])
    then have len: "length s2 < length s" by (simp add: s suffix_length_le less_Suc_eq_le)
    show ?thesis
    proof (cases "\<exists>ps c. y = Inr (Item ps c)")
      case True
      then obtain ps c where y: "y = Inr (Item ps c)" by blast
      have ih: "suffix (snd (parse_default nx dn cidrs (all @ ps) (con \<or> c) s2)) s2 \<and>
          (\<forall>x s'. parse_default nx dn cidrs (all @ ps) (con \<or> c) s2 = (Inr x, s') \<longrightarrow> length s' < length s2)"
        using "1.IH" False s p y by simp
      have eq: "parse_default nx dn cidrs all con s = parse_default nx dn cidrs (all @ ps) (con \<or> c) s2"
        using False s p y by (subst parse_default.simps) simp
      show ?thesis
        unfolding eq using ih len suf suffix_order.trans [of _ s2 s1] by (auto simp: s suffix_Cons)
    next
      case nope: False
      have "parse_default nx dn cidrs all con s \<in> range (\<lambda>x. (x, s2))"
        using False s p nope by (subst parse_default.simps) (auto split: sum.split item_outcome.split)
      then show ?thesis using suf len by (auto simp: s suffix_Cons)
    qed
  qed
qed

lemma forward_parse_default [forward_rules]: "forward (parse_default nx dn cidrs all con)"
  unfolding forward_def using parse_default_progress by blast

lemma forward_parse_sub [forward_rules]:
  "(\<And>c. forward (logical c)) \<Longrightarrow> forward (parse_sub nx dn logical cidrs)"
  unfolding parse_sub_def by (intro forward_rules)

lemma forward_skip_subs [forward_rules]: "(\<And>c. forward (sub c)) \<Longrightarrow> forward (skip_subs sub n)"
  unfolding skip_subs_def by (intro forward_rules)

lemma forward_split [forward_rules]: "(\<And>a b. forward (f a b)) \<Longrightarrow> forward (case x of (a, b) \<Rightarrow> f a b)"
  by (cases x) simp

lemma forward_and_loop [forward_rules]: "(\<And>c. forward (sub c)) \<Longrightarrow> forward (and_loop nx sub cidrs n groups)"
  by (induction n arbitrary: groups) (auto intro!: forward_rules)

lemma forward_or_loop [forward_rules]: "(\<And>c. forward (sub c)) \<Longrightarrow> forward (or_loop sub cidrs n all con)"
  by (induction n arbitrary: all con) (auto intro!: forward_rules)

lemma forward_parse_logical: "forward (parse_logical left nx dn cidrs) \<and> strict (parse_logical left nx dn cidrs)"
proof (induction left arbitrary: cidrs)
  case 0
  then show ?case by (simp add: forward_rfail strict_def) (simp add: rfail_def)
next
  case (Suc left)
  have sub: "forward (parse_sub nx dn (parse_logical left nx dn) c)" for c
    using Suc by (intro forward_parse_sub) blast
  show ?case
    unfolding parse_logical.simps Let_def
    by (intro conjI strict_bind_byte forward_rules sub)
qed

text \<open>C30: the loops of the rule parsers end on every stream, well-formed or not: whatever they return,
  what is left to read is a tail of what there was, and a rule that was read took at least one byte.\<close>

theorem rule_parsers_progress:
  "suffix (snd (parse_default nx dn cidrs all con s)) s \<and> suffix (snd (parse_logical left nx dn cidrs s)) s \<and>
   (\<forall>x s'. parse_default nx dn cidrs all con s = (Inr x, s') \<or> parse_logical left nx dn cidrs s = (Inr x, s') \<longrightarrow>
      length s' < length s)"
  using parse_default_progress [of nx dn cidrs all con s] forward_parse_logical [of left nx dn cidrs]
  by (auto simp: forward_def strict_def)

theorem rule_parsers_progress_witness:
  "suffix (snd (parse_default model_netipx never True [] False [srsItemFinal, 0, 7])) [srsItemFinal, 0, 7]"
  using rule_parsers_progress by blast

text \<open>A length of \<open>2^63\<close> or more, which the format allows, skips nothing.\<close>

lemma huge_length_skipped: "2 ^ 63 \<le> unat n \<Longrightarrow> skip_bytes n s = (Inr (), s)"
proof -
  assume "2 ^ 63 \<le> unat n"
  then have "int (2 ^ 63) \<le> int (unat n)" by (simp only: of_nat_le_iff)
  moreover have "int (unat n) = uint n" by simp
  ultimately have n: "2 ^ 63 \<le> uint n" "uint n < 2 ^ 64" using uint_bounded [of n] by simp_all
  have "(uint n + 2 ^ 63) mod 2 ^ 64 = uint n - 2 ^ 63"
    using n mod_pos_pos_trivial [of "uint n - 2 ^ 63" "2 ^ 64"] mod_add_self2 [of "uint n - 2 ^ 63" "2 ^ 64"] by (simp add: add.commute)
  then have "sint n \<le> 0"
    using n by (simp add: sint_uint signed_take_bit_eq_take_bit_shift take_bit_eq_mod)
  then show ?thesis by (simp add: skip_bytes_def)
qed

end
