(* ===== verification/Tcp_Md5.thy ===== *)
theory Tcp_Md5
  imports Bgp_Wire_Safety
begin

text \<open>
  \<open>internal/bgp/rfc2385.go\<close>: parsing of a captured IPv4 or IPv6 packet into the fields RFC 2385
  signs, the scan for the TCP MD5 option and the comparison of its digest. The hash of
  \<open>crypto/md5\<close> is the parameter \<open>md5\<close>.
\<close>

section \<open>Segments\<close>

definition tcpOptKindEOL :: byte where "tcpOptKindEOL = 0"
definition tcpOptKindNOP :: byte where "tcpOptKindNOP = 1"
definition tcpOptKindMD5 :: byte where "tcpOptKindMD5 = 19"
definition tcpOptLenMD5 :: nat where "tcpOptLenMD5 = 18"
definition tcpHeaderMinSz :: nat where "tcpHeaderMinSz = 20"
definition tcpFlagSYN :: byte where "tcpFlagSYN = 0x02"
definition tcpFlagACK :: byte where "tcpFlagACK = 0x10"

lemmas tcp_consts = tcpOptKindEOL_def tcpOptKindNOP_def tcpOptKindMD5_def tcpOptLenMD5_def
  tcpHeaderMinSz_def tcpFlagSYN_def tcpFlagACK_def

record tcp_segment =
  SrcAddr :: addr
  DstAddr :: addr
  SrcPort :: u16
  DstPort :: u16
  Flags :: byte
  MD5 :: "byte list option"
  pseudo :: "byte list"
  header20 :: "byte list"
  payload :: "byte list"

definition is_syn :: "tcp_segment \<Rightarrow> bool" where
  "is_syn s = (Flags s AND tcpFlagSYN \<noteq> 0 \<and> Flags s AND tcpFlagACK = 0)"

definition digest :: "(byte list \<Rightarrow> byte list) \<Rightarrow> tcp_segment \<Rightarrow> byte list \<Rightarrow> byte list" where
  "digest md5 s password = copy_into 16 (md5 (pseudo s @ header20 s @ payload s @ password))"

definition matches_password :: "(byte list \<Rightarrow> byte list) \<Rightarrow> tcp_segment \<Rightarrow> byte list \<Rightarrow> bool" where
  "matches_password md5 s password =
     (case MD5 s of
        None \<Rightarrow> False
      | Some d \<Rightarrow> if length d \<noteq> 16 then False else d = digest md5 s password)"

section \<open>Options\<close>

text \<open>\<open>i\<close> is an index into \<open>opts\<close>; the result is \<open>None\<close> for the nil slice.\<close>

function find_md5_option :: "byte list \<Rightarrow> nat \<Rightarrow> ('e, byte list option) result" where
  "find_md5_option opts i =
     (if i < length opts then
        bindE (idx opts i) (\<lambda>kind.
          if kind = tcpOptKindEOL then Inr None
          else if kind = tcpOptKindNOP then find_md5_option opts (i + 1)
          else if length opts \<le> i + 1 then Inr None
          else
            bindE (idx opts (i + 1)) (\<lambda>b.
              let opt_len = unat b in
              if opt_len < 2 \<or> length opts < i + opt_len then Inr None
              else if kind = tcpOptKindMD5 \<and> opt_len = tcpOptLenMD5 then
                bindE (slice opts (i + 2) (i + opt_len)) (\<lambda>d. Inr (Some (copy_into 16 d)))
              else find_md5_option opts (i + opt_len)))
      else Inr None)"
  by pat_completeness auto
termination
  by (relation "measure (\<lambda>(opts, i). length opts - i)") auto

declare find_md5_option.simps [simp del]

section \<open>Packets\<close>

datatype tcp_md5_error = PacketTooShort | UnsupportedIPVer | NotTCP

definition parse_tcp :: "byte list \<Rightarrow> nat \<Rightarrow> (tcp_md5_error, tcp_segment) result" where
  "parse_tcp tcp seg_len =
     (if length tcp < tcpHeaderMinSz \<or> seg_len < tcpHeaderMinSz then fail PacketTooShort
      else
        bindE (idx tcp 12) (\<lambda>off.
          let data_offset = unat (drop_bit 4 off) * 4 in
          if data_offset < tcpHeaderMinSz \<or> length tcp < data_offset \<or> seg_len < data_offset then fail PacketTooShort
          else
            bindE (slice tcp 0 2) (\<lambda>sp.
            bindE (slice tcp 2 4) (\<lambda>dp.
            bindE (idx tcp 13) (\<lambda>flags.
            bindE (slice tcp 0 tcpHeaderMinSz) (\<lambda>h.
            bindE (if data_offset < seg_len then slice tcp data_offset seg_len else Inr []) (\<lambda>data.
            bindE (slice tcp tcpHeaderMinSz data_offset) (\<lambda>opts.
            bindE (find_md5_option opts 0) (\<lambda>d.
              Inr \<lparr>SrcAddr = Addr IPv4 0, DstAddr = Addr IPv4 0, SrcPort = get_u16 sp, DstPort = get_u16 dp,
                   Flags = flags, MD5 = d, pseudo = [], header20 = h[16 := 0, 17 := 0], payload = data\<rparr>)))))))))"

definition parse_ipv4_tcp :: "byte list \<Rightarrow> (tcp_md5_error, tcp_segment) result" where
  "parse_ipv4_tcp pkt =
     (if length pkt < 20 then fail PacketTooShort
      else
        bindE (idx pkt 0) (\<lambda>v.
          let ihl = unat (v AND 0x0f) * 4 in
          if ihl < 20 \<or> length pkt < ihl then fail PacketTooShort
          else
            bindE (idx pkt 9) (\<lambda>protocol.
              if protocol \<noteq> 6 then fail NotTCP
              else
                bindE (slice pkt 2 4) (\<lambda>tl.
                  let total0 = unat (get_u16 tl);
                      total_len = (if total0 < ihl \<or> length pkt < total0 then length pkt else total0)
                  in
                  bindE (slice pkt 12 16) (\<lambda>src.
                  bindE (slice pkt 16 20) (\<lambda>dst.
                    let tcp_seg_len = total_len - ihl in
                    bindE (slice pkt ihl total_len) (\<lambda>tcp.
                    bindE (parse_tcp tcp tcp_seg_len) (\<lambda>seg.
                      Inr (seg\<lparr>SrcAddr := addr_from4 src, DstAddr := addr_from4 dst,
                               pseudo := src @ dst @ [0, protocol] @ put_u16 (word_of_nat tcp_seg_len)\<rparr>)))))))))"

definition parse_ipv6_tcp :: "byte list \<Rightarrow> (tcp_md5_error, tcp_segment) result" where
  "parse_ipv6_tcp pkt =
     (if length pkt < 40 then fail PacketTooShort
      else
        bindE (idx pkt 6) (\<lambda>next_header.
          if next_header \<noteq> 6 then fail NotTCP
          else
            bindE (slice pkt 4 6) (\<lambda>pl.
              let payload_len = unat (get_u16 pl);
                  end0 = 40 + payload_len;
                  end_i = (if payload_len = 0 \<or> length pkt < end0 then length pkt else end0)
              in
              bindE (slice pkt 8 24) (\<lambda>src.
              bindE (slice pkt 24 40) (\<lambda>dst.
                let tcp_seg_len = end_i - 40 in
                bindE (slice pkt 40 end_i) (\<lambda>tcp.
                bindE (parse_tcp tcp tcp_seg_len) (\<lambda>seg.
                  Inr (seg\<lparr>SrcAddr := addr_from16 src, DstAddr := addr_from16 dst,
                           pseudo := src @ dst @ put_u32 (word_of_nat tcp_seg_len) @ [0, 0, 0, next_header]\<rparr>))))))))"

definition parse_ip_tcp_segment :: "byte list \<Rightarrow> (tcp_md5_error, tcp_segment) result" where
  "parse_ip_tcp_segment pkt =
     (if length pkt < 1 then fail PacketTooShort
      else
        bindE (idx pkt 0) (\<lambda>v.
          if drop_bit 4 v = 4 then parse_ipv4_tcp pkt
          else if drop_bit 4 v = 6 then parse_ipv6_tcp pkt
          else fail UnsupportedIPVer))"

section \<open>No index out of range\<close>

lemma safe_find_md5_option [safe_rules]: "safe (find_md5_option opts i)"
proof (induction "length opts - i" arbitrary: i rule: less_induct)
  case less
  show ?case
    by (subst find_md5_option.simps)
      (auto intro!: safe_steps safe_rules less.hyps split del: if_split)
qed

lemma safe_parse_tcp [safe_rules]: "seg_len \<le> length tcp \<Longrightarrow> safe (parse_tcp tcp seg_len)"
  by (auto simp: parse_tcp_def tcpHeaderMinSz_def intro!: safe_steps safe_rules split del: if_split)

lemma safe_parse_ipv4_tcp [safe_rules]: "safe (parse_ipv4_tcp pkt)"
  by (auto simp: parse_ipv4_tcp_def intro!: safe_steps safe_rules dest!: slice_length split: if_splits)

lemma safe_parse_ipv6_tcp [safe_rules]: "safe (parse_ipv6_tcp pkt)"
  by (auto simp: parse_ipv6_tcp_def intro!: safe_steps safe_rules dest!: slice_length split: if_splits)

lemma safe_parse_ip_tcp_segment: "safe (parse_ip_tcp_segment pkt)"
  by (auto simp: parse_ip_tcp_segment_def intro!: safe_steps safe_rules split del: if_split)

section \<open>The option scan finds the first signature\<close>

datatype tcp_option = NopOption | TlvOption byte "byte list"

fun option_bytes :: "tcp_option \<Rightarrow> byte list" where
  "option_bytes NopOption = [tcpOptKindNOP]"
| "option_bytes (TlvOption kind val) = [kind, word_of_nat (length val + 2)] @ val"

fun option_ok :: "tcp_option \<Rightarrow> bool" where
  "option_ok NopOption = True"
| "option_ok (TlvOption kind val) = (kind \<noteq> tcpOptKindEOL \<and> kind \<noteq> tcpOptKindNOP \<and> length val + 2 < 256)"

fun first_md5 :: "tcp_option list \<Rightarrow> byte list option" where
  "first_md5 [] = None"
| "first_md5 (NopOption # os) = first_md5 os"
| "first_md5 (TlvOption kind val # os) =
     (if kind = tcpOptKindMD5 \<and> length val = 16 then Some val else first_md5 os)"

definition options_end :: "byte list \<Rightarrow> bool" where
  "options_end tail = (tail = [] \<or> hd tail = tcpOptKindEOL)"

lemma find_md5_option_shift:
  "i = length pre \<Longrightarrow> \<forall>opt \<in> set os. option_ok opt \<Longrightarrow> options_end tail \<Longrightarrow>
     find_md5_option (pre @ concat (map option_bytes os) @ tail) i = (Inr (first_md5 os) :: (unit, _) result)"
proof (induction os arbitrary: pre i)
  case Nil
  then show ?case
    by (subst find_md5_option.simps) (cases tail; simp add: options_end_def idx_def nth_append)
next
  case (Cons opt os)
  let ?rest = "concat (map option_bytes os) @ tail"
  show ?case
  proof (cases opt)
    case NopOption
    have "find_md5_option ((pre @ [tcpOptKindNOP]) @ ?rest) (i + 1) = (Inr (first_md5 os) :: (unit, _) result)"
      using Cons.prems by (intro Cons.IH) simp_all
    with NopOption Cons.prems show ?thesis
      by (subst find_md5_option.simps) (simp add: idx_def tcp_consts)
  next
    case (TlvOption kind val)
    define n where "n = (word_of_nat (length val + 2) :: byte)"
    have n: "unat n = length val + 2"
      unfolding n_def using Cons.prems(2) TlvOption by (intro unat_byte_of_nat) simp
    have ok: "kind \<noteq> tcpOptKindEOL" "kind \<noteq> tcpOptKindNOP" using Cons.prems(2) TlvOption by simp_all
    have "find_md5_option ((pre @ [kind, n] @ val) @ ?rest) (i + (length val + 2)) = (Inr (first_md5 os) :: (unit, _) result)"
      using Cons.prems by (intro Cons.IH) simp_all
    then have IH: "find_md5_option (pre @ kind # n # val @ ?rest) (i + (length val + 2)) = (Inr (first_md5 os) :: (unit, _) result)"
      by simp
    have "find_md5_option (pre @ kind # n # val @ ?rest) i = (Inr (first_md5 (opt # os)) :: (unit, _) result)"
      using Cons.prems(1) ok IH
      by (subst find_md5_option.simps)
        (simp add: idx_def nth_append n slice_def TlvOption tcpOptLenMD5_def copy_into_def)
    then show ?thesis using TlvOption by (simp add: n_def)
  qed
qed

section \<open>Properties\<close>

text \<open>C35: parsing a captured packet never indexes out of range, whatever its bytes: malformed and
  truncated packets are errors.\<close>

theorem parse_segment_no_panic: "parse_ip_tcp_segment pkt \<noteq> Inl Panic"
  using safe_parse_ip_tcp_segment [of pkt] by (simp add: safe_def)

text \<open>C36: on well-formed TCP options the scan returns the digest of the first MD5 option of the right
  length, skips every other option, and stops at the end-of-list marker.\<close>

theorem find_md5_option_first:
  assumes "\<forall>opt \<in> set os. option_ok opt" "options_end tail"
  shows "find_md5_option (concat (map option_bytes os) @ tail) 0 = (Inr (first_md5 os) :: (unit, _) result)"
  using find_md5_option_shift [of 0 "[]" os tail] assms by simp

theorem find_md5_option_first_witness:
  "find_md5_option (concat (map option_bytes
      [TlvOption 2 [5, 0xB4], NopOption, TlvOption 19 [0, 1, 2, 3, 4, 5, 6, 7, 8, 9, 10, 11, 12, 13, 14, 15]]) @ [0, 99]) 0 =
    (Inr (Some [0, 1, 2, 3, 4, 5, 6, 7, 8, 9, 10, 11, 12, 13, 14, 15]) :: (unit, _) result)"
  using find_md5_option_first
    [of "[TlvOption 2 [5, 0xB4], NopOption, TlvOption 19 [0, 1, 2, 3, 4, 5, 6, 7, 8, 9, 10, 11, 12, 13, 14, 15]]" "[0, 99]"]
  by (simp add: tcp_consts options_end_def)

end
