(* ===== verification/Retry.thy ===== *)
theory Retry
  imports Wdbgp_Prelude "HOL-Library.Sublist"
begin

text \<open>
  \<open>internal/retry/retry.go\<close>: the case-insensitive search behind the error classification, the
  classifications, and the loop of \<open>Do\<close> and \<open>DoWithResult\<close> with its exponential backoff in
  64-bit nanoseconds.
\<close>

section \<open>Errors\<close>

text \<open>
  What the package reads of a Go error: its text and the two context errors it may wrap
  (\<open>errors.Is\<close>). A nil error is \<open>None\<close>.
\<close>

record go_error =
  err_text :: string
  err_canceled :: bool
  err_deadline :: bool

definition lower :: "string \<Rightarrow> string" where
  "lower s =
     map (\<lambda>c. if of_char CHR ''A'' \<le> (of_char c :: nat) \<and> of_char c \<le> (of_char CHR ''Z'' :: nat)
       then char_of (of_char c + (of_char CHR ''a'' - of_char CHR ''A'') :: nat) else c) s"

lemma length_lower [simp]: "length (lower s) = length s"
  by (simp add: lower_def)

declare conj_cong [fundef_cong] disj_cong [fundef_cong]

function str_contains :: "string \<Rightarrow> string \<Rightarrow> bool" where
  "str_contains s0 substr0 =
     (let s = lower s0; substr = lower substr0 in
      length substr \<le> length s \<and>
      (s = substr \<or>
       length substr < length s \<and>
       (take (length substr) s = substr \<or> str_contains (drop 1 s) substr)))"
  by pat_completeness auto
termination
  by (relation "measure (\<lambda>(s, substr). length s)") auto

declare conj_cong [fundef_cong del] disj_cong [fundef_cong del] str_contains.simps [simp del]

fun contains_any :: "string \<Rightarrow> string list \<Rightarrow> bool" where
  "contains_any s [] = False"
| "contains_any s (substr # substrings) = (if str_contains s substr then True else contains_any s substrings)"

fun AlwaysRetry :: "go_error option \<Rightarrow> bool" where
  "AlwaysRetry None = True"
| "AlwaysRetry (Some err) = (\<not> err_canceled err \<and> \<not> err_deadline err)"

fun TransientError :: "go_error option \<Rightarrow> bool" where
  "TransientError None = False"
| "TransientError (Some err) =
     (if err_canceled err \<or> err_deadline err then False
      else if contains_any (err_text err) [''timeout'', ''timed out'', ''deadline exceeded'', ''temporary'', ''try again''] then True
      else if contains_any (err_text err) [''connection refused'', ''connection reset'', ''broken pipe''] then True
      else if contains_any (err_text err) [''no route to host'', ''host unreachable'', ''network unreachable''] then True
      else if contains_any (err_text err) [''too many open files'', ''resource temporarily unavailable''] then True
      else if contains_any (err_text err) [''rate limit'', ''rate exceeded'', ''too many requests''] then True
      else if contains_any (err_text err) [''service unavailable'', ''server error'', ''bad gateway'', ''gateway timeout''] then True
      else if contains_any (err_text err) [''sqlite busy'', ''database is locked'', ''database locked''] then True
      else if contains_any (err_text err) [''transient error''] then True
      else False)"

fun HTTPTransientError :: "go_error option \<Rightarrow> bool" where
  "HTTPTransientError None = False"
| "HTTPTransientError (Some err) =
     (if err_canceled err \<or> err_deadline err then False
      else if contains_any (err_text err) [''timeout'', ''timed out'', ''deadline exceeded'', ''temporary'', ''try again''] then True
      else if contains_any (err_text err) [''connection refused'', ''connection reset'', ''broken pipe''] then True
      else if contains_any (err_text err) [''no route to host'', ''host unreachable'', ''network unreachable''] then True
      else if contains_any (err_text err) [''too many open files'', ''resource temporarily unavailable''] then True
      else if contains_any (err_text err) [''rate limit'', ''rate exceeded'', ''too many requests''] then True
      else if contains_any (err_text err) [''service unavailable'', ''server error'', ''bad gateway'', ''gateway timeout''] then True
      else if contains_any (err_text err) [''429'', ''503'', ''504''] then True
      else False)"

section \<open>The retry loop\<close>

type_synonym duration = "64 word"

record config =
  MaxAttempts :: int
  BaseDelay :: duration
  MaxDelay :: duration
  JitterPositive :: bool

definition second :: duration where "second = 1000000000"
definition millisecond :: duration where "millisecond = 1000000"

definition DefaultConfig :: config where
  "DefaultConfig = \<lparr>MaxAttempts = 3, BaseDelay = 100 * millisecond, MaxDelay = 30 * second, JitterPositive = True\<rparr>"

definition HTTPConfig :: config where
  "HTTPConfig = \<lparr>MaxAttempts = 3, BaseDelay = 1 * second, MaxDelay = 30 * second, JitterPositive = True\<rparr>"

definition DatabaseConfig :: config where
  "DatabaseConfig = \<lparr>MaxAttempts = 5, BaseDelay = 50 * millisecond, MaxDelay = 5 * second, JitterPositive = True\<rparr>"

definition BGPConfig :: config where
  "BGPConfig = \<lparr>MaxAttempts = 10, BaseDelay = 2 * second, MaxDelay = 60 * second, JitterPositive = True\<rparr>"

text \<open>
  \<open>config.BaseDelay * time.Duration(1<<uint(attempt))\<close> wraps at 64 bits and a shift by 64 or
  more is 0; the comparison with \<open>MaxDelay\<close> is signed. The jitter is a floating-point product with
  a random factor, so it is the parameter \<open>jitter\<close>.
\<close>

definition backoff :: "config \<Rightarrow> nat \<Rightarrow> duration" where
  "backoff cfg attempt =
     (let delay = BaseDelay cfg * push_bit attempt 1 in
      if sint (MaxDelay cfg) < sint delay then MaxDelay cfg else delay)"

definition retry_delay :: "config \<Rightarrow> (duration \<Rightarrow> duration) \<Rightarrow> nat \<Rightarrow> duration" where
  "retry_delay cfg jitter attempt =
     (let delay = backoff cfg attempt in if JitterPositive cfg then delay + jitter delay else delay)"

text \<open>
  The environment of one run: what the \<open>k\<close>-th call returns, the random jitter of the \<open>k\<close>-th
  wait, and what its \<open>select\<close> saw (the error of the context, or nothing when the timer fired).
  A run yields the returned pair, the number of calls made and the delays waited for.
\<close>

record 'a retry_env =
  call :: "nat \<Rightarrow> 'a \<times> go_error option"
  jitter :: "nat \<Rightarrow> duration \<Rightarrow> duration"
  ctx_err :: "nat \<Rightarrow> go_error option"

type_synonym 'a retry_run = "('a \<times> go_error option) \<times> nat \<times> duration list"

text \<open>\<open>left\<close> is \<open>MaxAttempts - attempt\<close>; the loop ends when it is 0.\<close>

fun retry_loop ::
  "config \<Rightarrow> 'a retry_env \<Rightarrow> (go_error \<Rightarrow> bool) \<Rightarrow> 'a \<Rightarrow> nat \<Rightarrow> nat \<Rightarrow> duration list \<Rightarrow> go_error option \<Rightarrow> 'a retry_run" where
  "retry_loop cfg env should_retry zero 0 attempt waited last_err = ((zero, last_err), attempt, waited)"
| "retry_loop cfg env should_retry zero (Suc left) attempt waited last_err =
     (case call env attempt of
        (x, None) \<Rightarrow> ((x, None), Suc attempt, waited)
      | (x, Some err) \<Rightarrow>
          if left = 0 \<or> \<not> should_retry err then ((zero, Some err), Suc attempt, waited)
          else
            (let delay = retry_delay cfg (jitter env attempt) attempt in
             case ctx_err env attempt of
               Some e \<Rightarrow> ((zero, Some e), Suc attempt, waited @ [delay])
             | None \<Rightarrow> retry_loop cfg env should_retry zero left (Suc attempt) (waited @ [delay]) (Some err)))"

definition max_attempts :: "config \<Rightarrow> nat" where
  "max_attempts cfg = nat (if MaxAttempts cfg < 1 then 1 else MaxAttempts cfg)"

definition DoWithResult :: "config \<Rightarrow> 'a retry_env \<Rightarrow> (go_error \<Rightarrow> bool) \<Rightarrow> 'a \<Rightarrow> 'a retry_run" where
  "DoWithResult cfg env should_retry zero = retry_loop cfg env should_retry zero (max_attempts cfg) 0 [] None"

text \<open>\<open>Do\<close> is the same loop around a function that returns an error only.\<close>

definition Do :: "config \<Rightarrow> unit retry_env \<Rightarrow> (go_error \<Rightarrow> bool) \<Rightarrow> unit retry_run" where
  "Do cfg env should_retry = retry_loop cfg env should_retry () (max_attempts cfg) 0 [] None"

section \<open>Searching\<close>

lemma lower_idem [simp]: "lower (lower s) = lower s"
  by (auto simp: lower_def)

lemma lower_append [simp]: "lower (s @ t) = lower s @ lower t"
  by (simp add: lower_def)

lemma lower_take: "lower (take n s) = take n (lower s)" and lower_drop: "lower (drop n s) = drop n (lower s)"
  by (simp_all add: lower_def take_map drop_map)

lemma sublist_step:
  "sublist t s \<longleftrightarrow> length t \<le> length s \<and> (s = t \<or> length t < length s \<and> (take (length t) s = t \<or> sublist t (drop 1 s)))"
proof (cases s)
  case Nil
  then show ?thesis by auto
next
  case (Cons c cs)
  have "prefix t s \<longleftrightarrow> take (length t) s = t \<and> length t \<le> length s"
    by (metis append_eq_conv_conj prefix_def prefix_length_le take_is_prefix)
  then show ?thesis
    using Cons sublist_length_le [of t cs] by (cases "length t = length s") (auto simp: sublist_Cons_right)
qed

text \<open>The recursive search is substring search up to letter case.\<close>

lemma str_contains_iff: "str_contains s t \<longleftrightarrow> sublist (lower t) (lower s)"
proof (induction s t rule: str_contains.induct)
  case (1 s t)
  have IH: "lower s \<noteq> lower t \<Longrightarrow> length t < length s \<Longrightarrow> take (length t) (lower s) \<noteq> lower t \<Longrightarrow>
      str_contains (drop 1 (lower s)) (lower t) \<longleftrightarrow> sublist (lower t) (drop 1 (lower s))"
    using "1.IH" by (simp add: lower_drop)
  show ?case
    by (subst str_contains.simps, subst sublist_step) (use IH in \<open>auto simp: Let_def\<close>)
qed

section \<open>The loop stops at the first decisive attempt\<close>

definition decided :: "config \<Rightarrow> 'a retry_env \<Rightarrow> (go_error \<Rightarrow> bool) \<Rightarrow> 'a \<Rightarrow> nat \<Rightarrow> ('a \<times> go_error option) option" where
  "decided cfg env should_retry zero k =
     (case call env k of
        (x, None) \<Rightarrow> Some (x, None)
      | (x, Some e) \<Rightarrow>
          if Suc k = max_attempts cfg \<or> \<not> should_retry e then Some (zero, Some e)
          else map_option (\<lambda>c. (zero, Some c)) (ctx_err env k))"

definition waits :: "config \<Rightarrow> 'a retry_env \<Rightarrow> nat \<Rightarrow> duration list" where
  "waits cfg env n = map (\<lambda>i. retry_delay cfg (jitter env i) i) [0..<n]"

lemma waits_Suc: "waits cfg env k @ [retry_delay cfg (jitter env k) k] = waits cfg env (Suc k)"
  by (simp add: waits_def)

lemma retry_loop_first_decided:
  assumes "0 < left" "attempt + left = max_attempts cfg"
  shows "\<exists>k r w. attempt \<le> k \<and> k < max_attempts cfg \<and> (\<forall>i. attempt \<le> i \<and> i < k \<longrightarrow> decided cfg env sr zero i = None) \<and>
    decided cfg env sr zero k = Some r \<and> w \<in> {k, Suc k} \<and>
    retry_loop cfg env sr zero left attempt (waits cfg env attempt) le = (r, Suc k, waits cfg env w)"
  using assms
proof (induction left arbitrary: attempt le)
  case 0
  then show ?case by simp
next
  case (Suc left)
  obtain x e where c: "call env attempt = (x, e)" by fastforce
  have last: "left = 0 \<longleftrightarrow> Suc attempt = max_attempts cfg" using Suc.prems by auto
  show ?case
  proof (cases "decided cfg env sr zero attempt")
    case (Some r)
    have "\<exists>w \<in> {attempt, Suc attempt}. retry_loop cfg env sr zero (Suc left) attempt (waits cfg env attempt) le =
        (r, Suc attempt, waits cfg env w)"
      using Some c last by (auto simp: decided_def waits_Suc Let_def split: option.splits if_splits)
    then obtain w where "w \<in> {attempt, Suc attempt}"
      "retry_loop cfg env sr zero (Suc left) attempt (waits cfg env attempt) le = (r, Suc attempt, waits cfg env w)"
      by blast
    with Some Suc.prems show ?thesis by (intro exI [of _ attempt] exI [of _ r] exI [of _ w]) auto
  next
    case None
    then obtain err where err: "e = Some err" "left \<noteq> 0" "sr err" "ctx_err env attempt = None"
      using c last by (auto simp: decided_def split: option.splits if_splits)
    then have run: "retry_loop cfg env sr zero (Suc left) attempt (waits cfg env attempt) le =
        retry_loop cfg env sr zero left (Suc attempt) (waits cfg env (Suc attempt)) (Some err)"
      using c by (simp add: waits_Suc Let_def)
    have "0 < left" "Suc attempt + left = max_attempts cfg" using err Suc.prems by simp_all
    from Suc.IH [OF this, of "Some err"] obtain k r w where k: "Suc attempt \<le> k" "k < max_attempts cfg"
      "\<forall>i. Suc attempt \<le> i \<and> i < k \<longrightarrow> decided cfg env sr zero i = None"
      "decided cfg env sr zero k = Some r" "w \<in> {k, Suc k}"
      "retry_loop cfg env sr zero left (Suc attempt) (waits cfg env (Suc attempt)) (Some err) = (r, Suc k, waits cfg env w)"
      by blast
    have "decided cfg env sr zero i = None" if "attempt \<le> i \<and> i < k" for i
      using k(3) None that by (metis le_antisym not_less_eq_eq)
    then show ?thesis unfolding run using k by (intro exI [of _ k] exI [of _ r] exI [of _ w]) simp
  qed
qed

lemma max_attempts_pos: "0 < max_attempts cfg"
  by (simp add: max_attempts_def)

section \<open>Backoff\<close>

lemma sint_word_of_int64: "- (2 ^ 63) \<le> i \<Longrightarrow> i < 2 ^ 63 \<Longrightarrow> sint (word_of_int i :: duration) = i"
  by (subst sint_sbintrunc') (simp add: signed_take_bit_int_eq_self)

lemma backoff_mult:
  assumes "0 \<le> sint (BaseDelay cfg)" "sint (BaseDelay cfg) * 2 ^ k < 2 ^ 63"
  shows "sint (BaseDelay cfg * push_bit k 1) = sint (BaseDelay cfg) * 2 ^ k"
proof -
  have "BaseDelay cfg * push_bit k 1 = word_of_int (sint (BaseDelay cfg) * 2 ^ k)"
    by (simp add: push_bit_eq_mult)
  then have "sint (BaseDelay cfg * push_bit k 1) = sint (word_of_int (sint (BaseDelay cfg) * 2 ^ k) :: duration)"
    by simp
  moreover have "0 \<le> sint (BaseDelay cfg) * 2 ^ k" using assms(1) by simp
  ultimately show ?thesis using assms(2) sint_word_of_int64 [of "sint (BaseDelay cfg) * 2 ^ k"] by simp
qed

section \<open>Properties\<close>



text \<open>in 64-bit arithmetic the backoff of every attempt the shipped configurations can make is
  the smaller of \<open>BaseDelay * 2^attempt\<close> and \<open>MaxDelay\<close>: no shift or product overflows.\<close>

theorem backoff_shipped:
  "\<forall>cfg \<in> {DefaultConfig, HTTPConfig, DatabaseConfig, BGPConfig}. \<forall>k < max_attempts cfg.
     sint (backoff cfg k) = min (sint (BaseDelay cfg) * 2 ^ k) (sint (MaxDelay cfg))"
proof (intro ballI allI impI)
  fix cfg k
  assume cfg: "cfg \<in> {DefaultConfig, HTTPConfig, DatabaseConfig, BGPConfig}" and k: "k < max_attempts cfg"
  have base: "0 \<le> sint (BaseDelay cfg)" "sint (BaseDelay cfg) \<le> 2000000000" "max_attempts cfg \<le> 10"
    using cfg by (auto simp: DefaultConfig_def HTTPConfig_def DatabaseConfig_def BGPConfig_def
      second_def millisecond_def max_attempts_def)
  have "(2::int) ^ k \<le> 2 ^ 10" using k base(3) by (intro power_increasing) auto
  then have "sint (BaseDelay cfg) * 2 ^ k \<le> 2000000000 * 2 ^ 10"
    using base by (intro mult_mono) auto
  then have "sint (BaseDelay cfg * push_bit k 1) = sint (BaseDelay cfg) * 2 ^ k"
    using base by (intro backoff_mult) auto
  then show "sint (backoff cfg k) = min (sint (BaseDelay cfg) * 2 ^ k) (sint (MaxDelay cfg))"
    by (simp add: backoff_def Let_def)
qed

theorem backoff_shipped_witness:
  "sint (backoff HTTPConfig 2) = min (sint (BaseDelay HTTPConfig) * 2 ^ 2) (sint (MaxDelay HTTPConfig))"
  using backoff_shipped by (simp add: HTTPConfig_def max_attempts_def)

definition transient_phrases :: "string list" where
  "transient_phrases =
     [''timeout'', ''timed out'', ''deadline exceeded'', ''temporary'', ''try again'',
      ''connection refused'', ''connection reset'', ''broken pipe'',
      ''no route to host'', ''host unreachable'', ''network unreachable'',
      ''too many open files'', ''resource temporarily unavailable'',
      ''rate limit'', ''rate exceeded'', ''too many requests'',
      ''service unavailable'', ''server error'', ''bad gateway'', ''gateway timeout'',
      ''sqlite busy'', ''database is locked'', ''database locked'', ''transient error'']"

text \<open>an error is transient exactly when it wraps no context error and its text contains, up to
  letter case, one of the listed phrases.\<close>

theorem TransientError_phrases:
  "TransientError (Some err) \<longleftrightarrow> \<not> err_canceled err \<and> \<not> err_deadline err \<and>
     (\<exists>t \<in> set transient_phrases. sublist (lower t) (lower (err_text err)))"
  by (simp add: transient_phrases_def str_contains_iff)

end
