(* ===== verification/Circuit_Breaker.thy ===== *)
theory Circuit_Breaker
  imports Retry "HOL-Library.AList"
begin

text \<open>
  \<open>internal/retry/circuitbreaker.go\<close>: the circuit breaker and its manager. Time is an integer
  number of nanoseconds and an argument of every operation that calls \<open>time.Now\<close>; the mutex makes
  \<open>allowRequest\<close>, \<open>recordResult\<close> and \<open>Reset\<close> the atomic steps of the relation \<open>cb_step\<close>, so a
  trace of it is any interleaving of callers.
\<close>

section \<open>The breaker\<close>

datatype state = StateClosed | StateHalfOpen | StateOpen

fun state_string :: "state \<Rightarrow> string" where
  "state_string StateClosed = ''closed''"
| "state_string StateHalfOpen = ''half-open''"
| "state_string StateOpen = ''open''"

record circuit_breaker_config =
  Name :: string
  FailureThreshold :: int
  SuccessThreshold :: int
  OpenTimeout :: int
  HalfOpenMaxAttempts :: int

definition DefaultCircuitBreakerConfig :: circuit_breaker_config where
  "DefaultCircuitBreakerConfig = \<lparr>Name = ''default'', FailureThreshold = 5, SuccessThreshold = 2,
     OpenTimeout = 30000000000, HalfOpenMaxAttempts = 1\<rparr>"

definition HTTPCircuitBreakerConfig :: circuit_breaker_config where
  "HTTPCircuitBreakerConfig = \<lparr>Name = ''http'', FailureThreshold = 3, SuccessThreshold = 1,
     OpenTimeout = 60000000000, HalfOpenMaxAttempts = 1\<rparr>"

definition DatabaseCircuitBreakerConfig :: circuit_breaker_config where
  "DatabaseCircuitBreakerConfig = \<lparr>Name = ''database'', FailureThreshold = 10, SuccessThreshold = 3,
     OpenTimeout = 10000000000, HalfOpenMaxAttempts = 1\<rparr>"

record circuit_breaker =
  cfg :: circuit_breaker_config
  state :: state
  failureCount :: int
  successCount :: int
  halfOpenCount :: int
  lastFailure :: int
  openUntil :: int

definition NewCircuitBreaker :: "circuit_breaker_config \<Rightarrow> circuit_breaker" where
  "NewCircuitBreaker c = \<lparr>cfg = c, state = StateClosed, failureCount = 0, successCount = 0,
     halfOpenCount = 0, lastFailure = 0, openUntil = 0\<rparr>"

definition reset :: "circuit_breaker \<Rightarrow> circuit_breaker" where
  "reset cb = cb\<lparr>state := StateClosed, failureCount := 0, successCount := 0,
     halfOpenCount := 0, lastFailure := 0, openUntil := 0\<rparr>"

definition allowRequest :: "int \<Rightarrow> circuit_breaker \<Rightarrow> bool \<times> circuit_breaker" where
  "allowRequest now cb =
     (case state cb of
        StateClosed \<Rightarrow> (True, cb)
      | StateHalfOpen \<Rightarrow>
          if halfOpenCount cb \<ge> HalfOpenMaxAttempts (cfg cb) then (False, cb)
          else (True, cb\<lparr>halfOpenCount := halfOpenCount cb + 1\<rparr>)
      | StateOpen \<Rightarrow>
          if openUntil cb < now
          then (True, cb\<lparr>state := StateHalfOpen, halfOpenCount := 0, successCount := 0\<rparr>)
          else (False, cb))"

definition recordResult :: "int \<Rightarrow> go_error option \<Rightarrow> circuit_breaker \<Rightarrow> circuit_breaker" where
  "recordResult now err cb =
     (case state cb of
        StateClosed \<Rightarrow>
          if err \<noteq> None \<and> TransientError err then
            (let cb = cb\<lparr>failureCount := failureCount cb + 1, lastFailure := now\<rparr> in
             if failureCount cb \<ge> FailureThreshold (cfg cb)
             then cb\<lparr>state := StateOpen, openUntil := now + OpenTimeout (cfg cb)\<rparr>
             else cb)
          else cb\<lparr>failureCount := 0, successCount := successCount cb + 1\<rparr>
      | StateHalfOpen \<Rightarrow>
          if err \<noteq> None \<and> TransientError err then
            cb\<lparr>state := StateOpen, openUntil := now + OpenTimeout (cfg cb),
               failureCount := failureCount cb + 1, lastFailure := now\<rparr>
          else
            (let cb = cb\<lparr>successCount := successCount cb + 1\<rparr> in
             if successCount cb \<ge> SuccessThreshold (cfg cb)
             then cb\<lparr>state := StateClosed, failureCount := 0, successCount := 0\<rparr>
             else cb)
      | StateOpen \<Rightarrow> cb)"

text \<open>
  \<open>Execute\<close> (and \<open>ExecuteWithResult\<close>, whose result is the type variable): the returned value is
  \<open>None\<close> when the function was not called and the caller got the error \<open>circuit breaker is open\<close>.
\<close>

definition ExecuteWithResult ::
  "int \<Rightarrow> 'a \<times> go_error option \<Rightarrow> int \<Rightarrow> circuit_breaker \<Rightarrow> ('a \<times> go_error option) option \<times> circuit_breaker" where
  "ExecuteWithResult now fn now' cb =
     (let (allowed, cb) = allowRequest now cb in
      if \<not> allowed then (None, cb) else (Some fn, recordResult now' (snd fn) cb))"

definition Execute :: "int \<Rightarrow> go_error option \<Rightarrow> int \<Rightarrow> circuit_breaker \<Rightarrow> go_error option option \<times> circuit_breaker" where
  "Execute now fn now' cb =
     (let (allowed, cb) = allowRequest now cb in
      if \<not> allowed then (None, cb) else (Some fn, recordResult now' fn cb))"

definition Stats :: "circuit_breaker \<Rightarrow> int \<times> int \<times> int" where
  "Stats cb = (failureCount cb, successCount cb, lastFailure cb)"

section \<open>The manager\<close>

text \<open>
  The breakers live on a heap, a pointer is an index of it, and the map of the manager goes from
  names to pointers: \<open>GetOrCreate\<close> returns the same breaker to every caller of one name.
\<close>

record circuit_breaker_manager =
  breakers :: "(string \<times> nat) list"
  heap :: "circuit_breaker list"

definition NewCircuitBreakerManager :: circuit_breaker_manager where
  "NewCircuitBreakerManager = \<lparr>breakers = [], heap = []\<rparr>"

definition GetOrCreate :: "string \<Rightarrow> circuit_breaker_config \<Rightarrow> circuit_breaker_manager \<Rightarrow> nat \<times> circuit_breaker_manager" where
  "GetOrCreate name c m =
     (case map_of (breakers m) name of
        Some breaker \<Rightarrow> (breaker, m)
      | None \<Rightarrow>
          (let breaker = length (heap m) in
           (breaker, m\<lparr>breakers := AList.update name breaker (breakers m),
                       heap := heap m @ [NewCircuitBreaker (c\<lparr>Name := name\<rparr>)]\<rparr>)))"

definition Get :: "string \<Rightarrow> circuit_breaker_manager \<Rightarrow> nat option" where
  "Get name m = map_of (breakers m) name"

definition ResetAll :: "circuit_breaker_manager \<Rightarrow> circuit_breaker_manager" where
  "ResetAll m = m\<lparr>heap := fold (\<lambda>(name, breaker) h. h[breaker := reset (h ! breaker)]) (breakers m) (heap m)\<rparr>"

section \<open>Steps and the invariant\<close>

datatype cb_event = Allow int bool | Record int "go_error option" | Reset

inductive cb_step :: "circuit_breaker \<Rightarrow> cb_event \<Rightarrow> circuit_breaker \<Rightarrow> bool" where
  step_allow: "allowRequest now cb = (ok, cb') \<Longrightarrow> cb_step cb (Allow now ok) cb'"
| step_record: "cb_step cb (Record now err) (recordResult now err cb)"
| step_reset: "cb_step cb Reset (reset cb)"

code_pred (modes: i \<Rightarrow> i \<Rightarrow> o \<Rightarrow> bool) cb_step .

inductive_cases cb_step_cases: "cb_step cb ev cb'"

inductive cb_reachable :: "circuit_breaker_config \<Rightarrow> circuit_breaker \<Rightarrow> bool" for c where
  cb_init: "cb_reachable c (NewCircuitBreaker c)"
| cb_next: "cb_reachable c cb \<Longrightarrow> cb_step cb ev cb' \<Longrightarrow> cb_reachable c cb'"

text \<open>The thresholds the three shipped configurations satisfy.\<close>

definition config_ok :: "circuit_breaker_config \<Rightarrow> bool" where
  "config_ok c = (1 \<le> FailureThreshold c \<and> 1 \<le> SuccessThreshold c \<and> 0 \<le> HalfOpenMaxAttempts c)"

definition cb_inv :: "circuit_breaker_config \<Rightarrow> circuit_breaker \<Rightarrow> bool" where
  "cb_inv c cb =
     (cfg cb = c \<and> 0 \<le> failureCount cb \<and> 0 \<le> successCount cb \<and>
      0 \<le> halfOpenCount cb \<and> halfOpenCount cb \<le> HalfOpenMaxAttempts c \<and>
      (state cb = StateClosed \<longrightarrow> failureCount cb < FailureThreshold c) \<and>
      (state cb = StateHalfOpen \<longrightarrow> successCount cb < SuccessThreshold c))"

lemma cb_inv_init: "config_ok c \<Longrightarrow> cb_inv c (NewCircuitBreaker c)"
  by (simp add: cb_inv_def config_ok_def NewCircuitBreaker_def)

lemma cb_inv_reset: "config_ok c \<Longrightarrow> cb_inv c cb \<Longrightarrow> cb_inv c (reset cb)"
  by (simp add: cb_inv_def config_ok_def reset_def)

lemma cb_inv_allow: "config_ok c \<Longrightarrow> cb_inv c cb \<Longrightarrow> cb_inv c (snd (allowRequest now cb))"
  by (auto simp: cb_inv_def config_ok_def allowRequest_def split: state.splits)

lemma cb_inv_record: "config_ok c \<Longrightarrow> cb_inv c cb \<Longrightarrow> cb_inv c (recordResult now err cb)"
  by (auto simp: cb_inv_def config_ok_def recordResult_def Let_def split: state.splits)

lemma cb_inv_step: "config_ok c \<Longrightarrow> cb_inv c cb \<Longrightarrow> cb_step cb ev cb' \<Longrightarrow> cb_inv c cb'"
  by (elim cb_step_cases) (metis cb_inv_allow snd_conv, auto intro: cb_inv_record cb_inv_reset)

section \<open>Sequential use\<close>

fun executes :: "(int \<times> go_error option \<times> int) list \<Rightarrow> circuit_breaker \<Rightarrow> circuit_breaker" where
  "executes [] cb = cb"
| "executes ((now, err, now') # es) cb = executes es (snd (Execute now err now' cb))"

lemma executes_append [simp]: "executes (xs @ ys) cb = executes ys (executes xs cb)"
  by (induction xs arbitrary: cb) auto

text \<open>An open breaker that admits too few probes.\<close>

definition starved :: "circuit_breaker \<Rightarrow> bool" where
  "starved cb =
     (0 \<le> HalfOpenMaxAttempts (cfg cb) \<and> HalfOpenMaxAttempts (cfg cb) + 1 < SuccessThreshold (cfg cb) \<and>
      (state cb = StateOpen \<or>
       state cb = StateHalfOpen \<and> 0 \<le> halfOpenCount cb \<and> halfOpenCount cb \<le> HalfOpenMaxAttempts (cfg cb) \<and>
         successCount cb \<le> halfOpenCount cb + 1))"

lemma starved_execute: "starved cb \<Longrightarrow> starved (snd (Execute now err now' cb))"
  by (auto simp: starved_def Execute_def allowRequest_def recordResult_def Let_def split: state.splits)

lemma starved_executes: "starved cb \<Longrightarrow> starved (executes es cb)"
  by (induction es cb rule: executes.induct) (simp_all add: starved_execute)

definition transient :: "go_error option \<Rightarrow> bool" where
  "transient err = (err \<noteq> None \<and> TransientError err)"

lemma closed_failures:
  assumes "state cb = StateClosed" "failureCount cb + int (length es) < FailureThreshold (cfg cb)"
    and "\<forall>(now, err, now') \<in> set es. transient err"
  shows "state (executes es cb) = StateClosed \<and> cfg (executes es cb) = cfg cb \<and>
    failureCount (executes es cb) = failureCount cb + int (length es)"
  using assms
proof (induction es cb rule: executes.induct)
  case (1 cb)
  then show ?case by simp
next
  case (2 now err now' es cb)
  have "state (snd (Execute now err now' cb)) = StateClosed \<and>
      cfg (snd (Execute now err now' cb)) = cfg cb \<and>
      failureCount (snd (Execute now err now' cb)) = failureCount cb + 1"
    using "2.prems" by (auto simp: Execute_def allowRequest_def recordResult_def transient_def)
  with 2 show ?case by auto
qed

lemma half_open_successes:
  assumes "state cb = StateHalfOpen" "successCount cb + int (length es) < SuccessThreshold (cfg cb)"
    and "halfOpenCount cb + int (length es) \<le> HalfOpenMaxAttempts (cfg cb)"
    and "\<forall>(now, err, now') \<in> set es. \<not> transient err"
  shows "state (executes es cb) = StateHalfOpen \<and> cfg (executes es cb) = cfg cb \<and>
    successCount (executes es cb) = successCount cb + int (length es) \<and>
    halfOpenCount (executes es cb) = halfOpenCount cb + int (length es)"
  using assms
proof (induction es cb rule: executes.induct)
  case (1 cb)
  then show ?case by simp
next
  case (2 now err now' es cb)
  have "state (snd (Execute now err now' cb)) = StateHalfOpen \<and>
      cfg (snd (Execute now err now' cb)) = cfg cb \<and>
      successCount (snd (Execute now err now' cb)) = successCount cb + 1 \<and>
      halfOpenCount (snd (Execute now err now' cb)) = halfOpenCount cb + 1"
    using "2.prems" by (auto simp: Execute_def allowRequest_def recordResult_def transient_def Let_def)
  with 2 show ?case by auto
qed

section \<open>Probes admitted while half-open\<close>

fun allows_run :: "int list \<Rightarrow> circuit_breaker \<Rightarrow> bool list" where
  "allows_run [] cb = []"
| "allows_run (now # ts) cb = (let (ok, cb) = allowRequest now cb in ok # allows_run ts cb)"

lemma half_open_allows:
  assumes "state cb = StateHalfOpen" "halfOpenCount cb \<le> HalfOpenMaxAttempts (cfg cb)"
  shows "length (filter id (allows_run ts cb)) = min (length ts) (nat (HalfOpenMaxAttempts (cfg cb) - halfOpenCount cb))"
  using assms
proof (induction ts cb rule: allows_run.induct)
  case (1 cb)
  then show ?case by simp
next
  case (2 now ts cb)
  show ?case
  proof (cases "halfOpenCount cb < HalfOpenMaxAttempts (cfg cb)")
    case True
    let ?cb = "cb\<lparr>halfOpenCount := halfOpenCount cb + 1\<rparr>"
    have a: "allowRequest now cb = (True, ?cb)" using 2(2) True by (simp add: allowRequest_def)
    have "length (filter id (allows_run ts ?cb)) =
        min (length ts) (nat (HalfOpenMaxAttempts (cfg ?cb) - halfOpenCount ?cb))"
      using 2(2) True by (intro "2.IH" [OF a [symmetric] refl]) simp_all
    moreover have "nat (HalfOpenMaxAttempts (cfg cb) - halfOpenCount cb) =
        Suc (nat (HalfOpenMaxAttempts (cfg cb) - (halfOpenCount cb + 1)))"
      using True by simp
    ultimately show ?thesis by (simp add: a id_def)
  next
    case False
    then have a: "allowRequest now cb = (False, cb)" using 2(2) by (simp add: allowRequest_def)
    from "2.IH" [OF a [symmetric] refl 2(2,3)] False show ?thesis by (simp add: a)
  qed
qed

section \<open>The manager's pointers\<close>

definition manager_ok :: "circuit_breaker_manager \<Rightarrow> bool" where
  "manager_ok m =
     (distinct (map fst (breakers m)) \<and> distinct (map snd (breakers m)) \<and>
      (\<forall>(name, b) \<in> set (breakers m). b < length (heap m) \<and> Name (cfg (heap m ! b)) = name))"

lemma manager_ok_new: "manager_ok NewCircuitBreakerManager"
  by (simp add: manager_ok_def NewCircuitBreakerManager_def)

lemma update_fresh: "map_of xs k = None \<Longrightarrow> AList.update k v xs = xs @ [(k, v)]"
  by (induction xs) (auto split: if_splits)

lemma manager_ok_get_or_create:
  assumes "manager_ok m"
  shows "manager_ok (snd (GetOrCreate name c m))"
proof (cases "map_of (breakers m) name")
  case None
  then have "name \<notin> fst ` set (breakers m)" by (simp add: map_of_eq_None_iff)
  moreover have "length (heap m) \<notin> snd ` set (breakers m)"
    using assms by (fastforce simp: manager_ok_def)
  ultimately show ?thesis
    using assms None by (auto simp: manager_ok_def GetOrCreate_def update_fresh NewCircuitBreaker_def nth_append Let_def)
next
  case (Some b)
  with assms show ?thesis by (simp add: GetOrCreate_def)
qed

lemma fold_reset:
  assumes "distinct (map snd bs)" "\<forall>(name, b) \<in> set bs. b < length h"
  shows "length (fold (\<lambda>(name, b) h. h[b := reset (h ! b)]) bs h) = length h \<and>
    (\<forall>i < length h. fold (\<lambda>(name, b) h. h[b := reset (h ! b)]) bs h ! i =
       (if i \<in> snd ` set bs then reset (h ! i) else h ! i))"
  using assms
proof (induction bs arbitrary: h)
  case Nil
  then show ?case by simp
next
  case (Cons x bs)
  obtain name b where x: "x = (name, b)" by fastforce
  let ?h = "h[b := reset (h ! b)]"
  have "length (fold (\<lambda>(name, b) h. h[b := reset (h ! b)]) bs ?h) = length ?h \<and>
    (\<forall>i < length ?h. fold (\<lambda>(name, b) h. h[b := reset (h ! b)]) bs ?h ! i =
       (if i \<in> snd ` set bs then reset (?h ! i) else ?h ! i))"
    using Cons.prems by (intro Cons.IH) auto
  moreover have "b \<notin> snd ` set bs" "b < length h" using Cons.prems by (auto simp: x)
  ultimately show ?case by (auto simp: x nth_list_update)
qed

section \<open>Properties\<close>

text \<open>in every interleaving of callers of a breaker with sensible thresholds, a closed breaker has
  counted fewer failures than the threshold, a half-open one fewer successes than it needs to close, and
  the probe counter never passes its limit.\<close>

theorem cb_invariant:
  assumes "config_ok c" "cb_reachable c cb"
  shows "cfg cb = c \<and>
    (state cb = StateClosed \<longrightarrow> 0 \<le> failureCount cb \<and> failureCount cb < FailureThreshold c) \<and>
    (state cb = StateHalfOpen \<longrightarrow> 0 \<le> successCount cb \<and> successCount cb < SuccessThreshold c) \<and>
    0 \<le> halfOpenCount cb \<and> halfOpenCount cb \<le> HalfOpenMaxAttempts c"
proof -
  from assms(2) have "cb_inv c cb"
    by (induction rule: cb_reachable.induct) (auto intro: cb_inv_init cb_inv_step assms(1))
  then show ?thesis by (simp add: cb_inv_def)
qed

theorem cb_invariant_witness:
  "0 \<le> halfOpenCount (NewCircuitBreaker HTTPCircuitBreakerConfig)"
  using cb_invariant [of HTTPCircuitBreakerConfig, OF _ cb_init]
  by (simp add: config_ok_def HTTPCircuitBreakerConfig_def)



text \<open>from a closed breaker without counted failures, exactly \<open>FailureThreshold\<close> consecutive
  transient failures open it, until \<open>OpenTimeout\<close> after the last one; fewer leave it closed.\<close>

theorem opens_at_threshold:
  assumes "state cb = StateClosed" "failureCount cb = 0" "1 \<le> FailureThreshold (cfg cb)"
    and "\<forall>(now, err, now') \<in> set es. transient err" "transient err"
  shows "(int (length es) < FailureThreshold (cfg cb) \<longrightarrow> state (executes es cb) = StateClosed) \<and>
    (int (length es) + 1 = FailureThreshold (cfg cb) \<longrightarrow>
      state (executes (es @ [(now, err, now')]) cb) = StateOpen \<and>
      openUntil (executes (es @ [(now, err, now')]) cb) = now' + OpenTimeout (cfg cb))"
  using closed_failures [of cb es] assms
  by (auto simp: Execute_def allowRequest_def recordResult_def transient_def Let_def)

definition timeout_error :: go_error where
  "timeout_error = \<lparr>err_text = ''timeout'', err_canceled = False, err_deadline = False\<rparr>"

lemma transient_timeout: "transient (Some timeout_error)"
  by (simp add: transient_def timeout_error_def str_contains_iff)

theorem opens_at_threshold_witness:
  "state (executes [(1, Some timeout_error, 2), (3, Some timeout_error, 4), (5, Some timeout_error, 6)]
     (NewCircuitBreaker HTTPCircuitBreakerConfig)) = StateOpen"
  using opens_at_threshold [of "NewCircuitBreaker HTTPCircuitBreakerConfig"
    "[(1, Some timeout_error, 2), (3, Some timeout_error, 4)]" "Some timeout_error" 5 6] transient_timeout
  by (simp add: NewCircuitBreaker_def HTTPCircuitBreakerConfig_def del: executes.simps)

text \<open>C39: a breaker whose \<open>SuccessThreshold\<close> is at most \<open>HalfOpenMaxAttempts + 1\<close> recovers: once the
  open timeout has passed, \<open>SuccessThreshold\<close> consecutive calls that do not fail transiently close it.\<close>

theorem recovers:
  assumes "state cb = StateOpen" "openUntil cb < now"
    and "1 \<le> SuccessThreshold (cfg cb)" "SuccessThreshold (cfg cb) \<le> HalfOpenMaxAttempts (cfg cb) + 1"
    and "\<forall>(now, err, now') \<in> set ((now, err, now') # es). \<not> transient err"
    and "int (length es) + 1 = SuccessThreshold (cfg cb)"
  shows "state (executes ((now, err, now') # es) cb) = StateClosed"
proof (cases es rule: rev_cases)
  case Nil
  with assms show ?thesis
    by (simp add: Execute_def allowRequest_def recordResult_def transient_def Let_def)
next
  case (snoc xs x)
  let ?cb = "snd (Execute now err now' cb)"
  have cb: "state ?cb = StateHalfOpen \<and> cfg ?cb = cfg cb \<and> successCount ?cb = 1 \<and> halfOpenCount ?cb = 0"
    using assms snoc by (auto simp: Execute_def allowRequest_def recordResult_def transient_def Let_def)
  have "state (executes xs ?cb) = StateHalfOpen \<and> cfg (executes xs ?cb) = cfg ?cb \<and>
    successCount (executes xs ?cb) = successCount ?cb + int (length xs) \<and>
    halfOpenCount (executes xs ?cb) = halfOpenCount ?cb + int (length xs)"
    using cb assms snoc by (intro half_open_successes) auto
  moreover obtain t e t' where "x = (t, e, t')" by (cases x)
  ultimately show ?thesis
    using cb assms(3-) snoc
    by (auto simp: Execute_def allowRequest_def recordResult_def transient_def Let_def)
qed

theorem recovers_witness:
  "state (executes [(10, None, 11), (12, None, 13)]
     (NewCircuitBreaker DefaultCircuitBreakerConfig\<lparr>state := StateOpen, openUntil := 9\<rparr>)) = StateClosed"
  using recovers [of "NewCircuitBreaker DefaultCircuitBreakerConfig\<lparr>state := StateOpen, openUntil := 9\<rparr>" 10 None 11
    "[(12, None, 13)]"]
  by (simp add: NewCircuitBreaker_def DefaultCircuitBreakerConfig_def transient_def del: executes.simps)



text \<open>after the open timeout, concurrent callers are admitted as probes exactly
  \<open>HalfOpenMaxAttempts + 1\<close> times before a result is recorded: the request that moves the breaker to
  half-open is not counted.\<close>

theorem half_open_admits_one_more:
  assumes "state cb = StateOpen" "openUntil cb < now" "0 \<le> HalfOpenMaxAttempts (cfg cb)"
  shows "length (filter id (allows_run (now # ts) cb)) =
    1 + min (length ts) (nat (HalfOpenMaxAttempts (cfg cb)))"
  using assms half_open_allows [of "cb\<lparr>state := StateHalfOpen, halfOpenCount := 0, successCount := 0\<rparr>" ts]
  by (simp add: allowRequest_def Let_def)

theorem half_open_admits_one_more_witness:
  "length (filter id (allows_run [10, 10, 10]
     (NewCircuitBreaker DefaultCircuitBreakerConfig\<lparr>state := StateOpen, openUntil := 9\<rparr>))) = 2"
  using half_open_admits_one_more
    [of "NewCircuitBreaker DefaultCircuitBreakerConfig\<lparr>state := StateOpen, openUntil := 9\<rparr>" 10 "[10, 10]"]
  by (simp add: NewCircuitBreaker_def DefaultCircuitBreakerConfig_def del: allows_run.simps)

text \<open>the manager hands every caller of a name the same breaker, never shares one between two
  names, and \<open>ResetAll\<close> resets every breaker it has handed out.\<close>

theorem manager_one_breaker_per_name:
  assumes "manager_ok m" "GetOrCreate name c m = (b, m')"
  shows "manager_ok m' \<and> Get name m' = Some b \<and> GetOrCreate name c' m' = (b, m') \<and>
    (\<forall>other. other \<noteq> name \<longrightarrow> Get other m' = Get other m \<and> Get other m' \<noteq> Some b) \<and>
    heap (ResetAll m') ! b = reset (heap m' ! b)"
proof -
  have ok: "manager_ok m'" using manager_ok_get_or_create [OF assms(1), of name c] assms(2) by simp
  have g: "Get name m' = Some b" "\<And>other. other \<noteq> name \<Longrightarrow> Get other m' = Get other m"
    using assms(2) by (auto simp: GetOrCreate_def Get_def Let_def map_of_append update_fresh map_add_def
      split: option.splits)
  then have in_m: "(name, b) \<in> set (breakers m')" by (simp add: Get_def map_of_SomeD)
  have "Get other m' \<noteq> Some b" if "other \<noteq> name" for other
  proof
    assume "Get other m' = Some b"
    then have "(other, b) \<in> set (breakers m')" by (simp add: Get_def map_of_SomeD)
    with in_m have "(other, b) = (name, b)"
      using ok unfolding manager_ok_def distinct_map inj_on_def by (metis snd_conv)
    with that show False by simp
  qed
  moreover have "heap (ResetAll m') ! b = reset (heap m' ! b)"
    using fold_reset [of "breakers m'" "heap m'"] ok in_m
    by (force simp: manager_ok_def ResetAll_def)
  moreover have "GetOrCreate name c' m' = (b, m')" using g(1) by (simp add: GetOrCreate_def Get_def)
  ultimately show ?thesis using ok g by blast
qed

theorem manager_one_breaker_per_name_witness:
  "Get ''db'' (snd (GetOrCreate ''db'' HTTPCircuitBreakerConfig NewCircuitBreakerManager)) = Some 0"
  using manager_one_breaker_per_name [OF manager_ok_new, of "''db''" HTTPCircuitBreakerConfig 0]
  by (simp add: GetOrCreate_def NewCircuitBreakerManager_def)

end
