(* ===== verification/Netip_Text.thy ===== *)
theory Netip_Text
  imports Netip "HOL-Library.Sublist" "HOL-Library.Char_ord" "HOL-Library.List_Lexorder"
begin

text \<open>
  The text forms of \<open>net/netip\<close>: \<open>Addr.String\<close>, \<open>Prefix.String\<close>, \<open>ParseAddr\<close> and \<open>ParsePrefix\<close>, and
  \<open>strings.TrimSpace\<close>. A string is the list of its bytes. Printing and parsing are inverse, so the
  program may key its maps by printed prefixes.
\<close>

section \<open>Numbers\<close>

definition digit_char :: "nat \<Rightarrow> char" where
  "digit_char d = (if d < 10 then char_of (48 + d) else char_of (87 + d))"

definition dec_val :: "char \<Rightarrow> nat option" where
  "dec_val c = (let n = of_char c in if 48 \<le> n \<and> n \<le> 57 then Some (n - 48) else None)"

definition hex_val :: "char \<Rightarrow> nat option" where
  "hex_val c =
     (let n = of_char c in
      if 48 \<le> n \<and> n \<le> 57 then Some (n - 48)
      else if 97 \<le> n \<and> n \<le> 102 then Some (n - 87)
      else if 65 \<le> n \<and> n \<le> 70 then Some (n - 55) else None)"

fun dec_string :: "nat \<Rightarrow> string" where
  "dec_string n = (if n < 10 then [digit_char n] else dec_string (n div 10) @ [digit_char (n mod 10)])"

fun hex_string :: "nat \<Rightarrow> string" where
  "hex_string n = (if n < 16 then [digit_char n] else hex_string (n div 16) @ [digit_char (n mod 16)])"

declare dec_string.simps [simp del] hex_string.simps [simp del]

definition int_string :: "int \<Rightarrow> string" where
  "int_string i = (if i < 0 then CHR ''-'' # dec_string (nat (- i)) else dec_string (nat i))"

section \<open>Printing\<close>

definition string4 :: "nat \<Rightarrow> string" where
  "string4 v = dec_string (v div 2 ^ 24) @ ''.'' @ dec_string (v div 2 ^ 16 mod 256) @ ''.'' @
     dec_string (v div 2 ^ 8 mod 256) @ ''.'' @ dec_string (v mod 256)"

definition v6_groups :: "nat \<Rightarrow> nat list" where
  "v6_groups v = map (\<lambda>j. v div 2 ^ (16 * (7 - j)) mod 65536) [0..<8]"

definition zero_end :: "nat list \<Rightarrow> nat \<Rightarrow> nat" where
  "zero_end gs i = i + length (takeWhile (\<lambda>g. g = 0) (drop i gs))"

definition zero_run :: "nat list \<Rightarrow> nat \<times> nat" where
  "zero_run gs =
     fold (\<lambda>i (zs, ze). let j = zero_end gs i in if 2 \<le> j - i \<and> ze - zs < j - i then (i, j) else (zs, ze)) [0..<8] (255, 255)"

function groups_from :: "nat list \<Rightarrow> nat \<Rightarrow> nat \<Rightarrow> nat \<Rightarrow> string" where
  "groups_from gs zs ze i =
     (if i < 8 then
        if i = zs then ''::'' @ (if 8 \<le> ze then [] else hex_string (gs ! ze) @ groups_from gs zs ze (Suc (max i ze)))
        else (if 0 < i then '':'' else []) @ hex_string (gs ! i) @ groups_from gs zs ze (Suc i)
      else [])"
  by pat_completeness auto
termination
  by (relation "measure (\<lambda>(gs, zs, ze, i). 8 - i)") auto

declare groups_from.simps [simp del]

definition string6 :: "nat \<Rightarrow> string" where
  "string6 v = (let gs = v6_groups v; (zs, ze) = zero_run gs in groups_from gs zs ze 0)"

definition is4in6 :: "addr \<Rightarrow> bool" where
  "is4in6 a = (a_fam a = IPv6 \<and> a_val a div 2 ^ 32 = 0xFFFF)"

definition addr_string :: "addr \<Rightarrow> string" where
  "addr_string a =
     (if a_fam a = IPv4 then string4 (a_val a)
      else if is4in6 a then ''::ffff:'' @ string4 (a_val a mod 2 ^ 32)
      else string6 (a_val a))"

definition prefix_string :: "prefix \<Rightarrow> string" where
  "prefix_string p =
     (if prefix_is_valid p then addr_string (p_addr p) @ ''/'' @ dec_string (p_bits p) else ''invalid Prefix'')"

section \<open>Parsing\<close>

text \<open>\<open>parseIPv4Fields\<close>; \<open>sep\<close> tells that the position is the first or follows a dot.\<close>

fun parse4_loop :: "string \<Rightarrow> nat \<Rightarrow> nat \<Rightarrow> nat list \<Rightarrow> bool \<Rightarrow> nat list option" where
  "parse4_loop [] v d fs sep = (if length fs < 3 then None else Some (fs @ [v]))"
| "parse4_loop (c # cs) v d fs sep =
     (case dec_val c of
        Some k \<Rightarrow>
          if d = 1 \<and> v = 0 then None
          else if 255 < v * 10 + k then None else parse4_loop cs (v * 10 + k) (d + 1) fs False
      | None \<Rightarrow>
          if c = CHR ''.'' then
            (if sep \<or> cs = [] then None else if length fs = 3 then None else parse4_loop cs 0 0 (fs @ [v]) True)
          else None)"

definition parse4_fields :: "string \<Rightarrow> nat list option" where
  "parse4_fields s = parse4_loop s 0 0 [] True"

definition from_bytes :: "nat list \<Rightarrow> nat" where
  "from_bytes bs = foldl (\<lambda>v b. v * 256 + b) 0 bs"

definition parse4 :: "string \<Rightarrow> addr option" where
  "parse4 s = map_option (\<lambda>fs. Addr IPv4 (from_bytes fs)) (parse4_fields s)"

text \<open>The hex digits of one group: their value, their number and what follows them.\<close>

fun hex_run :: "string \<Rightarrow> nat \<Rightarrow> nat \<Rightarrow> (nat \<times> nat \<times> string) option" where
  "hex_run [] off acc = Some (acc, off, [])"
| "hex_run (c # cs) off acc =
     (case hex_val c of
        None \<Rightarrow> Some (acc, off, c # cs)
      | Some k \<Rightarrow>
          if 3 < off then None else if 65535 < acc * 16 + k then None else hex_run cs (off + 1) (acc * 16 + k))"

text \<open>The main loop of \<open>parseIPv6\<close>: the bytes so far, the position of the ellipsis, the rest of the string.\<close>

function parse6_loop :: "string \<Rightarrow> nat list \<Rightarrow> nat option \<Rightarrow> (nat list \<times> nat option \<times> string) option" where
  "parse6_loop s ip ell =
     (if length ip < 16 then
        (case hex_run s 0 0 of
           None \<Rightarrow> None
         | Some (acc, off, rest) \<Rightarrow>
             if off = 0 then None
             else if rest \<noteq> [] \<and> hd rest = CHR ''.'' then
               (if ell = None \<and> length ip \<noteq> 12 then None
                else if 16 < length ip + 4 then None
                else (case parse4_fields s of None \<Rightarrow> None | Some fs \<Rightarrow> Some (ip @ fs, ell, [])))
             else
               (let ip = ip @ [acc div 256, acc mod 256] in
                if rest = [] then Some (ip, ell, [])
                else if hd rest \<noteq> CHR '':'' then None
                else if tl rest = [] then None
                else
                  (let s = tl rest in
                   if hd s = CHR '':'' then
                     (if ell \<noteq> None then None
                      else if tl s = [] then Some (ip, Some (length ip), [])
                      else parse6_loop (tl s) ip (Some (length ip)))
                   else parse6_loop s ip ell)))
      else Some (ip, ell, s))"
  by pat_completeness auto
termination
  by (relation "measure (\<lambda>(s, ip, ell). 16 - length ip)") auto

declare parse6_loop.simps [simp del]

definition expand6 :: "nat list \<times> nat option \<times> string \<Rightarrow> addr option" where
  "expand6 r =
     (case r of (ip, ell, rest) \<Rightarrow>
        if rest \<noteq> [] then None
        else if length ip < 16 then
          (case ell of
             None \<Rightarrow> None
           | Some e \<Rightarrow> Some (Addr IPv6 (from_bytes (take e ip @ replicate (16 - length ip) 0 @ drop e ip))))
        else if ell \<noteq> None then None else Some (Addr IPv6 (from_bytes ip)))"

text \<open>An address with its zone, which is empty for every IPv4 address.\<close>

definition parse6 :: "string \<Rightarrow> (addr \<times> string) option" where
  "parse6 s0 =
     (let s = takeWhile (\<lambda>c. c \<noteq> CHR ''%'') s0; z = dropWhile (\<lambda>c. c \<noteq> CHR ''%'') s0; zone = tl z in
      if z \<noteq> [] \<and> zone = [] then None
      else
        map_option (\<lambda>a. (a, zone))
          (if prefix ''::'' s then
             (if drop 2 s = [] then Some (Addr IPv6 0)
              else Option.bind (parse6_loop (drop 2 s) [] (Some 0)) expand6)
           else Option.bind (parse6_loop s [] None) expand6))"

definition parse_addr_zone :: "string \<Rightarrow> (addr \<times> string) option" where
  "parse_addr_zone s =
     (case find (\<lambda>c. c \<in> {CHR ''.'', CHR '':'', CHR ''%''}) s of
        None \<Rightarrow> None
      | Some c \<Rightarrow>
          if c = CHR ''.'' then map_option (\<lambda>a. (a, [])) (parse4 s)
          else if c = CHR '':'' then parse6 s else None)"

text \<open>\<open>ParseAddr\<close> for the callers whose input has no zone.\<close>

definition parse_addr :: "string \<Rightarrow> addr option" where
  "parse_addr s = (case parse_addr_zone s of Some (a, []) \<Rightarrow> Some a | _ \<Rightarrow> None)"

definition parse_bits :: "string \<Rightarrow> nat option" where
  "parse_bits s =
     (if s = [] \<or> (1 < length s \<and> (hd s = CHR ''0'' \<or> dec_val (hd s) = None)) then None
      else if list_all (\<lambda>c. dec_val c \<noteq> None) s then Some (foldl (\<lambda>n c. n * 10 + the (dec_val c)) 0 s) else None)"

definition parse_prefix :: "string \<Rightarrow> prefix option" where
  "parse_prefix s =
     (if CHR ''/'' \<notin> set s then None
      else
        (let bs = rev (takeWhile (\<lambda>c. c \<noteq> CHR ''/'') (rev s)); a = take (length s - length bs - 1) s in
         case parse_addr a of
           None \<Rightarrow> None
         | Some ip \<Rightarrow>
             (case parse_bits bs of
                None \<Rightarrow> None
              | Some b \<Rightarrow> if addr_bitlen ip < b then None else Some (Prefix ip b))))"

text \<open>\<open>strings.TrimSpace\<close>: the bytes of the Unicode space characters.\<close>

definition spaces :: "nat list list" where
  "spaces = map (\<lambda>n. [n]) [9, 10, 11, 12, 13, 32] @ [[0xC2, 0x85], [0xC2, 0xA0], [0xE1, 0x9A, 0x80]] @
     map (\<lambda>n. [0xE2, 0x80, 0x80 + n]) [0..<11] @
     [[0xE2, 0x80, 0xA8], [0xE2, 0x80, 0xA9], [0xE2, 0x80, 0xAF], [0xE2, 0x81, 0x9F], [0xE3, 0x80, 0x80]]"

definition space_strings :: "string list" where
  "space_strings = map (map char_of) spaces"

function trim_front :: "string list \<Rightarrow> string \<Rightarrow> string" where
  "trim_front ws s =
     (case find (\<lambda>w. w \<noteq> [] \<and> prefix w s) ws of None \<Rightarrow> s | Some w \<Rightarrow> trim_front ws (drop (length w) s))"
  by pat_completeness auto
termination
  by (relation "measure (\<lambda>(ws, s). length s)") (auto simp: find_Some_iff prefix_def)

declare trim_front.simps [simp del]

definition trim_space :: "string \<Rightarrow> string" where
  "trim_space s = rev (trim_front (map rev space_strings) (rev (trim_front space_strings s)))"

section \<open>Reading digits back\<close>

lemma of_char_digit: "d < 16 \<Longrightarrow> (of_char (digit_char d) :: nat) = (if d < 10 then 48 + d else 87 + d)"
  by (simp add: digit_char_def)

lemma dec_val_digit [simp]: "d < 10 \<Longrightarrow> dec_val (digit_char d) = Some d"
  by (simp add: dec_val_def of_char_digit)

lemma hex_val_digit [simp]: "d < 16 \<Longrightarrow> hex_val (digit_char d) = Some d"
  by (simp add: hex_val_def of_char_digit)

lemma digit_char_zero [simp]: "digit_char 0 = CHR ''0''"
  by code_simp

lemma val_separators [simp]:
  "dec_val CHR ''.'' = None" "dec_val CHR '':'' = None" "dec_val CHR ''/'' = None"
  "hex_val CHR ''.'' = None" "hex_val CHR '':'' = None" "hex_val CHR ''/'' = None" "hex_val CHR ''%'' = None"
  by (simp_all add: dec_val_def hex_val_def)

lemma hex_val_char: "hex_val c \<noteq> None \<Longrightarrow> c \<notin> {CHR ''.'', CHR '':'', CHR ''%'', CHR ''/''}"
  by (auto simp: hex_val_def)

lemma digit_hex: "d < 16 \<Longrightarrow> digit_char d \<notin> {CHR ''.'', CHR '':'', CHR ''%'', CHR ''/''}"
  by (rule hex_val_char) simp

lemma dec_string_cases:
  "n < 10 \<Longrightarrow> dec_string n = [digit_char n]"
  "10 \<le> n \<Longrightarrow> n < 100 \<Longrightarrow> dec_string n = [digit_char (n div 10), digit_char (n mod 10)]"
  "100 \<le> n \<Longrightarrow> n < 1000 \<Longrightarrow>
     dec_string n = [digit_char (n div 100), digit_char (n div 10 mod 10), digit_char (n mod 10)]"
proof -
  show "n < 10 \<Longrightarrow> dec_string n = [digit_char n]"
    by (simp add: dec_string.simps)
  show "10 \<le> n \<Longrightarrow> n < 100 \<Longrightarrow> dec_string n = [digit_char (n div 10), digit_char (n mod 10)]"
    by (simp add: dec_string.simps [of n] dec_string.simps [of "n div 10"])
  assume "100 \<le> n" "n < 1000"
  then have "\<not> n div 10 < 10" "n div 10 div 10 < 10" "\<not> n < 10" by simp_all
  moreover have "n div 10 div 10 = n div 100" by simp
  ultimately show "dec_string n = [digit_char (n div 100), digit_char (n div 10 mod 10), digit_char (n mod 10)]"
    by (simp add: dec_string.simps [of n] dec_string.simps [of "n div 10"] dec_string.simps [of "n div 100"])
qed

lemma dec_string_split:
  assumes "n < 1000"
  obtains "n < 10" "dec_string n = [digit_char n]"
    | "10 \<le> n" "n < 100" "dec_string n = [digit_char (n div 10), digit_char (n mod 10)]"
    | "100 \<le> n" "dec_string n = [digit_char (n div 100), digit_char (n div 10 mod 10), digit_char (n mod 10)]"
  using dec_string_cases [of n] assms by (meson not_le_imp_less)

lemma parse4_dec:
  assumes "n < 256"
  shows "\<exists>d. 0 < d \<and> parse4_loop (dec_string n @ rest) 0 0 fs sep = parse4_loop rest n d fs False"
proof -
  have three: "n div 100 * 100 + n div 10 mod 10 * 10 + n mod 10 = n"
  proof -
    have "n div 10 div 10 * 10 + n div 10 mod 10 = n div 10" "n div 10 * 10 + n mod 10 = n" by simp_all
    moreover have "n div 10 div 10 = n div 100" by simp
    ultimately show ?thesis by linarith
  qed
  from assms have "n < 1000" by simp
  then show ?thesis
  proof (cases rule: dec_string_split)
    case 1
    then show ?thesis using assms by auto
  next
    case 2
    have "n div 10 * 10 + n mod 10 = n" by simp
    with 2 assms show ?thesis by (auto intro!: exI [of _ "Suc (Suc 0)"])
  next
    case 3
    have "n div 100 < 10" "n div 100 \<noteq> 0" using assms 3(1) by auto
    moreover have "(n div 100 * 10 + n div 10 mod 10) * 10 + n mod 10 = n" using three by (simp add: algebra_simps)
    moreover have "n div 100 * 10 + n div 10 mod 10 \<le> 255" using calculation assms by linarith
    ultimately show ?thesis using assms 3 by (auto intro!: exI [of _ "Suc (Suc (Suc 0))"])
  qed
qed

lemma dec_string_nonempty [simp]: "dec_string n \<noteq> []"
  by (subst dec_string.simps) simp

lemma hex_string_nonempty [simp]: "hex_string n \<noteq> []"
  by (subst hex_string.simps) simp

lemma dec_string_digits: "c \<in> set (dec_string n) \<Longrightarrow> \<exists>d < 10. c = digit_char d"
proof (induction n rule: dec_string.induct)
  case (1 n)
  then show ?case by (subst (asm) (2) dec_string.simps) (auto split: if_splits intro: exI [of _ "n mod 10"])
qed

lemma hex_string_digits: "c \<in> set (hex_string n) \<Longrightarrow> \<exists>d < 16. c = digit_char d"
proof (induction n rule: hex_string.induct)
  case (1 n)
  then show ?case by (subst (asm) (2) hex_string.simps) (auto split: if_splits intro: exI [of _ "n mod 16"])
qed

lemma dec_string_chars: "c \<in> set (dec_string n) \<Longrightarrow> hex_val c \<noteq> None"
  using dec_string_digits [of c n] by auto

lemma hex_string_chars: "c \<in> set (hex_string n) \<Longrightarrow> hex_val c \<noteq> None"
  using hex_string_digits [of c n] by auto

text \<open>The hex digits of a string are read to the first other character.\<close>

definition stops :: "string \<Rightarrow> bool" where
  "stops rest = (rest = [] \<or> hex_val (hd rest) = None)"

lemma hex_run_stop: "stops rest \<Longrightarrow> hex_run rest off acc = Some (acc, off, rest)"
  by (cases rest) (simp_all add: stops_def)

lemma hex_run_digits:
  "\<forall>c \<in> set cs. hex_val c \<noteq> None \<Longrightarrow> stops rest \<Longrightarrow> off + length cs \<le> 4 \<Longrightarrow> acc < 16 ^ off \<Longrightarrow>
     \<exists>acc'. hex_run (cs @ rest) off acc = Some (acc', off + length cs, rest)"
proof (induction cs arbitrary: off acc)
  case Nil
  then show ?case by (simp add: hex_run_stop)
next
  case (Cons c cs)
  then obtain k where k: "hex_val c = Some k" by auto
  then have "k < 16" by (auto simp: hex_val_def Let_def split: if_splits)
  with Cons.prems(4) have less: "acc * 16 + k < 16 ^ Suc off" by simp
  have "off < 4" using Cons.prems(3) by simp
  moreover have "(16::nat) ^ Suc off \<le> 16 ^ 4" using \<open>off < 4\<close> by (intro power_increasing) simp_all
  ultimately have "off \<le> 3" "acc * 16 + k \<le> 65535" using less by simp_all
  moreover have "\<exists>acc'. hex_run (cs @ rest) (off + 1) (acc * 16 + k) = Some (acc', off + 1 + length cs, rest)"
    using Cons.prems less by (intro Cons.IH) simp_all
  ultimately show ?case using k by simp
qed

lemma hex_string_length: "n < 65536 \<Longrightarrow> length (hex_string n) \<le> 4"
proof -
  assume "n < 65536"
  then have "n div 16 div 16 div 16 < 16" by simp
  then show ?thesis
    by (simp add: hex_string.simps [of n] hex_string.simps [of "n div 16"] hex_string.simps [of "n div 16 div 16"]
        hex_string.simps [of "n div 16 div 16 div 16"] del: div_mult2_eq)
qed

lemma hex_run_value:
  "n < 65536 \<Longrightarrow> hex_run (hex_string n @ rest) 0 0 = hex_run rest (length (hex_string n)) n"
proof (induction n arbitrary: rest rule: hex_string.induct)
  case (1 n)
  show ?case
  proof (cases "n < 16")
    case True
    then show ?thesis by (simp add: hex_string.simps)
  next
    case False
    have split: "hex_string n = hex_string (n div 16) @ [digit_char (n mod 16)]"
      using False by (subst hex_string.simps) simp
    have "length (hex_string n) \<le> 4" using "1.prems" by (rule hex_string_length)
    then have len: "length (hex_string (n div 16)) \<le> 3" by (simp add: split)
    have "hex_run (hex_string n @ rest) 0 0 =
        hex_run (digit_char (n mod 16) # rest) (length (hex_string (n div 16))) (n div 16)"
      unfolding split using "1.IH" [OF False, of "digit_char (n mod 16) # rest"] "1.prems" by simp
    also have "\<dots> = hex_run rest (length (hex_string n)) n"
      using len "1.prems" by (simp add: split)
    finally show ?thesis .
  qed
qed

lemma hex_run_hex:
  "n < 65536 \<Longrightarrow> stops rest \<Longrightarrow> hex_run (hex_string n @ rest) 0 0 = Some (n, length (hex_string n), rest)"
  by (simp add: hex_run_value hex_run_stop)

lemma parse4_string4:
  assumes "v < 2 ^ 32"
  shows "parse4_fields (string4 v) = Some [v div 2 ^ 24, v div 2 ^ 16 mod 256, v div 2 ^ 8 mod 256, v mod 256]"
proof -
  have b: "v div 2 ^ 24 < 256" using assms by simp
  have step: "parse4_loop (dec_string n @ CHR ''.'' # rest) 0 0 fs sep = parse4_loop rest 0 0 (fs @ [n]) True"
    if "n < 256" "rest \<noteq> []" "length fs < 3" for n rest fs sep
    using parse4_dec [OF that(1), of "CHR ''.'' # rest" fs sep] that(2, 3) by auto
  have last: "parse4_loop (dec_string n) 0 0 fs sep = Some (fs @ [n])" if "n < 256" "length fs = 3" for n fs sep
    using parse4_dec [OF that(1), of "[]" fs sep] that(2) by auto
  show ?thesis
    using b by (simp add: parse4_fields_def string4_def step last)
qed

lemma from_bytes_append: "from_bytes (bs @ cs) = foldl (\<lambda>v b. v * 256 + b) (from_bytes bs) cs"
  by (simp add: from_bytes_def)

lemma bytes4: "v < 2 ^ 32 \<Longrightarrow>
  ((v div 2 ^ 24 * 256 + v div 2 ^ 16 mod 256) * 256 + v div 2 ^ 8 mod 256) * 256 + v mod 256 = (v::nat)"
proof -
  have "v div 2 ^ 24 * 256 + v div 2 ^ 16 mod 256 = v div 2 ^ 16"
    using div_mult_mod_eq [of "v div 2 ^ 16" 256] by (simp add: div_mult2_eq [symmetric])
  moreover have "v div 2 ^ 16 * 256 + v div 2 ^ 8 mod 256 = v div 2 ^ 8"
    using div_mult_mod_eq [of "v div 2 ^ 8" 256] by (simp add: div_mult2_eq [symmetric])
  ultimately show ?thesis by simp
qed

section \<open>Groups\<close>

fun hexes_tail :: "nat list \<Rightarrow> string" where
  "hexes_tail [] = []"
| "hexes_tail (g # gs) = CHR '':'' # hex_string g @ hexes_tail gs"

fun hexes :: "nat list \<Rightarrow> string" where
  "hexes [] = []"
| "hexes (g # gs) = hex_string g @ hexes_tail gs"

lemma hexes_tail_append: "hexes_tail (gs @ hs) = hexes_tail gs @ hexes_tail hs"
  by (induction gs) simp_all

definition group_bytes :: "nat list \<Rightarrow> nat list" where
  "group_bytes gs = concat (map (\<lambda>g. [g div 256, g mod 256]) gs)"

lemma group_bytes_simps [simp]:
  "group_bytes [] = []" "group_bytes (g # gs) = g div 256 # g mod 256 # group_bytes gs"
  "group_bytes (gs @ hs) = group_bytes gs @ group_bytes hs"
  by (simp_all add: group_bytes_def)

lemma length_group_bytes [simp]: "length (group_bytes gs) = 2 * length gs"
  by (induction gs) simp_all

lemma group_bytes_zero: "group_bytes (replicate n 0) = replicate (2 * n) 0"
  by (induction n) simp_all

lemma stops_simps [simp]: "stops []" "stops (CHR '':'' # s)" "stops (CHR ''.'' # s)"
  by (simp_all add: stops_def)

lemma stops_hexes_tail [simp]: "stops (hexes_tail gs)"
  by (cases gs) simp_all

lemma hexes_eq_Nil [simp]: "hexes gs = [] \<longleftrightarrow> gs = []" "hexes_tail gs = [] \<longleftrightarrow> gs = []"
  by (cases gs; simp)+

lemma hexes_hd: "gs \<noteq> [] \<Longrightarrow> hex_val (hd (hexes gs @ s)) \<noteq> None"
  using hex_string_chars [of "hd (hex_string (hd gs))" "hd gs"] by (cases gs) auto

lemma hexes_hd_colon: "gs \<noteq> [] \<Longrightarrow> hd (hexes gs @ s) \<noteq> CHR '':''"
  using hexes_hd [of gs s] by auto

text \<open>Groups up to the end of the string, and groups up to an ellipsis.\<close>

lemma parse6_groups:
  "gs \<noteq> [] \<Longrightarrow> \<forall>g \<in> set gs. g < 65536 \<Longrightarrow> length ip + 2 * length gs \<le> 16 \<Longrightarrow>
     parse6_loop (hexes gs) ip ell = Some (ip @ group_bytes gs, ell, [])"
proof (induction gs arbitrary: ip)
  case (Cons g gs)
  then have g: "g < 65536" "length ip < 16" by simp_all
  have run: "hex_run (hexes (g # gs)) 0 0 = Some (g, length (hex_string g), hexes_tail gs)"
    using g hex_run_hex [of g "hexes_tail gs"] by simp
  show ?case
  proof (cases gs)
    case Nil
    then show ?thesis using g run by (subst parse6_loop.simps) simp
  next
    case (Cons g' gs')
    have "parse6_loop (hexes gs) (ip @ [g div 256, g mod 256]) ell = Some ((ip @ [g div 256, g mod 256]) @ group_bytes gs, ell, [])"
      using Cons.prems Cons by (intro Cons.IH) simp_all
    moreover have "hd (hexes gs) \<noteq> CHR '':''" using hexes_hd_colon [of gs "[]"] Cons by simp
    ultimately show ?thesis using g run Cons by (subst parse6_loop.simps) simp
  qed
qed simp

lemma parse6_ellipsis:
  "gs \<noteq> [] \<Longrightarrow> \<forall>g \<in> set gs \<union> set hs. g < 65536 \<Longrightarrow> length ip + 2 * length gs + 2 * length hs \<le> 16 \<Longrightarrow>
     parse6_loop (hexes gs @ ''::'' @ hexes hs) ip None =
       Some (ip @ group_bytes gs @ group_bytes hs, Some (length ip + 2 * length gs), [])"
proof (induction gs arbitrary: ip)
  case (Cons g gs)
  then have g: "g < 65536" "length ip < 16" by simp_all
  let ?rest = "hexes_tail gs @ ''::'' @ hexes hs"
  have "stops ?rest" by (cases gs) simp_all
  then have run: "hex_run (hexes (g # gs) @ ''::'' @ hexes hs) 0 0 = Some (g, length (hex_string g), ?rest)"
    using g hex_run_hex [of g ?rest] by simp
  show ?case
  proof (cases gs)
    case Nil
    show ?thesis
    proof (cases "hs = []")
      case True
      then show ?thesis using g run Nil by (subst parse6_loop.simps) simp
    next
      case False
      have "parse6_loop (hexes hs) (ip @ [g div 256, g mod 256]) (Some (length ip + 2)) =
          Some ((ip @ [g div 256, g mod 256]) @ group_bytes hs, Some (length ip + 2), [])"
        using Cons.prems Nil False by (intro parse6_groups) simp_all
      then show ?thesis using g run Nil False by (subst parse6_loop.simps) simp
    qed
  next
    case (Cons g' gs')
    have "parse6_loop (hexes gs @ ''::'' @ hexes hs) (ip @ [g div 256, g mod 256]) None =
        Some ((ip @ [g div 256, g mod 256]) @ group_bytes gs @ group_bytes hs,
          Some (length (ip @ [g div 256, g mod 256]) + 2 * length gs), [])"
      using Cons.prems Cons by (intro Cons.IH) simp_all
    moreover have "hd (hexes gs @ ''::'' @ hexes hs) \<noteq> CHR '':''" using hexes_hd_colon [of gs] Cons by simp
    ultimately show ?thesis using g run Cons by (subst parse6_loop.simps) simp
  qed
qed simp

section \<open>The longest run of zero groups\<close>

lemma zero_end_zero: "i \<le> k \<Longrightarrow> k < zero_end gs i \<Longrightarrow> k < length gs \<Longrightarrow> gs ! k = 0"
proof -
  assume "i \<le> k" "k < zero_end gs i" "k < length gs"
  then have "k - i < length (takeWhile (\<lambda>g. g = 0) (drop i gs))" by (simp add: zero_end_def)
  then have "takeWhile (\<lambda>g. g = 0) (drop i gs) ! (k - i) = 0"
    by (metis (mono_tags, lifting) nth_mem set_takeWhileD)
  moreover have "takeWhile (\<lambda>g. g = 0) (drop i gs) ! (k - i) = drop i gs ! (k - i)"
    using \<open>k - i < _\<close> by (rule takeWhile_nth)
  ultimately show ?thesis using \<open>i \<le> k\<close> \<open>k < length gs\<close> by simp
qed

lemma zero_end_le: "i \<le> length gs \<Longrightarrow> zero_end gs i \<le> length gs"
  using length_takeWhile_le [of "\<lambda>g. g = 0" "drop i gs"] by (simp add: zero_end_def)

definition run_ok :: "nat list \<Rightarrow> nat \<times> nat \<Rightarrow> bool" where
  "run_ok gs r = (r = (255, 255) \<or> (fst r < snd r \<and> snd r \<le> length gs \<and> (\<forall>k. fst r \<le> k \<and> k < snd r \<longrightarrow> gs ! k = 0)))"

lemma zero_run_ok: "length gs = 8 \<Longrightarrow> run_ok gs (zero_run gs)"
proof -
  assume len: "length gs = 8"
  define f where "f = (\<lambda>i (zs, ze). let j = zero_end gs i in if 2 \<le> j - i \<and> ze - zs < j - i then (i, j) else (zs, ze))"
  have step: "run_ok gs (f i r)" if "run_ok gs r" "i < 8" for i r
  proof (cases r)
    case (Pair zs ze)
    have "zero_end gs i \<le> 8" using zero_end_le [of i gs] that(2) len by simp
    then show ?thesis
      using that Pair zero_end_zero [of i _ gs] len by (auto simp: f_def run_ok_def Let_def)
  qed
  have "run_ok gs (fold f is r)" if "run_ok gs r" "\<forall>i \<in> set is. i < 8" for "is" r
    using that by (induction "is" arbitrary: r) (simp_all add: step)
  moreover have "run_ok gs (255, 255)" by (simp add: run_ok_def)
  ultimately show ?thesis by (simp add: zero_run_def f_def)
qed

text \<open>The loop of the printer, after and before the run.\<close>

lemma groups_from_after:
  "length gs = 8 \<Longrightarrow> 0 < i \<Longrightarrow> i \<le> 8 \<Longrightarrow> zs < i \<or> 8 \<le> zs \<Longrightarrow> groups_from gs zs ze i = hexes_tail (drop i gs)"
proof (induction "8 - i" arbitrary: i)
  case 0
  then show ?case by (subst groups_from.simps) simp
next
  case (Suc n)
  then have "i < 8" by simp
  moreover have "groups_from gs zs ze (Suc i) = hexes_tail (drop (Suc i) gs)"
    using Suc by (intro Suc.hyps) auto
  moreover have "drop i gs = gs ! i # drop (Suc i) gs"
    using Suc.prems(1) \<open>i < 8\<close> by (simp add: Cons_nth_drop_Suc)
  ultimately show ?case using Suc.prems by (subst groups_from.simps) auto
qed

lemma groups_from_run:
  assumes "length gs = 8" "zs < ze" "ze \<le> 8"
  shows "groups_from gs zs ze zs = ''::'' @ hexes (drop ze gs)"
proof (cases "ze < 8")
  case True
  have "drop ze gs = gs ! ze # drop (Suc ze) gs" using assms True by (simp add: Cons_nth_drop_Suc)
  moreover have "groups_from gs zs ze (Suc ze) = hexes_tail (drop (Suc ze) gs)"
    using assms True by (intro groups_from_after) auto
  ultimately show ?thesis using assms True by (subst groups_from.simps) (simp add: max_def)
next
  case False
  then show ?thesis using assms by (subst groups_from.simps) simp
qed

lemma groups_from_before:
  assumes "length gs = 8" "zs < ze" "ze \<le> 8"
  shows "0 < i \<Longrightarrow> i \<le> zs \<Longrightarrow>
    groups_from gs zs ze i = hexes_tail (take (zs - i) (drop i gs)) @ ''::'' @ hexes (drop ze gs)"
proof (induction "zs - i" arbitrary: i)
  case 0
  then have "i = zs" by simp
  then show ?case using groups_from_run [OF assms] by simp
next
  case (Suc n)
  then have i: "i < zs" "i < 8" using assms by auto
  have "groups_from gs zs ze (Suc i) = hexes_tail (take (zs - Suc i) (drop (Suc i) gs)) @ ''::'' @ hexes (drop ze gs)"
    using Suc i by (intro Suc.hyps) auto
  moreover have "drop i gs = gs ! i # drop (Suc i) gs" using assms i by (simp add: Cons_nth_drop_Suc)
  moreover have "take (zs - i) (x # xs) = x # take (zs - Suc i) xs" for x :: nat and xs
    using i by (simp add: take_Cons' Suc_diff_Suc)
  ultimately show ?case using i Suc.prems by (subst groups_from.simps) simp
qed

lemma groups_from_plain: "length gs = 8 \<Longrightarrow> groups_from gs 255 255 0 = hexes gs"
proof -
  assume len: "length gs = 8"
  then have "groups_from gs 255 255 1 = hexes_tail (drop 1 gs)" by (intro groups_from_after) simp_all
  moreover have "gs = gs ! 0 # drop 1 gs" using len by (cases gs) simp_all
  ultimately have "hexes gs = hex_string (gs ! 0) @ groups_from gs 255 255 1" by (metis hexes.simps(2))
  then show ?thesis by (subst groups_from.simps) simp
qed

lemma groups_from_ellipsis:
  assumes "length gs = 8" "zs < ze" "ze \<le> 8"
  shows "groups_from gs zs ze 0 = hexes (take zs gs) @ ''::'' @ hexes (drop ze gs)"
proof (cases "zs = 0")
  case True
  then show ?thesis using groups_from_run [OF assms] by simp
next
  case False
  have "take zs gs = gs ! 0 # take (zs - 1) (drop 1 gs)"
    using assms False by (cases gs; cases zs) simp_all
  then show ?thesis
    using False assms groups_from_before [OF assms, of 1] by (subst groups_from.simps) simp
qed

section \<open>Values of groups\<close>

lemma from_bytes_groups: "\<forall>g \<in> set gs. g < 65536 \<Longrightarrow> from_bytes (group_bytes gs) = foldl (\<lambda>v g. v * 65536 + g) 0 gs"
proof -
  have "foldl (\<lambda>v b. v * 256 + b) v (group_bytes gs) = foldl (\<lambda>v g. v * 65536 + g) v gs" for v
  proof (induction gs arbitrary: v)
    case (Cons g gs)
    have "(v * 256 + g div 256) * 256 + g mod 256 = v * 65536 + g"
      using div_mult_mod_eq [of g 256] by (simp add: algebra_simps)
    moreover have "foldl (\<lambda>v b. v * 256 + b) v (group_bytes (g # gs)) =
        foldl (\<lambda>v b. v * 256 + b) ((v * 256 + g div 256) * 256 + g mod 256) (group_bytes gs)" by simp
    ultimately show ?case by (simp only: Cons foldl.simps)
  qed simp
  then show ?thesis by (simp add: from_bytes_def)
qed

lemma v6_groups_facts: "length (v6_groups v) = 8" "\<forall>g \<in> set (v6_groups v). g < 65536"
  by (simp_all add: v6_groups_def)

lemma v6_groups_list: "v6_groups v =
  [v div 2 ^ 112 mod 65536, v div 2 ^ 96 mod 65536, v div 2 ^ 80 mod 65536, v div 2 ^ 64 mod 65536,
   v div 2 ^ 48 mod 65536, v div 2 ^ 32 mod 65536, v div 2 ^ 16 mod 65536, v mod 65536]"
  by (simp add: v6_groups_def upt_rec)

lemma group_step: "v div 2 ^ (n + 16) * 65536 + v div 2 ^ n mod 65536 = v div 2 ^ n" for v :: nat
  using div_mult_mod_eq [of "v div 2 ^ n" 65536] by (simp add: div_mult2_eq [symmetric] power_add)

lemma v6_groups_value:
  assumes "v < 2 ^ 128"
  shows "foldl (\<lambda>v g. v * 65536 + g) 0 (v6_groups v) = v"
proof -
  have top: "v div 2 ^ 112 mod 65536 = v div 2 ^ 112" using assms by simp
  show ?thesis
    unfolding v6_groups_list top foldl.simps
    using group_step [of v 96] group_step [of v 80] group_step [of v 64] group_step [of v 48] group_step [of v 32]
      group_step [of v 16] group_step [of v 0] by simp
qed

section \<open>Printed addresses are read back\<close>

lemma hexes_tail_chars: "c \<in> set (hexes_tail gs) \<Longrightarrow> hex_val c \<noteq> None \<or> c = CHR '':''"
  by (induction gs) (auto dest: hex_string_chars)

lemma hexes_chars: "c \<in> set (hexes gs) \<Longrightarrow> hex_val c \<noteq> None \<or> c = CHR '':''"
  by (cases gs) (auto dest: hex_string_chars hexes_tail_chars)

lemma no_leading_ellipsis: "gs \<noteq> [] \<Longrightarrow> \<not> prefix ''::'' (hexes gs @ s)"
proof
  assume gs: "gs \<noteq> []" and "prefix ''::'' (hexes gs @ s)"
  then obtain t where "hexes gs @ s = ''::'' @ t" by (auto simp only: prefix_def)
  then have "hd (hexes gs @ s) = CHR '':''" by (simp only: append.simps list.sel)
  with hexes_hd_colon [OF gs, of s] show False by (rule notE)
qed

lemma hexes_no_percent: "CHR ''%'' \<notin> set (hexes gs)"
  using hexes_chars [of "CHR ''%''" gs] by auto

lemma string4_chars: "c \<in> set (string4 v) \<Longrightarrow> hex_val c \<noteq> None \<or> c = CHR ''.''"
  by (auto simp: string4_def dest: dec_string_chars)

text \<open>The text of an IPv6 address: groups, or groups around an ellipsis, or a mapped IPv4 address.\<close>

lemma string6_shape:
  obtains "string6 v = hexes (v6_groups v)"
  | gs n hs where "string6 v = hexes gs @ ''::'' @ hexes hs" "v6_groups v = gs @ replicate n 0 @ hs" "0 < n"
proof -
  obtain zs ze where r: "zero_run (v6_groups v) = (zs, ze)" by fastforce
  have len: "length (v6_groups v) = 8" by (rule v6_groups_facts)
  from zero_run_ok [OF len] r consider "zs = 255" "ze = 255"
    | "zs < ze" "ze \<le> 8" "\<forall>k. zs \<le> k \<and> k < ze \<longrightarrow> v6_groups v ! k = 0"
    using len by (auto simp: run_ok_def)
  then show thesis
  proof cases
    case 1
    then have "string6 v = hexes (v6_groups v)" using r groups_from_plain [OF len] by (simp add: string6_def Let_def)
    then show thesis by (rule that(1))
  next
    case 2
    have "string6 v = hexes (take zs (v6_groups v)) @ ''::'' @ hexes (drop ze (v6_groups v))"
      using r groups_from_ellipsis [OF len 2(1, 2)] by (simp add: string6_def Let_def)
    moreover have "take (ze - zs) (drop zs (v6_groups v)) = replicate (ze - zs) 0"
      using 2 len by (intro nth_equalityI) auto
    then have "v6_groups v = take zs (v6_groups v) @ replicate (ze - zs) 0 @ drop ze (v6_groups v)"
      using 2 by (metis append_take_drop_id drop_drop le_add_diff_inverse2 less_imp_le)
    moreover have "0 < ze - zs" using 2(1) by simp
    ultimately show thesis by (rule that(2))
  qed
qed

lemma parse6_unzoned:
  assumes "\<forall>c \<in> set s. c \<noteq> CHR ''%''"
  shows "parse6 s = map_option (\<lambda>a. (a, []))
      (if prefix ''::'' s then if drop 2 s = [] then Some (Addr IPv6 0) else Option.bind (parse6_loop (drop 2 s) [] (Some 0)) expand6
       else Option.bind (parse6_loop s [] None) expand6)"
proof -
  have e: "takeWhile (\<lambda>c. c \<noteq> CHR ''%'') s = s" "dropWhile (\<lambda>c. c \<noteq> CHR ''%'') s = []"
    using assms by (auto simp: takeWhile_eq_all_conv dropWhile_eq_Nil_conv)
  show ?thesis unfolding parse6_def Let_def e by simp
qed

lemma from_bytes_zero [simp]: "from_bytes (replicate n 0) = 0"
  by (induction n) (simp_all add: from_bytes_def)

lemma expand6_ellipsis:
  assumes "v < 2 ^ 128" "v6_groups v = gs @ replicate n 0 @ hs" "0 < n"
  shows "expand6 (group_bytes gs @ group_bytes hs, Some (2 * length gs), []) = Some (Addr IPv6 v)"
proof -
  have len: "length gs + n + length hs = 8" using assms(2) v6_groups_facts(1) [of v] by simp
  have "from_bytes (group_bytes gs @ replicate (16 - 2 * length gs - 2 * length hs) 0 @ group_bytes hs) = from_bytes (group_bytes (v6_groups v))"
  proof -
    have "16 - 2 * length gs - 2 * length hs = 2 * n" using len by simp
    then show ?thesis by (simp add: assms(2) group_bytes_zero)
  qed
  also have "\<dots> = v"
    using from_bytes_groups [OF v6_groups_facts(2) [of v]] v6_groups_value [OF assms(1)] by simp
  finally show ?thesis using len assms(3) by (simp add: expand6_def diff_diff_left)
qed

lemma parse6_string6:
  assumes v: "v < 2 ^ 128"
  shows "parse6 (string6 v) = Some (Addr IPv6 v, [])"
proof -
  have chars: "\<forall>c \<in> set (hexes gs @ s). c \<noteq> CHR ''%''" if "CHR ''%'' \<notin> set s" for gs s
    using that hexes_no_percent [of gs] by auto
  show ?thesis
  proof (cases rule: string6_shape [of v])
    case 1
    have ne: "v6_groups v \<noteq> []" using v6_groups_facts(1) [of v] by auto
    have "\<not> prefix ''::'' (hexes (v6_groups v))"
      using no_leading_ellipsis [OF ne, of "[]"] by simp
    moreover have "parse6_loop (hexes (v6_groups v)) [] None = Some (group_bytes (v6_groups v), None, [])"
      using parse6_groups [OF ne, of "[]" None] v6_groups_facts [of v] by simp
    moreover have "expand6 (group_bytes (v6_groups v), None, []) = Some (Addr IPv6 v)"
      using from_bytes_groups [OF v6_groups_facts(2) [of v]] v6_groups_value [OF v] v6_groups_facts(1) [of v]
      by (simp add: expand6_def)
    ultimately show ?thesis using chars [of "[]"] by (simp add: 1 parse6_unzoned)
  next
    case (2 gs n hs)
    have len: "length gs + n + length hs = 8" using 2(2) v6_groups_facts(1) [of v] by simp
    have bounds: "\<forall>g \<in> set gs \<union> set hs. g < 65536" using v6_groups_facts(2) [of v] by (auto simp: 2(2))
    have e: "expand6 (group_bytes gs @ group_bytes hs, Some (2 * length gs), []) = Some (Addr IPv6 v)"
      by (rule expand6_ellipsis [OF v 2(2, 3)])
    have no_zone: "\<forall>c \<in> set (hexes gs @ ''::'' @ hexes hs). c \<noteq> CHR ''%''"
      using hexes_no_percent [of hs] by (intro chars) simp
    show ?thesis
    proof (cases "gs = []")
      case False
      have "\<not> prefix ''::'' (hexes gs @ ''::'' @ hexes hs)"
        by (rule no_leading_ellipsis [OF False])
      moreover have "parse6_loop (hexes gs @ ''::'' @ hexes hs) [] None =
          Some (group_bytes gs @ group_bytes hs, Some (2 * length gs), [])"
        using parse6_ellipsis [OF False bounds, of "[]"] len by simp
      ultimately show ?thesis using e no_zone unfolding 2(1) parse6_unzoned [OF no_zone] by simp
    next
      case True
      show ?thesis
      proof (cases "hs = []")
        case hs: True
        have "group_bytes gs @ group_bytes hs = []" using True hs by simp
        then have "v = 0" using e by (simp add: expand6_def True)
        then show ?thesis using True hs no_zone unfolding 2(1) parse6_unzoned [OF no_zone] by simp
      next
        case False
        have "parse6_loop (hexes hs) [] (Some 0) = Some (group_bytes hs, Some 0, [])"
          using parse6_groups [OF False, of "[]" "Some 0"] bounds len by simp
        then show ?thesis using e True False unfolding 2(1) parse6_unzoned [OF no_zone] by simp
      qed
    qed
  qed
qed


lemma find_first: "xs = ys @ x # zs \<Longrightarrow> \<forall>y \<in> set ys. \<not> P y \<Longrightarrow> P x \<Longrightarrow> find P xs = Some x"
  by (induction ys arbitrary: xs) auto

abbreviation separator :: "char \<Rightarrow> bool" where
  "separator c \<equiv> c \<in> {CHR ''.'', CHR '':'', CHR ''%''}"

lemma no_separators [simp]:
  "CHR ''.'' \<notin> set (dec_string n)" "CHR '':'' \<notin> set (dec_string n)" "CHR ''%'' \<notin> set (dec_string n)"
  "CHR ''/'' \<notin> set (dec_string n)" "CHR ''.'' \<notin> set (hex_string n)" "CHR '':'' \<notin> set (hex_string n)"
  "CHR ''%'' \<notin> set (hex_string n)" "CHR ''/'' \<notin> set (hex_string n)"
  using dec_string_chars [of _ n] hex_string_chars [of _ n] hex_val_char by blast+

lemma find_string4: "find separator (string4 v) = Some CHR ''.''"
  by (rule find_first [of _ "dec_string (v div 2 ^ 24)"]) (auto simp: string4_def)

lemma find_string6:
  shows "find separator (string6 v) = Some CHR '':''"
proof (cases rule: string6_shape [of v])
  case 1
  obtain g g' gs where g: "v6_groups v = g # g' # gs" by (simp add: v6_groups_list)
  show ?thesis
    by (rule find_first [of _ "hex_string g"]) (auto simp: 1 g)
next
  case (2 gs n hs)
  show ?thesis
  proof (cases gs)
    case Nil
    then show ?thesis by (simp add: 2(1))
  next
    case (Cons g gs')
    show ?thesis
    proof (cases gs')
      case Nil
      show ?thesis
        by (rule find_first [of _ "hex_string g"]) (auto simp: 2(1) Cons Nil)
    next
      case (Cons g' gs'')
      show ?thesis
        by (rule find_first [of _ "hex_string g"]) (auto simp: 2(1) \<open>gs = _\<close> Cons)
    qed
  qed
qed

lemma from_bytes4: "v < 2 ^ 32 \<Longrightarrow> from_bytes [v div 2 ^ 24, v div 2 ^ 16 mod 256, v div 2 ^ 8 mod 256, v mod 256] = v"
  using bytes4 [of v] by (simp add: from_bytes_def)

lemma dec_hd: "hd (dec_string n) \<noteq> CHR '':''"
  by (metis hd_in_set dec_string_nonempty no_separators(2))

lemma parse_mapped:
  assumes v: "v < 2 ^ 32"
  shows "parse6 (''::ffff:'' @ string4 v) = Some (Addr IPv6 (0xFFFF * 2 ^ 32 + v), [])"
proof -
  let ?fs = "[v div 2 ^ 24, v div 2 ^ 16 mod 256, v div 2 ^ 8 mod 256, v mod 256]"
  obtain rest where rest: "string4 v = dec_string (v div 2 ^ 24) @ CHR ''.'' # rest" by (simp add: string4_def)
  have b: "v div 2 ^ 24 < 1000" using v by simp
  have "length (dec_string (v div 2 ^ 24)) \<le> 4" by (rule dec_string_split [OF b]) simp_all
  then obtain acc where run: "hex_run (string4 v) 0 0 = Some (acc, length (dec_string (v div 2 ^ 24)), CHR ''.'' # rest)"
    using hex_run_digits [of "dec_string (v div 2 ^ 24)" "CHR ''.'' # rest" 0 0] dec_string_chars by (auto simp: rest)
  have inner: "parse6_loop (string4 v) [255, 255] (Some 0) = Some ([255, 255] @ ?fs, Some 0, [])"
    using run parse4_string4 [OF v] by (subst parse6_loop.simps) simp
  have "hex_run (''ffff:'' @ string4 v) 0 0 = Some (65535, 4, CHR '':'' # string4 v)"
  proof -
    have "hex_string 65535 = ''ffff''" by (simp add: hex_string.simps digit_char_def) code_simp
    then show ?thesis using hex_run_hex [of 65535 "CHR '':'' # string4 v"] by simp
  qed
  moreover have "hd (string4 v) \<noteq> CHR '':''" "string4 v \<noteq> []"
    using dec_hd by (simp_all add: rest)
  ultimately have "parse6_loop (''ffff:'' @ string4 v) [] (Some 0) = Some ([255, 255] @ ?fs, Some 0, [])"
    using inner by (subst parse6_loop.simps) simp
  moreover have "expand6 ([255, 255] @ ?fs, Some 0, []) = Some (Addr IPv6 (0xFFFF * 2 ^ 32 + v))"
  proof -
    have "from_bytes (replicate 10 0 @ [255, 255] @ ?fs) = 0xFFFF * 2 ^ 32 + v"
      using from_bytes4 [OF v] by (simp add: from_bytes_append) (simp add: from_bytes_def)
    then show ?thesis by (simp add: expand6_def)
  qed
  moreover have "CHR ''%'' \<notin> set (''::ffff:'' @ string4 v)"
    using string4_chars [of "CHR ''%''" v] by auto
  ultimately show ?thesis by (subst parse6_unzoned) auto
qed


theorem parse_addr_string:
  assumes "addr_ok a"
  shows "parse_addr (addr_string a) = Some a"
proof (cases "a_fam a")
  case IPv4
  then have v: "a_val a < 2 ^ 32" using assms by (simp add: addr_ok_def)
  have "parse4 (string4 (a_val a)) = Some (Addr IPv4 (a_val a))"
    using parse4_string4 [OF v] from_bytes4 [OF v] by (simp add: parse4_def)
  then show ?thesis
    using IPv4 find_string4 [of "a_val a"]
    by (cases a) (simp add: parse_addr_def parse_addr_zone_def addr_string_def del: insert_iff)
next
  case IPv6
  then have v: "a_val a < 2 ^ 128" using assms by (simp add: addr_ok_def)
  show ?thesis
  proof (cases "is4in6 a")
    case True
    have low: "a_val a mod 2 ^ 32 < 2 ^ 32" by simp
    have "find separator (''::ffff:'' @ string4 (a_val a mod 2 ^ 32)) = Some CHR '':''" by simp
    moreover have "0xFFFF * 2 ^ 32 + a_val a mod 2 ^ 32 = a_val a"
      using True div_mult_mod_eq [of "a_val a" "2 ^ 32"] by (simp add: is4in6_def)
    ultimately show ?thesis
      using IPv6 True parse_mapped [OF low]
      by (cases a) (simp add: parse_addr_def parse_addr_zone_def addr_string_def)
  next
    case False
    then show ?thesis
      using IPv6 parse6_string6 [OF v] find_string6 [of "a_val a"]
      by (cases a) (simp add: parse_addr_def parse_addr_zone_def addr_string_def del: insert_iff)
  qed
qed

lemma parse_bits_dec: "b \<le> 999 \<Longrightarrow> parse_bits (dec_string b) = Some b"
proof -
  assume "b \<le> 999"
  then have "b < 1000" by simp
  then show ?thesis
  proof (cases rule: dec_string_split)
    case 3
    have "b div 100 < 10" "b div 100 \<noteq> 0" using \<open>b < 1000\<close> 3(1) by auto
    moreover have "(b div 100 * 10 + b div 10 mod 10) * 10 + b mod 10 = b"
    proof -
      have "b div 10 div 10 * 10 + b div 10 mod 10 = b div 10" "b div 10 * 10 + b mod 10 = b" by simp_all
      moreover have "b div 10 div 10 = b div 100" by simp
      ultimately show ?thesis by simp
    qed
    moreover have "digit_char d \<noteq> CHR ''0''" if "0 < d" "d < 10" for d
      using that dec_val_digit [of d] dec_val_digit [of 0] by (auto simp del: dec_val_digit)
    ultimately show ?thesis using 3 by (simp add: parse_bits_def)
  next
    case 2
    have "b div 10 < 10" "b div 10 \<noteq> 0" "b div 10 * 10 + b mod 10 = b" using 2 by auto
    moreover have "digit_char d \<noteq> CHR ''0''" if "0 < d" "d < 10" for d
      using that dec_val_digit [of d] dec_val_digit [of 0] by (auto simp del: dec_val_digit)
    ultimately show ?thesis using 2 by (simp add: parse_bits_def)
  qed (simp add: parse_bits_def)
qed

lemma slash_not_in_addr: "CHR ''/'' \<notin> set (addr_string a)"
proof -
  have "CHR ''/'' \<notin> set (hexes gs)" for gs
    using hexes_chars [of "CHR ''/''" gs] by auto
  moreover have "CHR ''/'' \<notin> set (string4 v)" for v
    by (simp add: string4_def)
  moreover have "CHR ''/'' \<notin> set (string6 v)" for v
    by (cases rule: string6_shape [of v]) (simp_all add: calculation(1))
  ultimately show ?thesis by (simp add: addr_string_def)
qed

theorem parse_prefix_string:
  assumes "prefix_ok p"
  shows "parse_prefix (prefix_string p) = Some p"
proof -
  have ok: "prefix_is_valid p" "addr_ok (p_addr p)" "p_bits p \<le> p_bitlen p"
    using assms by (simp_all add: prefix_ok_def prefix_is_valid_def)
  let ?a = "addr_string (p_addr p)" and ?b = "dec_string (p_bits p)"
  have s: "prefix_string p = ?a @ CHR ''/'' # ?b" using ok by (simp add: prefix_string_def)
  have "takeWhile (\<lambda>c. c \<noteq> CHR ''/'') (rev ?b @ CHR ''/'' # rev ?a) = rev ?b"
    by (subst takeWhile_append2) auto
  moreover have "p_bits p \<le> 999" using ok(3) bitlen_le_128 [of "p_fam p"] by simp
  ultimately show ?thesis
    using ok parse_addr_string [OF ok(2)] parse_bits_dec [of "p_bits p"]
    unfolding parse_prefix_def s by (cases p) (simp add: Let_def)
qed

lemma prefix_string_inj: "prefix_ok p \<Longrightarrow> prefix_ok q \<Longrightarrow> prefix_string p = prefix_string q \<longleftrightarrow> p = q"
  by (metis option.inject parse_prefix_string)

section \<open>Parsed addresses are well formed\<close>

abbreviation bytes_ok :: "nat list \<Rightarrow> bool" where
  "bytes_ok bs \<equiv> \<forall>b \<in> set bs. b < 256"

lemma from_bytes_bound: "bytes_ok bs \<Longrightarrow> from_bytes bs < 256 ^ length bs"
proof (induction bs rule: rev_induct)
  case (snoc b bs)
  then have "from_bytes bs < 256 ^ length bs" "b < 256" by simp_all
  then have "from_bytes bs * 256 + b < 256 ^ length bs * 256" by linarith
  then show ?case by (simp add: from_bytes_append)
qed (simp add: from_bytes_def)

lemma parse4_loop_ok:
  "parse4_loop s v d fs sep = Some fs' \<Longrightarrow> v < 256 \<Longrightarrow> bytes_ok fs \<Longrightarrow> length fs \<le> 3 \<Longrightarrow> length fs' = 4 \<and> bytes_ok fs'"
proof (induction s v d fs sep rule: parse4_loop.induct)
  case (2 c cs v d fs sep)
  show ?case
  proof (cases "dec_val c")
    case None
    with 2 show ?thesis by (auto split: if_splits)
  next
    case (Some k)
    with 2 show ?thesis by (auto split: if_splits)
  qed
qed (auto split: if_splits)

lemma parse4_fields_ok: "parse4_fields s = Some fs \<Longrightarrow> length fs = 4 \<and> bytes_ok fs"
  using parse4_loop_ok [of s 0 0 "[]" True fs] by (simp add: parse4_fields_def)

lemma hex_run_bound: "hex_run s off acc = Some (acc', off', rest) \<Longrightarrow> acc < 65536 \<Longrightarrow> acc' < 65536"
  by (induction s off acc rule: hex_run.induct) (auto split: option.splits if_splits)

lemma parse6_step:
  assumes "parse6_loop s ip ell = Some r" "length ip < 16"
  obtains fs where "parse4_fields s = Some fs" "length ip + 4 \<le> 16" "r = (ip @ fs, ell, [])"
  | acc ell' where "acc < 65536" "ell' = ell \<or> ell' = Some (length ip + 2)"
      "r = (ip @ [acc div 256, acc mod 256], ell', []) \<or>
       (\<exists>s'. parse6_loop s' (ip @ [acc div 256, acc mod 256]) ell' = Some r)"
proof -
  obtain acc off more where run: "hex_run s 0 0 = Some (acc, off, more)"
    using assms by (cases "hex_run s 0 0") (auto simp: parse6_loop.simps)
  let ?ip = "ip @ [acc div 256, acc mod 256]"
  note unfold = assms(1) [unfolded parse6_loop.simps [of s ip ell] run]
  have acc: "acc < 65536" using hex_run_bound [OF run] by simp
  have off: "off \<noteq> 0" using unfold assms(2) by (auto split: if_splits)
  show thesis
  proof (cases "more \<noteq> [] \<and> hd more = CHR ''.''")
    case True
    then have "length ip + 4 \<le> 16" "(case parse4_fields s of None \<Rightarrow> None | Some fs \<Rightarrow> Some (ip @ fs, ell, [])) = Some r"
      using unfold assms(2) off by (simp_all split: if_splits)
    then show thesis using that(1) by (auto split: option.splits)
  next
    case dot: False
    consider "r = (?ip, ell, [])" | "r = (?ip, Some (length ip + 2), [])"
      | s' where "parse6_loop s' ?ip (Some (length ip + 2)) = Some r" | s' where "parse6_loop s' ?ip ell = Some r"
      using unfold assms(2) off dot by (cases "more = []") (auto simp: Let_def split: if_splits)
    then show thesis by cases (use acc that(2) in blast)+
  qed
qed

lemma parse6_loop_ok:
  "parse6_loop s ip ell = Some (ip', ell', rest) \<Longrightarrow> bytes_ok ip \<Longrightarrow> even (length ip) \<Longrightarrow> length ip \<le> 16 \<Longrightarrow>
     (\<forall>e. ell = Some e \<longrightarrow> e \<le> length ip) \<Longrightarrow>
     bytes_ok ip' \<and> length ip' \<le> 16 \<and> (\<forall>e. ell' = Some e \<longrightarrow> e \<le> length ip')"
proof (induction "16 - length ip" arbitrary: s ip ell rule: less_induct)
  case less
  show ?case
  proof (cases "length ip < 16")
    case False
    with less.prems show ?thesis by (subst (asm) parse6_loop.simps) simp
  next
    case len: True
    then have room: "length ip + 2 \<le> 16" using less.prems(3) by presburger
    from less.prems(1) len show ?thesis
    proof (cases rule: parse6_step)
      case (1 fs)
      then show ?thesis using parse4_fields_ok [OF 1(1)] less.prems by auto
    next
      case (2 acc ell'')
      let ?ip = "ip @ [acc div 256, acc mod 256]"
      have b: "bytes_ok ?ip" using less.prems(2) less_mult_imp_div_less [of acc 256 256] 2(1) by simp
      have e: "\<forall>e. ell'' = Some e \<longrightarrow> e \<le> length ?ip" using 2(2) less.prems(5) by auto
      from 2(3) consider "(ip', ell', rest) = (?ip, ell'', [])" | s' where "parse6_loop s' ?ip ell'' = Some (ip', ell', rest)"
        by blast
      then show ?thesis
      proof cases
        case 1
        then have "ip' = ?ip" "ell' = ell''" by simp_all
        with b e room show ?thesis by (simp only: length_append list.size) simp
      next
        case (2 s')
        show ?thesis
          by (rule less.hyps [OF _ 2 b _ _ e]) (use len room less.prems(3) in simp_all)
      qed
    qed
  qed
qed

lemma expand6_ok:
  assumes "expand6 (ip, ell, rest) = Some a" "bytes_ok ip" "length ip \<le> 16" "\<forall>e. ell = Some e \<longrightarrow> e \<le> length ip"
  shows "addr_ok a"
proof -
  have ok: "addr_ok (Addr IPv6 (from_bytes bs))" if "bytes_ok bs" "length bs = 16" for bs
    using from_bytes_bound [OF that(1)] by (simp add: addr_ok_def that(2))
  show ?thesis
  proof (cases "length ip < 16")
    case True
    then obtain e where e: "ell = Some e" "a = Addr IPv6 (from_bytes (take e ip @ replicate (16 - length ip) 0 @ drop e ip))"
      using assms(1) by (auto simp: expand6_def split: if_splits option.splits)
    have "bytes_ok (take e ip @ replicate (16 - length ip) 0 @ drop e ip)"
      using assms(2) set_take_subset [of e ip] set_drop_subset [of e ip] by auto
    then show ?thesis using ok e assms(3, 4) by simp
  next
    case False
    then show ?thesis using assms ok by (auto simp: expand6_def split: if_splits)
  qed
qed

lemma parse_addr_zone_ok:
  assumes "parse_addr_zone s = Some (a, z)"
  shows "addr_ok a"
proof -
  have four: "addr_ok b" if "parse4 s = Some b" for b
  proof -
    obtain fs where fs: "parse4_fields s = Some fs" "b = Addr IPv4 (from_bytes fs)"
      using \<open>parse4 s = Some b\<close> by (auto simp: parse4_def)
    show ?thesis
      using from_bytes_bound [of fs] parse4_fields_ok [OF fs(1)] by (simp add: fs(2) addr_ok_def)
  qed
  have loop: "addr_ok b" if "Option.bind (parse6_loop t [] ell) expand6 = Some b" "ell = None \<or> ell = Some 0" for t ell b
  proof -
    obtain ip ell' rest where r: "parse6_loop t [] ell = Some (ip, ell', rest)" "expand6 (ip, ell', rest) = Some b"
      using \<open>Option.bind _ _ = _\<close> by (auto simp: bind_eq_Some_conv)
    show ?thesis
      using parse6_loop_ok [OF r(1)] \<open>ell = None \<or> _\<close> by (intro expand6_ok [OF r(2)]) auto
  qed
  have "addr_ok (Addr IPv6 0)" by (simp add: addr_ok_def)
  then have six: "addr_ok b" if "parse6 s = Some (b, z)" for b z
    using that loop by (auto simp: parse6_def Let_def split: if_splits)
  show ?thesis
    using assms four six by (auto simp: parse_addr_zone_def split: option.splits if_splits)
qed

lemma parse_addr_ok: "parse_addr s = Some a \<Longrightarrow> addr_ok a"
  by (auto simp: parse_addr_def split: option.splits list.splits intro: parse_addr_zone_ok)

lemma parse_prefix_ok: "parse_prefix s = Some p \<Longrightarrow> prefix_ok p"
  by (auto simp: parse_prefix_def prefix_ok_def prefix_is_valid_def Let_def split: option.splits if_splits
      intro: parse_addr_ok)

end
