(* ===== verification/Store_Filters.thy ===== *)
theory Store_Filters
  imports Prefix_Filter Netip_Text Retry "HOL-Library.Multiset"
begin

text \<open>
  \<open>internal/store/ipcodec.go\<close> and the part of \<open>internal/store/routes.go\<close> that computes on route filters:
  how addresses and prefixes are stored, how filter lists typed by users are parsed, normalised, merged
  and compared, the choice of the catalogue metadata for a filtered prefix, and the bounds of audit
  entries. A row of \<open>user_route_filters\<close> is \<open>(user_id, action, ip, bits)\<close>.
\<close>

section \<open>Errors\<close>

datatype store_error =
    BadStoredAddress nat
  | BadStoredPrefix int nat
  | BadAddress string
  | BadCIDR string
  | BadFilterMode string
  | RouteLimit nat
  | NoRows
  | DbError
  | DuplicateCommunity u32
  | MissingPrefix prefix
  | StalePreview
  | FeedChanged
  | BuiltinMode
  | NetworkConflict prefix prefix string

definition lift_filter :: "(filter_error, 'a) result \<Rightarrow> (store_error, 'a) result" where
  "lift_filter r =
     (case r of Inr x \<Rightarrow> Inr x | Inl Panic \<Rightarrow> Inl Panic | Inl (Err (TooManyRoutes n)) \<Rightarrow> fail (RouteLimit n))"

text \<open>A loop that stops at the first error.\<close>

fun mapE :: "('a \<Rightarrow> ('e, 'b) result) \<Rightarrow> 'a list \<Rightarrow> ('e, 'b list) result" where
  "mapE f [] = Inr []"
| "mapE f (x # xs) = bindE (f x) (\<lambda>y. bindE (mapE f xs) (\<lambda>ys. Inr (y # ys)))"

section \<open>Stored addresses and prefixes\<close>

definition EncodeAddr :: "addr \<Rightarrow> byte list" where
  "EncodeAddr a = as_slice a"

definition DecodeAddr :: "byte list \<Rightarrow> (store_error, addr) result" where
  "DecodeAddr ip = (case addr_from_slice ip of None \<Rightarrow> fail (BadStoredAddress (length ip)) | Some a \<Rightarrow> Inr a)"

definition EncodePrefix :: "prefix \<Rightarrow> byte list \<times> int" where
  "EncodePrefix p = (let m = masked p in (as_slice (p_addr m), int (p_bits m)))"

definition DecodePrefix :: "byte list \<Rightarrow> int \<Rightarrow> (store_error, prefix) result" where
  "DecodePrefix ip bits =
     bindE (DecodeAddr ip) (\<lambda>addr.
       let p = prefix_from addr bits in
       if \<not> prefix_is_valid p then fail (BadStoredPrefix bits (length ip)) else Inr p)"

definition EncodeAddrString :: "string \<Rightarrow> (store_error, byte list) result" where
  "EncodeAddrString s = (case parse_addr_zone s of None \<Rightarrow> fail (BadAddress s) | Some (a, zone) \<Rightarrow> Inr (as_slice a))"

definition ParsePrefixOrAddr :: "string \<Rightarrow> (store_error, prefix) result" where
  "ParsePrefixOrAddr s =
     (case parse_prefix s of
        Some p \<Rightarrow> Inr p
      | None \<Rightarrow>
          (case parse_addr_zone s of
             None \<Rightarrow> fail (BadCIDR s)
           | Some (a, zone) \<Rightarrow>
               if zone \<noteq> [] then fail (BadCIDR s) else Inr (prefix_from a (int (addr_bitlen a)))))"

definition EncodePrefixString :: "string \<Rightarrow> (store_error, byte list \<times> int) result" where
  "EncodePrefixString s = (case parse_prefix s of None \<Rightarrow> fail (BadCIDR s) | Some p \<Rightarrow> Inr (EncodePrefix p))"

section \<open>Filter modes\<close>

definition FilterModeGlobal :: string where "FilterModeGlobal = ''global''"
definition FilterModeExtend :: string where "FilterModeExtend = ''extend''"
definition FilterModeOverride :: string where "FilterModeOverride = ''override''"

lemmas filter_modes = FilterModeGlobal_def FilterModeExtend_def FilterModeOverride_def

definition filterModeToInt :: "string \<Rightarrow> int" where
  "filterModeToInt mode = (if mode = FilterModeExtend then 1 else if mode = FilterModeOverride then 2 else 0)"

definition filterModeFromInt :: "int \<Rightarrow> string" where
  "filterModeFromInt v = (if v = 1 then FilterModeExtend else if v = 2 then FilterModeOverride else FilterModeGlobal)"

definition NormalizeFilterMode :: "string \<Rightarrow> (store_error, string) result" where
  "NormalizeFilterMode mode =
     (let m = lower (trim_space mode) in
      if m = [] \<or> m = FilterModeGlobal then Inr FilterModeGlobal
      else if m = FilterModeExtend then Inr FilterModeExtend
      else if m = FilterModeOverride then Inr FilterModeOverride
      else fail (BadFilterMode mode))"

definition normalize_filter_mode :: "string \<Rightarrow> bool \<Rightarrow> string" where
  "normalize_filter_mode mode override =
     (case NormalizeFilterMode mode of
        Inr m \<Rightarrow> if m \<noteq> FilterModeGlobal then m else if override then FilterModeOverride else FilterModeGlobal
      | Inl e \<Rightarrow> if override then FilterModeOverride else FilterModeGlobal)"

section \<open>Route filters\<close>

record route_filters =
  rf_Allow :: "string list"
  rf_Deny :: "string list"

definition no_filters :: route_filters where
  "no_filters = \<lparr>rf_Allow = [], rf_Deny = []\<rparr>"

definition mergeRouteFilters :: "route_filters \<Rightarrow> route_filters \<Rightarrow> route_filters" where
  "mergeRouteFilters global user =
     \<lparr>rf_Allow = rf_Allow global @ rf_Allow user, rf_Deny = rf_Deny global @ rf_Deny user\<rparr>"

definition effectiveRouteFilters :: "string \<Rightarrow> route_filters \<Rightarrow> route_filters \<Rightarrow> route_filters" where
  "effectiveRouteFilters mode global own =
     (if mode = FilterModeOverride then own
      else if mode = FilterModeExtend then mergeRouteFilters global own
      else global)"

fun split_char :: "char \<Rightarrow> string \<Rightarrow> string list" where
  "split_char c [] = [[]]"
| "split_char c (x # xs) =
     (if x = c then [] # split_char c xs
      else (case split_char c xs of [] \<Rightarrow> [[x]] | l # ls \<Rightarrow> (x # l) # ls))"

definition newline :: char where "newline = char_of (10::nat)"

definition splitNewlines :: "string \<Rightarrow> string list" where
  "splitNewlines v =
     (if trim_space v = [] then []
      else filter (\<lambda>line. line \<noteq> [] \<and> \<not> prefix ''#'' line) (map trim_space (split_char newline v)))"

text \<open>\<open>globalRouteFilters\<close> on the settings map.\<close>

definition globalRouteFilters :: "(string \<rightharpoonup> string) \<Rightarrow> route_filters" where
  "globalRouteFilters settings =
     (let value = (\<lambda>k. case settings k of None \<Rightarrow> [] | Some v \<Rightarrow> v) in
      \<lparr>rf_Allow = splitNewlines (value ''filter_allow''), rf_Deny = splitNewlines (value ''filter_deny'')\<rparr>)"

definition normalize_values :: "string list \<Rightarrow> (store_error, string list) result" where
  "normalize_values values =
     bindE (mapE (\<lambda>v. bindE (ParsePrefixOrAddr (trim_space v)) (\<lambda>p. Inr (prefix_string (masked p))))
              (filter (\<lambda>v. trim_space v \<noteq> []) values))
       (\<lambda>cidrs. Inr (sort (remdups cidrs)))"

definition NormalizeRouteFilters :: "route_filters \<Rightarrow> (store_error, route_filters) result" where
  "NormalizeRouteFilters f =
     bindE (normalize_values (rf_Allow f)) (\<lambda>allow.
     bindE (normalize_values (rf_Deny f)) (\<lambda>deny. Inr \<lparr>rf_Allow = allow, rf_Deny = deny\<rparr>))"

definition parse_values :: "string list \<Rightarrow> (store_error, prefix list) result" where
  "parse_values values = mapE (\<lambda>v. bindE (ParsePrefixOrAddr v) (\<lambda>p. Inr (masked p))) values"

definition parseRouteFilters :: "route_filters \<Rightarrow> (store_error, lists) result" where
  "parseRouteFilters f =
     bindE (parse_values (rf_Allow f)) (\<lambda>allow.
     bindE (parse_values (rf_Deny f)) (\<lambda>deny. Inr \<lparr>Allow = allow, Deny = deny\<rparr>))"

definition applyRouteFiltersToPrefixes :: "prefix list \<Rightarrow> route_filters \<Rightarrow> (store_error, prefix list) result" where
  "applyRouteFiltersToPrefixes ps f =
     bindE (parseRouteFilters f) (\<lambda>ls. lift_filter (Apply ps ls default_max_prefixes))"

section \<open>Filter rows\<close>

definition routeFilterActionAllow :: int where "routeFilterActionAllow = 0"
definition routeFilterActionDeny :: int where "routeFilterActionDeny = 1"

type_synonym filter_row = "int \<times> byte list \<times> int"

definition add_filter_row :: "route_filters \<Rightarrow> int \<Rightarrow> prefix \<Rightarrow> route_filters" where
  "add_filter_row f action p =
     (if action = routeFilterActionAllow then f\<lparr>rf_Allow := rf_Allow f @ [prefix_string p]\<rparr>
      else f\<lparr>rf_Deny := rf_Deny f @ [prefix_string p]\<rparr>)"

fun read_filter_rows :: "route_filters \<Rightarrow> filter_row list \<Rightarrow> (store_error, route_filters) result" where
  "read_filter_rows f [] = Inr f"
| "read_filter_rows f ((action, ip, bits) # rows) =
     bindE (DecodePrefix ip bits) (\<lambda>p. read_filter_rows (add_filter_row f action p) rows)"

text \<open>\<open>readRouteFilters\<close> on the rows of one user, with the \<open>ORDER BY action, ip, bits\<close> of its query.\<close>

definition readRouteFilters :: "filter_row list \<Rightarrow> (store_error, route_filters) result" where
  "readRouteFilters rows =
     read_filter_rows no_filters (sort_key (\<lambda>(action, ip, bits). (action, map unat ip, bits)) rows)"

definition insertRouteFilters :: "route_filters \<Rightarrow> (store_error, filter_row list) result" where
  "insertRouteFilters f =
     bindE (NormalizeRouteFilters f) (\<lambda>n.
     bindE (mapE (\<lambda>c. bindE (EncodePrefixString c) (\<lambda>(ip, bits). Inr (routeFilterActionAllow, ip, bits))) (rf_Allow n)) (\<lambda>allow.
     bindE (mapE (\<lambda>c. bindE (EncodePrefixString c) (\<lambda>(ip, bits). Inr (routeFilterActionDeny, ip, bits))) (rf_Deny n)) (\<lambda>deny.
     Inr (allow @ deny))))"

text \<open>\<open>setUserRouteFiltersTx\<close>: the filters before, the filters after, and the new rows of the user.\<close>

definition setUserRouteFilters ::
  "filter_row list \<Rightarrow> route_filters \<Rightarrow> (store_error, route_filters \<times> route_filters \<times> filter_row list) result" where
  "setUserRouteFilters rows filters =
     bindE (readRouteFilters rows) (\<lambda>before.
     bindE (insertRouteFilters filters) (\<lambda>rows'.
     bindE (readRouteFilters rows') (\<lambda>after. Inr (before, after, rows'))))"

section \<open>Metadata of filtered prefixes\<close>

record user_route =
  ur_prefix :: prefix
  ur_mode :: int
  ur_category :: string
  ur_service :: string

fun best_loop :: "prefix \<Rightarrow> user_route option \<Rightarrow> user_route list \<Rightarrow> user_route option" where
  "best_loop needle best [] = best"
| "best_loop needle best (r # rs) =
     (if \<not> contains (ur_prefix r) (p_addr needle) \<or> p_bits needle < p_bits (ur_prefix r)
      then best_loop needle best rs
      else if best = None \<or> p_bits (ur_prefix (the best)) < p_bits (ur_prefix r)
      then best_loop needle (Some r) rs
      else best_loop needle best rs)"

definition findBestMatch :: "prefix \<Rightarrow> user_route list \<Rightarrow> (int \<times> string \<times> string) option" where
  "findBestMatch needle routes =
     map_option (\<lambda>r. (ur_mode r, ur_category r, ur_service r)) (best_loop needle None routes)"

section \<open>Differences and audit bounds\<close>

definition DiffStringSet :: "string list \<Rightarrow> string list \<Rightarrow> string list \<times> string list" where
  "DiffStringSet before after =
     (filter (\<lambda>v. v \<notin> set after) before, filter (\<lambda>v. v \<notin> set before) after)"

definition diffRouteFilters :: "route_filters \<Rightarrow> route_filters \<Rightarrow> route_filters \<times> route_filters" where
  "diffRouteFilters before after =
     (let (removed_allow, added_allow) = DiffStringSet (rf_Allow before) (rf_Allow after);
          (removed_deny, added_deny) = DiffStringSet (rf_Deny before) (rf_Deny after)
      in (\<lparr>rf_Allow = removed_allow, rf_Deny = removed_deny\<rparr>, \<lparr>rf_Allow = added_allow, rf_Deny = added_deny\<rparr>))"

definition MaxAuditDiffEntries :: nat where "MaxAuditDiffEntries = 50"
definition MaxAuditEntryBytes :: nat where "MaxAuditEntryBytes = 256"

definition rune_start :: "char \<Rightarrow> bool" where
  "rune_start c = ((of_char c :: byte) AND 0xC0 \<noteq> 0x80)"

fun rune_cut :: "string \<Rightarrow> nat \<Rightarrow> nat" where
  "rune_cut s 0 = 0"
| "rune_cut s (Suc n) = (if rune_start (s ! Suc n) then Suc n else rune_cut s n)"

definition truncateUTF8 :: "string \<Rightarrow> nat \<Rightarrow> string" where
  "truncateUTF8 s max_bytes = (if length s \<le> max_bytes then s else take (rune_cut s max_bytes) s)"

definition BoundDiffEntries :: "string list \<Rightarrow> string list \<times> nat" where
  "BoundDiffEntries entries =
     (map (\<lambda>e. truncateUTF8 e MaxAuditEntryBytes) (take MaxAuditDiffEntries entries),
      length entries - MaxAuditDiffEntries)"

definition BoundSlice :: "'a list \<Rightarrow> nat \<Rightarrow> 'a list \<times> nat" where
  "BoundSlice items max_items =
     (if length items \<le> max_items then (items, 0) else (take max_items items, length items - max_items))"

record audit_string_list =
  as_Entries :: "string list"
  as_Truncated :: nat

definition BoundStringListForAudit :: "string list \<Rightarrow> audit_string_list" where
  "BoundStringListForAudit entries =
     (let (capped, truncated) = BoundDiffEntries entries in \<lparr>as_Entries = capped, as_Truncated = truncated\<rparr>)"

record audit_route_filters =
  arf_Allow :: audit_string_list
  arf_Deny :: audit_string_list

definition BoundRouteFiltersForAudit :: "route_filters \<Rightarrow> audit_route_filters" where
  "BoundRouteFiltersForAudit f =
     \<lparr>arf_Allow = BoundStringListForAudit (rf_Allow f), arf_Deny = BoundStringListForAudit (rf_Deny f)\<rparr>"

section \<open>Stored prefixes are read back\<close>

lemma DecodePrefix_EncodePrefix:
  assumes "prefix_ok p"
  shows "case_prod DecodePrefix (EncodePrefix p) = Inr (masked p)"
proof -
  have ok: "prefix_ok (masked p)" using assms by (rule prefix_ok_masked)
  then have a: "addr_ok (p_addr (masked p))" "p_bits (masked p) \<le> p_bitlen (masked p)"
    by (simp_all add: prefix_ok_def prefix_is_valid_def)
  then have "prefix_from (p_addr (masked p)) (int (p_bits (masked p))) = masked p"
    by (cases "masked p") (simp add: prefix_from_def)
  moreover have "prefix_is_valid (masked p)" using ok by (simp add: prefix_ok_def)
  ultimately show ?thesis
    using addr_from_slice_as_slice [OF a(1)]
    by (simp add: EncodePrefix_def DecodePrefix_def DecodeAddr_def Let_def)
qed

lemma DecodePrefix_ok: "DecodePrefix ip bits = Inr p \<Longrightarrow> prefix_ok p"
  using addr_from_slice_ok [of ip]
  by (auto simp: DecodePrefix_def DecodeAddr_def Let_def prefix_ok_def prefix_from_def prefix_is_valid_def
      split: option.splits if_splits)

lemma ParsePrefixOrAddr_ok:
  assumes "ParsePrefixOrAddr s = Inr p"
  shows "prefix_ok p"
proof (cases "parse_prefix s")
  case None
  then obtain a where "parse_addr_zone s = Some (a, [])" "p = Prefix a (addr_bitlen a)"
    using assms by (auto simp: ParsePrefixOrAddr_def prefix_from_def split: option.splits if_splits)
  then show ?thesis using parse_addr_zone_ok by (auto simp: prefix_ok_def prefix_is_valid_def)
next
  case (Some q)
  then show ?thesis using assms parse_prefix_ok by (simp add: ParsePrefixOrAddr_def)
qed

lemma ParsePrefixOrAddr_string: "prefix_ok p \<Longrightarrow> ParsePrefixOrAddr (prefix_string p) = Inr p"
  by (simp add: ParsePrefixOrAddr_def parse_prefix_string)

lemma EncodePrefixString_string: "prefix_ok p \<Longrightarrow> EncodePrefixString (prefix_string p) = Inr (EncodePrefix p)"
  by (simp add: EncodePrefixString_def parse_prefix_string)

section \<open>Loops with errors\<close>

lemma mapE_Inr_iff: "mapE f xs = Inr ys \<longleftrightarrow> list_all2 (\<lambda>x y. f x = Inr y) xs ys"
proof (induction xs arbitrary: ys)
  case (Cons x xs)
  then show ?case
    by (cases ys) (auto simp: bindE_eq_Inr_iff)
qed auto

lemma mapE_ok: "(\<And>x. x \<in> set xs \<Longrightarrow> f x = Inr (g x)) \<Longrightarrow> mapE f xs = Inr (map g xs)"
  by (induction xs) simp_all

lemma mapE_map: "mapE f (map g xs) = mapE (\<lambda>x. f (g x)) xs"
  by (induction xs) simp_all

section \<open>Normal forms of filters\<close>

text \<open>The filters of a list of masked prefixes, as they are printed.\<close>

definition printed :: "prefix list \<Rightarrow> string list" where
  "printed ps = map prefix_string ps"

lemma parse_printed:
  assumes "\<forall>p \<in> set ps. network p"
  shows "parse_values (printed ps) = Inr ps"
proof -
  have "bindE (ParsePrefixOrAddr (prefix_string p)) (\<lambda>p. Inr (masked p)) = Inr p" if "p \<in> set ps" for p
    using assms that by (simp add: ParsePrefixOrAddr_string network_sel)
  then show ?thesis by (simp add: parse_values_def printed_def mapE_map mapE_ok [of _ _ "\<lambda>p. p"])
qed

definition trimmed :: "string list \<Rightarrow> string list" where
  "trimmed vs = map trim_space (filter (\<lambda>v. trim_space v \<noteq> []) vs)"

lemma parse_values_networks: "parse_values vs = Inr ps \<Longrightarrow> \<forall>p \<in> set ps. network p"
proof (induction vs arbitrary: ps)
  case (Cons v vs)
  then show ?case
    by (auto simp: parse_values_def bindE_eq_Inr_iff dest!: ParsePrefixOrAddr_ok intro: network_masked)
qed (simp add: parse_values_def)

lemma normalize_values_printed:
  assumes "parse_values (trimmed vs) = Inr ps"
  obtains qs where "normalize_values vs = Inr (printed qs)" "set qs = set ps" "distinct qs"
proof -
  have "mapE (\<lambda>v. bindE (ParsePrefixOrAddr (trim_space v)) (\<lambda>p. Inr (prefix_string (masked p))))
      (filter (\<lambda>v. trim_space v \<noteq> []) vs) = Inr (printed ps)"
    using assms by (auto simp: parse_values_def trimmed_def mapE_map mapE_Inr_iff printed_def list_all2_conv_all_nth bindE_eq_Inr_iff)
  then have n: "normalize_values vs = Inr (sort (remdups (printed ps)))" by (simp add: normalize_values_def)
  have net: "\<forall>p \<in> set ps. prefix_ok p" using parse_values_networks [OF assms] by (simp add: network_sel)
  define qs where "qs = map (\<lambda>s. the (parse_prefix s)) (sort (remdups (printed ps)))"
  have "printed qs = sort (remdups (printed ps))"
    unfolding qs_def printed_def map_map
    by (rule map_idI) (use net in \<open>auto simp: parse_prefix_string\<close>)
  moreover have "set qs = set ps"
    using net by (auto simp: qs_def printed_def image_image parse_prefix_string)
  moreover have "distinct qs"
  proof -
    have "distinct (printed qs)" by (simp add: calculation(1))
    then show ?thesis by (simp add: printed_def distinct_map)
  qed
  ultimately show thesis using n that by metis
qed

lemma normalize_values_error:
  "parse_values (trimmed vs) = Inl e \<Longrightarrow> normalize_values vs = Inl e"
proof -
  assume a: "parse_values (trimmed vs) = Inl e"
  have "mapE (\<lambda>v. bindE (ParsePrefixOrAddr (trim_space v)) (\<lambda>p. Inr (g p))) xs = Inl e"
    if "mapE (\<lambda>v. bindE (ParsePrefixOrAddr (trim_space v)) (\<lambda>p. Inr (masked p))) xs = Inl e" for xs and g :: "prefix \<Rightarrow> string"
    using that
  proof (induction xs)
    case (Cons x xs)
    then show ?case
      by (cases "ParsePrefixOrAddr (trim_space x)";
          cases "mapE (\<lambda>v. bindE (ParsePrefixOrAddr (trim_space v)) (\<lambda>p. Inr (masked p))) xs") auto
  qed simp
  with a show ?thesis by (simp add: parse_values_def trimmed_def mapE_map normalize_values_def)
qed


text \<open>Texts of visible ASCII characters have nothing to trim.\<close>

definition plain_char :: "char \<Rightarrow> bool" where
  "plain_char c = (32 < (of_char c :: nat) \<and> (of_char c :: nat) < 128)"

lemma spaces_not_plain:
  assumes "w \<in> set space_strings" "c \<in> set w"
  shows "\<not> plain_char c"
proof -
  have "\<forall>bs \<in> set spaces. \<forall>b \<in> set bs. b < 256 \<and> (b \<le> 32 \<or> 128 \<le> b)"
    by (auto simp: spaces_def upt_rec)
  then show ?thesis using assms by (fastforce simp: space_strings_def plain_char_def)
qed

lemma trim_front_plain:
  assumes "\<forall>w \<in> set ws. \<forall>c \<in> set w. \<not> plain_char c" "\<forall>c \<in> set s. plain_char c"
  shows "trim_front ws s = s"
proof -
  have "\<not> prefix w s" if "w \<in> set ws" "w \<noteq> []" for w
    using assms that by (cases w) (auto simp: prefix_def)
  then have "find (\<lambda>w. w \<noteq> [] \<and> prefix w s) ws = None" by (auto simp: find_None_iff)
  then show ?thesis by (subst trim_front.simps) simp
qed

lemma trim_space_plain: "\<forall>c \<in> set s. plain_char c \<Longrightarrow> trim_space s = s"
  using trim_front_plain [of space_strings s] trim_front_plain [of "map rev space_strings" "rev s"] spaces_not_plain
  by (auto simp: trim_space_def)

section \<open>Rows of filters\<close>

lemma mapE_encode:
  assumes "\<forall>p \<in> set qs. network p"
  shows "mapE (\<lambda>c. bindE (EncodePrefixString c) (\<lambda>(ip, bits). Inr (act, ip, bits))) (printed qs) =
    Inr (map (\<lambda>p. (act, EncodePrefix p)) qs)"
proof -
  have "bindE (EncodePrefixString (prefix_string p)) (\<lambda>(ip, bits). Inr (act, ip, bits)) = Inr (act, EncodePrefix p)"
    if "p \<in> set qs" for p
    using assms that by (simp add: EncodePrefixString_string network_sel split: prod.splits)
  then show ?thesis
    unfolding printed_def mapE_map by (rule mapE_ok)
qed

text \<open>Reading rows of encoded prefixes gives their printed forms, by action, in the order of the rows.\<close>

lemma read_encoded_rows:
  assumes "\<forall>(act, p) \<in> set aps. network p"
  shows "read_filter_rows f (map (\<lambda>(act, p). (act, EncodePrefix p)) aps) =
    Inr \<lparr>rf_Allow = rf_Allow f @ printed (map snd (filter (\<lambda>(act, p). act = routeFilterActionAllow) aps)),
         rf_Deny = rf_Deny f @ printed (map snd (filter (\<lambda>(act, p). act \<noteq> routeFilterActionAllow) aps))\<rparr>"
  using assms
proof (induction aps arbitrary: f)
  case (Cons ap aps)
  obtain act p where ap: "ap = (act, p)" by fastforce
  obtain ip bits where e: "EncodePrefix p = (ip, bits)" by fastforce
  have "DecodePrefix ip bits = Inr p"
    using DecodePrefix_EncodePrefix [of p] Cons.prems by (simp add: ap e network_sel)
  then show ?case
    using Cons by (simp add: ap e add_filter_row_def printed_def)
qed (simp add: printed_def)

lemma insort_key_map: "insort_key k (f x) (map f ys) = map f (insort_key (\<lambda>y. k (f y)) x ys)"
  by (induction ys) simp_all

lemma sort_key_map: "sort_key k (map f xs) = map f (sort_key (\<lambda>x. k (f x)) xs)"
  by (induction xs) (simp_all add: insort_key_map)

lemma readRouteFilters_encoded:
  assumes "\<forall>(act, p) \<in> set aps. network p"
  obtains bps where "readRouteFilters (map (\<lambda>(act, p). (act, EncodePrefix p)) aps) =
      Inr \<lparr>rf_Allow = printed (map snd (filter (\<lambda>(act, p). act = routeFilterActionAllow) bps)),
           rf_Deny = printed (map snd (filter (\<lambda>(act, p). act \<noteq> routeFilterActionAllow) bps))\<rparr>"
    "mset bps = mset aps"
proof -
  define bps where "bps = sort_key (\<lambda>x. case (case x of (act, p) \<Rightarrow> (act, EncodePrefix p)) of (action, ip, bits) \<Rightarrow> (action, map unat ip, bits)) aps"
  have "mset bps = mset aps" by (simp add: bps_def)
  then have "\<forall>(act, p) \<in> set bps. network p" using assms by (metis set_mset_mset)
  then show thesis
    using that [OF _ \<open>mset bps = mset aps\<close>] read_encoded_rows [of bps no_filters]
    unfolding readRouteFilters_def sort_key_map by (simp add: bps_def [symmetric] no_filters_def)
qed

text \<open>The filters with their values trimmed and blank values left out.\<close>

definition trimmed_filters :: "route_filters \<Rightarrow> route_filters" where
  "trimmed_filters f = \<lparr>rf_Allow = trimmed (rf_Allow f), rf_Deny = trimmed (rf_Deny f)\<rparr>"

lemma parseRouteFilters_split:
  "parseRouteFilters f = Inr ls \<longleftrightarrow> parse_values (rf_Allow f) = Inr (Allow ls) \<and> parse_values (rf_Deny f) = Inr (Deny ls)"
  by (cases ls) (auto simp: parseRouteFilters_def bindE_eq_Inr_iff)

lemma setUserRouteFilters_rows:
  assumes "parseRouteFilters (trimmed_filters f) = Inr ls" "readRouteFilters rows = Inr before"
  obtains after rows' ls' where
    "setUserRouteFilters rows f = Inr (before, after, rows')" "readRouteFilters rows' = Inr after"
    "parseRouteFilters after = Inr ls'" "set (Allow ls') = set (Allow ls)" "set (Deny ls') = set (Deny ls)"
    "distinct (Allow ls')" "distinct (Deny ls')"
proof -
  have p: "parse_values (trimmed (rf_Allow f)) = Inr (Allow ls)" "parse_values (trimmed (rf_Deny f)) = Inr (Deny ls)"
    using assms(1) by (simp_all add: parseRouteFilters_split trimmed_filters_def)
  obtain as where as: "normalize_values (rf_Allow f) = Inr (printed as)" "set as = set (Allow ls)" "distinct as"
    using normalize_values_printed [OF p(1)] .
  obtain ds where ds: "normalize_values (rf_Deny f) = Inr (printed ds)" "set ds = set (Deny ls)" "distinct ds"
    using normalize_values_printed [OF p(2)] .
  have net: "\<forall>p \<in> set as. network p" "\<forall>p \<in> set ds. network p"
    using parse_values_networks [OF p(1)] parse_values_networks [OF p(2)] as(2) ds(2) by simp_all
  define aps where "aps = map (Pair routeFilterActionAllow) as @ map (Pair routeFilterActionDeny) ds"
  have rows: "insertRouteFilters f = Inr (map (\<lambda>(act, p). (act, EncodePrefix p)) aps)"
    by (simp add: insertRouteFilters_def NormalizeRouteFilters_def as(1) ds(1) mapE_encode [OF net(1)]
        mapE_encode [OF net(2)] aps_def o_def)
  have "\<forall>(act, p) \<in> set aps. network p" using net by (auto simp: aps_def)
  then obtain bps where bps:
    "readRouteFilters (map (\<lambda>(act, p). (act, EncodePrefix p)) aps) =
      Inr \<lparr>rf_Allow = printed (map snd (filter (\<lambda>(act, p). act = routeFilterActionAllow) bps)),
           rf_Deny = printed (map snd (filter (\<lambda>(act, p). act \<noteq> routeFilterActionAllow) bps))\<rparr>"
    "mset bps = mset aps"
    by (rule readRouteFilters_encoded)
  let ?A = "map snd (filter (\<lambda>(act, p). act = routeFilterActionAllow) bps)"
    and ?D = "map snd (filter (\<lambda>(act, p). act \<noteq> routeFilterActionAllow) bps)"
  have "mset ?A = mset (map snd (filter (\<lambda>(act, p). act = routeFilterActionAllow) aps))"
    "mset ?D = mset (map snd (filter (\<lambda>(act, p). act \<noteq> routeFilterActionAllow) aps))"
    using bps(2) by (simp_all only: mset_map mset_filter)
  moreover have "map snd (filter (\<lambda>(act, p). act = routeFilterActionAllow) aps) = as"
    "map snd (filter (\<lambda>(act, p). act \<noteq> routeFilterActionAllow) aps) = ds"
    by (simp_all add: aps_def routeFilterActionAllow_def routeFilterActionDeny_def filter_map o_def)
  ultimately have AD: "mset ?A = mset as" "mset ?D = mset ds" by simp_all
  then have sets: "set ?A = set as" "set ?D = set ds" "distinct ?A" "distinct ?D"
    using as(3) ds(3) mset_eq_setD mset_eq_imp_distinct_iff by blast+
  let ?after = "\<lparr>rf_Allow = printed ?A, rf_Deny = printed ?D\<rparr>"
  have "parse_values (printed ?A) = Inr ?A" "parse_values (printed ?D) = Inr ?D"
    using net by (simp_all only: sets parse_printed)
  then have "parseRouteFilters ?after = Inr \<lparr>Allow = ?A, Deny = ?D\<rparr>" by (simp add: parseRouteFilters_split)
  moreover have "setUserRouteFilters rows f = Inr (before, ?after, map (\<lambda>(act, p). (act, EncodePrefix p)) aps)"
    by (simp add: setUserRouteFilters_def assms(2) rows bps(1))
  ultimately show thesis
    using that [of ?after _ "\<lparr>Allow = ?A, Deny = ?D\<rparr>"] bps(1) sets as(2) ds(2) by simp
qed

lemma Apply_set_cong:
  assumes "set (Allow ls) = set (Allow ls')" "set (Deny ls) = set (Deny ls')" "well_formed (Allow ls)" "well_formed (Deny ls)"
  shows "Apply ps ls m = Apply ps ls' m"
  unfolding Apply_def intersect_def Let_def normalize_set_cong [OF assms(1) well_formedD [OF assms(3)]]
    normalize_set_cong [OF assms(2) well_formedD [OF assms(4)]] ..

text \<open>C10: storing the route filters of a user does not change what they do. The texts the user typed are
  normalised, encoded into rows, read back in the order of the query and printed again; the filters that
  come back parse, and select the same prefixes with the same errors as the trimmed text does.\<close>

theorem stored_filters_equivalent:
  assumes "parseRouteFilters (trimmed_filters f) = Inr ls" "readRouteFilters rows = Inr before"
  shows "\<exists>after rows'. setUserRouteFilters rows f = Inr (before, after, rows') \<and> readRouteFilters rows' = Inr after \<and>
    (\<forall>ps. applyRouteFiltersToPrefixes ps after = applyRouteFiltersToPrefixes ps (trimmed_filters f))"
proof -
  obtain after rows' ls' where r: "setUserRouteFilters rows f = Inr (before, after, rows')" "readRouteFilters rows' = Inr after"
    and p: "parseRouteFilters after = Inr ls'" "set (Allow ls') = set (Allow ls)" "set (Deny ls') = set (Deny ls)"
    using setUserRouteFilters_rows [OF assms] by metis
  have net: "\<forall>p \<in> set (Allow ls). network p" "\<forall>p \<in> set (Deny ls). network p"
    using assms(1) parse_values_networks by (auto simp: parseRouteFilters_split)
  then have "well_formed (Allow ls')" "well_formed (Deny ls')"
    by (simp_all add: well_formed_def p network_sel)
  then have "Apply ps ls' m = Apply ps ls m" for ps m
    by (intro Apply_set_cong p(2, 3))
  then have "applyRouteFiltersToPrefixes ps after = applyRouteFiltersToPrefixes ps (trimmed_filters f)" for ps
    by (simp add: applyRouteFiltersToPrefixes_def p(1) assms(1))
  with r show ?thesis by blast
qed

definition sample_filters :: route_filters where
  "sample_filters = \<lparr>rf_Allow = [''::/0''], rf_Deny = [''::'']\<rparr>"

lemma sample_trimmed: "trimmed_filters sample_filters = \<lparr>rf_Allow = [''::/0''], rf_Deny = [''::'']\<rparr>"
  by (simp add: trimmed_filters_def trimmed_def sample_filters_def trim_space_plain plain_char_def)

lemma sample_parsed: "parseRouteFilters (trimmed_filters sample_filters) =
  Inr \<lparr>Allow = [Prefix (Addr IPv6 0) 0], Deny = [Prefix (Addr IPv6 0) 128]\<rparr>"
  unfolding sample_trimmed
  by (simp add: parseRouteFilters_def parse_values_def ParsePrefixOrAddr_def parse_prefix_def parse_addr_def
      parse_addr_zone_def parse6_def parse_bits_def dec_val_def Let_def masked_def prefix_from_def)

theorem stored_filters_equivalent_witness:
  "\<exists>after rows'. setUserRouteFilters [] sample_filters = Inr (no_filters, after, rows') \<and> readRouteFilters rows' = Inr after \<and>
    applyRouteFiltersToPrefixes [net24] after = applyRouteFiltersToPrefixes [net24] (trimmed_filters sample_filters)"
proof -
  have "readRouteFilters [] = Inr no_filters" by (simp add: readRouteFilters_def)
  from stored_filters_equivalent [OF sample_parsed this] show ?thesis by blast
qed

section \<open>The best match\<close>

definition covering :: "prefix \<Rightarrow> user_route \<Rightarrow> bool" where
  "covering needle r = (contains (ur_prefix r) (p_addr needle) \<and> p_bits (ur_prefix r) \<le> p_bits needle)"

abbreviation ur_bits :: "user_route \<Rightarrow> nat" where "ur_bits r \<equiv> p_bits (ur_prefix r)"

lemma best_loop_step:
  "best_loop needle best (q # rs) =
     best_loop needle (if covering needle q \<and> (best = None \<or> ur_bits (the best) < ur_bits q) then Some q else best) rs"
  by (auto simp: covering_def)

lemma best_loop_None: "best_loop needle best rs = None \<longleftrightarrow> best = None \<and> (\<forall>x \<in> set rs. \<not> covering needle x)"
proof (induction rs arbitrary: best)
  case (Cons q rs)
  then show ?case unfolding best_loop_step by (cases best) auto
qed simp

lemma best_loop_max:
  "best_loop needle best rs = Some r \<Longrightarrow>
     (\<forall>x \<in> set rs. covering needle x \<longrightarrow> ur_bits x \<le> ur_bits r) \<and> (\<forall>b. best = Some b \<longrightarrow> ur_bits b \<le> ur_bits r)"
proof (induction rs arbitrary: best)
  case (Cons q rs)
  then show ?case unfolding best_loop_step by (cases best) (fastforce split: if_splits)+
qed simp

lemma best_loop_first:
  "best_loop needle best rs = Some r \<Longrightarrow>
     best = Some r \<or>
     (\<exists>xs ys. rs = xs @ r # ys \<and> covering needle r \<and> (\<forall>x \<in> set xs. covering needle x \<longrightarrow> ur_bits x < ur_bits r) \<and>
        (\<forall>b. best = Some b \<longrightarrow> ur_bits b < ur_bits r))"
proof (induction rs arbitrary: best)
  case (Cons q rs)
  let ?best = "if covering needle q \<and> (best = None \<or> ur_bits (the best) < ur_bits q) then Some q else best"
  from Cons.prems have loop: "best_loop needle ?best rs = Some r" by (simp only: best_loop_step)
  from Cons.IH [OF this] show ?case
  proof
    assume b: "?best = Some r"
    show ?thesis
    proof (cases "covering needle q \<and> (best = None \<or> ur_bits (the best) < ur_bits q)")
      case True
      with b have "q = r" by simp
      with True show ?thesis by (intro disjI2 exI [of _ "[]"] exI [of _ rs]) auto
    next
      case False
      with b show ?thesis by simp
    qed
  next
    assume "\<exists>xs ys. rs = xs @ r # ys \<and> covering needle r \<and> (\<forall>x \<in> set xs. covering needle x \<longrightarrow> ur_bits x < ur_bits r) \<and>
        (\<forall>b. ?best = Some b \<longrightarrow> ur_bits b < ur_bits r)"
    then obtain xs ys where xs: "rs = xs @ r # ys" "covering needle r"
        "\<forall>x \<in> set xs. covering needle x \<longrightarrow> ur_bits x < ur_bits r" "\<forall>b. ?best = Some b \<longrightarrow> ur_bits b < ur_bits r"
      by blast
    have "covering needle q \<longrightarrow> ur_bits q < ur_bits r" "\<forall>b. best = Some b \<longrightarrow> ur_bits b < ur_bits r"
      using xs(4) by (cases best; auto split: if_splits)+
    with xs show ?thesis by (intro disjI2 exI [of _ "q # xs"] exI [of _ ys]) auto
  qed
qed simp

text \<open>the metadata of a filtered prefix come from the first of the longest selected routes that contain
  it, and are missing exactly when no selected route contains it.\<close>

theorem findBestMatch_longest:
  "(findBestMatch needle routes = None \<longleftrightarrow> (\<nexists>r. r \<in> set routes \<and> covering needle r)) \<and>
   (\<forall>m. findBestMatch needle routes = Some m \<longrightarrow>
     (\<exists>xs r ys. routes = xs @ r # ys \<and> m = (ur_mode r, ur_category r, ur_service r) \<and> covering needle r \<and>
        addrs_of needle \<subseteq> addrs_of (ur_prefix r) \<and>
        (\<forall>x \<in> set xs. covering needle x \<longrightarrow> ur_bits x < ur_bits r) \<and>
        (\<forall>y \<in> set ys. covering needle y \<longrightarrow> ur_bits y \<le> ur_bits r)))"
proof (intro conjI allI impI)
  show "findBestMatch needle routes = None \<longleftrightarrow> (\<nexists>r. r \<in> set routes \<and> covering needle r)"
    by (auto simp: findBestMatch_def best_loop_None)
next
  fix m
  assume "findBestMatch needle routes = Some m"
  then obtain r where r: "best_loop needle None routes = Some r" "m = (ur_mode r, ur_category r, ur_service r)"
    by (auto simp: findBestMatch_def)
  obtain xs ys where xs: "routes = xs @ r # ys" "covering needle r" "\<forall>x \<in> set xs. covering needle x \<longrightarrow> ur_bits x < ur_bits r"
    using best_loop_first [OF r(1)] by auto
  moreover have "\<forall>y \<in> set ys. covering needle y \<longrightarrow> ur_bits y \<le> ur_bits r"
    using best_loop_max [OF r(1)] xs(1) by simp
  moreover have "addrs_of needle \<subseteq> addrs_of (ur_prefix r)"
    using addrs_of_subset xs(2) by (simp add: covering_def)
  ultimately show "\<exists>xs r ys. routes = xs @ r # ys \<and> m = (ur_mode r, ur_category r, ur_service r) \<and> covering needle r \<and>
        addrs_of needle \<subseteq> addrs_of (ur_prefix r) \<and>
        (\<forall>x \<in> set xs. covering needle x \<longrightarrow> ur_bits x < ur_bits r) \<and>
        (\<forall>y \<in> set ys. covering needle y \<longrightarrow> ur_bits y \<le> ur_bits r)"
    using r(2) by blast
qed

theorem findBestMatch_longest_witness:
  "\<exists>xs r ys. [\<lparr>ur_prefix = net8, ur_mode = 1, ur_category = ''a'', ur_service = ''b''\<rparr>] = xs @ r # ys \<and>
     (1, ''a'', ''b'') = (ur_mode r, ur_category r, ur_service r) \<and> addrs_of net24 \<subseteq> addrs_of (ur_prefix r)"
proof -
  have "findBestMatch net24 [\<lparr>ur_prefix = net8, ur_mode = 1, ur_category = ''a'', ur_service = ''b''\<rparr>] = Some (1, ''a'', ''b'')"
    by (simp add: findBestMatch_def net8_def net24_def contains_def prefix_is_valid_def)
  then show ?thesis
    using findBestMatch_longest [of net24 "[\<lparr>ur_prefix = net8, ur_mode = 1, ur_category = ''a'', ur_service = ''b''\<rparr>]"] by blast
qed

section \<open>Audit bounds\<close>

lemma rune_cut_le: "rune_cut s n \<le> n"
  by (induction n) simp_all

lemma rune_cut_start: "0 < rune_cut s n \<Longrightarrow> rune_start (s ! rune_cut s n)"
  by (induction n) (auto split: if_splits)

lemma rune_cut_skipped: "rune_cut s n < i \<Longrightarrow> i \<le> n \<Longrightarrow> \<not> rune_start (s ! i)"
  by (induction n) (auto simp: le_Suc_eq split: if_splits)

text \<open>an audit entry holds at most 50 values of at most 256 bytes each, says how many values it leaves
  out, and a shortened value is the longest front part that ends where a character of the text begins.\<close>

theorem audit_entries_bounded:
  "length (as_Entries (BoundStringListForAudit es)) \<le> 50 \<and>
   length (as_Entries (BoundStringListForAudit es)) + as_Truncated (BoundStringListForAudit es) = length es \<and>
   (\<forall>i < length (as_Entries (BoundStringListForAudit es)).
      (\<exists>k. as_Entries (BoundStringListForAudit es) ! i = take k (es ! i) \<and> k \<le> 256 \<and>
        (length (es ! i) \<le> 256 \<longrightarrow> as_Entries (BoundStringListForAudit es) ! i = es ! i) \<and>
        (256 < length (es ! i) \<longrightarrow> (0 < k \<longrightarrow> rune_start (es ! i ! k)) \<and> (\<forall>j. k < j \<and> j \<le> 256 \<longrightarrow> \<not> rune_start (es ! i ! j)))))"
proof -
  have cut: "\<exists>k. truncateUTF8 s 256 = take k s \<and> k \<le> 256 \<and> (length s \<le> 256 \<longrightarrow> truncateUTF8 s 256 = s) \<and>
      (256 < length s \<longrightarrow> (0 < k \<longrightarrow> rune_start (s ! k)) \<and> (\<forall>j. k < j \<and> j \<le> 256 \<longrightarrow> \<not> rune_start (s ! j)))" for s
  proof (cases "length s \<le> 256")
    case True
    then show ?thesis by (intro exI [of _ "length s"]) (simp add: truncateUTF8_def)
  next
    case False
    then show ?thesis
      using rune_cut_le [of s 256] rune_cut_start [of s 256] rune_cut_skipped [of s 256]
      by (intro exI [of _ "rune_cut s 256"]) (simp add: truncateUTF8_def)
  qed
  show ?thesis
    using cut by (simp add: BoundStringListForAudit_def BoundDiffEntries_def MaxAuditDiffEntries_def MaxAuditEntryBytes_def)
qed

theorem audit_entries_bounded_witness:
  "length (as_Entries (BoundStringListForAudit (replicate 60 ''x''))) + as_Truncated (BoundStringListForAudit (replicate 60 ''x'')) = 60"
  using audit_entries_bounded [of "replicate 60 ''x''"] by simp

end
