(* ===== verification/Store_Tables.thy ===== *)
theory Store_Tables
  imports Store_Filters Prefix_Exclude
begin

text \<open>
  The database of \<open>internal/store\<close> and the operations on the catalogue: \<open>dictionaries.go\<close>,
  \<open>mode_entries.go\<close> and the writing operations of \<open>feeds.go\<close> and \<open>modes.go\<close>. A table is the list of its
  rows; a query is a list comprehension over the tables, \<open>SELECT DISTINCT\<close> is \<open>remdups\<close>; the constraints of
  the schema (primary keys, \<open>UNIQUE\<close>, foreign keys and their cascades) are written out where a statement
  meets them, and a violated one is the error \<open>DbError\<close>. An operation returns the new database or an error;
  \<open>transaction\<close> keeps the old one after an error. Times, sizes of files and the rows of the audit log are
  not part of the state.
\<close>

named_theorems db_simps "what an operation leaves unchanged"

section \<open>Tables\<close>

record category_row =
  ct_id :: int
  ct_name :: string

record service_row =
  sv_id :: int
  sv_category :: int
  sv_name :: string

record prefix_row =
  px_id :: int
  px_ip :: "byte list"
  px_bits :: int

record mode_row =
  md_id :: int
  md_name :: string
  md_enabled :: bool

record feed_row =
  fd_id :: int
  fd_name :: string
  fd_url :: string
  fd_adapter :: int
  fd_enabled :: bool
  fd_sync_interval :: int
  fd_data :: string
  fd_allowed_hosts :: string
  fd_restrict_hosts :: bool
  fd_last_success :: int
  fd_last_error :: string

record mode_feed =
  mf_mode :: int
  mf_feed :: int
  mf_exclude :: bool

record user_row =
  us_id :: int
  us_name :: string
  us_peer_ip :: "byte list"
  us_peer_asn :: u32
  us_next_hop :: "byte list option"
  us_password :: string
  us_locked :: bool
  us_enabled :: bool
  us_filter_mode :: int
  us_filter_editable :: bool
  us_mode :: int
  us_mode_editable :: bool
  us_active_dial :: bool
  us_web_auth :: int

record community_row =
  cm_mode :: int
  cm_category :: int
  cm_service :: int
  cm_community :: u32

text \<open>
  Tables that only link ids are lists of tuples: \<open>catalog_entries\<close> is (feed, service, prefix),
  \<open>catalog_mode_entries\<close> is (mode, service, prefix), the selections are (user, mode, category or service),
  \<open>user_networks\<close> is (user, ip, bits), \<open>user_route_filters\<close> a user and a filter row, and
  \<open>feed_adapters\<close> is reduced to (id, revision).
\<close>

record db =
  categories :: "category_row list"
  services :: "service_row list"
  prefix_rows :: "prefix_row list"
  entries :: "(int \<times> int \<times> int) list"
  mode_entries :: "(int \<times> int \<times> int) list"
  modes :: "mode_row list"
  adapters :: "(int \<times> int) list"
  feeds :: "feed_row list"
  mode_feeds :: "mode_feed list"
  users :: "user_row list"
  networks :: "(int \<times> byte list \<times> int) list"
  selected_categories :: "(int \<times> int \<times> int) list"
  selected_services :: "(int \<times> int \<times> int) list"
  filter_rows :: "(int \<times> filter_row) list"
  communities :: "community_row list"
  settings :: "(string \<times> string) list"

text \<open>The rowid SQLite gives a new row.\<close>

definition new_rowid :: "int list \<Rightarrow> int" where
  "new_rowid ids = foldr max ids 0 + 1"

definition guardE :: "bool \<Rightarrow> 'a \<Rightarrow> (store_error, 'a) result" where
  "guardE b x = (if b then Inr x else fail DbError)"

fun foldE :: "('s \<Rightarrow> 'a \<Rightarrow> ('e, 's) result) \<Rightarrow> 's \<Rightarrow> 'a list \<Rightarrow> ('e, 's) result" where
  "foldE f s [] = Inr s"
| "foldE f s (x # xs) = bindE (f s x) (\<lambda>s'. foldE f s' xs)"

text \<open>\<open>Store.Transaction\<close> without its retries: an error rolls back.\<close>

definition transaction :: "(db \<Rightarrow> (store_error, db \<times> 'a) result) \<Rightarrow> db \<Rightarrow> db \<times> (store_error, 'a) result" where
  "transaction f db = (case f db of Inl e \<Rightarrow> (db, Inl e) | Inr (db', x) \<Rightarrow> (db', Inr x))"

section \<open>Dictionaries\<close>

definition insert_category :: "string \<Rightarrow> db \<Rightarrow> db" where
  "insert_category name db =
     (if name \<in> set (map ct_name (categories db)) then db
      else db\<lparr>categories := categories db @ [\<lparr>ct_id = new_rowid (map ct_id (categories db)), ct_name = name\<rparr>]\<rparr>)"

definition EnsureCategoryID :: "db \<Rightarrow> string \<Rightarrow> (store_error, db \<times> int) result" where
  "EnsureCategoryID db name =
     (let db1 = insert_category name db in
      case find (\<lambda>r. ct_name r = name) (categories db1) of
        None \<Rightarrow> fail NoRows
      | Some r \<Rightarrow> Inr (db1, ct_id r))"

definition insert_service :: "int \<Rightarrow> string \<Rightarrow> db \<Rightarrow> (store_error, db) result" where
  "insert_service category name db =
     (if (category, name) \<in> set (map (\<lambda>r. (sv_category r, sv_name r)) (services db)) then Inr db
      else guardE (category \<in> set (map ct_id (categories db)))
        (db\<lparr>services := services db @
           [\<lparr>sv_id = new_rowid (map sv_id (services db)), sv_category = category, sv_name = name\<rparr>]\<rparr>))"

definition EnsureServiceID :: "db \<Rightarrow> string \<Rightarrow> string \<Rightarrow> (store_error, db \<times> int) result" where
  "EnsureServiceID db category service =
     bindE (EnsureCategoryID db category) (\<lambda>(db1, category_id).
     bindE (insert_service category_id service db1) (\<lambda>db2.
       case find (\<lambda>r. sv_category r = category_id \<and> sv_name r = service) (services db2) of
         None \<Rightarrow> fail NoRows
       | Some r \<Rightarrow> Inr (db2, sv_id r)))"

definition entryInsertBatchSize :: nat where "entryInsertBatchSize = 500"

fun batches_of :: "nat \<Rightarrow> 'a list \<Rightarrow> 'a list list" where
  "batches_of n xs = (if xs = [] \<or> n = 0 then [] else take n xs # batches_of n (drop n xs))"

declare batches_of.simps [simp del]

definition insert_prefix :: "db \<Rightarrow> byte list \<times> int \<Rightarrow> db" where
  "insert_prefix db row =
     (if row \<in> set (map (\<lambda>r. (px_ip r, px_bits r)) (prefix_rows db)) then db
      else db\<lparr>prefix_rows := prefix_rows db @
        [\<lparr>px_id = new_rowid (map px_id (prefix_rows db)), px_ip = fst row, px_bits = snd row\<rparr>]\<rparr>)"

fun read_ids :: "(prefix \<rightharpoonup> int) \<Rightarrow> prefix_row list \<Rightarrow> (store_error, prefix \<rightharpoonup> int) result" where
  "read_ids ids [] = Inr ids"
| "read_ids ids (r # rs) =
     bindE (DecodePrefix (px_ip r) (px_bits r)) (\<lambda>p. read_ids (ids(p \<mapsto> px_id r)) rs)"

definition ensure_batch :: "db \<times> (prefix \<rightharpoonup> int) \<Rightarrow> prefix list \<Rightarrow> (store_error, db \<times> (prefix \<rightharpoonup> int)) result" where
  "ensure_batch s chunk =
     (let rows = map EncodePrefix chunk;
          db1 = foldl insert_prefix (fst s) rows
      in bindE (read_ids (snd s) (filter (\<lambda>r. (px_ip r, px_bits r) \<in> set rows) (prefix_rows db1)))
           (\<lambda>ids. Inr (db1, ids)))"

definition ensurePrefixIDs :: "db \<Rightarrow> prefix list \<Rightarrow> (store_error, db \<times> (prefix \<rightharpoonup> int)) result" where
  "ensurePrefixIDs db wanted =
     bindE (foldE ensure_batch (db, Map.empty) (batches_of entryInsertBatchSize wanted)) (\<lambda>(db1, ids).
       case find (\<lambda>p. ids p = None) wanted of
         Some p \<Rightarrow> fail (MissingPrefix p)
       | None \<Rightarrow> Inr (db1, ids))"

text \<open>A Go map lookup: the zero value for a missing key.\<close>

definition map_get :: "('k \<rightharpoonup> int) \<Rightarrow> 'k \<Rightarrow> int" where
  "map_get m k = (case m k of None \<Rightarrow> 0 | Some v \<Rightarrow> v)"

record catalog_entry =
  ce_Category :: string
  ce_Service :: string
  ce_CIDR :: string

abbreviation entry_key :: "catalog_entry \<Rightarrow> string \<times> string" where
  "entry_key e \<equiv> (ce_Category e, ce_Service e)"

type_synonym service_ids = "string \<times> string \<rightharpoonup> int"

definition resolve_service :: "db \<times> service_ids \<Rightarrow> catalog_entry \<Rightarrow> (store_error, db \<times> service_ids) result" where
  "resolve_service s e =
     (if snd s (entry_key e) \<noteq> None then Inr s
      else bindE (EnsureServiceID (fst s) (ce_Category e) (ce_Service e)) (\<lambda>(db, id).
        Inr (db, (snd s)(entry_key e \<mapsto> id))))"

fun parse_entries :: "prefix list \<Rightarrow> catalog_entry list \<Rightarrow> (store_error, prefix list \<times> prefix list) result" where
  "parse_entries seen [] = Inr ([], seen)"
| "parse_entries seen (e # es) =
     (case parse_prefix (ce_CIDR e) of
        None \<Rightarrow> fail (BadCIDR (ce_CIDR e))
      | Some p \<Rightarrow>
          bindE (parse_entries (if masked p \<in> set seen then seen else seen @ [masked p]) es)
            (\<lambda>(parsed, all). Inr (masked p # parsed, all)))"

definition insert_entry :: "db \<Rightarrow> int \<times> int \<times> int \<Rightarrow> (store_error, db) result" where
  "insert_entry db row =
     (if row \<in> set (entries db) then Inr db
      else guardE (fst row \<in> set (map fd_id (feeds db)) \<and> fst (snd row) \<in> set (map sv_id (services db)) \<and>
          snd (snd row) \<in> set (map px_id (prefix_rows db)))
        (db\<lparr>entries := entries db @ [row]\<rparr>))"

definition AppendCatalogEntries :: "db \<Rightarrow> int \<Rightarrow> catalog_entry list \<Rightarrow> (store_error, db) result" where
  "AppendCatalogEntries db feed_id es =
     (if es = [] then Inr db
      else bindE (foldE resolve_service (db, Map.empty) es) (\<lambda>(db1, service_ids).
        bindE (parse_entries [] es) (\<lambda>(parsed, all).
        bindE (ensurePrefixIDs db1 all) (\<lambda>(db2, prefix_ids).
          foldE (\<lambda>d batch. foldE insert_entry d
              (map (\<lambda>(e, p). (feed_id, map_get service_ids (entry_key e), map_get prefix_ids p)) batch))
            db2 (batches_of entryInsertBatchSize (zip es parsed))))))"

definition delete_feed_entries :: "int \<Rightarrow> db \<Rightarrow> db" where
  "delete_feed_entries feed_id db = db\<lparr>entries := filter (\<lambda>(f, s, p). f \<noteq> feed_id) (entries db)\<rparr>"

definition ReplaceCatalogEntries :: "db \<Rightarrow> int \<Rightarrow> catalog_entry list \<Rightarrow> (store_error, db) result" where
  "ReplaceCatalogEntries db feed_id es = AppendCatalogEntries (delete_feed_entries feed_id db) feed_id es"

definition prefix_referenced :: "db \<Rightarrow> int \<Rightarrow> bool" where
  "prefix_referenced db p \<longleftrightarrow>
     p \<in> set (map (snd \<circ> snd) (entries db)) \<or> p \<in> set (map (snd \<circ> snd) (mode_entries db))"

definition PruneOrphanPrefixes :: "db \<Rightarrow> db \<times> nat" where
  "PruneOrphanPrefixes db =
     (let kept = filter (\<lambda>r. prefix_referenced db (px_id r)) (prefix_rows db)
      in (db\<lparr>prefix_rows := kept\<rparr>, length (prefix_rows db) - length kept))"

section \<open>The materialised merge of a mode\<close>

definition feed_enabled :: "db \<Rightarrow> int \<Rightarrow> bool" where
  "feed_enabled db f \<longleftrightarrow> (\<exists>r \<in> set (feeds db). fd_id r = f \<and> fd_enabled r)"

definition modeExcludePrefixes :: "db \<Rightarrow> int \<Rightarrow> (store_error, prefix list) result" where
  "modeExcludePrefixes db mode_id =
     mapE (\<lambda>(ip, bits). DecodePrefix ip bits)
       (remdups [(px_ip p, px_bits p).
          l \<leftarrow> mode_feeds db, mf_mode l = mode_id \<and> mf_exclude l \<and> feed_enabled db (mf_feed l),
          (f, s, i) \<leftarrow> entries db, f = mf_feed l,
          p \<leftarrow> prefix_rows db, px_id p = i])"

definition include_entries :: "db \<Rightarrow> int \<Rightarrow> (int \<times> int) list" where
  "include_entries db mode_id =
     remdups [(s, i).
       l \<leftarrow> mode_feeds db, mf_mode l = mode_id \<and> \<not> mf_exclude l \<and> feed_enabled db (mf_feed l),
       (f, s, i) \<leftarrow> entries db, f = mf_feed l]"

definition include_rows :: "db \<Rightarrow> int \<Rightarrow> (int \<times> int \<times> byte list \<times> int) list" where
  "include_rows db mode_id =
     remdups [(s, i, px_ip p, px_bits p).
       l \<leftarrow> mode_feeds db, mf_mode l = mode_id \<and> \<not> mf_exclude l \<and> feed_enabled db (mf_feed l),
       (f, s, i) \<leftarrow> entries db, f = mf_feed l,
       p \<leftarrow> prefix_rows db, px_id p = i]"

text \<open>\<open>me_prefix_id\<close> is 0 when the prefix was split; then \<open>me_prefix\<close> is the fragment to intern.\<close>

record mode_entry =
  me_service :: int
  me_prefix_id :: int
  me_prefix :: "prefix option"

fun rebuild_loop :: "exclude_set \<Rightarrow> (int \<times> int \<times> byte list \<times> int) list \<Rightarrow> mode_entry list \<Rightarrow> prefix list \<Rightarrow>
    (store_error, mode_entry list \<times> prefix list) result" where
  "rebuild_loop ex [] acc fragments = Inr (acc, fragments)"
| "rebuild_loop ex ((s, i, ip, bits) # rows) acc fragments =
     bindE (DecodePrefix ip bits) (\<lambda>p.
       if p_bits p = 0
       then rebuild_loop ex rows (acc @ [\<lparr>me_service = s, me_prefix_id = i, me_prefix = None\<rparr>]) fragments
       else case exclude_subtract ex p of (frags, changed) \<Rightarrow>
         if \<not> changed
         then rebuild_loop ex rows (acc @ [\<lparr>me_service = s, me_prefix_id = i, me_prefix = None\<rparr>]) fragments
         else rebuild_loop ex rows
             (acc @ map (\<lambda>q. \<lparr>me_service = s, me_prefix_id = 0, me_prefix = Some q\<rparr>) frags)
             (foldl (\<lambda>fs q. if q \<in> set fs then fs else fs @ [q]) fragments frags))"

definition insert_mode_entry :: "db \<Rightarrow> int \<times> int \<times> int \<Rightarrow> (store_error, db) result" where
  "insert_mode_entry db row =
     (if row \<in> set (mode_entries db) then Inr db
      else guardE (fst row \<in> set (map md_id (modes db)) \<and> fst (snd row) \<in> set (map sv_id (services db)) \<and>
          snd (snd row) \<in> set (map px_id (prefix_rows db)))
        (db\<lparr>mode_entries := mode_entries db @ [row]\<rparr>))"

definition delete_mode_entries :: "int \<Rightarrow> db \<Rightarrow> db" where
  "delete_mode_entries mode_id db = db\<lparr>mode_entries := filter (\<lambda>(m, s, p). m \<noteq> mode_id) (mode_entries db)\<rparr>"

definition entry_prefix_id :: "(prefix \<rightharpoonup> int) \<Rightarrow> mode_entry \<Rightarrow> int" where
  "entry_prefix_id ids e =
     (if me_prefix_id e = 0 then (case me_prefix e of None \<Rightarrow> 0 | Some q \<Rightarrow> map_get ids q) else me_prefix_id e)"

definition rebuildModeEntries :: "db \<Rightarrow> int \<Rightarrow> (store_error, db) result" where
  "rebuildModeEntries db mode_id =
     bindE (modeExcludePrefixes db mode_id) (\<lambda>excludes.
     let db1 = delete_mode_entries mode_id db;
         ex = new_exclude_set excludes
     in if exclude_empty ex
        then foldE insert_mode_entry db1 (map (\<lambda>(s, i). (mode_id, s, i)) (include_entries db1 mode_id))
        else bindE (rebuild_loop ex (include_rows db1 mode_id) [] []) (\<lambda>(acc, fragments).
             bindE (ensurePrefixIDs db1 fragments) (\<lambda>(db2, ids).
               foldE (\<lambda>d batch. foldE insert_mode_entry d
                   (map (\<lambda>e. (mode_id, me_service e, entry_prefix_id ids e)) batch))
                 db2 (batches_of entryInsertBatchSize acc))))"

definition feedModeIDs :: "db \<Rightarrow> int \<Rightarrow> int list" where
  "feedModeIDs db feed_id = sort (map mf_mode (filter (\<lambda>l. mf_feed l = feed_id) (mode_feeds db)))"

definition RebuildModeEntriesForFeed :: "db \<Rightarrow> int \<Rightarrow> (store_error, db) result" where
  "RebuildModeEntriesForFeed db feed_id = foldE rebuildModeEntries db (feedModeIDs db feed_id)"

definition InsertCatalogEntries :: "int \<Rightarrow> catalog_entry list \<Rightarrow> db \<Rightarrow> (store_error, db) result" where
  "InsertCatalogEntries feed_id es db =
     bindE (AppendCatalogEntries db feed_id es) (\<lambda>db1. RebuildModeEntriesForFeed db1 feed_id)"

section \<open>Links between modes and feeds\<close>

definition insert_mode_feed :: "db \<Rightarrow> mode_feed \<Rightarrow> (store_error, db) result" where
  "insert_mode_feed db l =
     guardE (mf_mode l \<in> set (map md_id (modes db)) \<and> mf_feed l \<in> set (map fd_id (feeds db)) \<and>
         (mf_mode l, mf_feed l) \<notin> set (map (\<lambda>l. (mf_mode l, mf_feed l)) (mode_feeds db)))
       (db\<lparr>mode_feeds := mode_feeds db @ [l]\<rparr>)"

definition replace_link :: "int \<Rightarrow> db \<Rightarrow> int \<times> bool \<Rightarrow> (store_error, db) result" where
  "replace_link mode_id db link =
     (if fst link \<le> 0 then Inr db
      else insert_mode_feed db \<lparr>mf_mode = mode_id, mf_feed = fst link, mf_exclude = snd link\<rparr>)"

definition replaceModeFeeds :: "int \<Rightarrow> (int \<times> bool) list \<Rightarrow> db \<Rightarrow> (store_error, db) result" where
  "replaceModeFeeds mode_id links db =
     bindE (foldE (replace_link mode_id)
         (db\<lparr>mode_feeds := filter (\<lambda>l. mf_mode l \<noteq> mode_id) (mode_feeds db)\<rparr>) links)
       (\<lambda>db1. rebuildModeEntries db1 mode_id)"

definition AddFeedToMode :: "int \<Rightarrow> int \<Rightarrow> bool \<Rightarrow> db \<Rightarrow> (store_error, db) result" where
  "AddFeedToMode mode_id feed_id exclude db =
     bindE (if \<exists>l \<in> set (mode_feeds db). mf_mode l = mode_id \<and> mf_feed l = feed_id
            then Inr (db\<lparr>mode_feeds := map (\<lambda>l. if mf_mode l = mode_id \<and> mf_feed l = feed_id
                then l\<lparr>mf_exclude := exclude\<rparr> else l) (mode_feeds db)\<rparr>)
            else insert_mode_feed db \<lparr>mf_mode = mode_id, mf_feed = feed_id, mf_exclude = exclude\<rparr>)
       (\<lambda>db1. rebuildModeEntries db1 mode_id)"

definition RemoveFeedFromMode :: "int \<Rightarrow> int \<Rightarrow> db \<Rightarrow> (store_error, db) result" where
  "RemoveFeedFromMode mode_id feed_id db =
     (if \<not> (\<exists>l \<in> set (mode_feeds db). mf_mode l = mode_id \<and> mf_feed l = feed_id) then fail NoRows
      else rebuildModeEntries
        (db\<lparr>mode_feeds := filter (\<lambda>l. \<not> (mf_mode l = mode_id \<and> mf_feed l = feed_id)) (mode_feeds db)\<rparr>) mode_id)"

section \<open>Modes\<close>

definition UpdateCatalogMode :: "mode_row \<Rightarrow> db \<Rightarrow> (store_error, db) result" where
  "UpdateCatalogMode m db =
     (if md_id m \<notin> set (map md_id (modes db)) then fail NoRows
      else guardE (\<forall>r \<in> set (modes db). md_name r = md_name m \<longrightarrow> md_id r = md_id m)
        (db\<lparr>modes := map (\<lambda>r. if md_id r = md_id m then m else r) (modes db)\<rparr>))"

definition SaveModeWithFeeds :: "mode_row \<Rightarrow> (int \<times> bool) list \<Rightarrow> db \<Rightarrow> (store_error, db) result" where
  "SaveModeWithFeeds m links db = bindE (UpdateCatalogMode m db) (replaceModeFeeds (md_id m) links)"

definition AddCatalogMode :: "string \<Rightarrow> bool \<Rightarrow> db \<Rightarrow> (store_error, db \<times> int) result" where
  "AddCatalogMode name enabled db =
     (let i = new_rowid (map md_id (modes db))
      in guardE (name \<notin> set (map md_name (modes db)))
        (db\<lparr>modes := modes db @ [\<lparr>md_id = i, md_name = name, md_enabled = enabled\<rparr>]\<rparr>, i))"

text \<open>The deletion of a mode row takes its links, entries, selections and communities with it.\<close>

definition delete_mode_row :: "int \<Rightarrow> db \<Rightarrow> db" where
  "delete_mode_row i db = db\<lparr>
     modes := filter (\<lambda>r. md_id r \<noteq> i) (modes db),
     mode_feeds := filter (\<lambda>l. mf_mode l \<noteq> i) (mode_feeds db),
     mode_entries := filter (\<lambda>(m, s, p). m \<noteq> i) (mode_entries db),
     selected_categories := filter (\<lambda>(u, m, c). m \<noteq> i) (selected_categories db),
     selected_services := filter (\<lambda>(u, m, s). m \<noteq> i) (selected_services db),
     communities := filter (\<lambda>c. cm_mode c \<noteq> i) (communities db)\<rparr>"

definition DefaultCatalogModeID :: int where "DefaultCatalogModeID = 1"

definition DeleteCatalogMode :: "int \<Rightarrow> db \<Rightarrow> (store_error, db \<times> int list) result" where
  "DeleteCatalogMode i db =
     (if i \<le> 3 then fail BuiltinMode
      else let moved = map us_id (filter (\<lambda>u. us_mode u = i) (users db))
        in bindE (guardE (moved = [] \<or> DefaultCatalogModeID \<in> set (map md_id (modes db)))
             (db\<lparr>users := map (\<lambda>u. if us_mode u = i then u\<lparr>us_mode := DefaultCatalogModeID\<rparr> else u) (users db)\<rparr>))
           (\<lambda>db1. if i \<notin> set (map md_id (modes db1)) then fail NoRows
                  else Inr (delete_mode_row i db1, moved)))"

section \<open>Feeds\<close>

definition feed_unique :: "db \<Rightarrow> int \<Rightarrow> string \<Rightarrow> string \<Rightarrow> bool" where
  "feed_unique db i name url \<longleftrightarrow> (\<forall>r \<in> set (feeds db). fd_id r \<noteq> i \<longrightarrow> fd_name r \<noteq> name \<and> fd_url r \<noteq> url)"

text \<open>\<open>addFeedTx\<close>: the id of the new row replaces that of \<open>feed\<close>.\<close>

definition addFeed :: "feed_row \<Rightarrow> db \<Rightarrow> (store_error, db \<times> int) result" where
  "addFeed feed db =
     (let i = new_rowid (map fd_id (feeds db))
      in guardE (feed_unique db i (fd_name feed) (fd_url feed) \<and> fd_adapter feed \<in> set (map fst (adapters db)))
        (db\<lparr>feeds := feeds db @ [feed\<lparr>fd_id := i, fd_last_success := 0, fd_last_error := []\<rparr>]\<rparr>, i))"

definition AddFeedWithMode :: "feed_row \<Rightarrow> int \<Rightarrow> db \<Rightarrow> (store_error, db \<times> int) result" where
  "AddFeedWithMode feed mode_id db =
     bindE (addFeed feed db) (\<lambda>(db1, i).
       if 0 < mode_id
       then bindE (insert_mode_feed db1 \<lparr>mf_mode = mode_id, mf_feed = i, mf_exclude = False\<rparr>) (\<lambda>db2. Inr (db2, i))
       else Inr (db1, i))"

definition find_feed :: "db \<Rightarrow> int \<Rightarrow> feed_row option" where
  "find_feed db i = find (\<lambda>r. fd_id r = i) (feeds db)"

definition update_feed_row :: "int \<Rightarrow> (feed_row \<Rightarrow> feed_row) \<Rightarrow> db \<Rightarrow> db" where
  "update_feed_row i f db = db\<lparr>feeds := map (\<lambda>r. if fd_id r = i then f r else r) (feeds db)\<rparr>"

definition same_feed_config :: "feed_row \<Rightarrow> feed_row \<Rightarrow> bool" where
  "same_feed_config a b \<longleftrightarrow> fd_url a = fd_url b \<and> fd_adapter a = fd_adapter b \<and> fd_data a = fd_data b \<and>
     fd_name a = fd_name b \<and> fd_allowed_hosts a = fd_allowed_hosts b \<and> fd_restrict_hosts a = fd_restrict_hosts b"

definition UpdateFeed :: "feed_row \<Rightarrow> db \<Rightarrow> (store_error, db \<times> bool) result" where
  "UpdateFeed feed db =
     (case find_feed db (fd_id feed) of
        None \<Rightarrow> fail NoRows
      | Some old \<Rightarrow>
          bindE (guardE (feed_unique db (fd_id feed) (fd_name feed) (fd_url feed) \<and>
                fd_adapter feed \<in> set (map fst (adapters db)))
              (update_feed_row (fd_id feed) (\<lambda>r. feed\<lparr>fd_last_success := fd_last_success r,
                 fd_last_error := fd_last_error r\<rparr>) db)) (\<lambda>db1.
          bindE (RebuildModeEntriesForFeed
              (if same_feed_config old feed then db1
               else update_feed_row (fd_id feed) (\<lambda>r. r\<lparr>fd_last_success := 0, fd_last_error := []\<rparr>)
                 (delete_feed_entries (fd_id feed) db1)) (fd_id feed)) (\<lambda>db2.
            Inr (db2, fd_enabled old))))"

definition delete_feed_row :: "int \<Rightarrow> db \<Rightarrow> db" where
  "delete_feed_row i db = db\<lparr>
     feeds := filter (\<lambda>r. fd_id r \<noteq> i) (feeds db),
     entries := filter (\<lambda>(f, s, p). f \<noteq> i) (entries db),
     mode_feeds := filter (\<lambda>l. mf_feed l \<noteq> i) (mode_feeds db)\<rparr>"

text \<open>Does a feed linked as an include offer the service in the mode?\<close>

definition offered :: "db \<Rightarrow> int \<Rightarrow> (int \<Rightarrow> bool) \<Rightarrow> bool" where
  "offered db m wanted \<longleftrightarrow>
     (\<exists>(f, s, p) \<in> set (entries db). wanted s \<and> f \<in> set (map fd_id (feeds db)) \<and>
        (\<exists>l \<in> set (mode_feeds db). mf_feed l = f \<and> mf_mode l = m \<and> \<not> mf_exclude l))"

definition in_category :: "db \<Rightarrow> int \<Rightarrow> int \<Rightarrow> bool" where
  "in_category db c s \<longleftrightarrow> (\<exists>r \<in> set (services db). sv_id r = s \<and> sv_category r = c)"

definition prune_selections :: "db \<Rightarrow> db" where
  "prune_selections db = db\<lparr>
     selected_categories := filter (\<lambda>(u, m, c). offered db m (in_category db c)) (selected_categories db),
     selected_services := filter (\<lambda>(u, m, s). offered db m (\<lambda>t. t = s)) (selected_services db)\<rparr>"

definition DeleteFeed :: "int \<Rightarrow> db \<Rightarrow> (store_error, db) result" where
  "DeleteFeed i db =
     (if find_feed db i = None then fail NoRows
      else foldE rebuildModeEntries (prune_selections (delete_feed_row i db)) (feedModeIDs db i))"

text \<open>
  The transaction of \<open>syncOne\<close> (\<open>internal/feeds/feeds.go\<close>): \<open>feed\<close> and \<open>revision\<close> are what was read before
  the download, \<open>now\<close> is the time.
\<close>

definition sync_feed :: "feed_row \<Rightarrow> int \<Rightarrow> catalog_entry list \<Rightarrow> int \<Rightarrow> db \<Rightarrow> (store_error, db) result" where
  "sync_feed feed revision es now db =
     (case find_feed db (fd_id feed) of
        None \<Rightarrow> fail FeedChanged
      | Some current \<Rightarrow>
          (case map_of (adapters db) (fd_adapter current) of
             None \<Rightarrow> fail FeedChanged
           | Some current_revision \<Rightarrow>
               if \<not> same_feed_config current feed \<or> current_revision \<noteq> revision \<or> \<not> fd_enabled current
               then fail FeedChanged
               else bindE (ReplaceCatalogEntries db (fd_id feed) es) (\<lambda>db1.
                 RebuildModeEntriesForFeed
                   (update_feed_row (fd_id feed) (\<lambda>r. if fd_url r = fd_url feed \<and> fd_enabled r
                      then r\<lparr>fd_last_success := now, fd_last_error := []\<rparr> else r) db1) (fd_id feed))))"

end
