(* ===== verification/Store_Intern.thy ===== *)
theory Store_Intern
  imports Store_Tables
begin

text \<open>
  Interning of prefixes and names: the batched upserts of \<open>dictionaries.go\<close> always succeed on a table of
  canonical prefixes, only append rows, and return the id of a row that decodes to the prefix asked for.
\<close>

section \<open>Loops over rows and batches\<close>

lemma foldE_append: "foldE f s (xs @ ys) = bindE (foldE f s xs) (\<lambda>s'. foldE f s' ys)"
  by (induction xs arbitrary: s) (simp_all add: bindE_assoc)

lemma foldE_batches: "foldE (\<lambda>d b. foldE f d (g b)) s bs = foldE f s (concat (map g bs))"
  by (induction bs arbitrary: s) (simp_all add: foldE_append)

lemma concat_batches: "0 < n \<Longrightarrow> concat (batches_of n xs) = xs"
  by (induction n xs rule: batches_of.induct) (subst batches_of.simps, auto)

lemma foldE_batches_map:
  "0 < n \<Longrightarrow> foldE (\<lambda>d b. foldE f d (map h b)) s (batches_of n xs) = foldE f s (map h xs)"
  by (simp add: foldE_batches map_concat [symmetric] concat_batches)

lemma set_batches: "b \<in> set (batches_of n xs) \<Longrightarrow> set b \<subseteq> set xs"
  by (induction n xs rule: batches_of.induct)
    (subst (asm) (2) batches_of.simps, auto split: if_splits dest: in_set_takeD in_set_dropD)

lemma batches_cover: "0 < n \<Longrightarrow> x \<in> set xs \<Longrightarrow> \<exists>b \<in> set (batches_of n xs). x \<in> set b"
  using concat_batches [of n xs] by (metis UN_E set_concat)

lemma foldE_invariant:
  assumes "foldE f s xs = Inr s'" and "P s" and "\<And>s x s'. x \<in> set xs \<Longrightarrow> P s \<Longrightarrow> f s x = Inr s' \<Longrightarrow> P s'"
  shows "P s'"
  using assms
proof (induction xs arbitrary: s)
  case (Cons x xs)
  from Cons.prems(1) obtain s1 where "f s x = Inr s1" and rest: "foldE f s1 xs = Inr s'"
    by (auto simp: bindE_eq_Inr_iff)
  then have "P s1" using Cons.prems(2,3) by (meson list.set_intros(1))
  then show ?case by (rule Cons.IH [OF rest]) (use Cons.prems(3) in auto)
qed simp

text \<open>A loop in which every step succeeds, establishes \<open>Q\<close> for its element, and moves along \<open>R\<close>, which keeps
  what was established.\<close>

lemma foldE_collect:
  assumes step: "\<And>s x. x \<in> set xs \<Longrightarrow> P s \<Longrightarrow> \<exists>s'. f s x = Inr s' \<and> P s' \<and> Q x s' \<and> R s s'"
    and keep: "\<And>x s s'. Q x s \<Longrightarrow> R s s' \<Longrightarrow> Q x s'"
    and refl: "\<And>s. R s s" and trans: "\<And>a b c. R a b \<Longrightarrow> R b c \<Longrightarrow> R a c"
    and "P s"
  shows "\<exists>s'. foldE f s xs = Inr s' \<and> P s' \<and> (\<forall>x \<in> set xs. Q x s') \<and> R s s'"
  using assms(1,5)
proof (induction xs arbitrary: s)
  case Nil
  then show ?case using refl by auto
next
  case (Cons x xs)
  obtain s1 where s1: "f s x = Inr s1" "P s1" "Q x s1" "R s s1"
    using Cons.prems(1) [of x s] Cons.prems(2) by auto
  obtain s2 where s2: "foldE f s1 xs = Inr s2" "P s2" "\<forall>y \<in> set xs. Q y s2" "R s1 s2"
    using Cons.IH [of s1] Cons.prems(1) s1(2) by (metis list.set_intros(2))
  have "Q x s2" "R s s2" using keep s1(3,4) s2(4) trans by blast+
  then show ?case using s1(1) s2 by auto
qed

lemma new_rowid_gt: "i \<in> set ids \<Longrightarrow> i < new_rowid ids"
  by (induction ids) (auto simp: new_rowid_def)

lemma new_rowid_pos [simp]: "1 \<le> new_rowid ids" "0 < new_rowid ids" "new_rowid ids \<noteq> 0"
proof -
  have "0 \<le> foldr max ids (0::int)" by (induction ids) auto
  then show "1 \<le> new_rowid ids" "0 < new_rowid ids" "new_rowid ids \<noteq> 0" by (auto simp: new_rowid_def)
qed

lemma new_rowid_fresh [simp]: "new_rowid ids \<notin> set ids"
  using new_rowid_gt [of "new_rowid ids" ids] by blast

section \<open>The prefix table\<close>

definition row_is :: "prefix_row \<Rightarrow> prefix \<Rightarrow> bool" where
  "row_is r p \<longleftrightarrow> DecodePrefix (px_ip r) (px_bits r) = Inr p"

abbreviation px_key :: "prefix_row \<Rightarrow> byte list \<times> int" where
  "px_key r \<equiv> (px_ip r, px_bits r)"

definition prefix_table_ok :: "prefix_row list \<Rightarrow> bool" where
  "prefix_table_ok rows \<longleftrightarrow> distinct (map px_id rows) \<and> distinct (map px_key rows) \<and>
     (\<forall>r \<in> set rows. 1 \<le> px_id r \<and> (\<exists>p. network p \<and> row_is r p))"

lemma EncodePrefix_network: "network p \<Longrightarrow> DecodePrefix (fst (EncodePrefix p)) (snd (EncodePrefix p)) = Inr p"
  using DecodePrefix_EncodePrefix [of p] network_sel [of p] by (simp add: case_prod_unfold)

lemma row_is_key:
  assumes "row_is r p" and "network p" shows "px_key r = EncodePrefix p"
proof -
  obtain a where a: "addr_from_slice (px_ip r) = Some a"
    and p: "p = prefix_from a (px_bits r)" "prefix_is_valid p"
    using assms(1) by (auto simp: row_is_def DecodePrefix_def DecodeAddr_def bindE_eq_Inr_iff Let_def
        split: option.splits if_splits)
  have slice: "as_slice a = px_ip r" using addr_from_slice_ok [OF a] by simp
  have bits: "p_addr p = a \<and> int (p_bits p) = px_bits r"
    using p by (auto simp: prefix_from_def prefix_is_valid_def split: if_splits)
  show ?thesis using slice bits network_sel(2) [OF assms(2)] by (simp add: EncodePrefix_def Let_def)
qed

lemma row_is_fun: "row_is r p \<Longrightarrow> row_is r q \<Longrightarrow> p = q"
  by (simp add: row_is_def)

lemma encoded_row_is: "network p \<Longrightarrow> px_key r = EncodePrefix p \<Longrightarrow> row_is r p"
  using EncodePrefix_network [of p] by (metis fst_conv row_is_def snd_conv)

lemma insert_prefix_ok:
  assumes "prefix_table_ok (prefix_rows db)" and "network p"
  shows "\<exists>ext. insert_prefix db (EncodePrefix p) = db\<lparr>prefix_rows := prefix_rows db @ ext\<rparr> \<and>
    prefix_table_ok (prefix_rows db @ ext) \<and> (\<exists>r \<in> set (prefix_rows db @ ext). px_key r = EncodePrefix p)"
proof (cases "EncodePrefix p \<in> set (map px_key (prefix_rows db))")
  case True
  then show ?thesis using assms(1)
    by (intro exI [of _ "[]"]) (auto simp: insert_prefix_def image_iff)
next
  case False
  let ?r = "\<lparr>px_id = new_rowid (map px_id (prefix_rows db)), px_ip = fst (EncodePrefix p), px_bits = snd (EncodePrefix p)\<rparr>"
  have key: "px_key ?r = EncodePrefix p" by simp
  have "row_is ?r p" by (rule encoded_row_is [OF assms(2) key])
  moreover have "new_rowid (map px_id (prefix_rows db)) \<notin> px_id ` set (prefix_rows db)"
    using new_rowid_fresh [of "map px_id (prefix_rows db)"] by simp
  ultimately have "prefix_table_ok (prefix_rows db @ [?r])"
    using assms False by (auto simp: prefix_table_ok_def)
  then show ?thesis using False by (intro exI [of _ "[?r]"]) (simp add: insert_prefix_def)
qed

lemma insert_prefixes_ok:
  assumes "prefix_table_ok (prefix_rows db)" and "\<forall>p \<in> set ps. network p"
  shows "\<exists>ext. foldl insert_prefix db (map EncodePrefix ps) = db\<lparr>prefix_rows := prefix_rows db @ ext\<rparr> \<and>
    prefix_table_ok (prefix_rows db @ ext) \<and> EncodePrefix ` set ps \<subseteq> px_key ` set (prefix_rows db @ ext)"
  using assms
proof (induction ps arbitrary: db)
  case Nil
  then show ?case by (intro exI [of _ "[]"]) simp
next
  case (Cons p ps)
  obtain e1 where e1: "insert_prefix db (EncodePrefix p) = db\<lparr>prefix_rows := prefix_rows db @ e1\<rparr>"
    "prefix_table_ok (prefix_rows db @ e1)" "\<exists>r \<in> set (prefix_rows db @ e1). px_key r = EncodePrefix p"
    using insert_prefix_ok [OF Cons.prems(1), of p] Cons.prems(2) by auto
  let ?d = "db\<lparr>prefix_rows := prefix_rows db @ e1\<rparr>"
  obtain e2 where e2: "foldl insert_prefix ?d (map EncodePrefix ps) = ?d\<lparr>prefix_rows := prefix_rows ?d @ e2\<rparr>"
    "prefix_table_ok (prefix_rows ?d @ e2)" "EncodePrefix ` set ps \<subseteq> px_key ` set (prefix_rows ?d @ e2)"
    using Cons.IH [of ?d] e1(2) Cons.prems(2) by auto
  have "EncodePrefix p \<in> px_key ` set (prefix_rows db @ e1 @ e2)"
    using e1(3) by (metis (no_types, lifting) UnCI append_assoc image_eqI set_append)
  then show ?case
    using e1(1) e2 by (intro exI [of _ "e1 @ e2"]) simp
qed

lemma read_ids_ok:
  assumes "\<forall>r \<in> set rs. \<exists>p. row_is r p"
  shows "\<exists>ids'. read_ids ids rs = Inr ids' \<and>
    (\<forall>p i. ids' p = Some i \<longrightarrow> ids p = Some i \<or> (\<exists>r \<in> set rs. px_id r = i \<and> row_is r p)) \<and>
    (\<forall>r \<in> set rs. \<forall>p. row_is r p \<longrightarrow> ids' p \<noteq> None) \<and> dom ids \<subseteq> dom ids'"
  using assms
proof (induction rs arbitrary: ids)
  case (Cons r rs)
  obtain p where p: "row_is r p" using Cons.prems by auto
  then have dec: "DecodePrefix (px_ip r) (px_bits r) = Inr p" by (simp add: row_is_def)
  obtain ids' where ids': "read_ids (ids(p \<mapsto> px_id r)) rs = Inr ids'"
    "\<forall>q i. ids' q = Some i \<longrightarrow> (ids(p \<mapsto> px_id r)) q = Some i \<or> (\<exists>r \<in> set rs. px_id r = i \<and> row_is r q)"
    "\<forall>r \<in> set rs. \<forall>p. row_is r p \<longrightarrow> ids' p \<noteq> None" "dom (ids(p \<mapsto> px_id r)) \<subseteq> dom ids'"
    using Cons.IH [of "ids(p \<mapsto> px_id r)"] Cons.prems unfolding Bex_def Ball_def
    by (metis (no_types, lifting) list.set_intros(2))
  have "\<forall>q i. ids' q = Some i \<longrightarrow> ids q = Some i \<or> (\<exists>r' \<in> set (r # rs). px_id r' = i \<and> row_is r' q)"
    using ids'(2) p by (fastforce split: if_splits)
  moreover have "\<forall>r' \<in> set (r # rs). \<forall>q. row_is r' q \<longrightarrow> ids' q \<noteq> None"
    using ids'(3,4) p row_is_fun by fastforce
  ultimately show ?case using ids'(1,4) dec by auto
qed simp

definition ids_sound :: "prefix_row list \<Rightarrow> (prefix \<rightharpoonup> int) \<Rightarrow> bool" where
  "ids_sound rows ids \<longleftrightarrow> (\<forall>p i. ids p = Some i \<longrightarrow> (\<exists>r \<in> set rows. px_id r = i \<and> row_is r p))"

lemma ids_sound_mono: "ids_sound rows ids \<Longrightarrow> set rows \<subseteq> set rows' \<Longrightarrow> ids_sound rows' ids"
  unfolding ids_sound_def by (meson subsetD)

lemma ensure_batch_ok:
  assumes "prefix_table_ok (prefix_rows (fst s))" "ids_sound (prefix_rows (fst s)) (snd s)"
    and "\<forall>p \<in> set chunk. network p"
  shows "\<exists>ext ids. ensure_batch s chunk = Inr ((fst s)\<lparr>prefix_rows := prefix_rows (fst s) @ ext\<rparr>, ids) \<and>
    prefix_table_ok (prefix_rows (fst s) @ ext) \<and> ids_sound (prefix_rows (fst s) @ ext) ids \<and>
    dom (snd s) \<subseteq> dom ids \<and> set chunk \<subseteq> dom ids"
proof -
  obtain ext where ext: "foldl insert_prefix (fst s) (map EncodePrefix chunk) = (fst s)\<lparr>prefix_rows := prefix_rows (fst s) @ ext\<rparr>"
    "prefix_table_ok (prefix_rows (fst s) @ ext)" "EncodePrefix ` set chunk \<subseteq> px_key ` set (prefix_rows (fst s) @ ext)"
    using insert_prefixes_ok [OF assms(1,3)] by blast
  let ?rows = "prefix_rows (fst s) @ ext"
  let ?sel = "filter (\<lambda>r. px_key r \<in> set (map EncodePrefix chunk)) ?rows"
  have "\<forall>r \<in> set ?sel. \<exists>p. row_is r p" using ext(2) by (auto simp: prefix_table_ok_def)
  from read_ids_ok [OF this, of "snd s"]
  obtain ids where ids: "read_ids (snd s) ?sel = Inr ids"
    "\<forall>p i. ids p = Some i \<longrightarrow> snd s p = Some i \<or> (\<exists>r \<in> set ?sel. px_id r = i \<and> row_is r p)"
    "\<forall>r \<in> set ?sel. \<forall>p. row_is r p \<longrightarrow> ids p \<noteq> None" "dom (snd s) \<subseteq> dom ids"
    by blast
  have "ids_sound ?rows ids"
    using ids(2) assms(2) unfolding ids_sound_def by (fastforce simp del: set_map)
  moreover have "set chunk \<subseteq> dom ids"
  proof
    fix p assume p: "p \<in> set chunk"
    then obtain r where r: "r \<in> set ?rows" "px_key r = EncodePrefix p" using ext(3) by force
    then have "r \<in> set ?sel" using p by auto
    moreover have "row_is r p" using encoded_row_is r(2) p assms(3) by blast
    ultimately show "p \<in> dom ids" using ids(3) by blast
  qed
  ultimately show ?thesis using ext(1,2) ids(1,4) by (auto simp: ensure_batch_def Let_def)
qed

text \<open>The database before and after interning: rows are appended to the prefix table.\<close>

definition interned :: "db \<Rightarrow> db \<Rightarrow> bool" where
  "interned db db' \<longleftrightarrow> (\<exists>ext. db' = db\<lparr>prefix_rows := prefix_rows db @ ext\<rparr>)"

lemma interned_refl [simp]: "interned db db"
  by (auto simp: interned_def intro: exI [of _ "[]"])

lemma interned_trans: "interned a b \<Longrightarrow> interned b c \<Longrightarrow> interned a c"
  by (auto simp: interned_def)

lemma entryInsertBatchSize_pos [simp]: "0 < entryInsertBatchSize"
  by (simp add: entryInsertBatchSize_def)

lemma ensurePrefixIDs_ok:
  assumes "prefix_table_ok (prefix_rows db)" and "\<forall>p \<in> set ps. network p"
  shows "\<exists>db' ids. ensurePrefixIDs db ps = Inr (db', ids) \<and> interned db db' \<and>
    prefix_table_ok (prefix_rows db') \<and> ids_sound (prefix_rows db') ids \<and> set ps \<subseteq> dom ids"
proof -
  let ?P = "\<lambda>s :: db \<times> (prefix \<rightharpoonup> int). prefix_table_ok (prefix_rows (fst s)) \<and> ids_sound (prefix_rows (fst s)) (snd s)"
  let ?Q = "\<lambda>(chunk :: prefix list) (s :: db \<times> (prefix \<rightharpoonup> int)). set chunk \<subseteq> dom (snd s)"
  let ?R = "\<lambda>(s :: db \<times> (prefix \<rightharpoonup> int)) (s' :: db \<times> (prefix \<rightharpoonup> int)). interned (fst s) (fst s') \<and> dom (snd s) \<subseteq> dom (snd s')"
  have "\<exists>s'. foldE ensure_batch (db, Map.empty) (batches_of entryInsertBatchSize ps) = Inr s' \<and> ?P s' \<and>
    (\<forall>x \<in> set (batches_of entryInsertBatchSize ps). ?Q x s') \<and> ?R (db, Map.empty) s'"
  proof (rule foldE_collect [where P = ?P and Q = ?Q and R = ?R])
    fix s :: "db \<times> (prefix \<rightharpoonup> int)" and b
    assume b: "b \<in> set (batches_of entryInsertBatchSize ps)" and s: "?P s"
    have "\<forall>p \<in> set b. network p" using set_batches [OF b] assms(2) by blast
    with ensure_batch_ok [of s b] s obtain ext ids where
      "ensure_batch s b = Inr ((fst s)\<lparr>prefix_rows := prefix_rows (fst s) @ ext\<rparr>, ids)"
      "prefix_table_ok (prefix_rows (fst s) @ ext)" "ids_sound (prefix_rows (fst s) @ ext) ids"
      "dom (snd s) \<subseteq> dom ids" "set b \<subseteq> dom ids"
      by blast
    then show "\<exists>s'. ensure_batch s b = Inr s' \<and> ?P s' \<and> ?Q b s' \<and> ?R s s'"
      by (intro exI [of _ "((fst s)\<lparr>prefix_rows := prefix_rows (fst s) @ ext\<rparr>, ids)"])
        (auto simp: interned_def)
  next
    show "?P (db, Map.empty)" using assms(1) by (simp add: ids_sound_def)
  next
    fix a b c :: "db \<times> (prefix \<rightharpoonup> int)"
    show "?R a b \<Longrightarrow> ?R b c \<Longrightarrow> ?R a c" using interned_trans by blast
  qed auto
  then obtain s' where s': "foldE ensure_batch (db, Map.empty) (batches_of entryInsertBatchSize ps) = Inr s'"
    "?P s'" "\<forall>x \<in> set (batches_of entryInsertBatchSize ps). ?Q x s'" "?R (db, Map.empty) s'"
    by blast
  have dom: "set ps \<subseteq> dom (snd s')"
    using s'(3) batches_cover [OF entryInsertBatchSize_pos] by (meson subset_iff)
  then have "find (\<lambda>p. snd s' p = None) ps = None" by (auto simp: find_None_iff)
  then show ?thesis using s' dom
    by (intro exI [of _ "fst s'"] exI [of _ "snd s'"])
      (simp add: ensurePrefixIDs_def case_prod_unfold)
qed

end
