(* ===== verification/Store_Integrity.thy ===== *)
theory Store_Integrity
  imports Store_Intern
begin

text \<open>
  The integrity of the database: the keys of every table are unique, every reference points to a row, and the
  stored prefixes are canonical. Every operation of \<open>Store_Tables\<close> keeps it.
\<close>

section \<open>Keys and references\<close>

abbreviation "category_ids db \<equiv> set (map ct_id (categories db))"
abbreviation "service_ids_of db \<equiv> set (map sv_id (services db))"
abbreviation "prefix_ids db \<equiv> set (map px_id (prefix_rows db))"
abbreviation "mode_ids db \<equiv> set (map md_id (modes db))"
abbreviation "feed_ids db \<equiv> set (map fd_id (feeds db))"
abbreviation "user_ids db \<equiv> set (map us_id (users db))"
abbreviation "link_key l \<equiv> (mf_mode l, mf_feed l)"

definition keys_ok :: "db \<Rightarrow> bool" where
  "keys_ok db \<longleftrightarrow>
     distinct (map ct_id (categories db)) \<and> distinct (map ct_name (categories db)) \<and>
     distinct (map sv_id (services db)) \<and> distinct (map (\<lambda>r. (sv_category r, sv_name r)) (services db)) \<and>
     distinct (map md_id (modes db)) \<and> distinct (map md_name (modes db)) \<and>
     distinct (map fd_id (feeds db)) \<and> distinct (map fd_name (feeds db)) \<and> distinct (map fd_url (feeds db)) \<and>
     distinct (map link_key (mode_feeds db)) \<and> distinct (entries db) \<and> distinct (mode_entries db) \<and>
     distinct (map us_id (users db)) \<and> distinct (map us_name (users db)) \<and>
     distinct (map (\<lambda>u. (us_peer_ip u, us_peer_asn u)) (users db)) \<and>
     distinct (map snd (networks db)) \<and> distinct (filter_rows db) \<and>
     distinct (selected_categories db) \<and> distinct (selected_services db) \<and>
     distinct (map (\<lambda>c. (cm_mode c, cm_category c, cm_service c)) (communities db)) \<and>
     distinct (map fst (settings db))"

definition refs_ok :: "db \<Rightarrow> bool" where
  "refs_ok db \<longleftrightarrow>
     (\<forall>r \<in> set (services db). sv_category r \<in> category_ids db) \<and>
     (\<forall>(f, s, p) \<in> set (entries db). f \<in> feed_ids db \<and> s \<in> service_ids_of db \<and> p \<in> prefix_ids db) \<and>
     (\<forall>(m, s, p) \<in> set (mode_entries db). m \<in> mode_ids db \<and> s \<in> service_ids_of db \<and> p \<in> prefix_ids db) \<and>
     (\<forall>f \<in> set (feeds db). fd_adapter f \<in> set (map fst (adapters db))) \<and>
     (\<forall>l \<in> set (mode_feeds db). mf_mode l \<in> mode_ids db \<and> mf_feed l \<in> feed_ids db) \<and>
     (\<forall>u \<in> set (users db). us_mode u \<in> mode_ids db) \<and>
     (\<forall>(u, n) \<in> set (networks db). u \<in> user_ids db) \<and>
     (\<forall>(u, r) \<in> set (filter_rows db). u \<in> user_ids db) \<and>
     (\<forall>(u, m, c) \<in> set (selected_categories db). u \<in> user_ids db \<and> m \<in> mode_ids db \<and> c \<in> category_ids db) \<and>
     (\<forall>(u, m, s) \<in> set (selected_services db). u \<in> user_ids db \<and> m \<in> mode_ids db \<and> s \<in> service_ids_of db) \<and>
     (\<forall>c \<in> set (communities db). cm_mode c \<in> mode_ids db \<and> cm_category c \<in> category_ids db)"

text \<open>Prefixes in other tables are canonical too.\<close>

definition stored_prefix :: "byte list \<times> int \<Rightarrow> bool" where
  "stored_prefix n \<longleftrightarrow> (\<exists>p. network p \<and> case_prod DecodePrefix n = Inr p)"

definition stored_ok :: "db \<Rightarrow> bool" where
  "stored_ok db \<longleftrightarrow> prefix_table_ok (prefix_rows db) \<and>
     (\<forall>(u, n) \<in> set (networks db). stored_prefix n) \<and>
     (\<forall>(u, a, n) \<in> set (filter_rows db). stored_prefix n)"

definition db_ok :: "db \<Rightarrow> bool" where
  "db_ok db \<longleftrightarrow> keys_ok db \<and> refs_ok db \<and> stored_ok db"

lemmas db_ok_defs = db_ok_def keys_ok_def refs_ok_def stored_ok_def

lemma db_okD:
  assumes "db_ok db"
  shows "keys_ok db" "refs_ok db" "stored_ok db" "prefix_table_ok (prefix_rows db)"
  using assms by (simp_all add: db_ok_def stored_ok_def)

section \<open>Statements\<close>

lemma refs_ok_categories: "refs_ok db \<Longrightarrow> refs_ok (db\<lparr>categories := categories db @ rs\<rparr>)"
  by (auto simp: refs_ok_def)

lemma refs_ok_services:
  "refs_ok db \<Longrightarrow> \<forall>r \<in> set rs. sv_category r \<in> category_ids db \<Longrightarrow> refs_ok (db\<lparr>services := services db @ rs\<rparr>)"
  by (auto simp: refs_ok_def)

lemma insert_category_ok:
  assumes "db_ok db" shows "db_ok (insert_category name db)"
proof (cases "name \<in> set (map ct_name (categories db))")
  case True
  then show ?thesis using assms by (simp add: insert_category_def)
next
  case False
  let ?r = "\<lparr>ct_id = new_rowid (map ct_id (categories db)), ct_name = name\<rparr>"
  have "keys_ok (db\<lparr>categories := categories db @ [?r]\<rparr>)"
    using db_okD(1) [OF assms] False new_rowid_fresh [of "map ct_id (categories db)"]
    by (simp add: keys_ok_def)
  then show ?thesis
    using False assms refs_ok_categories [of db "[?r]"] by (simp add: db_ok_def stored_ok_def insert_category_def)
qed

lemma insert_service_ok:
  assumes "db_ok db" "insert_service c name db = Inr db'" shows "db_ok db'"
proof (cases "(c, name) \<in> set (map (\<lambda>r. (sv_category r, sv_name r)) (services db))")
  case True
  then show ?thesis using assms by (simp add: insert_service_def)
next
  case False
  let ?r = "\<lparr>sv_id = new_rowid (map sv_id (services db)), sv_category = c, sv_name = name\<rparr>"
  have c: "c \<in> category_ids db" and db': "db' = db\<lparr>services := services db @ [?r]\<rparr>"
    using assms(2) False by (simp_all add: insert_service_def guardE_def split: if_splits)
  have "keys_ok db'"
    using db_okD(1) [OF assms(1)] False new_rowid_fresh [of "map sv_id (services db)"]
    by (simp add: keys_ok_def db')
  then show ?thesis
    using c assms(1) refs_ok_services [of db "[?r]"] by (simp add: db_ok_def stored_ok_def db')
qed

lemma refs_ok_prefixes: "refs_ok db \<Longrightarrow> refs_ok (db\<lparr>prefix_rows := prefix_rows db @ rs\<rparr>)"
  unfolding refs_ok_def by auto

lemma interned_ok:
  assumes "db_ok db" "interned db db'" "prefix_table_ok (prefix_rows db')" shows "db_ok db'"
proof -
  obtain ext where db': "db' = db\<lparr>prefix_rows := prefix_rows db @ ext\<rparr>"
    using assms(2) by (auto simp: interned_def)
  show ?thesis
    using db_okD(1-3) [OF assms(1)] assms(3) refs_ok_prefixes [of db ext]
    by (simp add: db_ok_def db' keys_ok_def stored_ok_def)
qed

lemma refs_ok_entries:
  "refs_ok db \<Longrightarrow> fst row \<in> feed_ids db \<and> fst (snd row) \<in> service_ids_of db \<and> snd (snd row) \<in> prefix_ids db \<Longrightarrow>
    refs_ok (db\<lparr>entries := entries db @ [row]\<rparr>)"
  unfolding refs_ok_def by (simp add: case_prod_unfold)

lemma refs_ok_mode_entries:
  "refs_ok db \<Longrightarrow> fst row \<in> mode_ids db \<and> fst (snd row) \<in> service_ids_of db \<and> snd (snd row) \<in> prefix_ids db \<Longrightarrow>
    refs_ok (db\<lparr>mode_entries := mode_entries db @ [row]\<rparr>)"
  unfolding refs_ok_def by (simp add: case_prod_unfold)

lemma refs_ok_mode_feeds:
  "refs_ok db \<Longrightarrow> mf_mode l \<in> mode_ids db \<and> mf_feed l \<in> feed_ids db \<Longrightarrow>
    refs_ok (db\<lparr>mode_feeds := mode_feeds db @ [l]\<rparr>)"
  unfolding refs_ok_def by simp

lemma guardE_Inr [simp]: "guardE b x = Inr y \<longleftrightarrow> b \<and> x = y"
  by (simp add: guardE_def)

lemma insert_entry_ok:
  assumes "db_ok db" "insert_entry db row = Inr db'" shows "db_ok db'"
proof (cases "row \<in> set (entries db)")
  case True
  then show ?thesis using assms by (simp add: insert_entry_def)
next
  case False
  then show ?thesis
    using assms refs_ok_entries [of db row] by (auto simp: insert_entry_def db_ok_def keys_ok_def stored_ok_def)
qed

lemma insert_mode_entry_ok:
  assumes "db_ok db" "insert_mode_entry db row = Inr db'" shows "db_ok db'"
proof (cases "row \<in> set (mode_entries db)")
  case True
  then show ?thesis using assms by (simp add: insert_mode_entry_def)
next
  case False
  then show ?thesis
    using assms refs_ok_mode_entries [of db row] by (auto simp: insert_mode_entry_def db_ok_def keys_ok_def stored_ok_def)
qed

lemma insert_mode_feed_ok: "db_ok db \<Longrightarrow> insert_mode_feed db l = Inr db' \<Longrightarrow> db_ok db'"
  using refs_ok_mode_feeds [of db l] by (auto simp: insert_mode_feed_def db_ok_def keys_ok_def stored_ok_def)

lemma delete_feed_entries_ok: "db_ok db \<Longrightarrow> db_ok (delete_feed_entries f db)"
  by (simp add: db_ok_defs delete_feed_entries_def)

lemma delete_mode_entries_ok: "db_ok db \<Longrightarrow> db_ok (delete_mode_entries m db)"
  by (simp add: db_ok_defs delete_mode_entries_def)

lemma delete_links_ok:
  "db_ok db \<Longrightarrow> db_ok (db\<lparr>mode_feeds := filter P (mode_feeds db)\<rparr>)"
  by (simp add: db_ok_defs distinct_map_filter)

section \<open>Dictionaries grow\<close>

definition grown :: "db \<Rightarrow> db \<Rightarrow> bool" where
  "grown db db' \<longleftrightarrow> (\<exists>cs ss ps. db' = db\<lparr>categories := categories db @ cs, services := services db @ ss,
     prefix_rows := prefix_rows db @ ps\<rparr>)"

lemma grownI:
  "db' = db\<lparr>categories := categories db @ cs, services := services db @ ss, prefix_rows := prefix_rows db @ ps\<rparr> \<Longrightarrow>
    grown db db'"
  unfolding grown_def by blast

lemma grown_refl [simp]: "grown db db"
  by (rule grownI [where cs = "[]" and ss = "[]" and ps = "[]"]) simp

lemma grown_trans:
  assumes "grown a b" "grown b c" shows "grown a c"
proof -
  obtain cs ss ps where b: "b = a\<lparr>categories := categories a @ cs, services := services a @ ss, prefix_rows := prefix_rows a @ ps\<rparr>"
    using assms(1) by (auto simp: grown_def)
  obtain cs' ss' ps' where c: "c = b\<lparr>categories := categories b @ cs', services := services b @ ss', prefix_rows := prefix_rows b @ ps'\<rparr>"
    using assms(2) by (auto simp: grown_def)
  show ?thesis
    by (rule grownI [where cs = "cs @ cs'" and ss = "ss @ ss'" and ps = "ps @ ps'"]) (simp add: b c)
qed

lemma interned_grown: "interned db db' \<Longrightarrow> grown db db'"
  unfolding interned_def by (elim exE, rule grownI [where cs = "[]" and ss = "[]"]) simp

lemma insert_category_grown: "grown db (insert_category name db)"
  by (cases "name \<in> set (map ct_name (categories db))")
    (simp add: insert_category_def,
      rule grownI [where cs = "[\<lparr>ct_id = new_rowid (map ct_id (categories db)), ct_name = name\<rparr>]" and ss = "[]" and ps = "[]"],
      simp add: insert_category_def)

lemma insert_service_grown:
  assumes "insert_service c name db = Inr db'" shows "grown db db'"
proof (cases "(c, name) \<in> set (map (\<lambda>r. (sv_category r, sv_name r)) (services db))")
  case True
  then show ?thesis using assms by (simp add: insert_service_def)
next
  case False
  show ?thesis
    by (rule grownI [where cs = "[]" and ps = "[]" and
          ss = "[\<lparr>sv_id = new_rowid (map sv_id (services db)), sv_category = c, sv_name = name\<rparr>]"])
      (use assms False in \<open>simp add: insert_service_def guardE_def split: if_splits\<close>)
qed

lemma grown_fields:
  assumes "grown db db'"
  shows "entries db' = entries db" "mode_entries db' = mode_entries db" "modes db' = modes db"
    "feeds db' = feeds db" "mode_feeds db' = mode_feeds db" "users db' = users db" "adapters db' = adapters db"
    "set (categories db) \<subseteq> set (categories db')" "set (services db) \<subseteq> set (services db')"
    "set (prefix_rows db) \<subseteq> set (prefix_rows db')"
    "networks db' = networks db" "filter_rows db' = filter_rows db" "communities db' = communities db"
    "selected_categories db' = selected_categories db" "selected_services db' = selected_services db"
    "settings db' = settings db"
  using assms by (auto simp: grown_def)

lemma EnsureCategoryID_ok:
  assumes "db_ok db"
  shows "\<exists>db' id. EnsureCategoryID db name = Inr (db', id) \<and> db_ok db' \<and> grown db db' \<and>
    \<lparr>ct_id = id, ct_name = name\<rparr> \<in> set (categories db')"
proof -
  let ?d = "insert_category name db"
  have "\<exists>r \<in> set (categories ?d). ct_name r = name"
    by (auto simp: insert_category_def)
  then obtain r where r: "find (\<lambda>r. ct_name r = name) (categories ?d) = Some r"
    by (metis (mono_tags, lifting) find_None_iff option.exhaust)
  then have "r \<in> set (categories ?d)" "ct_name r = name" by (auto simp: find_Some_iff)
  then have "\<lparr>ct_id = ct_id r, ct_name = name\<rparr> \<in> set (categories ?d)" by (metis category_row.surjective old.unit.exhaust)
  then show ?thesis
    using r insert_category_ok [OF assms] insert_category_grown by (simp add: EnsureCategoryID_def Let_def)
qed

lemma EnsureServiceID_ok:
  assumes "db_ok db"
  shows "\<exists>db' id c. EnsureServiceID db category service = Inr (db', id) \<and> db_ok db' \<and> grown db db' \<and>
    \<lparr>ct_id = c, ct_name = category\<rparr> \<in> set (categories db') \<and>
    \<lparr>sv_id = id, sv_category = c, sv_name = service\<rparr> \<in> set (services db')"
proof -
  obtain d1 c where d1: "EnsureCategoryID db category = Inr (d1, c)" "db_ok d1" "grown db d1"
    "\<lparr>ct_id = c, ct_name = category\<rparr> \<in> set (categories d1)"
    using EnsureCategoryID_ok [OF assms] by blast
  have c: "c \<in> category_ids d1" using d1(4) by force
  have "\<exists>d2. insert_service c service d1 = Inr d2"
    using c by (simp add: insert_service_def guardE_def)
  then obtain d2 where d2: "insert_service c service d1 = Inr d2" by blast
  have ex: "\<exists>r \<in> set (services d2). sv_category r = c \<and> sv_name r = service"
    using d2 c by (auto simp: insert_service_def guardE_def split: if_splits)
  then obtain r where r: "find (\<lambda>r. sv_category r = c \<and> sv_name r = service) (services d2) = Some r"
    by (metis (mono_tags, lifting) find_None_iff option.exhaust)
  then have "r \<in> set (services d2)" "sv_category r = c" "sv_name r = service" by (auto simp: find_Some_iff)
  then have "\<lparr>sv_id = sv_id r, sv_category = c, sv_name = service\<rparr> \<in> set (services d2)"
    by (metis service_row.surjective old.unit.exhaust)
  moreover have "\<lparr>ct_id = c, ct_name = category\<rparr> \<in> set (categories d2)"
    using d1(4) grown_fields(8) [OF insert_service_grown [OF d2]] by blast
  ultimately show ?thesis
    using d1(1) d2 r insert_service_ok [OF d1(2) d2] grown_trans [OF d1(3) insert_service_grown [OF d2]]
    by (auto simp: EnsureServiceID_def)
qed

text \<open>The row of a service, by the names of its category and of the service.\<close>

definition service_named :: "db \<Rightarrow> int \<Rightarrow> string \<times> string \<Rightarrow> bool" where
  "service_named db s k \<longleftrightarrow> (\<exists>c. \<lparr>ct_id = c, ct_name = fst k\<rparr> \<in> set (categories db) \<and>
     \<lparr>sv_id = s, sv_category = c, sv_name = snd k\<rparr> \<in> set (services db))"

lemma service_named_grown: "service_named db s k \<Longrightarrow> grown db db' \<Longrightarrow> service_named db' s k"
  unfolding service_named_def using grown_fields(8,9) by blast

lemma service_named_fun:
  assumes "db_ok db" "service_named db s k" "service_named db s k'"
  shows "k = k'"
proof -
  obtain c where c: "\<lparr>ct_id = c, ct_name = fst k\<rparr> \<in> set (categories db)"
      "\<lparr>sv_id = s, sv_category = c, sv_name = snd k\<rparr> \<in> set (services db)"
    using assms(2) by (auto simp: service_named_def)
  obtain c' where c': "\<lparr>ct_id = c', ct_name = fst k'\<rparr> \<in> set (categories db)"
      "\<lparr>sv_id = s, sv_category = c', sv_name = snd k'\<rparr> \<in> set (services db)"
    using assms(3) by (auto simp: service_named_def)
  have inj: "inj_on sv_id (set (services db))" "inj_on ct_id (set (categories db))"
    using assms(1) by (simp_all add: db_ok_def keys_ok_def distinct_map)
  have "c = c'" "snd k = snd k'" using inj_onD [OF inj(1) _ c(2) c'(2)] by simp_all
  then show ?thesis using inj_onD [OF inj(2) _ c(1) c'(1)] by (simp add: prod_eq_iff)
qed

lemma service_named_id: "service_named db s k \<Longrightarrow> s \<in> service_ids_of db"
  by (force simp: service_named_def)

lemma resolve_services_ok:
  assumes "db_ok db"
  shows "\<exists>db' ids. foldE resolve_service (db, Map.empty) es = Inr (db', ids) \<and> db_ok db' \<and> grown db db' \<and>
    (\<forall>e \<in> set es. \<exists>s. ids (entry_key e) = Some s \<and> service_named db' s (entry_key e))"
proof -
  let ?P = "\<lambda>s :: db \<times> service_ids. db_ok (fst s) \<and> (\<forall>k i. snd s k = Some i \<longrightarrow> service_named (fst s) i k)"
  let ?Q = "\<lambda>e (s :: db \<times> service_ids). entry_key e \<in> dom (snd s)"
  let ?R = "\<lambda>(s :: db \<times> service_ids) (s' :: db \<times> service_ids). grown (fst s) (fst s') \<and> dom (snd s) \<subseteq> dom (snd s')"
  have "\<exists>s'. foldE resolve_service (db, Map.empty) es = Inr s' \<and> ?P s' \<and> (\<forall>e \<in> set es. ?Q e s') \<and> ?R (db, Map.empty) s'"
  proof (rule foldE_collect [where P = ?P and Q = ?Q and R = ?R])
    fix s :: "db \<times> service_ids" and e :: catalog_entry
    assume s: "?P s"
    show "\<exists>s'. resolve_service s e = Inr s' \<and> ?P s' \<and> ?Q e s' \<and> ?R s s'"
    proof (cases "snd s (entry_key e)")
      case (Some i)
      then show ?thesis using s by (auto simp: resolve_service_def)
    next
      case None
      obtain d i c where d: "EnsureServiceID (fst s) (ce_Category e) (ce_Service e) = Inr (d, i)" "db_ok d" "grown (fst s) d"
        "\<lparr>ct_id = c, ct_name = ce_Category e\<rparr> \<in> set (categories d)"
        "\<lparr>sv_id = i, sv_category = c, sv_name = ce_Service e\<rparr> \<in> set (services d)"
        using EnsureServiceID_ok [of "fst s"] s by blast
      have "service_named d i (entry_key e)" using d(4,5) by (auto simp: service_named_def)
      then show ?thesis
        using None d(1-3) s service_named_grown [OF _ d(3)]
        by (intro exI [of _ "(d, (snd s)(entry_key e \<mapsto> i))"]) (auto simp: resolve_service_def)
    qed
  next
    fix a b c :: "db \<times> service_ids"
    show "?R a b \<Longrightarrow> ?R b c \<Longrightarrow> ?R a c" using grown_trans by blast
  qed (use assms in auto)
  then obtain d ids where d: "foldE resolve_service (db, Map.empty) es = Inr (d, ids)" "db_ok d"
    "\<And>k i. ids k = Some i \<Longrightarrow> service_named d i k" "\<And>e. e \<in> set es \<Longrightarrow> entry_key e \<in> dom ids" "grown db d"
    by auto
  have "\<forall>e \<in> set es. \<exists>s. ids (entry_key e) = Some s \<and> service_named d s (entry_key e)"
    using d(3,4) by blast
  with d(1,2,5) show ?thesis by blast
qed

lemma parse_entries_ok:
  "parse_entries seen es = Inr (parsed, all) \<Longrightarrow>
    list_all2 (\<lambda>e p. map_option masked (parse_prefix (ce_CIDR e)) = Some p) es parsed \<and>
    set all = set seen \<union> set parsed"
proof (induction es arbitrary: seen parsed all)
  case (Cons e es)
  then obtain p where p: "parse_prefix (ce_CIDR e) = Some p" by (auto split: option.splits)
  let ?seen = "if masked p \<in> set seen then seen else seen @ [masked p]"
  obtain parsed' where r: "parse_entries ?seen es = Inr (parsed', all)" "parsed = masked p # parsed'"
    using Cons.prems p by (auto simp: bindE_eq_Inr_iff)
  show ?case using Cons.IH [OF r(1)] r(2) p by (auto split: if_splits)
qed auto

lemma parse_entries_total:
  "(\<forall>e \<in> set es. parse_prefix (ce_CIDR e) \<noteq> None) \<Longrightarrow> \<exists>r. parse_entries seen es = Inr r"
proof (induction es arbitrary: seen)
  case (Cons e es)
  obtain p where p: "parse_prefix (ce_CIDR e) = Some p" using Cons.prems by auto
  show ?case
    using Cons.IH [of "if masked p \<in> set seen then seen else seen @ [masked p]"] Cons.prems p
    by (auto simp del: parse_entries.simps simp: parse_entries.simps(2))
qed simp

lemma parse_entries_networks: "parse_entries seen es = Inr (parsed, all) \<Longrightarrow> \<forall>p \<in> set parsed. network p"
  using parse_entries_ok [of seen es parsed all] network_masked [OF parse_prefix_ok]
  by (fastforce simp: list_all2_conv_all_nth in_set_conv_nth)

section \<open>What the entries of a feed say\<close>

definition entry_names :: "db \<Rightarrow> int \<Rightarrow> int \<Rightarrow> string \<times> string \<Rightarrow> prefix \<Rightarrow> bool" where
  "entry_names db s i k p \<longleftrightarrow> service_named db s k \<and> (\<exists>r \<in> set (prefix_rows db). px_id r = i \<and> row_is r p)"

definition feed_view :: "db \<Rightarrow> int \<Rightarrow> ((string \<times> string) \<times> prefix) set" where
  "feed_view db f = {(k, p). \<exists>s i. (f, s, i) \<in> set (entries db) \<and> entry_names db s i k p}"

lemma row_is_id:
  assumes "prefix_table_ok rows" "r \<in> set rows" "r' \<in> set rows" "px_id r = px_id r'"
  shows "r = r'"
  using assms by (auto simp: prefix_table_ok_def distinct_map dest: inj_onD)

lemma entry_names_fun:
  assumes "db_ok db" "entry_names db s i k p" "entry_names db s i k' p'"
  shows "k = k' \<and> p = p'"
  using assms service_named_fun [OF assms(1)] row_is_id [OF db_okD(4) [OF assms(1)]] row_is_fun
  unfolding entry_names_def by metis

lemma entry_names_grown: "entry_names db s i k p \<Longrightarrow> grown db db' \<Longrightarrow> entry_names db' s i k p"
  unfolding entry_names_def using service_named_grown grown_fields(10) by blast

lemma entry_names_exists:
  assumes "db_ok db" "s \<in> service_ids_of db" "i \<in> prefix_ids db"
  shows "\<exists>k p. entry_names db s i k p"
proof -
  obtain r where r: "r \<in> set (services db)" "s = sv_id r" using assms(2) by auto
  then have "sv_category r \<in> category_ids db" using assms(1) by (auto simp: db_ok_def refs_ok_def)
  then obtain c where c: "c \<in> set (categories db)" "ct_id c = sv_category r" by auto
  have "service_named db s (ct_name c, sv_name r)"
    unfolding service_named_def using r c
    by (metis category_row.surjective fst_conv old.unit.exhaust service_row.surjective snd_conv)
  moreover obtain x p where "x \<in> set (prefix_rows db)" "px_id x = i" "row_is x p"
    using assms(1,3) by (auto simp: db_ok_def stored_ok_def prefix_table_ok_def)
  ultimately show ?thesis unfolding entry_names_def by blast
qed

lemma entry_names_old:
  assumes "db_ok db" "db_ok db'" "grown db db'" "s \<in> service_ids_of db" "i \<in> prefix_ids db" "entry_names db' s i k p"
  shows "entry_names db s i k p"
proof -
  obtain k0 p0 where "entry_names db s i k0 p0" using entry_names_exists assms by blast
  then show ?thesis using entry_names_grown assms(3,6) entry_names_fun [OF assms(2)] by blast
qed

lemma entry_names_entries: "entry_names (db\<lparr>entries := es\<rparr>) = entry_names db"
  by (intro ext) (simp add: entry_names_def service_named_def)

lemma entry_names_ids: "entry_names db s i k p \<Longrightarrow> s \<in> service_ids_of db \<and> i \<in> prefix_ids db"
  unfolding entry_names_def using service_named_id by fastforce

lemma entries_refs:
  assumes "db_ok db" "(f, s, i) \<in> set (entries db)"
  shows "f \<in> feed_ids db" "s \<in> service_ids_of db" "i \<in> prefix_ids db"
proof -
  have "\<forall>(f, s, p) \<in> set (entries db). f \<in> feed_ids db \<and> s \<in> service_ids_of db \<and> p \<in> prefix_ids db"
    using db_okD(2) [OF assms(1)] unfolding refs_ok_def by - (elim conjE)
  from bspec [OF this assms(2)] show "f \<in> feed_ids db" "s \<in> service_ids_of db" "i \<in> prefix_ids db" by simp_all
qed

lemma mode_entries_refs:
  assumes "db_ok db" "(m, s, i) \<in> set (mode_entries db)"
  shows "m \<in> mode_ids db" "s \<in> service_ids_of db" "i \<in> prefix_ids db"
proof -
  have "\<forall>(m, s, p) \<in> set (mode_entries db). m \<in> mode_ids db \<and> s \<in> service_ids_of db \<and> p \<in> prefix_ids db"
    using db_okD(2) [OF assms(1)] unfolding refs_ok_def by - (elim conjE)
  from bspec [OF this assms(2)] show "m \<in> mode_ids db" "s \<in> service_ids_of db" "i \<in> prefix_ids db" by simp_all
qed

lemma mode_feeds_refs: "db_ok db \<Longrightarrow> l \<in> set (mode_feeds db) \<Longrightarrow> mf_mode l \<in> mode_ids db \<and> mf_feed l \<in> feed_ids db"
  unfolding db_ok_def refs_ok_def by blast

lemma insert_entries_fold:
  assumes "\<forall>(f, s, p) \<in> set rows. f \<in> feed_ids db \<and> s \<in> service_ids_of db \<and> p \<in> prefix_ids db"
  shows "\<exists>E. foldE insert_entry db rows = Inr (db\<lparr>entries := E\<rparr>) \<and> set E = set (entries db) \<union> set rows"
  using assms
proof (induction rows arbitrary: db)
  case Nil
  then show ?case by (intro exI [of _ "entries db"]) simp
next
  case (Cons row rows)
  obtain E1 where E1: "insert_entry db row = Inr (db\<lparr>entries := E1\<rparr>)" "set E1 = insert row (set (entries db))"
  proof (cases "row \<in> set (entries db)")
    case True
    then show ?thesis using that [of "entries db"] by (auto simp: insert_entry_def)
  next
    case False
    then show ?thesis using that [of "entries db @ [row]"] Cons.prems by (auto simp: insert_entry_def guardE_def)
  qed
  obtain E where "foldE insert_entry (db\<lparr>entries := E1\<rparr>) rows = Inr (db\<lparr>entries := E\<rparr>)" "set E = set E1 \<union> set rows"
    using Cons.IH [of "db\<lparr>entries := E1\<rparr>"] Cons.prems by auto
  then show ?case using E1 by auto
qed

lemma AppendCatalogEntries_error:
  assumes "e \<in> set es" "parse_prefix (ce_CIDR e) = None"
  shows "AppendCatalogEntries db f es \<noteq> Inr db'"
proof
  assume "AppendCatalogEntries db f es = Inr db'"
  then obtain parsed all where "parse_entries [] es = Inr (parsed, all)"
    using assms(1) by (auto simp: AppendCatalogEntries_def bindE_eq_Inr_iff split: if_splits)
  from parse_entries_ok [OF this] assms show False
    by (auto simp: list_all2_conv_all_nth in_set_conv_nth)
qed

lemma AppendCatalogEntries_ok:
  assumes "db_ok db" "f \<in> feed_ids db" "\<forall>e \<in> set es. parse_prefix (ce_CIDR e) \<noteq> None"
  shows "\<exists>db2 E. AppendCatalogEntries db f es = Inr (db2\<lparr>entries := E\<rparr>) \<and> grown db db2 \<and>
    db_ok db2 \<and> db_ok (db2\<lparr>entries := E\<rparr>) \<and> (\<exists>N. set E = set (entries db) \<union> N \<and>
      (\<forall>row \<in> N. \<exists>e \<in> set es. \<exists>p. parse_prefix (ce_CIDR e) = Some p \<and> fst row = f \<and>
         entry_names db2 (fst (snd row)) (snd (snd row)) (entry_key e) (masked p)) \<and>
      (\<forall>e \<in> set es. \<forall>p. parse_prefix (ce_CIDR e) = Some p \<longrightarrow> (\<exists>s i. (f, s, i) \<in> N \<and>
         entry_names db2 s i (entry_key e) (masked p))))"
proof (cases "es = []")
  case True
  then show ?thesis
    using assms(1) by (intro exI [of _ db] exI [of _ "entries db"]) (auto simp: AppendCatalogEntries_def)
next
  case False
  obtain d1 sids where d1: "foldE resolve_service (db, Map.empty) es = Inr (d1, sids)" "db_ok d1" "grown db d1"
    "\<forall>e \<in> set es. \<exists>s. sids (entry_key e) = Some s \<and> service_named d1 s (entry_key e)"
    using resolve_services_ok [OF assms(1)] by blast
  obtain parsed all where pe: "parse_entries [] es = Inr (parsed, all)"
    using parse_entries_total [OF assms(3)] by fastforce
  note po = parse_entries_ok [OF pe]
  have nets: "\<forall>p \<in> set all. network p" using po parse_entries_networks [OF pe] by simp
  obtain d2 pids where d2: "ensurePrefixIDs d1 all = Inr (d2, pids)" "interned d1 d2"
      "prefix_table_ok (prefix_rows d2)" "ids_sound (prefix_rows d2) pids" "set all \<subseteq> dom pids"
    using ensurePrefixIDs_ok [OF db_okD(4) [OF d1(2)] nets] by blast
  have ok2: "db_ok d2" and g2: "grown db d2" "grown d1 d2"
    using interned_ok [OF d1(2) d2(2,3)] grown_trans [OF d1(3)] interned_grown [OF d2(2)] by auto
  let ?row = "\<lambda>(e, p). (f, map_get sids (entry_key e), map_get pids p)"
  let ?rows = "map ?row (zip es parsed)"
  have zipD: "parse_prefix (ce_CIDR e) \<noteq> None \<and> p = masked (the (parse_prefix (ce_CIDR e))) \<and> e \<in> set es \<and> p \<in> set all"
    if "(e, p) \<in> set (zip es parsed)" for e p
    using that po by (auto simp: set_zip list_all2_conv_all_nth)
  have names: "entry_names d2 (map_get sids (entry_key e)) (map_get pids p) (entry_key e) p"
    if ep: "(e, p) \<in> set (zip es parsed)" for e p
  proof -
    obtain s where "sids (entry_key e) = Some s" "service_named d1 s (entry_key e)"
      using d1(4) zipD [OF ep] by blast
    moreover obtain i where i: "pids p = Some i" using d2(5) zipD [OF ep] by blast
    moreover have "\<exists>r \<in> set (prefix_rows d2). px_id r = i \<and> row_is r p"
      using d2(4) i unfolding ids_sound_def by blast
    ultimately show ?thesis
      using service_named_grown [OF _ g2(2)] by (auto simp: entry_names_def map_get_def)
  qed
  have idx: "\<exists>p. (e, p) \<in> set (zip es parsed)" if "e \<in> set es" for e
    using that po by (metis in_set_impl_in_set_zip1 list_all2_lengthD)
  have valid: "\<forall>(g, s, p) \<in> set ?rows. g \<in> feed_ids d2 \<and> s \<in> service_ids_of d2 \<and> p \<in> prefix_ids d2"
  proof clarify
    fix g s i assume "(g, s, i) \<in> set ?rows"
    then obtain e p where ep: "(e, p) \<in> set (zip es parsed)" "g = f" "s = map_get sids (entry_key e)" "i = map_get pids p"
      by auto
    have f2: "f \<in> feed_ids d2" using assms(2) grown_fields(4) [OF g2(1)] by simp
    from names [OF ep(1)] show "g \<in> feed_ids d2 \<and> s \<in> service_ids_of d2 \<and> i \<in> prefix_ids d2"
      using entry_names_ids f2 ep(2-4) by blast
  qed
  obtain E where E: "foldE insert_entry d2 ?rows = Inr (d2\<lparr>entries := E\<rparr>)" "set E = set (entries d2) \<union> set ?rows"
    using insert_entries_fold [OF valid] by blast
  have app: "AppendCatalogEntries db f es = Inr (d2\<lparr>entries := E\<rparr>)"
    using False d1(1) pe d2(1) E(1)
    by (simp add: AppendCatalogEntries_def foldE_batches_map del: foldE.simps)
  have okE: "db_ok (d2\<lparr>entries := E\<rparr>)"
    by (rule foldE_invariant [OF E(1), where P = db_ok]) (use ok2 insert_entry_ok in auto)
  have "\<forall>row \<in> set ?rows. \<exists>e \<in> set es. \<exists>p. parse_prefix (ce_CIDR e) = Some p \<and> fst row = f \<and>
         entry_names d2 (fst (snd row)) (snd (snd row)) (entry_key e) (masked p)"
    using names zipD by fastforce
  moreover have "\<forall>e \<in> set es. \<forall>p. parse_prefix (ce_CIDR e) = Some p \<longrightarrow> (\<exists>s i. (f, s, i) \<in> set ?rows \<and>
         entry_names d2 s i (entry_key e) (masked p))"
  proof (intro ballI allI impI)
    fix e p assume e: "e \<in> set es" and p: "parse_prefix (ce_CIDR e) = Some p"
    obtain q where q: "(e, q) \<in> set (zip es parsed)" using idx [OF e] by blast
    then have "q = masked p" using zipD [OF q] p by simp
    then show "\<exists>s i. (f, s, i) \<in> set ?rows \<and> entry_names d2 s i (entry_key e) (masked p)"
      using names [OF q] q by force
  qed
  moreover have "set E = set (entries db) \<union> set ?rows" using E(2) grown_fields(1) [OF g2(1)] by simp
  ultimately show ?thesis using app g2(1) ok2 okE by blast
qed

lemma AppendCatalogEntries_view:
  assumes "db_ok db" "f \<in> feed_ids db" "\<forall>e \<in> set es. parse_prefix (ce_CIDR e) \<noteq> None"
  shows "\<exists>db'. AppendCatalogEntries db f es = Inr db' \<and> db_ok db' \<and>
    feed_view db' f = feed_view db f \<union> {(entry_key e, masked p) | e p. e \<in> set es \<and> parse_prefix (ce_CIDR e) = Some p} \<and>
    (\<forall>g. g \<noteq> f \<longrightarrow> feed_view db' g = feed_view db g)"
proof -
  obtain d E N where app: "AppendCatalogEntries db f es = Inr (d\<lparr>entries := E\<rparr>)" and g: "grown db d"
    and ok: "db_ok d" "db_ok (d\<lparr>entries := E\<rparr>)" and E: "set E = set (entries db) \<union> N"
    and N1: "\<forall>row \<in> N. \<exists>e \<in> set es. \<exists>p. parse_prefix (ce_CIDR e) = Some p \<and> fst row = f \<and>
         entry_names d (fst (snd row)) (snd (snd row)) (entry_key e) (masked p)"
    and N2: "\<forall>e \<in> set es. \<forall>p. parse_prefix (ce_CIDR e) = Some p \<longrightarrow> (\<exists>s i. (f, s, i) \<in> N \<and>
         entry_names d s i (entry_key e) (masked p))"
    using AppendCatalogEntries_ok [OF assms] by blast
  have old: "entry_names d s i k p \<longleftrightarrow> entry_names db s i k p" if "(g, s, i) \<in> set (entries db)" for g s i k p
    using entry_names_old [OF assms(1) ok(1) g entries_refs(2,3) [OF assms(1) that]] entry_names_grown [OF _ g]
    by blast
  have view: "feed_view (d\<lparr>entries := E\<rparr>) g' =
      feed_view db g' \<union> {(k, p). \<exists>s i. (g', s, i) \<in> N \<and> entry_names d s i k p}" for g'
  proof -
    have "(\<exists>s i. (g', s, i) \<in> set E \<and> entry_names d s i k p) \<longleftrightarrow>
        (\<exists>s i. (g', s, i) \<in> set (entries db) \<and> entry_names db s i k p) \<or> (\<exists>s i. (g', s, i) \<in> N \<and> entry_names d s i k p)"
      for k p unfolding E using old by blast
    then show ?thesis unfolding feed_view_def entry_names_entries by auto
  qed
  have new: "{(k, p). \<exists>s i. (f, s, i) \<in> N \<and> entry_names d s i k p} =
      {(entry_key e, masked p) | e p. e \<in> set es \<and> parse_prefix (ce_CIDR e) = Some p}" (is "?A = ?B")
  proof (rule set_eqI, rule iffI)
    fix x assume "x \<in> ?A"
    then obtain k p s i where x: "x = (k, p)" "(f, s, i) \<in> N" "entry_names d s i k p" by auto
    then obtain e q where "e \<in> set es" "parse_prefix (ce_CIDR e) = Some q" "entry_names d s i (entry_key e) (masked q)"
      using N1 by fastforce
    then show "x \<in> ?B" using entry_names_fun [OF ok(1)] x by blast
  next
    fix x assume "x \<in> ?B"
    then show "x \<in> ?A" using N2 by blast
  qed
  have none: "{(k, p). \<exists>s i. (g', s, i) \<in> N \<and> entry_names d s i k p} = {}" if "g' \<noteq> f" for g'
    using N1 that by fastforce
  have "feed_view (d\<lparr>entries := E\<rparr>) g' = feed_view db g'" if "g' \<noteq> f" for g'
    unfolding view none [OF that] by simp
  moreover have "feed_view (d\<lparr>entries := E\<rparr>) f = feed_view db f \<union>
      {(entry_key e, masked p) | e p. e \<in> set es \<and> parse_prefix (ce_CIDR e) = Some p}"
    unfolding view new ..
  ultimately show ?thesis using app ok(2) by blast
qed

lemma feed_view_delete: "feed_view (delete_feed_entries f db) g = (if g = f then {} else feed_view db g)"
  by (auto simp: feed_view_def delete_feed_entries_def entry_names_entries)

section \<open>A small database\<close>

text \<open>
  Two feeds, one included and one excluded by the mode 4, with 10.0.0.0/8 and 10.128.0.0/9; a user with one
  network, one filter and one selected service.
\<close>

definition sample_feed :: "int \<Rightarrow> string \<Rightarrow> feed_row" where
  "sample_feed i name = \<lparr>fd_id = i, fd_name = name, fd_url = name, fd_adapter = 1, fd_enabled = True,
     fd_sync_interval = 60, fd_data = [], fd_allowed_hosts = [], fd_restrict_hosts = False,
     fd_last_success = 0, fd_last_error = []\<rparr>"

definition sample_user :: user_row where
  "sample_user = \<lparr>us_id = 1, us_name = ''ann'', us_peer_ip = [192, 0, 2, 1], us_peer_asn = 65001, us_next_hop = None,
     us_password = [], us_locked = False, us_enabled = True, us_filter_mode = 0, us_filter_editable = True,
     us_mode = 4, us_mode_editable = True, us_active_dial = False, us_web_auth = 0\<rparr>"

definition sample_db :: db where
  "sample_db = \<lparr>categories = [\<lparr>ct_id = 1, ct_name = ''video''\<rparr>],
     services = [\<lparr>sv_id = 1, sv_category = 1, sv_name = ''tube''\<rparr>],
     prefix_rows = [\<lparr>px_id = 1, px_ip = [10, 0, 0, 0], px_bits = 8\<rparr>, \<lparr>px_id = 2, px_ip = [10, 128, 0, 0], px_bits = 9\<rparr>],
     entries = [(1, 1, 1), (2, 1, 2)], mode_entries = [], modes = [\<lparr>md_id = 1, md_name = ''all'', md_enabled = True\<rparr>, \<lparr>md_id = 4, md_name = ''blocked'', md_enabled = True\<rparr>],
     adapters = [(1, 1)], feeds = [sample_feed 1 ''a'', sample_feed 2 ''b''],
     mode_feeds = [\<lparr>mf_mode = 4, mf_feed = 1, mf_exclude = False\<rparr>, \<lparr>mf_mode = 4, mf_feed = 2, mf_exclude = True\<rparr>],
     users = [sample_user], networks = [(1, [198, 51, 100, 0], 24)], selected_categories = [], selected_services = [(1, 4, 1)],
     filter_rows = [(1, 2, [10, 0, 0, 0], 16)],
     communities = [\<lparr>cm_mode = 4, cm_category = 1, cm_service = 1, cm_community = 7\<rparr>], settings = []\<rparr>"

lemma sample_decodes [simp]:
  "DecodePrefix [10, 0, 0, 0] 8 = Inr (Prefix (Addr IPv4 167772160) 8)"
  "DecodePrefix [10, 128, 0, 0] 9 = Inr (Prefix (Addr IPv4 176160768) 9)"
  "DecodePrefix [198, 51, 100, 0] 24 = Inr (Prefix (Addr IPv4 3325256704) 24)"
  "DecodePrefix [10, 0, 0, 0] 16 = Inr (Prefix (Addr IPv4 167772160) 16)"
  by (simp_all add: DecodePrefix_def DecodeAddr_def addr_from_slice_def addr_from4_def be_nat_def prefix_from_def prefix_is_valid_def)

lemma sample_networks [simp]:
  "network (Prefix (Addr IPv4 167772160) 8)" "network (Prefix (Addr IPv4 176160768) 9)"
  "network (Prefix (Addr IPv4 3325256704) 24)" "network (Prefix (Addr IPv4 167772160) 16)"
  by (simp_all add: network_def prefix_ok_def prefix_is_valid_def addr_ok_def masked_def)

lemma sample_db_ok: "db_ok sample_db"
proof -
  have "keys_ok sample_db" "refs_ok sample_db"
    by (simp_all add: keys_ok_def refs_ok_def sample_db_def sample_feed_def sample_user_def)
  moreover have "prefix_table_ok (prefix_rows sample_db)"
    unfolding prefix_table_ok_def using sample_networks by (auto simp: sample_db_def row_is_def simp del: sample_networks)
  moreover have "\<forall>(u, n) \<in> set (networks sample_db). stored_prefix n"
      "\<forall>(u, a, n) \<in> set (filter_rows sample_db). stored_prefix n"
    using sample_networks by (auto simp: sample_db_def stored_prefix_def simp del: sample_networks)
  ultimately show ?thesis by (simp add: db_ok_def stored_ok_def)
qed

text \<open>C13: replacing the entries of a feed succeeds exactly when every CIDR parses, and then the feed says what
  the given entries say, each prefix masked, whatever it said before; the other feeds say what they said, and
  the integrity of the database is kept.\<close>

theorem ReplaceCatalogEntries_exact:
  assumes "db_ok db" and "f \<in> feed_ids db"
  shows "((\<exists>db'. ReplaceCatalogEntries db f es = Inr db') \<longleftrightarrow> (\<forall>e \<in> set es. parse_prefix (ce_CIDR e) \<noteq> None)) \<and>
    (\<forall>db'. ReplaceCatalogEntries db f es = Inr db' \<longrightarrow> db_ok db' \<and>
      feed_view db' f = {(entry_key e, masked p) | e p. e \<in> set es \<and> parse_prefix (ce_CIDR e) = Some p} \<and>
      (\<forall>g. g \<noteq> f \<longrightarrow> feed_view db' g = feed_view db g))"
proof (cases "\<forall>e \<in> set es. parse_prefix (ce_CIDR e) \<noteq> None")
  case True
  have f: "f \<in> feed_ids (delete_feed_entries f db)" using assms(2) by (simp add: delete_feed_entries_def)
  obtain db' where "ReplaceCatalogEntries db f es = Inr db'" "db_ok db'"
    "feed_view db' f = {(entry_key e, masked p) | e p. e \<in> set es \<and> parse_prefix (ce_CIDR e) = Some p}"
    "\<forall>g. g \<noteq> f \<longrightarrow> feed_view db' g = feed_view db g"
    using AppendCatalogEntries_view [OF delete_feed_entries_ok [OF assms(1)] f True]
    by (simp add: ReplaceCatalogEntries_def feed_view_delete) blast
  then show ?thesis using True by simp
next
  case False
  then show ?thesis using AppendCatalogEntries_error unfolding ReplaceCatalogEntries_def by blast
qed

lemma sample_parse: "parse_prefix ''0.0.0.5/32'' = Some (Prefix (Addr IPv4 5) 32)" "parse_prefix ''0.0.0.5'' = None"
  by code_simp+

theorem ReplaceCatalogEntries_exact_witness:
  "(\<exists>db'. ReplaceCatalogEntries sample_db 1 [\<lparr>ce_Category = ''games'', ce_Service = ''chess'', ce_CIDR = ''0.0.0.5/32''\<rparr>] = Inr db' \<and>
      feed_view db' 1 = {((''games'', ''chess''), Prefix (Addr IPv4 5) 32)}) \<and>
    (\<nexists>db'. ReplaceCatalogEntries sample_db 1 [\<lparr>ce_Category = ''games'', ce_Service = ''chess'', ce_CIDR = ''0.0.0.5''\<rparr>] = Inr db')"
proof -
  have f: "1 \<in> feed_ids sample_db" by (simp add: sample_db_def sample_feed_def)
  have "masked (Prefix (Addr IPv4 5) 32) = Prefix (Addr IPv4 5) 32"
    by (simp add: masked_def)
  then show ?thesis
    using ReplaceCatalogEntries_exact [OF sample_db_ok f, of "[\<lparr>ce_Category = ''games'', ce_Service = ''chess'', ce_CIDR = ''0.0.0.5/32''\<rparr>]"]
      ReplaceCatalogEntries_exact [OF sample_db_ok f, of "[\<lparr>ce_Category = ''games'', ce_Service = ''chess'', ce_CIDR = ''0.0.0.5''\<rparr>]"]
    by (auto simp: sample_parse)
qed

end
