(* ===== verification/Store_Merge.thy ===== *)
theory Store_Merge
  imports Store_Integrity
begin

text \<open>
  The materialised merge of \<open>mode_entries.go\<close>. The specification is a function of addresses: in a mode, a
  service stands for the addresses its enabled include feeds give it, minus the addresses of the enabled
  exclude feeds, default routes of include feeds left out. \<open>rebuildModeEntries\<close> always succeeds and makes
  the stored entries of its mode stand for exactly that, without touching the other modes.
\<close>

section \<open>Specification\<close>

definition include_ids :: "db \<Rightarrow> int \<Rightarrow> int \<Rightarrow> int set" where
  "include_ids db m s = {i. \<exists>l \<in> set (mode_feeds db). mf_mode l = m \<and> \<not> mf_exclude l \<and>
     feed_enabled db (mf_feed l) \<and> (mf_feed l, s, i) \<in> set (entries db)}"

definition exclude_ids :: "db \<Rightarrow> int \<Rightarrow> int set" where
  "exclude_ids db m = {i. \<exists>l \<in> set (mode_feeds db). mf_mode l = m \<and> mf_exclude l \<and>
     feed_enabled db (mf_feed l) \<and> (\<exists>s. (mf_feed l, s, i) \<in> set (entries db))}"

definition mode_entry_ids :: "db \<Rightarrow> int \<Rightarrow> int \<Rightarrow> int set" where
  "mode_entry_ids db m s = {i. (m, s, i) \<in> set (mode_entries db)}"

definition stored :: "db \<Rightarrow> int set \<Rightarrow> prefix set" where
  "stored db I = {p. \<exists>r \<in> set (prefix_rows db). px_id r \<in> I \<and> row_is r p}"

definition spans :: "prefix set \<Rightarrow> addr set" where
  "spans P = (\<Union>p \<in> P. addrs_of p)"

definition routable :: "prefix set \<Rightarrow> prefix set" where
  "routable P = {p \<in> P. p_bits p \<noteq> 0}"

definition merged :: "db \<Rightarrow> int \<Rightarrow> int \<Rightarrow> addr set" where
  "merged db m s = spans (routable (stored db (include_ids db m s))) - spans (stored db (exclude_ids db m))"

definition materialised :: "db \<Rightarrow> int \<Rightarrow> int \<Rightarrow> addr set" where
  "materialised db m s = spans (routable (stored db (mode_entry_ids db m s)))"

definition synced :: "db \<Rightarrow> int \<Rightarrow> bool" where
  "synced db m \<longleftrightarrow> (\<forall>s. materialised db m s = merged db m s)"

section \<open>Queries\<close>

lemma mapE_total:
  "\<forall>x \<in> set xs. \<exists>y. f x = Inr y \<Longrightarrow> \<exists>ys. mapE f xs = Inr ys \<and> set ys = {y. \<exists>x \<in> set xs. f x = Inr y}"
proof (induction xs)
  case (Cons x xs)
  obtain y where "f x = Inr y" using Cons.prems by auto
  moreover obtain ys where "mapE f xs = Inr ys" "set ys = {y. \<exists>x \<in> set xs. f x = Inr y}"
    using Cons by auto
  ultimately show ?case by auto
qed simp

lemma prefix_row_decodes:
  assumes "prefix_table_ok rows" "r \<in> set rows" shows "\<exists>p. row_is r p \<and> network p"
  using assms by (auto simp: prefix_table_ok_def)

lemma stored_networks:
  assumes "db_ok db" "p \<in> stored db I" shows "network p"
  using assms prefix_row_decodes [OF db_okD(4) [OF assms(1)]] row_is_fun by (fastforce simp: stored_def)

lemma modeExcludePrefixes_ok:
  assumes "db_ok db"
  shows "\<exists>ps. modeExcludePrefixes db m = Inr ps \<and> set ps = stored db (exclude_ids db m)"
proof -
  let ?rows = "remdups [(px_ip p, px_bits p).
          l \<leftarrow> mode_feeds db, mf_mode l = m \<and> mf_exclude l \<and> feed_enabled db (mf_feed l),
          (f, s, i) \<leftarrow> entries db, f = mf_feed l,
          p \<leftarrow> prefix_rows db, px_id p = i]"
  have set: "set ?rows = {k. \<exists>r \<in> set (prefix_rows db). px_id r \<in> exclude_ids db m \<and> k = px_key r}"
    by (auto simp: exclude_ids_def split: if_splits)
  have "\<forall>k \<in> set ?rows. \<exists>p. (\<lambda>(ip, bits). DecodePrefix ip bits) k = Inr p"
    unfolding set using prefix_row_decodes [OF db_okD(4) [OF assms]] by (auto simp: row_is_def)
  from mapE_total [OF this] obtain ps where ps: "modeExcludePrefixes db m = Inr ps"
    "set ps = {p. \<exists>k \<in> set ?rows. (\<lambda>(ip, bits). DecodePrefix ip bits) k = Inr p}"
    unfolding modeExcludePrefixes_def by blast
  have "set ps = stored db (exclude_ids db m)"
    unfolding ps(2) set by (auto simp: stored_def row_is_def)
  then show ?thesis using ps(1) by blast
qed

lemma set_include_entries: "set (include_entries db m) = {(s, i). i \<in> include_ids db m s}"
  by (auto simp: include_entries_def include_ids_def split: if_splits)

lemma set_include_rows:
  "set (include_rows db m) = {(s, i, ip, bits). i \<in> include_ids db m s \<and>
     (\<exists>r \<in> set (prefix_rows db). px_id r = i \<and> px_key r = (ip, bits))}"
  by (auto simp: include_rows_def include_ids_def split: if_splits)

section \<open>Excluding\<close>

definition kept_prefixes :: "exclude_set \<Rightarrow> prefix \<Rightarrow> prefix set" where
  "kept_prefixes ex p = (if p_bits p = 0 then {p} else set (fst (exclude_subtract ex p)))"

lemma exclude_facts:
  assumes "well_formed excludes" "network p"
  defines "ex \<equiv> new_exclude_set excludes"
  shows "cover (fst (exclude_subtract ex p)) = addrs_of p - cover excludes"
    "q \<in> set (fst (exclude_subtract ex p)) \<Longrightarrow> network q"
    "\<not> snd (exclude_subtract ex p) \<Longrightarrow> fst (exclude_subtract ex p) = [p]"
    "exclude_empty ex \<Longrightarrow> \<not> snd (exclude_subtract ex p)"
proof -
  have ok: "prefix_ok p" "masked p = p" using network_sel assms(2) by auto
  note e = new_exclude_set_ok [OF assms(1)]
  note s = exclude_subtract_correct [OF e(1) ok(1)]
  show "cover (fst (exclude_subtract ex p)) = addrs_of p - cover excludes"
    "q \<in> set (fst (exclude_subtract ex p)) \<Longrightarrow> network q"
    "\<not> snd (exclude_subtract ex p) \<Longrightarrow> fst (exclude_subtract ex p) = [p]"
    using s ok(2) unfolding e(2) ex_def by auto
  show "\<not> snd (exclude_subtract ex p)" if "exclude_empty ex"
  proof -
    have "exclude_cover ex = {}" using that by (simp add: exclude_empty_def exclude_cover_def)
    then show ?thesis using s unfolding ex_def e(2) by auto
  qed
qed

lemma piece_not_default:
  assumes "network p" "network q" "addrs_of q \<subseteq> addrs_of p" "p_bits p \<noteq> 0" shows "p_bits q \<noteq> 0"
proof
  assume q0: "p_bits q = 0"
  let ?L = "p_bitlen q"
  have q: "p_val q = 0" using network_top [OF assms(2)] q0 by simp
  have "Addr (p_fam q) 0 \<in> addrs_of q" "Addr (p_fam q) (2 ^ ?L - 1) \<in> addrs_of q"
    using q q0 by (simp_all add: in_addrs_of_interval [OF assms(2)])
  then have in_p: "Addr (p_fam q) 0 \<in> addrs_of p" "Addr (p_fam q) (2 ^ ?L - 1) \<in> addrs_of p"
    using assms(3) by blast+
  then have p: "p_fam q = p_fam p" "p_val p = 0" "2 ^ ?L - 1 < (2::nat) ^ host_bits p"
    by (simp_all add: in_addrs_of_interval [OF assms(1)])
  have "0 < ?L" "host_bits p \<le> ?L - 1" using p(1) assms(4) by auto
  then have "(2::nat) ^ host_bits p \<le> 2 ^ (?L - 1)" "(2::nat) ^ ?L = 2 * 2 ^ (?L - 1)" "(1::nat) \<le> 2 ^ (?L - 1)"
    by (auto simp: power_increasing simp flip: power_Suc)
  with p(3) show False by linarith
qed

lemma kept_prefixes_spans:
  assumes "well_formed excludes" "\<forall>p \<in> P. network p"
  shows "spans (routable (\<Union>p \<in> P. kept_prefixes (new_exclude_set excludes) p)) = spans (routable P) - cover excludes"
proof -
  have one: "spans (routable (kept_prefixes (new_exclude_set excludes) p)) =
      (if p_bits p = 0 then {} else addrs_of p - cover excludes)" if "p \<in> P" for p
  proof (cases "p_bits p = 0")
    case False
    let ?F = "fst (exclude_subtract (new_exclude_set excludes) p)"
    have p: "network p" using assms(2) that by blast
    note f = exclude_facts [OF assms(1) p]
    have "routable (set ?F) = set ?F"
    proof -
      have "p_bits q \<noteq> 0" if q: "q \<in> set ?F" for q
      proof -
        have "addrs_of q \<subseteq> addrs_of p" using f(1) q by (auto simp: cover_def)
        then show ?thesis using piece_not_default [OF p f(2) [OF q]] False by blast
      qed
      then show ?thesis by (auto simp: routable_def)
    qed
    then show ?thesis using f(1) False by (simp add: kept_prefixes_def spans_def cover_def)
  qed (simp add: kept_prefixes_def routable_def spans_def)
  have "spans (routable (\<Union>p \<in> P. kept_prefixes (new_exclude_set excludes) p)) =
      (\<Union>p \<in> P. spans (routable (kept_prefixes (new_exclude_set excludes) p)))"
    by (auto simp: spans_def routable_def)
  also have "\<dots> = spans (routable P) - cover excludes"
    using one by (auto simp: spans_def routable_def split: if_splits)
  finally show ?thesis .
qed

section \<open>The loop over the include rows\<close>

text \<open>The prefix an entry of the loop stands for, looked up in the table when it carries an id.\<close>

definition entry_is :: "prefix_row list \<Rightarrow> mode_entry \<Rightarrow> prefix \<Rightarrow> bool" where
  "entry_is rows e p \<longleftrightarrow>
     (if me_prefix_id e = 0 then me_prefix e = Some p
      else \<exists>r \<in> set rows. px_id r = me_prefix_id e \<and> row_is r p)"

definition row_entries :: "exclude_set \<Rightarrow> int \<times> int \<times> byte list \<times> int \<Rightarrow> prefix \<Rightarrow> mode_entry set" where
  "row_entries ex x p =
     (if p_bits p = 0 \<or> \<not> snd (exclude_subtract ex p)
      then {\<lparr>me_service = fst x, me_prefix_id = fst (snd x), me_prefix = None\<rparr>}
      else (\<lambda>q. \<lparr>me_service = fst x, me_prefix_id = 0, me_prefix = Some q\<rparr>) ` set (fst (exclude_subtract ex p)))"

lemma set_fragments: "set (foldl (\<lambda>fs q. if q \<in> set fs then fs else fs @ [q]) fs qs) = set fs \<union> set qs"
  by (induction qs arbitrary: fs) auto

lemma rebuild_loop_ok:
  assumes "\<forall>x \<in> set rows. \<exists>p. DecodePrefix (fst (snd (snd x))) (snd (snd (snd x))) = Inr p"
  shows "\<exists>acc' fs'. rebuild_loop ex rows acc fs = Inr (acc', fs') \<and>
    set acc' = set acc \<union> {e. \<exists>x \<in> set rows. \<exists>p. DecodePrefix (fst (snd (snd x))) (snd (snd (snd x))) = Inr p \<and> e \<in> row_entries ex x p} \<and>
    set fs' = set fs \<union> {q. \<exists>x \<in> set rows. \<exists>p. DecodePrefix (fst (snd (snd x))) (snd (snd (snd x))) = Inr p \<and>
      (\<exists>e \<in> row_entries ex x p. me_prefix e = Some q)}"
  using assms
proof (induction rows arbitrary: acc fs)
  case Nil
  then show ?case by simp
next
  case (Cons x rows)
  obtain s i ip bits where x: "x = (s, i, ip, bits)" by (metis prod_cases4)
  obtain p where p: "DecodePrefix ip bits = Inr p" using Cons.prems x by auto
  define acc1 fs1 where "acc1 = (if p_bits p = 0 \<or> \<not> snd (exclude_subtract ex p)
      then acc @ [\<lparr>me_service = s, me_prefix_id = i, me_prefix = None\<rparr>]
      else acc @ map (\<lambda>q. \<lparr>me_service = s, me_prefix_id = 0, me_prefix = Some q\<rparr>) (fst (exclude_subtract ex p)))"
    and "fs1 = (if p_bits p = 0 \<or> \<not> snd (exclude_subtract ex p) then fs
      else foldl (\<lambda>fs q. if q \<in> set fs then fs else fs @ [q]) fs (fst (exclude_subtract ex p)))"
  have step: "rebuild_loop ex (x # rows) acc fs = rebuild_loop ex rows acc1 fs1"
    using p by (auto simp: x acc1_def fs1_def case_prod_unfold)
  have sets: "set acc1 = set acc \<union> row_entries ex x p"
      "set fs1 = set fs \<union> {q. \<exists>e \<in> row_entries ex x p. me_prefix e = Some q}"
    by (auto simp: acc1_def fs1_def row_entries_def x set_fragments)
  obtain acc' fs' where ih: "rebuild_loop ex rows acc1 fs1 = Inr (acc', fs')"
    "set acc' = set acc1 \<union> {e. \<exists>x \<in> set rows. \<exists>p. DecodePrefix (fst (snd (snd x))) (snd (snd (snd x))) = Inr p \<and> e \<in> row_entries ex x p}"
    "set fs' = set fs1 \<union> {q. \<exists>x \<in> set rows. \<exists>p. DecodePrefix (fst (snd (snd x))) (snd (snd (snd x))) = Inr p \<and>
      (\<exists>e \<in> row_entries ex x p. me_prefix e = Some q)}"
    using Cons.IH [of acc1 fs1] Cons.prems by auto
  have d: "DecodePrefix (fst (snd (snd x))) (snd (snd (snd x))) = Inr p' \<longleftrightarrow> p' = p" for p'
    using p by (auto simp: x)
  show ?case
    using step ih sets by (auto simp: d)
qed

lemma insert_mode_entries_fold:
  assumes "\<forall>(m, s, p) \<in> set rows. m \<in> mode_ids db \<and> s \<in> service_ids_of db \<and> p \<in> prefix_ids db"
  shows "\<exists>E. foldE insert_mode_entry db rows = Inr (db\<lparr>mode_entries := E\<rparr>) \<and> set E = set (mode_entries db) \<union> set rows"
  using assms
proof (induction rows arbitrary: db)
  case Nil
  then show ?case by (intro exI [of _ "mode_entries db"]) simp
next
  case (Cons row rows)
  obtain E1 where E1: "insert_mode_entry db row = Inr (db\<lparr>mode_entries := E1\<rparr>)" "set E1 = insert row (set (mode_entries db))"
  proof (cases "row \<in> set (mode_entries db)")
    case True
    then show ?thesis using that [of "mode_entries db"] by (auto simp: insert_mode_entry_def)
  next
    case False
    then show ?thesis using that [of "mode_entries db @ [row]"] Cons.prems by (auto simp: insert_mode_entry_def)
  qed
  obtain E where "foldE insert_mode_entry (db\<lparr>mode_entries := E1\<rparr>) rows = Inr (db\<lparr>mode_entries := E\<rparr>)" "set E = set E1 \<union> set rows"
    using Cons.IH [of "db\<lparr>mode_entries := E1\<rparr>"] Cons.prems by auto
  then show ?case using E1 by auto
qed

section \<open>Rebuilding a mode\<close>

lemma include_ids_refs:
  assumes "db_ok db" "i \<in> include_ids db m s"
  shows "m \<in> mode_ids db" "s \<in> service_ids_of db" "i \<in> prefix_ids db"
  using assms mode_feeds_refs [OF assms(1)] entries_refs [OF assms(1)] by (auto simp: include_ids_def simp del: set_map)

lemma query_frames [simp]:
  "feed_enabled (delete_mode_entries m db) f = feed_enabled db f"
  "include_ids (delete_mode_entries m db) = include_ids db"
  "exclude_ids (delete_mode_entries m db) = exclude_ids db"
  "stored (delete_mode_entries m db) = stored db"
  "prefix_rows (delete_mode_entries m db) = prefix_rows db"
  by (simp_all add: delete_mode_entries_def feed_enabled_def include_ids_def exclude_ids_def stored_def fun_eq_iff)

lemma stored_well_formed: "db_ok db \<Longrightarrow> set ps = stored db I \<Longrightarrow> well_formed ps"
  using stored_networks network_sel(4) unfolding well_formed_def by metis

lemma row_lookup:
  assumes "prefix_table_ok rows" "r \<in> set rows" "row_is r p"
  shows "(\<exists>x \<in> set rows. px_id x = px_id r \<and> row_is x q) \<longleftrightarrow> q = p"
  using assms row_is_id [OF assms(1)] row_is_fun by blast

lemma rebuild_effect:
  assumes ok: "db_ok db"
  shows "\<exists>db2 E xs N. rebuildModeEntries db m = Inr (db2\<lparr>mode_entries := E\<rparr>) \<and>
    interned (delete_mode_entries m db) db2 \<and> db_ok db2 \<and> db_ok (db2\<lparr>mode_entries := E\<rparr>) \<and>
    set xs = stored db (exclude_ids db m) \<and>
    set E = {row \<in> set (mode_entries db). fst row \<noteq> m} \<union> N \<and> (\<forall>row \<in> N. fst row = m) \<and>
    (\<forall>s. {p. \<exists>i. (m, s, i) \<in> N \<and> (\<exists>r \<in> set (prefix_rows db2). px_id r = i \<and> row_is r p)} =
      (\<Union>p \<in> stored db (include_ids db m s). kept_prefixes (new_exclude_set xs) p))"
proof -
  let ?d1 = "delete_mode_entries m db"
  have ok1: "db_ok ?d1" by (rule delete_mode_entries_ok [OF ok])
  obtain xs where xs: "modeExcludePrefixes db m = Inr xs" "set xs = stored db (exclude_ids db m)"
    using modeExcludePrefixes_ok [OF ok] by blast
  have wf: "well_formed xs" by (rule stored_well_formed [OF ok xs(2)])
  let ?ex = "new_exclude_set xs"
  have me1: "set (mode_entries ?d1) = {row \<in> set (mode_entries db). fst row \<noteq> m}"
    by (auto simp: delete_mode_entries_def)
  have ids1: "mode_ids ?d1 = mode_ids db" "service_ids_of ?d1 = service_ids_of db"
    by (simp_all add: delete_mode_entries_def)
  note refs = include_ids_refs [OF ok]
  show ?thesis
  proof (cases "exclude_empty ?ex")
    case True
    let ?rows = "map (\<lambda>(s, i). (m, s, i)) (include_entries ?d1 m)"
    have rows: "set ?rows = {(m', s, i). m' = m \<and> i \<in> include_ids db m s}"
      by (auto simp: set_include_entries)
    have valid: "\<forall>(g, s, p) \<in> set ?rows. g \<in> mode_ids ?d1 \<and> s \<in> service_ids_of ?d1 \<and> p \<in> prefix_ids ?d1"
      unfolding rows ids1 query_frames using refs by (auto simp del: set_map)
    obtain E where E: "foldE insert_mode_entry ?d1 ?rows = Inr (?d1\<lparr>mode_entries := E\<rparr>)"
      "set E = set (mode_entries ?d1) \<union> set ?rows"
      using insert_mode_entries_fold [OF valid] by blast
    have okE: "db_ok (?d1\<lparr>mode_entries := E\<rparr>)"
      by (rule foldE_invariant [OF E(1), where P = db_ok]) (use ok1 insert_mode_entry_ok in auto)
    have same: "kept_prefixes ?ex p = {p}" if "p \<in> stored db I" for p I
      using exclude_facts(3,4) [OF wf stored_networks [OF ok that]] True by (simp add: kept_prefixes_def)
    have den: "{p. \<exists>i. (m, s, i) \<in> set ?rows \<and> (\<exists>r \<in> set (prefix_rows ?d1). px_id r = i \<and> row_is r p)} =
      (\<Union>p \<in> stored db (include_ids db m s). kept_prefixes ?ex p)" for s
      unfolding rows using same [of _ "include_ids db m s"] by (auto simp: stored_def)
    have reb: "rebuildModeEntries db m = Inr (?d1\<lparr>mode_entries := E\<rparr>)"
      using True E(1) by (simp add: rebuildModeEntries_def xs(1) Let_def)
    have own: "\<forall>row \<in> set ?rows. fst row = m" unfolding rows by auto
    show ?thesis
      by (rule exI [of _ ?d1], rule exI [of _ E], rule exI [of _ xs], rule exI [of _ "set ?rows"])
        (intro conjI allI reb interned_refl ok1 okE xs(2) E(2) [unfolded me1] own den)
  next
    case False
    have inc: "set (include_rows ?d1 m) = {(s, i, ip, bits). i \<in> include_ids db m s \<and>
       (\<exists>r \<in> set (prefix_rows db). px_id r = i \<and> px_key r = (ip, bits))}"
      by (simp only: set_include_rows query_frames)
    have dec: "\<forall>x \<in> set (include_rows ?d1 m). \<exists>p. DecodePrefix (fst (snd (snd x))) (snd (snd (snd x))) = Inr p"
      unfolding inc using prefix_row_decodes [OF db_okD(4) [OF ok]] by (auto simp: row_is_def)
    obtain acc fs where loop: "rebuild_loop ?ex (include_rows ?d1 m) [] [] = Inr (acc, fs)"
      and acc: "set acc = {e. \<exists>x \<in> set (include_rows ?d1 m). \<exists>p. DecodePrefix (fst (snd (snd x))) (snd (snd (snd x))) = Inr p \<and> e \<in> row_entries ?ex x p}"
      and fs: "set fs = {q. \<exists>x \<in> set (include_rows ?d1 m). \<exists>p. DecodePrefix (fst (snd (snd x))) (snd (snd (snd x))) = Inr p \<and>
          (\<exists>e \<in> row_entries ?ex x p. me_prefix e = Some q)}"
      using rebuild_loop_ok [OF dec, of ?ex "[]" "[]"] by auto
    have accI: "e \<in> set acc \<longleftrightarrow> (\<exists>s i r p. i \<in> include_ids db m s \<and> r \<in> set (prefix_rows db) \<and> px_id r = i \<and> row_is r p \<and>
        e \<in> row_entries ?ex (s, i, px_key r) p)" for e
    proof
      assume "e \<in> set acc"
      then obtain s i ip bits p where x: "(s, i, ip, bits) \<in> set (include_rows ?d1 m)" "DecodePrefix ip bits = Inr p"
        "e \<in> row_entries ?ex (s, i, ip, bits) p"
        unfolding acc by auto
      then obtain r where "i \<in> include_ids db m s" "r \<in> set (prefix_rows db)" "px_id r = i" "px_key r = (ip, bits)"
        unfolding inc by blast
      then show "\<exists>s i r p. i \<in> include_ids db m s \<and> r \<in> set (prefix_rows db) \<and> px_id r = i \<and> row_is r p \<and>
        e \<in> row_entries ?ex (s, i, px_key r) p"
        using x(2,3) by (auto simp: row_is_def)
    next
      assume "\<exists>s i r p. i \<in> include_ids db m s \<and> r \<in> set (prefix_rows db) \<and> px_id r = i \<and> row_is r p \<and>
        e \<in> row_entries ?ex (s, i, px_key r) p"
      then obtain s i r p where x: "i \<in> include_ids db m s" "r \<in> set (prefix_rows db)" "px_id r = i" "row_is r p"
        "e \<in> row_entries ?ex (s, i, px_key r) p" by blast
      then have "(s, i, px_key r) \<in> set (include_rows ?d1 m)" unfolding inc by blast
      then show "e \<in> set acc" using x(4,5) unfolding acc row_is_def by force
    qed
    have frag: "network q" if "q \<in> set fs" for q
    proof -
      obtain x p e where x: "x \<in> set (include_rows ?d1 m)" "DecodePrefix (fst (snd (snd x))) (snd (snd (snd x))) = Inr p"
        "e \<in> row_entries ?ex x p" "me_prefix e = Some q"
        using \<open>q \<in> set fs\<close> unfolding fs by blast
      obtain s i ip bits where "x = (s, i, ip, bits)" by (metis prod_cases4)
      with x have p: "(s, i, ip, bits) \<in> set (include_rows ?d1 m)" "DecodePrefix ip bits = Inr p"
        "q \<in> set (fst (exclude_subtract ?ex p))"
        by (auto simp: row_entries_def split: if_splits)
      then have "network p" using prefix_row_decodes [OF db_okD(4) [OF ok]] unfolding inc by (fastforce simp: row_is_def)
      then show ?thesis using exclude_facts(2) [OF wf] p(3) by blast
    qed
    obtain d2 ids where d2: "ensurePrefixIDs ?d1 fs = Inr (d2, ids)" "interned ?d1 d2" "prefix_table_ok (prefix_rows d2)"
        "ids_sound (prefix_rows d2) ids" "set fs \<subseteq> dom ids"
      using ensurePrefixIDs_ok [OF db_okD(4) [OF ok1]] frag by blast
    have ok2: "db_ok d2" by (rule interned_ok [OF ok1 d2(2,3)])
    have rows2: "set (prefix_rows db) \<subseteq> set (prefix_rows d2)" "mode_entries d2 = mode_entries ?d1"
        "mode_ids d2 = mode_ids db" "service_ids_of d2 = service_ids_of db"
      using d2(2) ids1 by (auto simp: interned_def)
    let ?pid = "entry_prefix_id ids"
    have pid: "?pid e \<in> prefix_ids d2 \<and>
        (\<forall>q. (\<exists>r \<in> set (prefix_rows d2). px_id r = ?pid e \<and> row_is r q) \<longleftrightarrow> entry_is (prefix_rows d2) e q)"
      if e: "e \<in> set acc" for e
    proof (cases "me_prefix_id e = 0")
      case True
      obtain s i r p where srp: "i \<in> include_ids db m s" "r \<in> set (prefix_rows db)" "px_id r = i" "row_is r p"
          "e \<in> row_entries ?ex (s, i, px_key r) p"
        using e accI by blast
      have "i \<noteq> 0" using srp(2,3) db_okD(4) [OF ok] by (auto simp: prefix_table_ok_def)
      then obtain q where q: "me_prefix e = Some q" using srp(5) True by (auto simp: row_entries_def split: if_splits)
      have "q \<in> set fs" unfolding fs inc using srp q by (auto simp: row_is_def) (metis fst_conv snd_conv)
      then obtain j where j: "ids q = Some j" using d2(5) by blast
      then obtain x where x: "x \<in> set (prefix_rows d2)" "px_id x = j" "row_is x q"
        using d2(4) unfolding ids_sound_def by blast
      have pj: "?pid e = px_id x" using True q j x(2) by (simp add: entry_prefix_id_def map_get_def)
      show ?thesis
        using row_lookup [OF d2(3) x(1,3)] x(1) True q unfolding pj entry_is_def by auto
    next
      case False
      obtain s i r p where srp: "i \<in> include_ids db m s" "r \<in> set (prefix_rows db)" "px_id r = i" "row_is r p"
          "e \<in> row_entries ?ex (s, i, px_key r) p"
        using e accI by blast
      then have "me_prefix_id e = px_id r" using False by (auto simp: row_entries_def split: if_splits)
      then show ?thesis using False srp(2) rows2(1) by (auto simp: entry_prefix_id_def entry_is_def)
    qed
    let ?rows = "map (\<lambda>e. (m, me_service e, ?pid e)) acc"
    have valid: "\<forall>(g, s, p) \<in> set ?rows. g \<in> mode_ids d2 \<and> s \<in> service_ids_of d2 \<and> p \<in> prefix_ids d2"
    proof clarify
      fix g s j assume "(g, s, j) \<in> set ?rows"
      then obtain e where e: "e \<in> set acc" "g = m" "s = me_service e" "j = ?pid e" by auto
      obtain s' i r p where srp: "i \<in> include_ids db m s'" "e \<in> row_entries ?ex (s', i, px_key r) p"
        using e(1) accI by blast
      have "s = s'" using srp(2) e(3) by (auto simp: row_entries_def split: if_splits)
      then show "g \<in> mode_ids d2 \<and> s \<in> service_ids_of d2 \<and> j \<in> prefix_ids d2"
        using refs [OF srp(1)] pid [OF e(1)] e(2,4) unfolding rows2 by blast
    qed
    obtain E where E: "foldE insert_mode_entry d2 ?rows = Inr (d2\<lparr>mode_entries := E\<rparr>)"
      "set E = set (mode_entries d2) \<union> set ?rows"
      using insert_mode_entries_fold [OF valid] by blast
    have okE: "db_ok (d2\<lparr>mode_entries := E\<rparr>)"
      by (rule foldE_invariant [OF E(1), where P = db_ok]) (use ok2 insert_mode_entry_ok in auto)
    have reb: "rebuildModeEntries db m = Inr (d2\<lparr>mode_entries := E\<rparr>)"
      using False E(1) by (simp add: rebuildModeEntries_def xs(1) Let_def loop d2(1) foldE_batches_map)
    have den: "{p. \<exists>i. (m, s, i) \<in> set ?rows \<and> (\<exists>r \<in> set (prefix_rows d2). px_id r = i \<and> row_is r p)} =
      (\<Union>p \<in> stored db (include_ids db m s). kept_prefixes ?ex p)" (is "?L = ?R") for s
    proof -
      have "?L = {q. \<exists>e \<in> set acc. me_service e = s \<and> entry_is (prefix_rows d2) e q}"
        using pid by (auto simp: image_iff)
      also have "\<dots> = ?R"
      proof (rule set_eqI, rule iffI)
        fix q assume "q \<in> {q. \<exists>e \<in> set acc. me_service e = s \<and> entry_is (prefix_rows d2) e q}"
        then obtain e where e: "e \<in> set acc" "me_service e = s" "entry_is (prefix_rows d2) e q" by blast
        obtain s' i r p where srp: "i \<in> include_ids db m s'" "r \<in> set (prefix_rows db)" "px_id r = i" "row_is r p"
            "e \<in> row_entries ?ex (s', i, px_key r) p"
          using e(1) accI by blast
        have i0: "i \<noteq> 0" using srp(2,3) db_okD(4) [OF ok] by (auto simp: prefix_table_ok_def)
        have ss: "s' = s" using srp(5) e(2) by (auto simp: row_entries_def split: if_splits)
        have p: "p \<in> stored db (include_ids db m s)" using srp(1-4) ss by (auto simp: stored_def)
        have "q \<in> kept_prefixes ?ex p"
        proof (cases "p_bits p = 0 \<or> \<not> snd (exclude_subtract ?ex p)")
          case True
          then have "me_prefix_id e = px_id r" using srp(3,5) by (simp add: row_entries_def)
          then obtain x where x: "x \<in> set (prefix_rows d2)" "px_id x = px_id r" "row_is x q"
            using e(3) i0 srp(3) by (auto simp: entry_is_def)
          then have "x = r" using row_is_id [OF d2(3)] srp(2) rows2(1) by blast
          then have "q = p" using x(3) srp(4) row_is_fun by blast
          then show ?thesis using True exclude_facts(3) [OF wf stored_networks [OF ok p]] by (auto simp: kept_prefixes_def)
        next
          case False
          then show ?thesis using srp(5) e(3) by (auto simp: row_entries_def kept_prefixes_def entry_is_def)
        qed
        then show "q \<in> ?R" using p by blast
      next
        fix q assume "q \<in> ?R"
        then obtain p where p: "p \<in> stored db (include_ids db m s)" "q \<in> kept_prefixes ?ex p" by blast
        then obtain r where r: "r \<in> set (prefix_rows db)" "px_id r \<in> include_ids db m s" "row_is r p"
          by (auto simp: stored_def)
        have i0: "px_id r \<noteq> 0" using r(1) db_okD(4) [OF ok] by (auto simp: prefix_table_ok_def)
        let ?e = "if p_bits p = 0 \<or> \<not> snd (exclude_subtract ?ex p)
          then \<lparr>me_service = s, me_prefix_id = px_id r, me_prefix = None\<rparr>
          else \<lparr>me_service = s, me_prefix_id = 0, me_prefix = Some q\<rparr>"
        have "?e \<in> row_entries ?ex (s, px_id r, px_key r) p"
          using p(2) by (auto simp: row_entries_def kept_prefixes_def)
        then have "?e \<in> set acc" using accI r by blast
        moreover have "entry_is (prefix_rows d2) ?e q"
          using p(2) i0 r(1,3) rows2(1) exclude_facts(3) [OF wf stored_networks [OF ok p(1)]]
          by (auto simp: entry_is_def kept_prefixes_def split: if_splits)
        ultimately show "q \<in> {q. \<exists>e \<in> set acc. me_service e = s \<and> entry_is (prefix_rows d2) e q}"
          by (intro CollectI bexI [of _ ?e]) auto
      qed
      finally show ?thesis .
    qed
    have own: "\<forall>row \<in> set ?rows. fst row = m" by auto
    show ?thesis
      by (rule exI [of _ d2], rule exI [of _ E], rule exI [of _ xs], rule exI [of _ "set ?rows"])
        (intro conjI allI reb d2(2) ok2 okE xs(2) E(2) [unfolded rows2(2) me1] own den)
  qed
qed

text \<open>Rebuilding only appends prefixes and rewrites the entries of one mode.\<close>

definition rebuilt :: "db \<Rightarrow> db \<Rightarrow> bool" where
  "rebuilt db db' \<longleftrightarrow> (\<exists>ext E. db' = db\<lparr>prefix_rows := prefix_rows db @ ext, mode_entries := E\<rparr>)"

lemma rebuiltI: "db' = db\<lparr>prefix_rows := prefix_rows db @ ext, mode_entries := E\<rparr> \<Longrightarrow> rebuilt db db'"
  unfolding rebuilt_def by blast

lemma rebuilt_refl [simp]: "rebuilt db db"
  by (rule rebuiltI [where ext = "[]" and E = "mode_entries db"]) simp

lemma rebuilt_trans: "rebuilt a b \<Longrightarrow> rebuilt b c \<Longrightarrow> rebuilt a c"
  unfolding rebuilt_def by (elim exE, rule_tac x = "ext @ exta" in exI, rule_tac x = Ea in exI) simp

lemma rebuilt_fields:
  assumes "rebuilt db db'"
  shows "feeds db' = feeds db" "mode_feeds db' = mode_feeds db" "entries db' = entries db" "modes db' = modes db"
    "services db' = services db" "categories db' = categories db" "users db' = users db" "adapters db' = adapters db"
    "networks db' = networks db" "filter_rows db' = filter_rows db" "communities db' = communities db"
    "selected_categories db' = selected_categories db" "selected_services db' = selected_services db"
    "settings db' = settings db" "set (prefix_rows db) \<subseteq> set (prefix_rows db')"
    "include_ids db' = include_ids db" "exclude_ids db' = exclude_ids db"
proof -
  obtain ext E where "db' = db\<lparr>prefix_rows := prefix_rows db @ ext, mode_entries := E\<rparr>"
    using assms by (auto simp: rebuilt_def)
  then show "feeds db' = feeds db" "mode_feeds db' = mode_feeds db" "entries db' = entries db" "modes db' = modes db"
    "services db' = services db" "categories db' = categories db" "users db' = users db" "adapters db' = adapters db"
    "networks db' = networks db" "filter_rows db' = filter_rows db" "communities db' = communities db"
    "selected_categories db' = selected_categories db" "selected_services db' = selected_services db"
    "settings db' = settings db" "set (prefix_rows db) \<subseteq> set (prefix_rows db')"
    "include_ids db' = include_ids db" "exclude_ids db' = exclude_ids db"
    by (simp_all add: include_ids_def exclude_ids_def feed_enabled_def fun_eq_iff)
qed

lemma stored_extended:
  assumes "prefix_table_ok (prefix_rows db')" "set (prefix_rows db) \<subseteq> set (prefix_rows db')" "I \<subseteq> prefix_ids db"
  shows "stored db' I = stored db I"
proof -
  have "r \<in> set (prefix_rows db)" if r: "r \<in> set (prefix_rows db')" "px_id r \<in> I" for r
  proof -
    obtain x where x: "x \<in> set (prefix_rows db)" "px_id r = px_id x" using r(2) assms(3) by auto
    then have "r = x" using row_is_id [OF assms(1) r(1)] assms(2) by blast
    then show ?thesis using x(1) by simp
  qed
  then show ?thesis using assms(2) by (auto simp: stored_def)
qed

lemma include_ids_subset: "db_ok db \<Longrightarrow> include_ids db m s \<subseteq> prefix_ids db"
  using include_ids_refs by blast

lemma exclude_ids_subset: "db_ok db \<Longrightarrow> exclude_ids db m \<subseteq> prefix_ids db"
  unfolding exclude_ids_def using entries_refs(3) by blast

lemma mode_entry_ids_subset: "db_ok db \<Longrightarrow> mode_entry_ids db m s \<subseteq> prefix_ids db"
  unfolding mode_entry_ids_def using mode_entries_refs(3) by blast

lemma merged_rebuilt:
  assumes "db_ok db" "db_ok db'" "rebuilt db db'" shows "merged db' m s = merged db m s"
  using stored_extended [OF db_okD(4) [OF assms(2)] rebuilt_fields(15) [OF assms(3)]]
    include_ids_subset [OF assms(1)] exclude_ids_subset [OF assms(1)]
  by (simp add: merged_def rebuilt_fields(16,17) [OF assms(3)])

text \<open>The prefixes a service has in a mode after a rebuild.\<close>

lemma rebuild_prefixes:
  assumes ok: "db_ok db"
  shows "\<exists>db' xs. rebuildModeEntries db m = Inr db' \<and> rebuilt db db' \<and> db_ok db' \<and>
    set xs = stored db (exclude_ids db m) \<and>
    (\<forall>s. stored db' (mode_entry_ids db' m s) =
       (\<Union>p \<in> stored db (include_ids db m s). kept_prefixes (new_exclude_set xs) p)) \<and>
    (\<forall>m' s. m' \<noteq> m \<longrightarrow> mode_entry_ids db' m' s = mode_entry_ids db m' s)"
proof -
  obtain db2 E xs N where r: "rebuildModeEntries db m = Inr (db2\<lparr>mode_entries := E\<rparr>)"
    "interned (delete_mode_entries m db) db2" "db_ok (db2\<lparr>mode_entries := E\<rparr>)"
    "set xs = stored db (exclude_ids db m)" "set E = {row \<in> set (mode_entries db). fst row \<noteq> m} \<union> N"
    "\<forall>row \<in> N. fst row = m"
    "\<forall>s. {p. \<exists>i. (m, s, i) \<in> N \<and> (\<exists>r \<in> set (prefix_rows db2). px_id r = i \<and> row_is r p)} =
      (\<Union>p \<in> stored db (include_ids db m s). kept_prefixes (new_exclude_set xs) p)"
    using rebuild_effect [OF ok, of m] by (elim exE conjE) (rule that; assumption)
  let ?db' = "db2\<lparr>mode_entries := E\<rparr>"
  obtain ext where "db2 = (delete_mode_entries m db)\<lparr>prefix_rows := prefix_rows db @ ext\<rparr>"
    using r(2) by (auto simp: interned_def)
  then have reb: "rebuilt db ?db'" by (intro rebuiltI [where ext = ext and E = E]) (simp add: delete_mode_entries_def)
  have own: "stored ?db' (mode_entry_ids ?db' m s) =
      (\<Union>p \<in> stored db (include_ids db m s). kept_prefixes (new_exclude_set xs) p)" for s
  proof -
    have "(m, s, i) \<in> set E \<longleftrightarrow> (m, s, i) \<in> N" for i using r(5) by auto
    then have "stored ?db' (mode_entry_ids ?db' m s) =
        {p. \<exists>i. (m, s, i) \<in> N \<and> (\<exists>r \<in> set (prefix_rows db2). px_id r = i \<and> row_is r p)}"
      by (auto simp: stored_def mode_entry_ids_def)
    then show ?thesis using r(7) by simp
  qed
  have other: "mode_entry_ids ?db' m' s = mode_entry_ids db m' s" if "m' \<noteq> m" for m' s
    using r(5,6) that by (fastforce simp: mode_entry_ids_def)
  show ?thesis
    by (rule exI [of _ ?db'], rule exI [of _ xs]) (intro conjI allI impI r(1,3,4) reb own other)
qed

lemma rebuild_synced:
  assumes ok: "db_ok db"
  shows "\<exists>db'. rebuildModeEntries db m = Inr db' \<and> rebuilt db db' \<and> db_ok db' \<and> synced db' m \<and>
    (\<forall>m'. m' \<noteq> m \<longrightarrow> synced db m' \<longrightarrow> synced db' m')"
proof -
  obtain db' xs where r: "rebuildModeEntries db m = Inr db'" "rebuilt db db'" "db_ok db'"
    and xs: "set xs = stored db (exclude_ids db m)"
    and own': "\<forall>s. stored db' (mode_entry_ids db' m s) =
       (\<Union>p \<in> stored db (include_ids db m s). kept_prefixes (new_exclude_set xs) p)"
    and other': "\<forall>m' s. m' \<noteq> m \<longrightarrow> mode_entry_ids db' m' s = mode_entry_ids db m' s"
    using rebuild_prefixes [OF ok, of m] by (elim exE conjE) (rule that; assumption)
  note own = own' [rule_format] and other = other' [rule_format]
  note ext = stored_extended [OF db_okD(4) [OF r(3)] rebuilt_fields(15) [OF r(2)]]
  have "cover xs = spans (stored db (exclude_ids db m))" using xs by (simp add: cover_def spans_def)
  moreover have "spans (routable (\<Union>p \<in> stored db (include_ids db m s). kept_prefixes (new_exclude_set xs) p)) =
      spans (routable (stored db (include_ids db m s))) - cover xs" for s
    by (rule kept_prefixes_spans [OF stored_well_formed [OF ok xs]]) (use stored_networks [OF ok] in blast)
  ultimately have "materialised db' m s = merged db m s" for s
    unfolding materialised_def own merged_def by simp
  then have here: "synced db' m" using merged_rebuilt [OF ok r(3,2)] by (simp add: synced_def)
  have there: "synced db' m'" if "m' \<noteq> m" "synced db m'" for m'
    using that(2) other [OF that(1)] ext [OF mode_entry_ids_subset [OF ok]] merged_rebuilt [OF ok r(3,2)]
    by (simp add: synced_def materialised_def)
  show ?thesis by (rule exI [of _ db']) (intro conjI allI impI r here there)
qed

lemma kept_default:
  assumes "well_formed excludes" "network p" "q \<in> kept_prefixes (new_exclude_set excludes) p"
  shows "p_bits q = 0 \<longleftrightarrow> p_bits p = 0 \<and> q = p"
proof (cases "p_bits p = 0")
  case False
  note f = exclude_facts [OF assms(1,2)]
  have q: "q \<in> set (fst (exclude_subtract (new_exclude_set excludes) p))"
    using assms(3) False by (simp add: kept_prefixes_def)
  have "addrs_of q \<subseteq> addrs_of p" using f(1) q by (auto simp: cover_def)
  then show ?thesis using piece_not_default [OF assms(2) f(2) [OF q]] False by blast
qed (use assms(3) in \<open>simp add: kept_prefixes_def\<close>)

lemma kept_self: "p_bits p = 0 \<Longrightarrow> p \<in> kept_prefixes ex p"
  by (simp add: kept_prefixes_def)

text \<open>C12: in an intact database the materialised entries of a mode can always be rebuilt, and then every service
  stands in that mode for exactly the addresses its enabled include feeds give it minus the addresses of the
  enabled exclude feeds; default routes pass through unsplit. The entries of the other modes stay, and of the
  other tables only the prefix table changes, by new rows.\<close>

theorem rebuild_exact:
  assumes "db_ok db"
  shows "\<exists>db'. rebuildModeEntries db m = Inr db' \<and> db_ok db' \<and>
    (\<forall>s. materialised db' m s = merged db m s) \<and>
    (\<forall>s. {p \<in> stored db' (mode_entry_ids db' m s). p_bits p = 0} =
         {p \<in> stored db (include_ids db m s). p_bits p = 0}) \<and>
    (\<forall>m' s. m' \<noteq> m \<longrightarrow> mode_entry_ids db' m' s = mode_entry_ids db m' s) \<and>
    (\<exists>ext E. db' = db\<lparr>prefix_rows := prefix_rows db @ ext, mode_entries := E\<rparr>)"
proof -
  obtain db' xs where r: "rebuildModeEntries db m = Inr db'" "rebuilt db db'" "db_ok db'"
    and xs: "set xs = stored db (exclude_ids db m)"
    and own: "\<forall>s. stored db' (mode_entry_ids db' m s) =
       (\<Union>p \<in> stored db (include_ids db m s). kept_prefixes (new_exclude_set xs) p)"
    and other: "\<forall>m' s. m' \<noteq> m \<longrightarrow> mode_entry_ids db' m' s = mode_entry_ids db m' s"
    using rebuild_prefixes [OF assms, of m] by (elim exE conjE) (rule that; assumption)
  have wf: "well_formed xs" using stored_well_formed [OF assms xs] .
  have nets: "\<forall>p \<in> stored db (include_ids db m s). network p" for s using stored_networks [OF assms] by blast
  have exact: "materialised db' m s = merged db m s" for s
    using kept_prefixes_spans [OF wf nets, of s] xs
    unfolding materialised_def merged_def own [rule_format] by (simp add: cover_def spans_def)
  have defaults: "{p \<in> stored db' (mode_entry_ids db' m s). p_bits p = 0} =
      {p \<in> stored db (include_ids db m s). p_bits p = 0}" for s
  proof -
    have "q \<in> (\<Union>p \<in> stored db (include_ids db m s). kept_prefixes (new_exclude_set xs) p) \<and> p_bits q = 0 \<longleftrightarrow>
        q \<in> stored db (include_ids db m s) \<and> p_bits q = 0" for q
      using kept_default [OF wf] nets [of s] kept_self [of q] by blast
    then show ?thesis unfolding own [rule_format] by blast
  qed
  show ?thesis
    using r exact defaults other unfolding rebuilt_def by (intro exI [of _ db']) simp
qed

theorem rebuild_exact_witness:
  "\<exists>db'. rebuildModeEntries sample_db 4 = Inr db' \<and>
    Addr IPv4 167772161 \<in> materialised db' 4 1 \<and> Addr IPv4 184549375 \<notin> materialised db' 4 1"
proof -
  obtain db' where db': "rebuildModeEntries sample_db 4 = Inr db'" "\<forall>s. materialised db' 4 s = merged sample_db 4 s"
    using rebuild_exact [OF sample_db_ok, of 4] by (elim exE conjE) (rule that; assumption)
  have ids: "include_ids sample_db 4 1 = {1}" "exclude_ids sample_db 4 = {2}"
    by (auto simp: include_ids_def exclude_ids_def sample_db_def sample_feed_def feed_enabled_def)
  have "stored sample_db {1} = {Prefix (Addr IPv4 167772160) 8}" "stored sample_db {2} = {Prefix (Addr IPv4 176160768) 9}"
    by (auto simp: stored_def sample_db_def row_is_def)
  then have "merged sample_db 4 1 =
      addrs_of (Prefix (Addr IPv4 167772160) 8) - addrs_of (Prefix (Addr IPv4 176160768) 9)"
    by (auto simp: merged_def ids routable_def spans_def)
  then show ?thesis
    using db' by (simp add: addrs_of_def contains_def addr_ok_def prefix_is_valid_def)
qed

end
