(* ===== verification/Store_Sync.thy ===== *)
theory Store_Sync
  imports Store_Merge
begin

text \<open>
  The materialisation never goes stale: \<open>in_sync\<close> says that the database is intact and that the stored
  entries of every mode stand for the merge of its feeds. Every catalogue operation keeps it.
\<close>

definition in_sync :: "db \<Rightarrow> bool" where
  "in_sync db \<longleftrightarrow> db_ok db \<and> (\<forall>m. synced db m)"

section \<open>What a change can touch\<close>

lemma synced_transfer:
  assumes "db_ok db" "db_ok db1" "set (prefix_rows db) \<subseteq> set (prefix_rows db1)"
    and "mode_entry_ids db1 m = mode_entry_ids db m" "include_ids db1 m = include_ids db m"
      "exclude_ids db1 m = exclude_ids db m" "synced db m"
  shows "synced db1 m"
  using assms(4-7) stored_extended [OF db_okD(4) [OF assms(2)] assms(3)] include_ids_subset [OF assms(1)]
    exclude_ids_subset [OF assms(1)] mode_entry_ids_subset [OF assms(1)]
  by (simp add: synced_def materialised_def merged_def)

definition linked :: "db \<Rightarrow> int \<Rightarrow> int \<Rightarrow> bool" where
  "linked db f m \<longleftrightarrow> (\<exists>l \<in> set (mode_feeds db). mf_mode l = m \<and> mf_feed l = f)"

lemma set_feedModeIDs: "set (feedModeIDs db f) = {m. linked db f m}"
  by (auto simp: feedModeIDs_def linked_def)

text \<open>What the merge of mode \<open>m\<close> depends on.\<close>

definition same_inputs :: "db \<Rightarrow> db \<Rightarrow> int \<Rightarrow> bool" where
  "same_inputs db db1 m \<longleftrightarrow>
     (\<forall>l. mf_mode l = m \<longrightarrow> (l \<in> set (mode_feeds db1) \<longleftrightarrow> l \<in> set (mode_feeds db))) \<and>
     (\<forall>l \<in> set (mode_feeds db). mf_mode l = m \<longrightarrow>
        feed_enabled db1 (mf_feed l) = feed_enabled db (mf_feed l) \<and>
        (\<forall>s i. (mf_feed l, s, i) \<in> set (entries db1) \<longleftrightarrow> (mf_feed l, s, i) \<in> set (entries db)))"

lemma same_inputs_ids:
  assumes "same_inputs db db1 m"
  shows "include_ids db1 m = include_ids db m" "exclude_ids db1 m = exclude_ids db m"
proof -
  have links: "l \<in> set (mode_feeds db1) \<longleftrightarrow> l \<in> set (mode_feeds db)" if "mf_mode l = m" for l
    using assms that by (auto simp: same_inputs_def)
  have rest: "feed_enabled db1 (mf_feed l) = feed_enabled db (mf_feed l)"
      "(mf_feed l, s, i) \<in> set (entries db1) \<longleftrightarrow> (mf_feed l, s, i) \<in> set (entries db)"
    if "mf_mode l = m" "l \<in> set (mode_feeds db)" for l s i
    using assms that by (auto simp: same_inputs_def)
  show "include_ids db1 m = include_ids db m"
  proof
    fix s
    have "i \<in> include_ids db1 m s \<longleftrightarrow> i \<in> include_ids db m s" for i
      unfolding include_ids_def mem_Collect_eq Bex_def using links rest by metis
    then show "include_ids db1 m s = include_ids db m s" by blast
  qed
  have "i \<in> exclude_ids db1 m \<longleftrightarrow> i \<in> exclude_ids db m" for i
    unfolding exclude_ids_def mem_Collect_eq Bex_def using links rest by metis
  then show "exclude_ids db1 m = exclude_ids db m" by blast
qed

lemma synced_same_inputs:
  assumes "in_sync db" "db_ok db1" "set (prefix_rows db) \<subseteq> set (prefix_rows db1)"
    and "mode_entry_ids db1 m = mode_entry_ids db m" "same_inputs db db1 m"
  shows "synced db1 m"
  using assms synced_transfer same_inputs_ids unfolding in_sync_def by blast

lemma rebuild_all:
  assumes "db_ok db" "\<forall>m. m \<notin> set ms \<longrightarrow> synced db m"
  shows "\<exists>db'. foldE rebuildModeEntries db ms = Inr db' \<and> rebuilt db db' \<and> in_sync db'"
  using assms
proof (induction ms arbitrary: db)
  case Nil
  then show ?case by (simp add: in_sync_def)
next
  case (Cons m ms)
  obtain db1 where db1: "rebuildModeEntries db m = Inr db1" "rebuilt db db1" "db_ok db1" "synced db1 m"
    and keep: "\<And>m'. m' \<noteq> m \<Longrightarrow> synced db m' \<Longrightarrow> synced db1 m'"
    using rebuild_synced [OF Cons.prems(1), of m] by blast
  have "\<forall>m'. m' \<notin> set ms \<longrightarrow> synced db1 m'"
  proof (intro allI impI)
    fix m' assume m': "m' \<notin> set ms"
    show "synced db1 m'"
    proof (cases "m' = m")
      case False
      then show ?thesis using keep Cons.prems(2) m' by simp
    qed (use db1(4) in simp)
  qed
  from Cons.IH [OF db1(3) this] obtain db' where "foldE rebuildModeEntries db1 ms = Inr db'" "rebuilt db1 db'" "in_sync db'"
    by blast
  then show ?case using db1(1) rebuilt_trans [OF db1(2)] by auto
qed

lemma rebuild_one:
  assumes "db_ok db" "\<forall>m'. m' \<noteq> m \<longrightarrow> synced db m'"
  shows "\<exists>db'. rebuildModeEntries db m = Inr db' \<and> rebuilt db db' \<and> in_sync db'"
proof -
  obtain db' where "foldE rebuildModeEntries db [m] = Inr db'" "rebuilt db db'" "in_sync db'"
    using rebuild_all [of db "[m]"] assms by auto
  then show ?thesis by (cases "rebuildModeEntries db m") auto
qed

text \<open>A change to one feed, followed by a rebuild of the modes that link it.\<close>

lemma touch_feed:
  assumes sync: "in_sync db" and ok: "db_ok db1"
    and frame: "set (prefix_rows db) \<subseteq> set (prefix_rows db1)" "mode_entries db1 = mode_entries db" "mode_feeds db1 = mode_feeds db"
    and others: "\<And>g. g \<noteq> f \<Longrightarrow> feed_enabled db1 g = feed_enabled db g"
      "\<And>g s i. g \<noteq> f \<Longrightarrow> (g, s, i) \<in> set (entries db1) \<longleftrightarrow> (g, s, i) \<in> set (entries db)"
  shows "\<exists>db'. RebuildModeEntriesForFeed db1 f = Inr db' \<and> rebuilt db1 db' \<and> in_sync db'"
  unfolding RebuildModeEntriesForFeed_def
proof (rule rebuild_all [OF ok], intro allI impI)
  fix m assume "m \<notin> set (feedModeIDs db1 f)"
  then have "\<not> linked db f m" by (simp add: set_feedModeIDs linked_def frame)
  then have "same_inputs db db1 m"
    unfolding same_inputs_def linked_def frame using others by metis
  moreover have "mode_entry_ids db1 m = mode_entry_ids db m" by (simp add: mode_entry_ids_def frame fun_eq_iff)
  ultimately show "synced db1 m" using synced_same_inputs [OF sync ok frame(1)] by blast
qed

section \<open>Appending and replacing entries\<close>

lemma AppendCatalogEntries_feed:
  assumes ok: "db_ok db" and app: "AppendCatalogEntries db f es = Inr db'" and ne: "es \<noteq> []"
  shows "f \<in> feed_ids db"
proof -
  obtain d1 sids where d1: "foldE resolve_service (db, Map.empty) es = Inr (d1, sids)" "db_ok d1" "grown db d1"
    using resolve_services_ok [OF ok] by blast
  obtain parsed all where pe: "parse_entries [] es = Inr (parsed, all)"
    using app ne d1(1) by (auto simp: AppendCatalogEntries_def bindE_eq_Inr_iff)
  note po = parse_entries_ok [OF pe]
  have nets: "\<forall>p \<in> set all. network p" using po parse_entries_networks [OF pe] by simp
  obtain d2 pids where d2: "ensurePrefixIDs d1 all = Inr (d2, pids)" "interned d1 d2" "prefix_table_ok (prefix_rows d2)"
    using ensurePrefixIDs_ok [OF db_okD(4) [OF d1(2)] nets] by blast
  have ok2: "db_ok d2" by (rule interned_ok [OF d1(2) d2(2,3)])
  have same: "feeds d2 = feeds db" using grown_fields(4) [OF grown_trans [OF d1(3) interned_grown [OF d2(2)]]] .
  let ?rows = "map (\<lambda>(e, p). (f, map_get sids (entry_key e), map_get pids p)) (zip es parsed)"
  have ins: "foldE insert_entry d2 ?rows = Inr db'"
    using app ne d1(1) pe d2(1) by (simp add: AppendCatalogEntries_def foldE_batches_map del: foldE.simps)
  have "?rows \<noteq> []" using ne list_all2_lengthD [OF conjunct1 [OF po]] by auto
  then obtain row rest where rr: "?rows = row # rest" by (cases ?rows) auto
  then have "row \<in> set ?rows" by simp
  then have "fst row = f" by auto
  moreover obtain d3 where "insert_entry d2 row = Inr d3" using ins unfolding rr by (auto simp: bindE_eq_Inr_iff)
  ultimately have "f \<in> feed_ids d2"
    using entries_refs(1) [OF ok2, of f "fst (snd row)" "snd (snd row)"]
    by (cases row) (auto simp: insert_entry_def split: if_splits)
  then show ?thesis using same by simp
qed

lemma AppendCatalogEntries_frame:
  assumes ok: "db_ok db" and app: "AppendCatalogEntries db f es = Inr db1"
  shows "db_ok db1" "set (prefix_rows db) \<subseteq> set (prefix_rows db1)" "mode_entries db1 = mode_entries db"
    "mode_feeds db1 = mode_feeds db" "feeds db1 = feeds db"
    "\<And>g s i. g \<noteq> f \<Longrightarrow> (g, s, i) \<in> set (entries db1) \<longleftrightarrow> (g, s, i) \<in> set (entries db)"
    "grown db (db1\<lparr>entries := entries db\<rparr>)"
proof -
  have "db_ok db1 \<and> set (prefix_rows db) \<subseteq> set (prefix_rows db1) \<and> mode_entries db1 = mode_entries db \<and>
    mode_feeds db1 = mode_feeds db \<and> feeds db1 = feeds db \<and>
    (\<forall>g s i. g \<noteq> f \<longrightarrow> (g, s, i) \<in> set (entries db1) \<longleftrightarrow> (g, s, i) \<in> set (entries db)) \<and>
    grown db (db1\<lparr>entries := entries db\<rparr>)"
  proof (cases "es = []")
    case True
    then show ?thesis using app ok by (simp add: AppendCatalogEntries_def)
  next
    case False
    have f: "f \<in> feed_ids db" by (rule AppendCatalogEntries_feed [OF ok app False])
    have parse: "\<forall>e \<in> set es. parse_prefix (ce_CIDR e) \<noteq> None" using AppendCatalogEntries_error app by blast
    obtain d E N where d: "AppendCatalogEntries db f es = Inr (d\<lparr>entries := E\<rparr>)" "grown db d"
      "db_ok (d\<lparr>entries := E\<rparr>)" "set E = set (entries db) \<union> N"
      and N: "\<forall>row \<in> N. \<exists>e \<in> set es. \<exists>p. parse_prefix (ce_CIDR e) = Some p \<and> fst row = f \<and>
         entry_names d (fst (snd row)) (snd (snd row)) (entry_key e) (masked p)"
      using AppendCatalogEntries_ok [OF ok f parse] by (elim exE conjE) (rule that; assumption)
    have db1: "db1 = d\<lparr>entries := E\<rparr>" using app d(1) by simp
    note g = grown_fields [OF d(2)]
    have "db1\<lparr>entries := entries db\<rparr> = d" using g(1) by (cases d) (simp add: db1)
    moreover have "(g, s, i) \<in> set E \<longleftrightarrow> (g, s, i) \<in> set (entries db)" if "g \<noteq> f" for g s i
      using d(4) N that by fastforce
    ultimately show ?thesis using d(2,3) g(2,4,5,10) by (simp add: db1)
  qed
  then show "db_ok db1" "set (prefix_rows db) \<subseteq> set (prefix_rows db1)" "mode_entries db1 = mode_entries db"
    "mode_feeds db1 = mode_feeds db" "feeds db1 = feeds db"
    "\<And>g s i. g \<noteq> f \<Longrightarrow> (g, s, i) \<in> set (entries db1) \<longleftrightarrow> (g, s, i) \<in> set (entries db)"
    "grown db (db1\<lparr>entries := entries db\<rparr>)"
    by blast+
qed

section \<open>Operations on entries and feeds\<close>

lemma InsertCatalogEntries_sync:
  assumes "in_sync db" "InsertCatalogEntries f es db = Inr db'" shows "in_sync db'"
proof -
  have ok: "db_ok db" using assms(1) by (simp add: in_sync_def)
  obtain db1 where db1: "AppendCatalogEntries db f es = Inr db1" "RebuildModeEntriesForFeed db1 f = Inr db'"
    using assms(2) by (auto simp: InsertCatalogEntries_def bindE_eq_Inr_iff)
  note fr = AppendCatalogEntries_frame [OF ok db1(1)]
  have "\<exists>d. RebuildModeEntriesForFeed db1 f = Inr d \<and> rebuilt db1 d \<and> in_sync d"
    by (rule touch_feed [OF assms(1) fr(1-4)]) (use fr(5,6) in \<open>auto simp: feed_enabled_def\<close>)
  then show ?thesis using db1(2) by auto
qed

lemma distinct_map_update:
  "distinct (map k xs) \<Longrightarrow> distinct (map i xs) \<Longrightarrow> \<forall>x \<in> set xs. i x \<noteq> c \<longrightarrow> k x \<noteq> v \<Longrightarrow> \<forall>x. k (f x) = v \<Longrightarrow>
    distinct (map k (map (\<lambda>x. if i x = c then f x else x) xs))"
  by (induction xs) (auto simp: image_iff)

lemma map_update_same: "\<forall>x. i x = c \<longrightarrow> k (f x) = k x \<Longrightarrow> map k (map (\<lambda>x. if i x = c then f x else x) xs) = map k xs"
  by simp

lemma update_feed_row_fields [simp]:
  "prefix_rows (update_feed_row i f db) = prefix_rows db" "mode_entries (update_feed_row i f db) = mode_entries db"
  "mode_feeds (update_feed_row i f db) = mode_feeds db" "entries (update_feed_row i f db) = entries db"
  by (simp_all add: update_feed_row_def)

lemma feed_enabled_update:
  "\<forall>r. fd_id r = i \<longrightarrow> fd_id (f r) = i \<Longrightarrow> g \<noteq> i \<Longrightarrow> feed_enabled (update_feed_row i f db) g = feed_enabled db g"
  by (auto simp: feed_enabled_def update_feed_row_def split: if_splits)

lemma refs_ok_feeds:
  assumes "refs_ok db" "map fd_id fs = map fd_id (feeds db)" "\<forall>r \<in> set fs. fd_adapter r \<in> set (map fst (adapters db))"
  shows "refs_ok (db\<lparr>feeds := fs\<rparr>)"
proof -
  have "feed_ids (db\<lparr>feeds := fs\<rparr>) = feed_ids db" using assms(2) by simp
  then show ?thesis using assms(1,3) unfolding refs_ok_def by simp
qed

lemma update_feed_row_ok:
  assumes ok: "db_ok db" and f: "\<forall>r. fd_id r = i \<longrightarrow> fd_id (f r) = i"
    and uniq: "(\<forall>r. fd_name (f r) = n \<and> fd_url (f r) = u) \<and> feed_unique db i n u \<or> (\<forall>r. fd_name (f r) = fd_name r \<and> fd_url (f r) = fd_url r)"
    and ad: "\<forall>r \<in> set (feeds db). fd_id r = i \<longrightarrow> fd_adapter (f r) \<in> set (map fst (adapters db))"
  shows "db_ok (update_feed_row i f db)"
proof -
  let ?fs = "map (\<lambda>r. if fd_id r = i then f r else r) (feeds db)"
  have ids: "map fd_id ?fs = map fd_id (feeds db)" using f by simp
  have k: "distinct (map fd_id (feeds db))" "distinct (map fd_name (feeds db))" "distinct (map fd_url (feeds db))"
    using db_okD(1) [OF ok] by (simp_all add: keys_ok_def)
  have "distinct (map fd_name ?fs) \<and> distinct (map fd_url ?fs)"
    using uniq
  proof
    assume u: "(\<forall>r. fd_name (f r) = n \<and> fd_url (f r) = u) \<and> feed_unique db i n u"
    have "distinct (map fd_name ?fs)"
      by (rule distinct_map_update [OF k(2,1), where v = n]) (use u in \<open>auto simp: feed_unique_def\<close>)
    moreover have "distinct (map fd_url ?fs)"
      by (rule distinct_map_update [OF k(3,1), where v = u]) (use u in \<open>auto simp: feed_unique_def\<close>)
    ultimately show ?thesis ..
  next
    assume "\<forall>r. fd_name (f r) = fd_name r \<and> fd_url (f r) = fd_url r"
    then have "map fd_name ?fs = map fd_name (feeds db)" "map fd_url ?fs = map fd_url (feeds db)" by simp_all
    then show ?thesis using k by metis
  qed
  then have "keys_ok (db\<lparr>feeds := ?fs\<rparr>)"
    using db_okD(1) [OF ok] ids unfolding keys_ok_def by (simp del: map_map)
  moreover have "\<forall>r \<in> set ?fs. fd_adapter r \<in> set (map fst (adapters db))"
    using ad db_okD(2) [OF ok] by (auto simp: refs_ok_def)
  then have "refs_ok (db\<lparr>feeds := ?fs\<rparr>)" by (rule refs_ok_feeds [OF db_okD(2) [OF ok] ids])
  ultimately show ?thesis
    using db_okD(3) [OF ok] by (simp add: db_ok_def update_feed_row_def stored_ok_def)
qed

lemma find_feed_Some: "find_feed db i = Some r \<Longrightarrow> r \<in> set (feeds db) \<and> fd_id r = i"
  by (auto simp: find_feed_def find_Some_iff)

lemma feed_adapter_ok: "db_ok db \<Longrightarrow> r \<in> set (feeds db) \<Longrightarrow> fd_adapter r \<in> set (map fst (adapters db))"
  unfolding db_ok_def refs_ok_def by blast

lemma delete_feed_entries_fields [simp]:
  "prefix_rows (delete_feed_entries f db) = prefix_rows db" "mode_entries (delete_feed_entries f db) = mode_entries db"
  "mode_feeds (delete_feed_entries f db) = mode_feeds db" "feeds (delete_feed_entries f db) = feeds db"
  "feed_enabled (delete_feed_entries f db) = feed_enabled db"
  by (simp_all add: delete_feed_entries_def feed_enabled_def fun_eq_iff)

lemma delete_feed_entries_others: "g \<noteq> f \<Longrightarrow> (g, s, i) \<in> set (entries (delete_feed_entries f db)) \<longleftrightarrow> (g, s, i) \<in> set (entries db)"
  by (simp add: delete_feed_entries_def)

lemma ReplaceCatalogEntries_frame:
  assumes ok: "db_ok db" and rep: "ReplaceCatalogEntries db f es = Inr db1"
  shows "db_ok db1" "set (prefix_rows db) \<subseteq> set (prefix_rows db1)" "mode_entries db1 = mode_entries db"
    "mode_feeds db1 = mode_feeds db" "feeds db1 = feeds db"
    "\<And>g s i. g \<noteq> f \<Longrightarrow> (g, s, i) \<in> set (entries db1) \<longleftrightarrow> (g, s, i) \<in> set (entries db)"
    "adapters db1 = adapters db"
proof -
  have app: "AppendCatalogEntries (delete_feed_entries f db) f es = Inr db1" using rep by (simp add: ReplaceCatalogEntries_def)
  note fr = AppendCatalogEntries_frame [OF delete_feed_entries_ok [OF ok] app]
  have "adapters (db1\<lparr>entries := entries (delete_feed_entries f db)\<rparr>) = adapters (delete_feed_entries f db)"
    by (rule grown_fields(7) [OF fr(7)])
  then have ad: "adapters db1 = adapters db" by (simp add: delete_feed_entries_def)
  show "db_ok db1" "set (prefix_rows db) \<subseteq> set (prefix_rows db1)" "mode_entries db1 = mode_entries db"
    "mode_feeds db1 = mode_feeds db" "feeds db1 = feeds db" "adapters db1 = adapters db"
    "\<And>g s i. g \<noteq> f \<Longrightarrow> (g, s, i) \<in> set (entries db1) \<longleftrightarrow> (g, s, i) \<in> set (entries db)"
    using fr(1-6) ad delete_feed_entries_others by simp_all
qed

lemma sync_feed_sync:
  assumes "in_sync db" "sync_feed feed v es now db = Inr db'" shows "in_sync db'"
proof -
  have ok: "db_ok db" using assms(1) by (simp add: in_sync_def)
  let ?f = "fd_id feed"
  let ?g = "\<lambda>r. if fd_url r = fd_url feed \<and> fd_enabled r then r\<lparr>fd_last_success := now, fd_last_error := []\<rparr> else r"
  obtain db1 where db1: "ReplaceCatalogEntries db ?f es = Inr db1"
    "RebuildModeEntriesForFeed (update_feed_row ?f ?g db1) ?f = Inr db'"
    using assms(2) by (auto simp: sync_feed_def bindE_eq_Inr_iff split: option.splits if_splits)
  note fr = ReplaceCatalogEntries_frame [OF ok db1(1)]
  have ok1: "db_ok (update_feed_row ?f ?g db1)"
    by (rule update_feed_row_ok [OF fr(1)]) (use feed_adapter_ok [OF fr(1)] in auto)
  have "\<exists>d. RebuildModeEntriesForFeed (update_feed_row ?f ?g db1) ?f = Inr d \<and> rebuilt (update_feed_row ?f ?g db1) d \<and> in_sync d"
  proof (rule touch_feed [OF assms(1) ok1])
    fix g assume g: "g \<noteq> ?f"
    have "feed_enabled (update_feed_row ?f ?g db1) g = feed_enabled db1 g"
      by (rule feed_enabled_update) (use g in auto)
    then show "feed_enabled (update_feed_row ?f ?g db1) g = feed_enabled db g"
      using fr(5) by (simp add: feed_enabled_def)
  qed (use fr in auto)
  then show ?thesis using db1(2) by auto
qed

lemma UpdateFeed_sync:
  assumes "in_sync db" "UpdateFeed feed db = Inr (db', prev)" shows "in_sync db'"
proof -
  have ok: "db_ok db" using assms(1) by (simp add: in_sync_def)
  let ?f = "fd_id feed"
  let ?g = "\<lambda>r. feed\<lparr>fd_last_success := fd_last_success r, fd_last_error := fd_last_error r\<rparr>"
  let ?h = "\<lambda>r :: feed_row. r\<lparr>fd_last_success := 0, fd_last_error := []\<rparr>"
  define db1 where "db1 = update_feed_row ?f ?g db"
  obtain old where old: "find_feed db ?f = Some old"
    and u: "feed_unique db ?f (fd_name feed) (fd_url feed)" "fd_adapter feed \<in> set (map fst (adapters db))"
    and reb: "RebuildModeEntriesForFeed (if same_feed_config old feed then db1
        else update_feed_row ?f ?h (delete_feed_entries ?f db1)) ?f = Inr db'"
    using assms(2) unfolding UpdateFeed_def db1_def by (auto simp: bindE_eq_Inr_iff split: option.splits)
  have ok1: "db_ok db1"
    unfolding db1_def by (rule update_feed_row_ok [OF ok]) (use u in auto)
  have en: "feed_enabled db1 g = feed_enabled db g" if "g \<noteq> ?f" for g
    unfolding db1_def by (rule feed_enabled_update) (use that in auto)
  have fields: "prefix_rows db1 = prefix_rows db" "mode_entries db1 = mode_entries db" "mode_feeds db1 = mode_feeds db"
    "entries db1 = entries db" by (simp_all add: db1_def)
  show ?thesis
  proof (cases "same_feed_config old feed")
    case True
    have "\<exists>d. RebuildModeEntriesForFeed db1 ?f = Inr d \<and> rebuilt db1 d \<and> in_sync d"
      by (rule touch_feed [OF assms(1) ok1]) (use en in \<open>auto simp: fields\<close>)
    then show ?thesis using reb True by auto
  next
    case False
    let ?d = "update_feed_row ?f ?h (delete_feed_entries ?f db1)"
    have okd: "db_ok (delete_feed_entries ?f db1)" by (rule delete_feed_entries_ok [OF ok1])
    have ok2: "db_ok ?d"
      by (rule update_feed_row_ok [OF okd]) (use feed_adapter_ok [OF okd] in auto)
    have "\<exists>d. RebuildModeEntriesForFeed ?d ?f = Inr d \<and> rebuilt ?d d \<and> in_sync d"
    proof (rule touch_feed [OF assms(1) ok2])
      fix g assume g: "g \<noteq> ?f"
      have "feed_enabled ?d g = feed_enabled (delete_feed_entries ?f db1) g"
        by (rule feed_enabled_update) (use g in auto)
      then show "feed_enabled ?d g = feed_enabled db g" using en [OF g] by simp
    next
      fix g s i assume "g \<noteq> ?f"
      then show "(g, s, i) \<in> set (entries ?d) \<longleftrightarrow> (g, s, i) \<in> set (entries db)"
        using delete_feed_entries_others fields(4) by simp
    qed (simp_all add: fields)
    then show ?thesis using reb False by auto
  qed
qed

lemma delete_feed_row_refs: "refs_ok db \<Longrightarrow> refs_ok (delete_feed_row i db)"
  unfolding refs_ok_def delete_feed_row_def by (elim conjE, intro conjI) (simp_all, fastforce+)

lemma delete_feed_row_ok: "db_ok db \<Longrightarrow> db_ok (delete_feed_row i db)"
  using delete_feed_row_refs [of db i]
  by (simp add: db_ok_def keys_ok_def stored_ok_def) (simp add: delete_feed_row_def distinct_map_filter)

lemma prune_selections_ok: "db_ok db \<Longrightarrow> db_ok (prune_selections db)"
  unfolding db_ok_def prune_selections_def by (auto simp: keys_ok_def stored_ok_def refs_ok_def)

lemma DeleteFeed_sync:
  assumes "in_sync db" "DeleteFeed i db = Inr db'" shows "in_sync db'"
proof -
  have ok: "db_ok db" using assms(1) by (simp add: in_sync_def)
  let ?d = "prune_selections (delete_feed_row i db)"
  have reb: "foldE rebuildModeEntries ?d (feedModeIDs db i) = Inr db'"
    using assms(2) by (simp add: DeleteFeed_def split: if_splits)
  have okd: "db_ok ?d" by (intro prune_selections_ok delete_feed_row_ok ok)
  have f: "prefix_rows ?d = prefix_rows db" "mode_entries ?d = mode_entries db"
    "mode_feeds ?d = filter (\<lambda>l. mf_feed l \<noteq> i) (mode_feeds db)"
    "entries ?d = filter (\<lambda>(f, s, p). f \<noteq> i) (entries db)" "feeds ?d = filter (\<lambda>r. fd_id r \<noteq> i) (feeds db)"
    by (simp_all add: prune_selections_def delete_feed_row_def)
  have "\<exists>d. foldE rebuildModeEntries ?d (feedModeIDs db i) = Inr d \<and> rebuilt ?d d \<and> in_sync d"
  proof (rule rebuild_all [OF okd], intro allI impI)
    fix m assume "m \<notin> set (feedModeIDs db i)"
    then have nl: "\<forall>l \<in> set (mode_feeds db). mf_mode l = m \<longrightarrow> mf_feed l \<noteq> i"
      by (auto simp: set_feedModeIDs linked_def)
    have en: "feed_enabled ?d g = feed_enabled db g" if "g \<noteq> i" for g
      using that by (auto simp: feed_enabled_def f)
    have "same_inputs db ?d m"
      unfolding same_inputs_def f(3,4) using nl en by auto
    moreover have "mode_entry_ids ?d m = mode_entry_ids db m" by (simp add: mode_entry_ids_def f fun_eq_iff)
    ultimately show "synced ?d m"
      using synced_same_inputs [OF assms(1) okd] f(1) by simp
  qed
  then show ?thesis using reb by auto
qed

lemma same_inputs_refl: "mode_feeds db1 = mode_feeds db \<Longrightarrow> entries db1 = entries db \<Longrightarrow> feeds db1 = feeds db \<Longrightarrow> same_inputs db db1 m"
  by (simp add: same_inputs_def feed_enabled_def)

text \<open>An operation that leaves the merge and its inputs alone.\<close>

lemma sync_unchanged:
  assumes "in_sync db" "db_ok db1" "set (prefix_rows db) \<subseteq> set (prefix_rows db1)" "mode_entries db1 = mode_entries db"
    "mode_feeds db1 = mode_feeds db" "entries db1 = entries db" "feeds db1 = feeds db"
  shows "in_sync db1"
proof -
  have "synced db1 m" for m
    by (rule synced_same_inputs [OF assms(1-3)])
      (use assms(4-7) same_inputs_refl in \<open>auto simp: mode_entry_ids_def fun_eq_iff\<close>)
  then show ?thesis using assms(2) by (simp add: in_sync_def)
qed

lemma addFeed_ok:
  assumes ok: "db_ok db" and add: "addFeed feed db = Inr (db1, i)"
  shows "db_ok db1" "i \<notin> feed_ids db" "prefix_rows db1 = prefix_rows db" "mode_entries db1 = mode_entries db"
    "mode_feeds db1 = mode_feeds db" "entries db1 = entries db"
    "\<And>g. g \<noteq> i \<Longrightarrow> feed_enabled db1 g = feed_enabled db g"
proof -
  let ?r = "feed\<lparr>fd_id := i, fd_last_success := 0, fd_last_error := []\<rparr>"
  have i: "i = new_rowid (map fd_id (feeds db))" and u: "feed_unique db i (fd_name feed) (fd_url feed)"
    "fd_adapter feed \<in> set (map fst (adapters db))" and db1: "db1 = db\<lparr>feeds := feeds db @ [?r]\<rparr>"
    using add by (auto simp: addFeed_def Let_def simp del: set_map)
  show fresh: "i \<notin> feed_ids db" unfolding i by (rule new_rowid_fresh)
  have "fd_id r \<noteq> i" if "r \<in> set (feeds db)" for r using fresh that by auto
  then have "fd_name feed \<notin> fd_name ` set (feeds db)" "fd_url feed \<notin> fd_url ` set (feeds db)"
    using u(1) by (auto simp: feed_unique_def)
  then have "keys_ok db1" using db_okD(1) [OF ok] fresh by (simp add: keys_ok_def db1)
  moreover have "refs_ok db1"
    using db_okD(2) [OF ok] u(2) unfolding refs_ok_def db1 by (elim conjE, intro conjI) (simp_all, fastforce+)
  ultimately show "db_ok db1" using db_okD(3) [OF ok] by (simp add: db_ok_def stored_ok_def db1)
  show "prefix_rows db1 = prefix_rows db" "mode_entries db1 = mode_entries db" "mode_feeds db1 = mode_feeds db"
    "entries db1 = entries db" "\<And>g. g \<noteq> i \<Longrightarrow> feed_enabled db1 g = feed_enabled db g"
    by (auto simp: db1 feed_enabled_def)
qed

lemma insert_mode_feed_fields:
  assumes "insert_mode_feed db l = Inr db1"
  shows "db1 = db\<lparr>mode_feeds := mode_feeds db @ [l]\<rparr>"
  using assms by (auto simp: insert_mode_feed_def)

text \<open>A new feed has no entries, so its link changes no merge.\<close>

lemma AddFeedWithMode_sync:
  assumes "in_sync db" "AddFeedWithMode feed m db = Inr (db', i)" shows "in_sync db'"
proof -
  have ok: "db_ok db" using assms(1) by (simp add: in_sync_def)
  obtain db1 where db1: "addFeed feed db = Inr (db1, i)"
    and db': "db' = db1 \<or> insert_mode_feed db1 \<lparr>mf_mode = m, mf_feed = i, mf_exclude = False\<rparr> = Inr db'"
    using assms(2) by (auto simp: AddFeedWithMode_def bindE_eq_Inr_iff split: if_splits)
  note a = addFeed_ok [OF ok db1]
  have no_entries: "(i, s, p) \<notin> set (entries db)" for s p using entries_refs(1) [OF ok] a(2) by blast
  have no_links: "mf_feed l \<noteq> i" if "l \<in> set (mode_feeds db)" for l using mode_feeds_refs [OF ok that] a(2) by auto
  obtain ls where ls: "mode_feeds db' = mode_feeds db @ ls" "\<forall>l \<in> set ls. mf_feed l = i"
    and okd: "db_ok db'" and same: "prefix_rows db' = prefix_rows db" "mode_entries db' = mode_entries db"
      "entries db' = entries db" "feeds db' = feeds db1"
  proof (cases "db' = db1")
    case True
    then show ?thesis using that [of "[]"] a by simp
  next
    case False
    then have ins: "insert_mode_feed db1 \<lparr>mf_mode = m, mf_feed = i, mf_exclude = False\<rparr> = Inr db'" using db' by simp
    show ?thesis
      using that [of "[\<lparr>mf_mode = m, mf_feed = i, mf_exclude = False\<rparr>]"] a insert_mode_feed_ok [OF a(1) ins]
        insert_mode_feed_fields [OF ins] by simp
  qed
  have en: "feed_enabled db' g = feed_enabled db g" if "g \<noteq> i" for g
    using a(7) [OF that] same(4) by (simp add: feed_enabled_def)
  have "include_ids db' = include_ids db" "exclude_ids db' = exclude_ids db"
    using no_entries no_links en ls by (fastforce simp: include_ids_def exclude_ids_def same fun_eq_iff)+
  then have "synced db' m'" for m'
    using synced_transfer [OF ok okd] assms(1) same(1,2) by (simp add: in_sync_def mode_entry_ids_def fun_eq_iff)
  then show ?thesis using okd by (simp add: in_sync_def)
qed

section \<open>Operations on links\<close>

text \<open>A change to the links of one mode, followed by a rebuild of it.\<close>

lemma touch_mode:
  assumes sync: "in_sync db" and ok: "db_ok (db\<lparr>mode_feeds := ls\<rparr>)"
    and others: "\<And>l. mf_mode l \<noteq> m \<Longrightarrow> l \<in> set ls \<longleftrightarrow> l \<in> set (mode_feeds db)"
    and reb: "rebuildModeEntries (db\<lparr>mode_feeds := ls\<rparr>) m = Inr db'"
  shows "in_sync db'"
proof -
  let ?d = "db\<lparr>mode_feeds := ls\<rparr>"
  have "synced ?d m'" if "m' \<noteq> m" for m'
  proof (rule synced_same_inputs [OF sync ok])
    show "same_inputs db ?d m'" using others that by (auto simp: same_inputs_def feed_enabled_def)
  qed (simp_all add: mode_entry_ids_def fun_eq_iff)
  then show ?thesis using rebuild_one [OF ok, of m] reb by auto
qed

lemma replace_links_effect:
  assumes "foldE (replace_link m) db links = Inr db'" "db_ok db"
  shows "\<exists>ls. db' = db\<lparr>mode_feeds := mode_feeds db @ ls\<rparr> \<and> (\<forall>l \<in> set ls. mf_mode l = m) \<and> db_ok db'"
  using assms
proof (induction links arbitrary: db)
  case Nil
  then show ?case by (intro exI [of _ "[]"]) simp
next
  case (Cons link links)
  obtain d where d: "replace_link m db link = Inr d" "foldE (replace_link m) d links = Inr db'"
    using Cons.prems(1) by (auto simp: bindE_eq_Inr_iff)
  obtain l1 where l1: "d = db\<lparr>mode_feeds := mode_feeds db @ l1\<rparr>" "\<forall>l \<in> set l1. mf_mode l = m" "db_ok d"
  proof (cases "fst link \<le> 0")
    case True
    then show ?thesis using that [of "[]"] d(1) Cons.prems(2) by (simp add: replace_link_def)
  next
    case False
    let ?l = "\<lparr>mf_mode = m, mf_feed = fst link, mf_exclude = snd link\<rparr>"
    have ins: "insert_mode_feed db ?l = Inr d" using d(1) False by (simp add: replace_link_def)
    show ?thesis
      using that [of "[?l]"] insert_mode_feed_fields [OF ins] insert_mode_feed_ok [OF Cons.prems(2) ins] by simp
  qed
  obtain ls where "db' = d\<lparr>mode_feeds := mode_feeds d @ ls\<rparr>" "\<forall>l \<in> set ls. mf_mode l = m" "db_ok db'"
    using Cons.IH [OF d(2) l1(3)] by blast
  then show ?case using l1(1,2) by (intro exI [of _ "l1 @ ls"]) auto
qed

lemma replaceModeFeeds_sync:
  assumes "in_sync db" "replaceModeFeeds m links db = Inr db'" shows "in_sync db'"
proof -
  have ok: "db_ok db" using assms(1) by (simp add: in_sync_def)
  let ?d = "db\<lparr>mode_feeds := filter (\<lambda>l. mf_mode l \<noteq> m) (mode_feeds db)\<rparr>"
  obtain d1 where d1: "foldE (replace_link m) ?d links = Inr d1" "rebuildModeEntries d1 m = Inr db'"
    using assms(2) by (auto simp: replaceModeFeeds_def bindE_eq_Inr_iff)
  obtain ls where ls: "d1 = ?d\<lparr>mode_feeds := mode_feeds ?d @ ls\<rparr>" "\<forall>l \<in> set ls. mf_mode l = m" "db_ok d1"
    using replace_links_effect [OF d1(1) delete_links_ok [OF ok]] by blast
  let ?ls = "filter (\<lambda>l. mf_mode l \<noteq> m) (mode_feeds db) @ ls"
  have d1': "d1 = db\<lparr>mode_feeds := ?ls\<rparr>" using ls(1) by simp
  show ?thesis
    by (rule touch_mode [OF assms(1) ls(3) [unfolded d1'] _ d1(2) [unfolded d1']]) (use ls(2) in auto)
qed

lemma AddFeedToMode_sync:
  assumes "in_sync db" "AddFeedToMode m f ex db = Inr db'" shows "in_sync db'"
proof (cases "\<exists>l \<in> set (mode_feeds db). mf_mode l = m \<and> mf_feed l = f")
  case True
  have ok: "db_ok db" using assms(1) by (simp add: in_sync_def)
  let ?ls = "map (\<lambda>l. if mf_mode l = m \<and> mf_feed l = f then l\<lparr>mf_exclude := ex\<rparr> else l) (mode_feeds db)"
  have reb: "rebuildModeEntries (db\<lparr>mode_feeds := ?ls\<rparr>) m = Inr db'"
    using assms(2) True by (auto simp: AddFeedToMode_def)
  have keys: "map link_key ?ls = map link_key (mode_feeds db)" by simp
  have "\<forall>l \<in> set ?ls. mf_mode l \<in> mode_ids db \<and> mf_feed l \<in> feed_ids db"
    using mode_feeds_refs [OF ok] by (auto simp del: set_map simp: set_map [where f = "\<lambda>l. if mf_mode l = m \<and> mf_feed l = f then l\<lparr>mf_exclude := ex\<rparr> else l"])
  then have "refs_ok (db\<lparr>mode_feeds := ?ls\<rparr>)" using db_okD(2) [OF ok] unfolding refs_ok_def by simp
  moreover have "keys_ok (db\<lparr>mode_feeds := ?ls\<rparr>)"
    using db_okD(1) [OF ok] keys unfolding keys_ok_def by (simp del: map_map)
  ultimately have "db_ok (db\<lparr>mode_feeds := ?ls\<rparr>)" using db_okD(3) [OF ok] by (simp add: db_ok_def stored_ok_def)
  then show ?thesis by (rule touch_mode [OF assms(1) _ _ reb]) (auto simp: image_iff)
next
  case False
  have ok: "db_ok db" using assms(1) by (simp add: in_sync_def)
  let ?l = "\<lparr>mf_mode = m, mf_feed = f, mf_exclude = ex\<rparr>"
  obtain d where d: "insert_mode_feed db ?l = Inr d" "rebuildModeEntries d m = Inr db'"
    using assms(2) False by (auto simp: AddFeedToMode_def bindE_eq_Inr_iff)
  note d' = insert_mode_feed_fields [OF d(1)]
  show ?thesis
    by (rule touch_mode [OF assms(1) insert_mode_feed_ok [OF ok d(1), unfolded d'] _ d(2) [unfolded d']]) auto
qed

lemma RemoveFeedFromMode_sync:
  assumes "in_sync db" "RemoveFeedFromMode m f db = Inr db'" shows "in_sync db'"
proof -
  have ok: "db_ok db" using assms(1) by (simp add: in_sync_def)
  let ?ls = "filter (\<lambda>l. \<not> (mf_mode l = m \<and> mf_feed l = f)) (mode_feeds db)"
  have reb: "rebuildModeEntries (db\<lparr>mode_feeds := ?ls\<rparr>) m = Inr db'"
    using assms(2) by (simp add: RemoveFeedFromMode_def split: if_splits)
  show ?thesis by (rule touch_mode [OF assms(1) delete_links_ok [OF ok] _ reb]) auto
qed

section \<open>Operations on modes\<close>

lemma UpdateCatalogMode_sync:
  assumes "in_sync db" "UpdateCatalogMode m db = Inr db'" shows "in_sync db'"
proof -
  have ok: "db_ok db" using assms(1) by (simp add: in_sync_def)
  let ?ms = "map (\<lambda>r. if md_id r = md_id m then m else r) (modes db)"
  have u: "\<forall>r \<in> set (modes db). md_name r = md_name m \<longrightarrow> md_id r = md_id m" and db': "db' = db\<lparr>modes := ?ms\<rparr>"
    using assms(2) by (auto simp: UpdateCatalogMode_def split: if_splits)
  have ids: "map md_id ?ms = map md_id (modes db)" by simp
  have k: "distinct (map md_id (modes db))" "distinct (map md_name (modes db))"
    using db_okD(1) [OF ok] by (simp_all add: keys_ok_def)
  have "distinct (map md_name ?ms)"
    by (rule distinct_map_update [OF k(2,1), where v = "md_name m"]) (use u in auto)
  then have "keys_ok db'" using db_okD(1) [OF ok] ids unfolding keys_ok_def db' by (simp del: map_map)
  moreover have "map md_id (modes db') = map md_id (modes db)" using ids by (simp add: db' del: map_map)
  then have "mode_ids db' = mode_ids db" by (rule arg_cong)
  then have "refs_ok db'" using db_okD(2) [OF ok] unfolding refs_ok_def db' by simp
  ultimately have "db_ok db'" using db_okD(3) [OF ok] by (simp add: db_ok_def stored_ok_def db')
  then show ?thesis by (rule sync_unchanged [OF assms(1)]) (simp_all add: db')
qed

lemma SaveModeWithFeeds_sync:
  assumes "in_sync db" "SaveModeWithFeeds m links db = Inr db'" shows "in_sync db'"
proof -
  obtain d where "UpdateCatalogMode m db = Inr d" "replaceModeFeeds (md_id m) links d = Inr db'"
    using assms(2) unfolding SaveModeWithFeeds_def bindE_eq_Inr_iff by blast
  then show ?thesis using UpdateCatalogMode_sync [OF assms(1)] replaceModeFeeds_sync by blast
qed

lemma AddCatalogMode_sync:
  assumes "in_sync db" "AddCatalogMode name en db = Inr (db', i)" shows "in_sync db'"
proof -
  have ok: "db_ok db" using assms(1) by (simp add: in_sync_def)
  let ?r = "\<lparr>md_id = new_rowid (map md_id (modes db)), md_name = name, md_enabled = en\<rparr>"
  have u: "name \<notin> set (map md_name (modes db))" and db': "db' = db\<lparr>modes := modes db @ [?r]\<rparr>"
    using assms(2) by (auto simp: AddCatalogMode_def Let_def)
  have "keys_ok db'"
    using db_okD(1) [OF ok] u new_rowid_fresh [of "map md_id (modes db)"] by (simp add: keys_ok_def db')
  moreover have "refs_ok db'"
    using db_okD(2) [OF ok] unfolding refs_ok_def db' by (elim conjE, intro conjI) (simp_all, fastforce+)
  ultimately have "db_ok db'" using db_okD(3) [OF ok] by (simp add: db_ok_def stored_ok_def db')
  then show ?thesis by (rule sync_unchanged [OF assms(1)]) (simp_all add: db')
qed

lemma delete_mode_row_refs:
  assumes "refs_ok db" "\<forall>u \<in> set (users db). us_mode u \<noteq> i" shows "refs_ok (delete_mode_row i db)"
  using assms unfolding refs_ok_def delete_mode_row_def
  by (elim conjE, intro conjI) (simp_all, fastforce+)

lemma DeleteCatalogMode_sync:
  assumes "in_sync db" "DeleteCatalogMode i db = Inr (db', moved)" shows "in_sync db'"
proof -
  have ok: "db_ok db" using assms(1) by (simp add: in_sync_def)
  let ?us = "map (\<lambda>u. if us_mode u = i then u\<lparr>us_mode := DefaultCatalogModeID\<rparr> else u) (users db)"
  let ?d = "db\<lparr>users := ?us\<rparr>"
  have i: "\<not> i \<le> 3" and g: "moved = [] \<or> DefaultCatalogModeID \<in> mode_ids db"
    and moved: "moved = map us_id (filter (\<lambda>u. us_mode u = i) (users db))" and db': "db' = delete_mode_row i ?d"
    using assms(2) by (auto simp: DeleteCatalogMode_def Let_def bindE_eq_Inr_iff simp del: set_map split: if_splits)
  have keys: "map us_id ?us = map us_id (users db)" "map us_name ?us = map us_name (users db)"
    "map (\<lambda>u. (us_peer_ip u, us_peer_asn u)) ?us = map (\<lambda>u. (us_peer_ip u, us_peer_asn u)) (users db)" by simp_all
  have us: "\<forall>u \<in> set ?us. us_mode u \<in> mode_ids db"
  proof
    fix u assume "u \<in> set ?us"
    then obtain w where w: "w \<in> set (users db)" "u = (if us_mode w = i then w\<lparr>us_mode := DefaultCatalogModeID\<rparr> else w)" by auto
    have "us_mode w \<in> mode_ids db" using db_okD(2) [OF ok] w(1) unfolding refs_ok_def by blast
    moreover have "DefaultCatalogModeID \<in> mode_ids db" if "us_mode w = i"
      using g w(1) that moved by (auto simp: filter_empty_conv)
    ultimately show "us_mode u \<in> mode_ids db" using w(2) by auto
  qed
  have uids: "user_ids ?d = user_ids db" using keys(1) by simp
  have "refs_ok ?d" using db_okD(2) [OF ok] us uids unfolding refs_ok_def by simp
  then have refs: "refs_ok db'" unfolding db'
    by (rule delete_mode_row_refs) (use i in \<open>auto simp: DefaultCatalogModeID_def\<close>)
  have "keys_ok ?d" using db_okD(1) [OF ok] keys unfolding keys_ok_def by (simp del: map_map)
  then have "keys_ok db'" unfolding keys_ok_def db' by (simp add: delete_mode_row_def distinct_map_filter)
  then have okd: "db_ok db'" using refs db_okD(3) [OF ok] by (simp add: db_ok_def stored_ok_def db' delete_mode_row_def)
  have f: "prefix_rows db' = prefix_rows db" "entries db' = entries db" "feeds db' = feeds db"
    "mode_feeds db' = filter (\<lambda>l. mf_mode l \<noteq> i) (mode_feeds db)"
    "mode_entries db' = filter (\<lambda>(m, s, p). m \<noteq> i) (mode_entries db)"
    by (simp_all add: db' delete_mode_row_def)
  have "synced db' m" for m
  proof (cases "m = i")
    case True
    then show ?thesis
      by (auto simp: synced_def materialised_def merged_def mode_entry_ids_def include_ids_def f stored_def routable_def spans_def)
  next
    case False
    show ?thesis
    proof (rule synced_same_inputs [OF assms(1) okd])
      show "same_inputs db db' m" using False by (auto simp: same_inputs_def f feed_enabled_def)
      show "mode_entry_ids db' m = mode_entry_ids db m" using False by (auto simp: mode_entry_ids_def f fun_eq_iff)
    qed (simp add: f)
  qed
  then show ?thesis using okd by (simp add: in_sync_def)
qed

section \<open>Pruning\<close>

lemma PruneOrphanPrefixes_sync:
  assumes "in_sync db" shows "in_sync (fst (PruneOrphanPrefixes db))"
proof -
  have ok: "db_ok db" using assms(1) by (simp add: in_sync_def)
  let ?d = "fst (PruneOrphanPrefixes db)"
  have rows: "prefix_rows ?d = filter (\<lambda>r. prefix_referenced db (px_id r)) (prefix_rows db)"
    and rest: "?d = db\<lparr>prefix_rows := filter (\<lambda>r. prefix_referenced db (px_id r)) (prefix_rows db)\<rparr>"
    by (simp_all add: PruneOrphanPrefixes_def Let_def)
  have keep: "i \<in> prefix_ids ?d" if "i \<in> prefix_ids db" "prefix_referenced db i" for i
    using that by (auto simp: rows)
  have "prefix_table_ok (prefix_rows ?d)"
    using db_okD(4) [OF ok] by (auto simp: prefix_table_ok_def rows distinct_map_filter)
  moreover have "f \<in> feed_ids db \<and> s \<in> service_ids_of db \<and> p \<in> prefix_ids ?d" if "(f, s, p) \<in> set (entries db)" for f s p
  proof -
    have "prefix_referenced db p" using that by (force simp: prefix_referenced_def)
    then show ?thesis using entries_refs [OF ok that] keep by blast
  qed
  then have "\<forall>(f, s, p) \<in> set (entries db). f \<in> feed_ids db \<and> s \<in> service_ids_of db \<and> p \<in> prefix_ids ?d" by blast
  moreover have "m \<in> mode_ids db \<and> s \<in> service_ids_of db \<and> p \<in> prefix_ids ?d" if "(m, s, p) \<in> set (mode_entries db)" for m s p
  proof -
    have "prefix_referenced db p" using that by (force simp: prefix_referenced_def)
    then show ?thesis using mode_entries_refs [OF ok that] keep by blast
  qed
  then have "\<forall>(m, s, p) \<in> set (mode_entries db). m \<in> mode_ids db \<and> s \<in> service_ids_of db \<and> p \<in> prefix_ids ?d" by blast
  ultimately have okd: "db_ok ?d"
    using db_okD(1-3) [OF ok] unfolding db_ok_def keys_ok_def refs_ok_def stored_ok_def rest by simp
  have "stored ?d I = stored db I" if "\<forall>i \<in> I. prefix_referenced db i" for I
    using that by (auto simp: stored_def rows)
  moreover have "\<forall>i \<in> include_ids db m s. prefix_referenced db i" "\<forall>i \<in> exclude_ids db m. prefix_referenced db i"
    "\<forall>i \<in> mode_entry_ids db m s. prefix_referenced db i" for m s
    by (force simp: include_ids_def exclude_ids_def mode_entry_ids_def prefix_referenced_def)+
  moreover have "include_ids ?d = include_ids db" "exclude_ids ?d = exclude_ids db" "mode_entry_ids ?d = mode_entry_ids db"
    by (simp_all add: rest include_ids_def exclude_ids_def mode_entry_ids_def feed_enabled_def fun_eq_iff)
  ultimately have "synced ?d m" for m
    using assms by (simp add: in_sync_def synced_def materialised_def merged_def)
  then show ?thesis using okd by (simp add: in_sync_def)
qed

end
