(* ===== verification/Store_Users.thy ===== *)
theory Store_Users
  imports Store_Integrity Prefix_Aggregate
begin

text \<open>
  \<open>users.go\<close>, the rows of route filters (\<open>routes.go\<close>) and \<open>settings.go\<close>: users, their networks, filters and
  selections. A Go \<open>User\<close> is the record \<open>user\<close>; it is stored as a \<open>user_row\<close>, the rows of its networks and
  those of its filters. Credentials (bcrypt) and the audit rows are not modelled.
\<close>

section \<open>Users\<close>

record user =
  u_ID :: int
  u_Name :: string
  u_PeerIP :: string
  u_PeerASN :: u32
  u_NextHop :: string
  u_BGPPassword :: string
  u_SelectionLocked :: bool
  u_Enabled :: bool
  u_FilterOverride :: bool
  u_FilterMode :: string
  u_FilterEditable :: bool
  u_CatalogModeID :: int
  u_CatalogModeName :: string
  u_CatalogEditable :: bool
  u_ActiveDial :: bool
  u_WebAuth :: string
  u_Networks :: "string list"



definition webAuthToInt :: "string \<Rightarrow> int" where
  "webAuthToInt m = (if m = ''login'' then 1 else if m = ''both'' then 2 else if m = ''any'' then 3 else 0)"

definition webAuthFromInt :: "int \<Rightarrow> string" where
  "webAuthFromInt v = (if v = 1 then ''login'' else if v = 2 then ''both'' else if v = 3 then ''any'' else ''network'')"

definition isActiveWebAuth :: "string \<Rightarrow> bool" where
  "isActiveWebAuth m \<longleftrightarrow> m = ''network'' \<or> m = ''both'' \<or> m = ''any''"

definition activeWebAuthModes :: "int list" where
  "activeWebAuthModes = [0, 2, 3]"

definition decodeStoredAddr :: "byte list \<Rightarrow> (store_error, string) result" where
  "decodeStoredAddr ip = (if ip = [] then Inr [] else bindE (DecodeAddr ip) (\<lambda>a. Inr (addr_string a)))"

definition encodeAddrArg :: "string \<Rightarrow> (store_error, byte list) result" where
  "encodeAddrArg v =
     (case parse_addr_zone (trim_space v) of
        None \<Rightarrow> fail (BadAddress v)
      | Some (a, zone) \<Rightarrow> Inr (as_slice a))"

definition encodeUserAddrs :: "user \<Rightarrow> (store_error, byte list \<times> byte list option) result" where
  "encodeUserAddrs u =
     bindE (encodeAddrArg (u_PeerIP u)) (\<lambda>peer.
       if u_NextHop u \<noteq> [] then bindE (encodeAddrArg (u_NextHop u)) (\<lambda>nh. Inr (peer, Some nh))
       else Inr (peer, None))"

definition mode_name :: "db \<Rightarrow> int \<Rightarrow> string" where
  "mode_name db m = (case find (\<lambda>r. md_id r = m) (modes db) of None \<Rightarrow> [] | Some r \<Rightarrow> md_name r)"

definition scanUserRow :: "db \<Rightarrow> user_row \<Rightarrow> (store_error, user) result" where
  "scanUserRow db r =
     bindE (decodeStoredAddr (us_peer_ip r)) (\<lambda>peer.
     bindE (decodeStoredAddr (case us_next_hop r of None \<Rightarrow> [] | Some nh \<Rightarrow> nh)) (\<lambda>nh.
     let fm = filterModeFromInt (us_filter_mode r) in
     Inr \<lparr>u_ID = us_id r, u_Name = us_name r, u_PeerIP = peer, u_PeerASN = us_peer_asn r, u_NextHop = nh,
       u_BGPPassword = us_password r, u_SelectionLocked = us_locked r, u_Enabled = us_enabled r,
       u_FilterOverride = (fm \<noteq> FilterModeGlobal), u_FilterMode = fm, u_FilterEditable = us_filter_editable r,
       u_CatalogModeID = us_mode r, u_CatalogModeName = mode_name db (us_mode r),
       u_CatalogEditable = us_mode_editable r, u_ActiveDial = us_active_dial r,
       u_WebAuth = webAuthFromInt (us_web_auth r), u_Networks = []\<rparr>))"

definition userNetworks :: "db \<Rightarrow> int \<Rightarrow> (store_error, string list) result" where
  "userNetworks db u =
     mapE (\<lambda>(ip, bits). bindE (DecodePrefix ip bits) (\<lambda>p. Inr (prefix_string p)))
       (sort_key (\<lambda>(ip, bits). (map unat ip, bits)) (map snd (filter (\<lambda>(v, n). v = u) (networks db))))"

definition with_networks :: "db \<Rightarrow> user \<Rightarrow> (store_error, user) result" where
  "with_networks db u = bindE (userNetworks db (u_ID u)) (\<lambda>ns. Inr (u\<lparr>u_Networks := ns\<rparr>))"

definition Users :: "db \<Rightarrow> bool \<Rightarrow> (store_error, user list) result" where
  "Users db enabled_only =
     bindE (mapE (scanUserRow db) (sort_key us_id (filter (\<lambda>r. \<not> enabled_only \<or> us_enabled r) (users db))))
       (mapE (with_networks db))"

definition User :: "db \<Rightarrow> int \<Rightarrow> (store_error, user) result" where
  "User db i =
     (case find (\<lambda>r. us_id r = i) (users db) of
        None \<Rightarrow> fail NoRows
      | Some r \<Rightarrow> bindE (scanUserRow db r) (with_networks db))"

section \<open>Networks\<close>

definition AggregateNetworks :: "string list \<Rightarrow> (store_error, string list) result" where
  "AggregateNetworks raw =
     bindE (mapE (\<lambda>r. case parse_prefix (trim_space r) of None \<Rightarrow> fail (BadCIDR r) | Some p \<Rightarrow> Inr (masked p)) raw)
       (\<lambda>ps. Inr (sort (map prefix_string (Aggregate ps))))"

text \<open>\<open>netip.Prefix.Overlaps\<close>.\<close>

definition overlaps :: "prefix \<Rightarrow> prefix \<Rightarrow> bool" where
  "overlaps p q \<longleftrightarrow>
     prefix_is_valid p \<and> prefix_is_valid q \<and>
     (p = q \<or> p_fam p = p_fam q \<and>
        (let bits = min (p_bits p) (p_bits q)
         in bits = 0 \<or> masked (Prefix (p_addr p) bits) = masked (Prefix (p_addr q) bits)))"

definition active_networks :: "db \<Rightarrow> (user_row \<Rightarrow> bool) \<Rightarrow> (user_row \<times> byte list \<times> int) list" where
  "active_networks db P =
     [(r, n). (u, n) \<leftarrow> networks db, r \<leftarrow> users db,
        us_id r = u \<and> us_web_auth r \<in> set activeWebAuthModes \<and> us_enabled r \<and> P r]"

fun overlap_rows :: "prefix list \<Rightarrow> (user_row \<times> byte list \<times> int) list \<Rightarrow> (store_error, unit) result" where
  "overlap_rows candidates [] = Inr ()"
| "overlap_rows candidates ((r, ip, bits) # rows) =
     (case DecodePrefix ip bits of
        Inl e \<Rightarrow> overlap_rows candidates rows
      | Inr other \<Rightarrow>
          (case find (\<lambda>c. overlaps c other) candidates of
             Some c \<Rightarrow> fail (NetworkConflict c other (us_name r))
           | None \<Rightarrow> overlap_rows candidates rows))"

definition ActiveNetworksOverlap :: "db \<Rightarrow> string list \<Rightarrow> int \<Rightarrow> (store_error, unit) result" where
  "ActiveNetworksOverlap db candidates exclude_user =
     (if candidates = [] then Inr ()
      else bindE (mapE (\<lambda>c. case parse_prefix (trim_space c) of None \<Rightarrow> fail (BadCIDR c) | Some p \<Rightarrow> Inr (masked p)) candidates)
        (\<lambda>ps. overlap_rows ps (active_networks db (\<lambda>r. us_id r \<noteq> exclude_user))))"

fun longest_network :: "addr \<Rightarrow> int \<times> int \<Rightarrow> (user_row \<times> byte list \<times> int) list \<Rightarrow> int \<times> int" where
  "longest_network ip best [] = best"
| "longest_network ip (best_bits, best_id) ((r, nip, bits) # rows) =
     (case DecodePrefix nip bits of
        Inl e \<Rightarrow> longest_network ip (best_bits, best_id) rows
      | Inr p \<Rightarrow> longest_network ip
          (if contains p ip \<and> best_bits < int (p_bits p) then (int (p_bits p), us_id r) else (best_bits, best_id)) rows)"

text \<open>An address with a zone is contained in no prefix.\<close>

definition UserByIP :: "db \<Rightarrow> string \<Rightarrow> (store_error, user) result" where
  "UserByIP db address =
     (case parse_addr_zone address of
        None \<Rightarrow> fail (BadAddress address)
      | Some (ip, zone) \<Rightarrow>
          (let (best_bits, best_id) =
             (if zone \<noteq> [] then (-1, 0) else longest_network ip (-1, 0) (active_networks db (\<lambda>r. True)))
           in if best_id = 0 then fail NoRows
              else bindE (User db best_id) (\<lambda>u. if \<not> u_Enabled u then fail NoRows else Inr u)))"

definition insert_network :: "int \<Rightarrow> db \<Rightarrow> string \<Rightarrow> (store_error, db) result" where
  "insert_network u db s =
     bindE (EncodePrefixString s) (\<lambda>n.
       guardE (n \<notin> set (map snd (networks db)) \<and> u \<in> set (map us_id (users db)))
         (db\<lparr>networks := networks db @ [(u, n)]\<rparr>))"

definition replaceNetworks :: "int \<Rightarrow> string list \<Rightarrow> db \<Rightarrow> (store_error, db) result" where
  "replaceNetworks u ns db =
     foldE (insert_network u) (db\<lparr>networks := filter (\<lambda>(v, n). v \<noteq> u) (networks db)\<rparr>) ns"

section \<open>Saving users\<close>

definition default_mode :: "user \<Rightarrow> int" where
  "default_mode u = (if u_CatalogModeID u = 0 then DefaultCatalogModeID else u_CatalogModeID u)"

definition default_web_auth :: "user \<Rightarrow> string" where
  "default_web_auth u = (if u_WebAuth u = [] then ''network'' else u_WebAuth u)"

definition user_row_of :: "int \<Rightarrow> user \<Rightarrow> byte list \<times> byte list option \<Rightarrow> user_row" where
  "user_row_of i u addrs =
     \<lparr>us_id = i, us_name = u_Name u, us_peer_ip = fst addrs, us_peer_asn = u_PeerASN u, us_next_hop = snd addrs,
      us_password = u_BGPPassword u, us_locked = u_SelectionLocked u, us_enabled = u_Enabled u,
      us_filter_mode = filterModeToInt (normalize_filter_mode (u_FilterMode u) (u_FilterOverride u)),
      us_filter_editable = u_FilterEditable u, us_mode = default_mode u, us_mode_editable = u_CatalogEditable u,
      us_active_dial = u_ActiveDial u, us_web_auth = webAuthToInt (default_web_auth u)\<rparr>"

definition user_unique :: "db \<Rightarrow> user_row \<Rightarrow> bool" where
  "user_unique db n \<longleftrightarrow> (\<forall>r \<in> set (users db). us_id r \<noteq> us_id n \<longrightarrow>
     us_name r \<noteq> us_name n \<and> (us_peer_ip r, us_peer_asn r) \<noteq> (us_peer_ip n, us_peer_asn n))"

definition AddUser :: "user \<Rightarrow> db \<Rightarrow> (store_error, db \<times> int) result" where
  "AddUser u db =
     bindE (encodeUserAddrs u) (\<lambda>addrs.
     let i = new_rowid (map us_id (users db)); r = user_row_of i u addrs
     in bindE (guardE (user_unique db r \<and> us_mode r \<in> set (map md_id (modes db))) (db\<lparr>users := users db @ [r]\<rparr>)) (\<lambda>db1.
        bindE (replaceNetworks i (u_Networks u) db1) (\<lambda>db2. Inr (db2, i))))"

definition user_filters :: "db \<Rightarrow> int \<Rightarrow> filter_row list" where
  "user_filters db u = map snd (filter (\<lambda>(v, r). v = u) (filter_rows db))"

definition write_filters :: "int \<Rightarrow> filter_row list \<Rightarrow> db \<Rightarrow> (store_error, db) result" where
  "write_filters u rows db =
     guardE (distinct rows \<and> (rows = [] \<or> u \<in> set (map us_id (users db))))
       (db\<lparr>filter_rows := filter (\<lambda>(v, r). v \<noteq> u) (filter_rows db) @ map (Pair u) rows\<rparr>)"

definition SetUserRouteFilters :: "int \<Rightarrow> route_filters \<Rightarrow> db \<Rightarrow>
    (store_error, db \<times> route_filters \<times> route_filters) result" where
  "SetUserRouteFilters u f db =
     bindE (setUserRouteFilters (user_filters db u) f) (\<lambda>(before, after, rows).
     bindE (write_filters u rows db) (\<lambda>db1. Inr (db1, before, after)))"

definition update_user_row :: "int \<Rightarrow> (user_row \<Rightarrow> user_row) \<Rightarrow> db \<Rightarrow> db" where
  "update_user_row i f db = db\<lparr>users := map (\<lambda>r. if us_id r = i then f r else r) (users db)\<rparr>"

definition UpdateUserWithRouteFilters :: "user \<Rightarrow> route_filters option \<Rightarrow> db \<Rightarrow> (store_error, db \<times> int) result" where
  "UpdateUserWithRouteFilters u filters db =
     bindE (encodeUserAddrs u) (\<lambda>addrs.
     case find (\<lambda>r. us_id r = u_ID u) (users db) of
       None \<Rightarrow> fail NoRows
     | Some old \<Rightarrow>
         (let r = user_row_of (u_ID u) u addrs in
          bindE (guardE (user_unique db r \<and> us_mode r \<in> set (map md_id (modes db)))
              (update_user_row (u_ID u) (\<lambda>_. r) db)) (\<lambda>db1.
          bindE (replaceNetworks (u_ID u) (u_Networks u) db1) (\<lambda>db2.
          case filters of
            None \<Rightarrow> Inr (db2, us_mode old)
          | Some f \<Rightarrow> bindE (SetUserRouteFilters (u_ID u) f db2) (\<lambda>(db3, before, after). Inr (db3, us_mode old))))))"

definition UpdateUser :: "user \<Rightarrow> db \<Rightarrow> (store_error, db \<times> int) result" where
  "UpdateUser u db = UpdateUserWithRouteFilters u None db"

definition delete_user_row :: "int \<Rightarrow> db \<Rightarrow> db" where
  "delete_user_row i db = db\<lparr>
     users := filter (\<lambda>r. us_id r \<noteq> i) (users db),
     networks := filter (\<lambda>(u, n). u \<noteq> i) (networks db),
     filter_rows := filter (\<lambda>(u, r). u \<noteq> i) (filter_rows db),
     selected_categories := filter (\<lambda>(u, m, c). u \<noteq> i) (selected_categories db),
     selected_services := filter (\<lambda>(u, m, s). u \<noteq> i) (selected_services db)\<rparr>"

definition DeleteUser :: "int \<Rightarrow> db \<Rightarrow> (store_error, db) result" where
  "DeleteUser i db = (if i \<in> set (map us_id (users db)) then Inr (delete_user_row i db) else fail NoRows)"

section \<open>Filters of a user\<close>

definition UserRouteFilters :: "db \<Rightarrow> int \<Rightarrow> (store_error, route_filters) result" where
  "UserRouteFilters db u = readRouteFilters (user_filters db u)"

definition SetUserRouteFilterConfig :: "int \<Rightarrow> string \<Rightarrow> route_filters \<Rightarrow> db \<Rightarrow> (store_error, db) result" where
  "SetUserRouteFilterConfig u mode f db =
     bindE (NormalizeFilterMode mode) (\<lambda>m.
     bindE (insertRouteFilters f) (\<lambda>rows.
     bindE (write_filters u rows db) (\<lambda>db1.
       if u \<in> set (map us_id (users db1)) then Inr (update_user_row u (\<lambda>r. r\<lparr>us_filter_mode := filterModeToInt m\<rparr>) db1)
       else fail NoRows)))"

definition SetUserFilterOverride :: "int \<Rightarrow> bool \<Rightarrow> db \<Rightarrow> (store_error, db) result" where
  "SetUserFilterOverride u enabled db =
     (if u \<in> set (map us_id (users db))
      then Inr (update_user_row u (\<lambda>r. r\<lparr>us_filter_mode :=
        filterModeToInt (if enabled then FilterModeOverride else FilterModeGlobal)\<rparr>) db)
      else fail NoRows)"

section \<open>Settings\<close>

definition getAllSettings :: "db \<Rightarrow> (string \<rightharpoonup> string)" where
  "getAllSettings db = map_of (settings db)"

definition SaveSetting :: "string \<Rightarrow> string \<Rightarrow> db \<Rightarrow> db" where
  "SaveSetting k v db = db\<lparr>settings := filter (\<lambda>(k', v'). k' \<noteq> k) (settings db) @ [(k, v)]\<rparr>"

definition SaveSettings :: "(string \<times> string) list \<Rightarrow> db \<Rightarrow> db" where
  "SaveSettings kvs db = foldl (\<lambda>d (k, v). SaveSetting k v d) db kvs"

definition DeleteSetting :: "string \<Rightarrow> db \<Rightarrow> db" where
  "DeleteSetting k db = db\<lparr>settings := filter (\<lambda>(k', v). k' \<noteq> k) (settings db)\<rparr>"

definition GlobalRouteFilters :: "db \<Rightarrow> route_filters" where
  "GlobalRouteFilters db = globalRouteFilters (getAllSettings db)"

end
