(* ===== verification/Store_Selection.thy ===== *)
theory Store_Selection
  imports Store_Users Store_Sync
begin

text \<open>
  What a user selected and what is announced for it: the selection operations of \<open>users.go\<close>,
  \<open>DesiredPrefixes\<close> of \<open>routes.go\<close>, the selection queries of \<open>catalog.go\<close> and the trial runs of
  \<open>blastradius.go\<close>.
\<close>

section \<open>Selections\<close>

definition insert_selected_category :: "bool \<Rightarrow> db \<Rightarrow> int \<times> int \<times> int \<Rightarrow> (store_error, db) result" where
  "insert_selected_category or_ignore db row =
     (if row \<in> set (selected_categories db) then (if or_ignore then Inr db else fail DbError)
      else guardE (fst row \<in> set (map us_id (users db)) \<and> fst (snd row) \<in> set (map md_id (modes db)) \<and>
          snd (snd row) \<in> set (map ct_id (categories db)))
        (db\<lparr>selected_categories := selected_categories db @ [row]\<rparr>))"

definition insert_selected_service :: "bool \<Rightarrow> db \<Rightarrow> int \<times> int \<times> int \<Rightarrow> (store_error, db) result" where
  "insert_selected_service or_ignore db row =
     (if row \<in> set (selected_services db) then (if or_ignore then Inr db else fail DbError)
      else guardE (fst row \<in> set (map us_id (users db)) \<and> fst (snd row) \<in> set (map md_id (modes db)) \<and>
          snd (snd row) \<in> set (map sv_id (services db)))
        (db\<lparr>selected_services := selected_services db @ [row]\<rparr>))"

definition select_category :: "bool \<Rightarrow> int \<Rightarrow> int \<Rightarrow> db \<Rightarrow> string \<Rightarrow> (store_error, db) result" where
  "select_category or_ignore u m db category =
     bindE (EnsureCategoryID db category) (\<lambda>(db1, c). insert_selected_category or_ignore db1 (u, m, c))"

definition select_service :: "bool \<Rightarrow> int \<Rightarrow> int \<Rightarrow> db \<Rightarrow> string \<times> string \<Rightarrow> (store_error, db) result" where
  "select_service or_ignore u m db k =
     bindE (EnsureServiceID db (fst k) (snd k)) (\<lambda>(db1, s). insert_selected_service or_ignore db1 (u, m, s))"

definition SetUserModeSelection ::
  "int \<Rightarrow> int \<Rightarrow> string list \<Rightarrow> (string \<times> string) list \<Rightarrow> db \<Rightarrow> (store_error, db) result" where
  "SetUserModeSelection u m cats svcs db =
     bindE (foldE (select_category False u m)
         (db\<lparr>selected_categories := filter (\<lambda>(v, n, c). \<not> (v = u \<and> n = m)) (selected_categories db),
             selected_services := filter (\<lambda>(v, n, s). \<not> (v = u \<and> n = m)) (selected_services db)\<rparr>)
         (sort cats))
       (\<lambda>db1. foldE (select_service False u m) db1 (sort svcs))"

definition ToggleSelectedCategory :: "int \<Rightarrow> int \<Rightarrow> db \<Rightarrow> string \<times> bool \<Rightarrow> (store_error, db) result" where
  "ToggleSelectedCategory u m db t =
     (if snd t then select_category True u m db (fst t)
      else Inr (db\<lparr>selected_categories := filter (\<lambda>(v, n, c). \<not> (v = u \<and> n = m \<and>
          (\<exists>r \<in> set (categories db). ct_id r = c \<and> ct_name r = fst t))) (selected_categories db)\<rparr>))"

definition service_has_name :: "db \<Rightarrow> int \<Rightarrow> string \<times> string \<Rightarrow> bool" where
  "service_has_name db s k \<longleftrightarrow> (\<exists>r \<in> set (services db). sv_id r = s \<and> sv_name r = snd k \<and>
     (\<exists>c \<in> set (categories db). ct_id c = sv_category r \<and> ct_name c = fst k))"

definition ToggleSelectedService :: "int \<Rightarrow> int \<Rightarrow> db \<Rightarrow> (string \<times> string) \<times> bool \<Rightarrow> (store_error, db) result" where
  "ToggleSelectedService u m db t =
     (if snd t then select_service True u m db (fst t)
      else Inr (db\<lparr>selected_services := filter (\<lambda>(v, n, s). \<not> (v = u \<and> n = m \<and> service_has_name db s (fst t)))
          (selected_services db)\<rparr>))"

text \<open>The names of a selection, without the duplicates a Go map removes.\<close>

definition userModeSelection :: "db \<Rightarrow> int \<Rightarrow> int \<Rightarrow> string list \<times> (string \<times> string) list" where
  "userModeSelection db u m =
     (remdups [ct_name r. (v, n, c) \<leftarrow> selected_categories db, v = u \<and> n = m, r \<leftarrow> categories db, ct_id r = c],
      remdups [(ct_name c, sv_name r). (v, n, s) \<leftarrow> selected_services db, v = u \<and> n = m,
        r \<leftarrow> services db, sv_id r = s, c \<leftarrow> categories db, ct_id c = sv_category r])"

definition SetUserCatalogMode :: "int \<Rightarrow> int \<Rightarrow> bool \<Rightarrow> db \<Rightarrow> (store_error, db \<times> int) result" where
  "SetUserCatalogMode u m require_editable db =
     (case find (\<lambda>r. us_id r = u) (users db) of
        None \<Rightarrow> fail NoRows
      | Some r \<Rightarrow>
          if (\<exists>x \<in> set (modes db). md_id x = m \<and> md_enabled x) \<and>
             (\<not> require_editable \<or> us_mode r = m \<or> us_mode_editable r)
          then Inr (update_user_row u (\<lambda>r. r\<lparr>us_mode := m\<rparr>) db, us_mode r)
          else fail NoRows)"

record selection_counts =
  sc_before_categories :: nat
  sc_before_services :: nat
  sc_after_categories :: nat
  sc_after_services :: nat
  sc_previous_mode :: int

definition SaveUserSelectionCounts :: "int \<Rightarrow> int \<Rightarrow> bool \<Rightarrow> (string \<times> bool) list \<Rightarrow>
    ((string \<times> string) \<times> bool) list \<Rightarrow> db \<Rightarrow> (store_error, db \<times> selection_counts) result" where
  "SaveUserSelectionCounts u m switch_mode cats svcs db =
     (let old = userModeSelection db u m in
      bindE (if switch_mode then SetUserCatalogMode u m False db else Inr (db, 0)) (\<lambda>(db1, prev).
      bindE (foldE (ToggleSelectedCategory u m) db1 cats) (\<lambda>db2.
      bindE (foldE (ToggleSelectedService u m) db2 svcs) (\<lambda>db3.
        let new = userModeSelection db3 u m in
        Inr (db3, \<lparr>sc_before_categories = length (fst old), sc_before_services = length (snd old),
          sc_after_categories = length (fst new), sc_after_services = length (snd new),
          sc_previous_mode = prev\<rparr>)))))"

text \<open>Does a feed of the given state, linked as an include, offer a service?\<close>

definition offered_by :: "bool \<Rightarrow> db \<Rightarrow> int \<Rightarrow> (int \<Rightarrow> bool) \<Rightarrow> bool" where
  "offered_by enabled db m wanted \<longleftrightarrow>
     (\<exists>(f, s, p) \<in> set (entries db). wanted s \<and> (\<exists>r \<in> set (feeds db). fd_id r = f \<and> fd_enabled r = enabled) \<and>
        (\<exists>l \<in> set (mode_feeds db). mf_feed l = f \<and> mf_mode l = m \<and> \<not> mf_exclude l))"

definition hiddenSelectedCategories :: "db \<Rightarrow> int \<Rightarrow> int \<Rightarrow> string list" where
  "hiddenSelectedCategories db u m =
     [ct_name r. (v, n, c) \<leftarrow> selected_categories db, v = u \<and> n = m, r \<leftarrow> categories db, ct_id r = c \<and>
        offered_by False db m (in_category db c) \<and> \<not> offered_by True db m (in_category db c)]"

definition hiddenSelectedServices :: "db \<Rightarrow> int \<Rightarrow> int \<Rightarrow> (string \<times> string) list" where
  "hiddenSelectedServices db u m =
     [(ct_name c, sv_name r). (v, n, s) \<leftarrow> selected_services db, v = u \<and> n = m,
        r \<leftarrow> services db, sv_id r = s, c \<leftarrow> categories db, ct_id c = sv_category r \<and>
        offered_by False db m (\<lambda>t. t = s) \<and> \<not> offered_by True db m (\<lambda>t. t = s)]"

fun unique_values :: "'a list \<Rightarrow> 'a list \<Rightarrow> 'a list" where
  "unique_values seen [] = []"
| "unique_values seen (x # xs) =
     (if x \<in> set seen then unique_values seen xs else x # unique_values (x # seen) xs)"

definition SetVisibleUserModeSelection ::
  "int \<Rightarrow> int \<Rightarrow> string list \<Rightarrow> (string \<times> string) list \<Rightarrow> db \<Rightarrow> (store_error, db) result" where
  "SetVisibleUserModeSelection u m cats svcs db =
     SetUserModeSelection u m (unique_values [] (cats @ hiddenSelectedCategories db u m))
       (unique_values [] (svcs @ hiddenSelectedServices db u m)) db"

section \<open>The announced prefixes\<close>

definition selects :: "db \<Rightarrow> int \<Rightarrow> int \<Rightarrow> int \<Rightarrow> bool" where
  "selects db u m s \<longleftrightarrow>
     (\<exists>(v, n, c) \<in> set (selected_categories db). v = u \<and> n = m \<and> in_category db c s) \<or>
     (u, m, s) \<in> set (selected_services db)"

definition mode_enabled :: "db \<Rightarrow> int \<Rightarrow> bool" where
  "mode_enabled db m \<longleftrightarrow> (\<exists>r \<in> set (modes db). md_id r = m \<and> md_enabled r)"

text \<open>A row of the query: ip, bits, user, filter mode, category, service, mode.\<close>

type_synonym desired_row = "byte list \<times> int \<times> int \<times> int \<times> string \<times> string \<times> int"

definition desired_rows :: "db \<Rightarrow> desired_row list" where
  "desired_rows db =
     sort_key (\<lambda>(ip, bits, u, rest). (map unat ip, bits, u))
       (remdups [(px_ip p, px_bits p, us_id u, us_filter_mode u, ct_name c, sv_name v, m).
          u \<leftarrow> users db, us_enabled u \<and> mode_enabled db (us_mode u),
          (m, s, i) \<leftarrow> mode_entries db, m = us_mode u \<and> selects db (us_id u) (us_mode u) s,
          v \<leftarrow> services db, sv_id v = s, c \<leftarrow> categories db, ct_id c = sv_category v,
          p \<leftarrow> prefix_rows db, px_id p = i])"

record selected_user =
  su_id :: int
  su_filter_mode :: string
  su_routes :: "user_route list"

text \<open>The map from user ids is a list of its values in the order of their first row.\<close>

fun add_route :: "int \<Rightarrow> string \<Rightarrow> user_route \<Rightarrow> selected_user list \<Rightarrow> selected_user list" where
  "add_route u fm r [] = [\<lparr>su_id = u, su_filter_mode = fm, su_routes = [r]\<rparr>]"
| "add_route u fm r (x # xs) =
     (if su_id x = u then x\<lparr>su_routes := su_routes x @ [r]\<rparr> # xs else x # add_route u fm r xs)"

fun collect_routes :: "selected_user list \<Rightarrow> desired_row list \<Rightarrow> (store_error, selected_user list) result" where
  "collect_routes acc [] = Inr acc"
| "collect_routes acc ((ip, bits, u, fm, cat, svc, m) # rows) =
     bindE (DecodePrefix ip bits) (\<lambda>p.
       if p_bits p = 0 then collect_routes acc rows
       else collect_routes (add_route u (filterModeFromInt fm)
         \<lparr>ur_prefix = p, ur_mode = m, ur_category = cat, ur_service = svc\<rparr> acc) rows)"

record desired =
  ds_users :: "(string \<times> int list) list"
  ds_meta :: "(string \<times> int) \<rightharpoonup> int \<times> string \<times> string"

text \<open>\<open>result[key] = append(result[key], userID)\<close> on the list of the map's entries.\<close>

fun add_user_of :: "string \<Rightarrow> int \<Rightarrow> (string \<times> int list) list \<Rightarrow> (string \<times> int list) list" where
  "add_user_of key u [] = [(key, [u])]"
| "add_user_of key u ((k, us) # rest) = (if k = key then (k, us @ [u]) # rest else (k, us) # add_user_of key u rest)"

fun add_filtered :: "selected_user \<Rightarrow> desired \<Rightarrow> prefix list \<Rightarrow> (store_error, desired) result" where
  "add_filtered x d [] = Inr d"
| "add_filtered x d (p # ps) =
     (let key = prefix_string p;
          us = add_user_of key (su_id x) (ds_users d)
      in if default_max_prefixes < int (length us) then fail (RouteLimit (nat default_max_prefixes))
         else add_filtered x
           \<lparr>ds_users = us,
            ds_meta = (if ds_meta d (key, su_id x) \<noteq> None then ds_meta d
              else case findBestMatch p (su_routes x) of
                None \<Rightarrow> ds_meta d
              | Some info \<Rightarrow> (ds_meta d)((key, su_id x) \<mapsto> info))\<rparr> ps)"

definition desired_user :: "db \<Rightarrow> desired \<Rightarrow> selected_user \<Rightarrow> (store_error, desired) result" where
  "desired_user db d x =
     bindE (UserRouteFilters db (su_id x)) (\<lambda>own.
     bindE (applyRouteFiltersToPrefixes (map ur_prefix (su_routes x))
         (effectiveRouteFilters (su_filter_mode x) (GlobalRouteFilters db) own)) (\<lambda>filtered.
       add_filtered x d filtered))"

text \<open>
  \<open>allUserRouteFilters\<close> decodes the filters of every user before any user is handled, so an undecodable row
  of any user is an error. \<open>order\<close> is the iteration order of the map of selected users.
\<close>

definition DesiredPrefixes :: "(selected_user list \<Rightarrow> selected_user list) \<Rightarrow> db \<Rightarrow> (store_error, desired) result" where
  "DesiredPrefixes order db =
     bindE (collect_routes [] (desired_rows db)) (\<lambda>selected.
     bindE (mapE (\<lambda>(u, a, ip, bits). DecodePrefix ip bits) (filter_rows db)) (\<lambda>_.
       foldE (desired_user db) \<lparr>ds_users = [], ds_meta = Map.empty\<rparr> (order selected)))"

section \<open>The prefixes of one user\<close>

fun decode_routable :: "(byte list \<times> int) list \<Rightarrow> (store_error, prefix list) result" where
  "decode_routable [] = Inr []"
| "decode_routable ((ip, bits) # rows) =
     bindE (DecodePrefix ip bits) (\<lambda>p.
     bindE (decode_routable rows) (\<lambda>ps. Inr (if p_bits p = 0 then ps else p # ps)))"

definition selection_rows :: "db \<Rightarrow> int \<Rightarrow> int \<Rightarrow> (byte list \<times> int) list" where
  "selection_rows db m u =
     (if \<not> mode_enabled db m then []
      else remdups [(px_ip p, px_bits p). (n, s, i) \<leftarrow> mode_entries db, n = m \<and> selects db u m s,
        v \<leftarrow> services db, sv_id v = s, p \<leftarrow> prefix_rows db, px_id p = i])"

definition loadEffectiveRouteFilters :: "db \<Rightarrow> int \<Rightarrow> string \<Rightarrow> (store_error, route_filters) result" where
  "loadEffectiveRouteFilters db u fm =
     bindE (UserRouteFilters db u) (\<lambda>own. Inr (effectiveRouteFilters fm (GlobalRouteFilters db) own))"

definition filterSelectionPrefixes :: "db \<Rightarrow> int \<Rightarrow> string \<Rightarrow> prefix list \<Rightarrow> (store_error, prefix list) result" where
  "filterSelectionPrefixes db u fm ps =
     bindE (loadEffectiveRouteFilters db u fm) (\<lambda>f. applyRouteFiltersToPrefixes ps f)"

definition selectionPrefixes :: "db \<Rightarrow> int \<Rightarrow> (store_error, prefix list) result" where
  "selectionPrefixes db u =
     (case find (\<lambda>r. us_id r = u) (users db) of
        None \<Rightarrow> fail NoRows
      | Some r \<Rightarrow>
          if \<not> us_enabled r then Inr []
          else bindE (decode_routable (selection_rows db (us_mode r) u)) (\<lambda>ps.
            if ps = [] then Inr [] else filterSelectionPrefixes db u (filterModeFromInt (us_filter_mode r)) ps))"

definition countPrefixFamilies :: "prefix list \<Rightarrow> nat \<times> nat" where
  "countPrefixFamilies ps =
     (length (filter (\<lambda>p. \<not> is6 (p_addr p)) ps), length (filter (\<lambda>p. is6 (p_addr p)) ps))"

definition countSelectionPrefixes :: "db \<Rightarrow> int \<Rightarrow> (store_error, nat \<times> nat) result" where
  "countSelectionPrefixes db u = bindE (selectionPrefixes db u) (\<lambda>ps. Inr (countPrefixFamilies ps))"

text \<open>\<open>CountPrefixes\<close>: an explicit selection instead of the stored one.\<close>

definition explicit_rows :: "db \<Rightarrow> int \<Rightarrow> string list \<Rightarrow> (string \<times> string) list \<Rightarrow> (byte list \<times> int) list" where
  "explicit_rows db m cats svcs =
     (if \<not> mode_enabled db m then []
      else remdups [(px_ip p, px_bits p). (n, s, i) \<leftarrow> mode_entries db, n = m,
        v \<leftarrow> services db, sv_id v = s, c \<leftarrow> categories db,
        ct_id c = sv_category v \<and> (ct_name c \<in> set cats \<or> (ct_name c, sv_name v) \<in> set svcs),
        p \<leftarrow> prefix_rows db, px_id p = i])"

definition CountPrefixes :: "db \<Rightarrow> int \<Rightarrow> string list \<Rightarrow> (string \<times> string) list \<Rightarrow> int \<Rightarrow> (store_error, nat \<times> nat) result" where
  "CountPrefixes db m cats svcs u =
     (case find (\<lambda>r. us_id r = u) (users db) of
        None \<Rightarrow> fail NoRows
      | Some r \<Rightarrow>
          if cats = [] \<and> svcs = [] then Inr (0, 0)
          else bindE (decode_routable (explicit_rows db m cats svcs)) (\<lambda>ps.
            if ps = [] then Inr (0, 0)
            else bindE (filterSelectionPrefixes db u (filterModeFromInt (us_filter_mode r)) ps)
              (\<lambda>filtered. Inr (countPrefixFamilies filtered))))"

section \<open>Trial runs\<close>

record affected_user =
  af_user :: int
  af_name :: string
  af_before :: "nat \<times> nat"
  af_after :: "nat \<times> nat"
  af_lost :: bool
  af_changed :: bool

record blast_radius =
  br_users :: "affected_user list"
  br_delta_v4 :: int
  br_delta_v6 :: int

fun lost_loop :: "prefix list \<Rightarrow> prefix list \<Rightarrow> bool" where
  "lost_loop new [] = False"
| "lost_loop new (p # ps) = (if p \<notin> set new then True else lost_loop new ps)"

definition diffPrefixSets :: "prefix list \<Rightarrow> prefix list \<Rightarrow> bool \<times> bool" where
  "diffPrefixSets old new =
     (let lost = lost_loop new old;
          changed = (lost \<or> length (remdups new) \<noteq> length (remdups old))
      in (lost, changed \<or> (\<exists>p \<in> set new. p \<notin> set old)))"

definition affected :: "db \<Rightarrow> blast_radius \<Rightarrow> (int \<times> string) \<times> prefix list \<Rightarrow> (store_error, blast_radius) result" where
  "affected db br x =
     bindE (selectionPrefixes db (fst (fst x))) (\<lambda>new.
       let old = snd x; b = countPrefixFamilies old; a = countPrefixFamilies new;
           (lost, changed) = diffPrefixSets old new
       in Inr \<lparr>br_users = br_users br @ [\<lparr>af_user = fst (fst x), af_name = snd (fst x), af_before = b, af_after = a,
                 af_lost = lost, af_changed = changed\<rparr>],
               br_delta_v4 = br_delta_v4 br + (int (fst a) - int (fst b)),
               br_delta_v6 = br_delta_v6 br + (int (snd a) - int (snd b))\<rparr>)"

text \<open>The transaction always ends with an error, so the database is the old one; what is returned is the
  preview.\<close>

definition previewBlastRadius :: "(int \<times> string) list \<Rightarrow> (db \<Rightarrow> (store_error, db) result) \<Rightarrow> db \<Rightarrow>
    (store_error, blast_radius) result" where
  "previewBlastRadius us mutate db =
     bindE (mapE (\<lambda>(u, name). selectionPrefixes db u) us) (\<lambda>old.
     bindE (mutate db) (\<lambda>db1.
       foldE (affected db1) \<lparr>br_users = [], br_delta_v4 = 0, br_delta_v6 = 0\<rparr> (zip us old)))"

definition queryUsersWhere :: "db \<Rightarrow> (user_row \<Rightarrow> bool) \<Rightarrow> (store_error, (int \<times> string) list) result" where
  "queryUsersWhere db P =
     bindE (mapE (scanUserRow db) (sort_key us_id (filter P (users db)))) (\<lambda>us. Inr (map (\<lambda>u. (u_ID u, u_Name u)) us))"

definition usersByCatalogMode :: "db \<Rightarrow> int \<Rightarrow> (store_error, (int \<times> string) list) result" where
  "usersByCatalogMode db m = queryUsersWhere db (\<lambda>r. us_mode r = m)"

definition usersAffectedByGlobalFilter :: "db \<Rightarrow> (store_error, (int \<times> string) list) result" where
  "usersAffectedByGlobalFilter db = queryUsersWhere db (\<lambda>r. us_filter_mode r \<noteq> filterModeToInt FilterModeOverride)"

definition PreviewGlobalRouteFilterChange :: "string \<Rightarrow> string \<Rightarrow> db \<Rightarrow> (store_error, blast_radius) result" where
  "PreviewGlobalRouteFilterChange allow deny db =
     bindE (usersAffectedByGlobalFilter db) (\<lambda>us. previewBlastRadius us
       (\<lambda>d. Inr (SaveSetting ''filter_deny'' deny (SaveSetting ''filter_allow'' allow d))) db)"

definition set_mode_enabled :: "int \<Rightarrow> bool \<Rightarrow> db \<Rightarrow> db" where
  "set_mode_enabled m enabled db = db\<lparr>modes := map (\<lambda>r. if md_id r = m then r\<lparr>md_enabled := enabled\<rparr> else r) (modes db)\<rparr>"

definition PreviewModeFeedChange :: "int \<Rightarrow> (int \<times> bool) list \<Rightarrow> bool \<Rightarrow> db \<Rightarrow> (store_error, blast_radius) result" where
  "PreviewModeFeedChange m links enabled db =
     bindE (usersByCatalogMode db m) (\<lambda>us.
       previewBlastRadius us (\<lambda>d. replaceModeFeeds m links (set_mode_enabled m enabled d)) db)"

definition PreviewUserEdit :: "int \<Rightarrow> bool \<Rightarrow> string \<Rightarrow> bool \<Rightarrow> route_filters \<Rightarrow> int \<Rightarrow> db \<Rightarrow> (store_error, blast_radius) result" where
  "PreviewUserEdit u enabled fm override f m db =
     bindE (User db u) (\<lambda>user.
       previewBlastRadius [(u_ID user, u_Name user)]
         (\<lambda>d. bindE (guardE (m \<in> set (map md_id (modes d))) (update_user_row u (\<lambda>r. r\<lparr>us_enabled := enabled,
                us_filter_mode := filterModeToInt (normalize_filter_mode fm override), us_mode := m\<rparr>) d))
              (\<lambda>d1. bindE (insertRouteFilters f) (\<lambda>rows. write_filters u rows d1))) db)"

end
