(* ===== verification/Store_Reach.thy ===== *)
theory Store_Reach
  imports Store_Selection
begin

text \<open>
  The operations on users, selections and settings keep the integrity of the database and leave the catalogue
  alone, so the materialisation stays in sync; with the catalogue operations of \<open>Store_Sync\<close> this is an
  invariant of every sequence of operations.
\<close>

section \<open>Users\<close>

definition same_catalogue :: "db \<Rightarrow> db \<Rightarrow> bool" where
  "same_catalogue db db' \<longleftrightarrow> prefix_rows db' = prefix_rows db \<and> entries db' = entries db \<and>
     mode_entries db' = mode_entries db \<and> mode_feeds db' = mode_feeds db \<and> feeds db' = feeds db"

lemma same_catalogue_refl [simp]: "same_catalogue db db"
  by (simp add: same_catalogue_def)

lemma same_catalogue_trans: "same_catalogue a b \<Longrightarrow> same_catalogue b c \<Longrightarrow> same_catalogue a c"
  by (simp add: same_catalogue_def)

text \<open>What the operations of this theory are shown to keep.\<close>

definition kept :: "db \<Rightarrow> db \<Rightarrow> bool" where
  "kept db db' \<longleftrightarrow> (db_ok db \<longrightarrow> db_ok db') \<and> same_catalogue db db'"

lemma kept_refl [simp]: "kept db db"
  by (simp add: kept_def)

lemma kept_trans: "kept a b \<Longrightarrow> kept b c \<Longrightarrow> kept a c"
  using same_catalogue_trans by (simp add: kept_def) blast

lemma kept_sync: "in_sync db \<Longrightarrow> kept db db' \<Longrightarrow> in_sync db'"
  using sync_unchanged [of db db'] by (simp add: kept_def same_catalogue_def in_sync_def)

lemma kept_foldE:
  assumes "foldE f db xs = Inr db'" "\<And>d x d'. f d x = Inr d' \<Longrightarrow> kept d d'" shows "kept db db'"
  by (rule foldE_invariant [OF assms(1), where P = "kept db"]) (use assms(2) kept_trans in auto)

lemma EncodePrefixString_stored: "EncodePrefixString s = Inr n \<Longrightarrow> stored_prefix n"
  using parse_prefix_ok [of s] DecodePrefix_EncodePrefix network_masked
  by (fastforce simp: EncodePrefixString_def stored_prefix_def split: option.splits)

lemma insert_network_kept: "insert_network u d s = Inr d' \<Longrightarrow> kept d d'"
  using EncodePrefixString_stored [of s]
  by (auto simp: insert_network_def bindE_eq_Inr_iff kept_def same_catalogue_def db_ok_defs)

lemma replaceNetworks_kept:
  assumes "replaceNetworks u ns db = Inr db'" shows "kept db db'"
proof -
  let ?d = "db\<lparr>networks := filter (\<lambda>(v, n). v \<noteq> u) (networks db)\<rparr>"
  have "kept db ?d" by (auto simp: kept_def same_catalogue_def db_ok_defs distinct_map_filter)
  moreover have "kept ?d db'"
    using assms insert_network_kept unfolding replaceNetworks_def by (rule kept_foldE)
  ultimately show ?thesis by (rule kept_trans)
qed

lemma add_user_row_kept:
  assumes "user_unique db r" "us_mode r \<in> mode_ids db" "us_id r \<notin> user_ids db"
  shows "kept db (db\<lparr>users := users db @ [r]\<rparr>)"
proof -
  have "us_name x \<noteq> us_name r \<and> (us_peer_ip x, us_peer_asn x) \<noteq> (us_peer_ip r, us_peer_asn r)" if "x \<in> set (users db)" for x
  proof -
    have "us_id x \<noteq> us_id r" using assms(3) imageI [OF that, of us_id] by auto
    then show ?thesis using assms(1) that unfolding user_unique_def by blast
  qed
  then have fresh: "us_name r \<notin> us_name ` set (users db)"
      "(us_peer_ip r, us_peer_asn r) \<notin> (\<lambda>u. (us_peer_ip u, us_peer_asn u)) ` set (users db)"
    by (force, force)
  have "keys_ok (db\<lparr>users := users db @ [r]\<rparr>)" if "keys_ok db"
    using that assms(3) fresh by (simp add: keys_ok_def)
  moreover have "refs_ok (db\<lparr>users := users db @ [r]\<rparr>)" if "refs_ok db"
    using that assms(2) unfolding refs_ok_def by (elim conjE, intro conjI) (simp_all, fastforce+)
  ultimately show ?thesis by (simp add: kept_def same_catalogue_def db_ok_def stored_ok_def)
qed

lemma AddUser_kept:
  assumes "AddUser u db = Inr (db', i)" shows "kept db db'"
proof -
  obtain addrs d1 where d: "user_unique db (user_row_of (new_rowid (map us_id (users db))) u addrs)"
    "us_mode (user_row_of (new_rowid (map us_id (users db))) u addrs) \<in> mode_ids db"
    "replaceNetworks (new_rowid (map us_id (users db))) (u_Networks u)
      (db\<lparr>users := users db @ [user_row_of (new_rowid (map us_id (users db))) u addrs]\<rparr>) = Inr db'"
    using assms by (auto simp: AddUser_def bindE_eq_Inr_iff Let_def)
  have "us_id (user_row_of (new_rowid (map us_id (users db))) u addrs) \<notin> user_ids db"
    using new_rowid_fresh [of "map us_id (users db)"] by (simp add: user_row_of_def)
  from add_user_row_kept [OF d(1,2) this] replaceNetworks_kept [OF d(3)] show ?thesis by (rule kept_trans)
qed

lemma update_user_row_ids [simp]: "\<forall>r. us_id r = i \<longrightarrow> us_id (f r) = i \<Longrightarrow> map us_id (users (update_user_row i f db)) = map us_id (users db)"
  by (simp add: update_user_row_def)

lemma distinct_map_if:
  assumes "distinct (map k xs)" "\<And>x. x \<in> set xs \<Longrightarrow> P x \<Longrightarrow> k (f x) \<notin> k ` {y \<in> set xs. \<not> P y}"
    "\<And>x y. x \<in> set xs \<Longrightarrow> y \<in> set xs \<Longrightarrow> P x \<Longrightarrow> P y \<Longrightarrow> x = y"
  shows "distinct (map k (map (\<lambda>x. if P x then f x else x) xs))"
  using assms
proof (induction xs)
  case (Cons x xs)
  have "distinct (map k (map (\<lambda>x. if P x then f x else x) xs))"
    using Cons.prems by (intro Cons.IH) auto
  moreover have "k (if P x then f x else x) \<notin> k ` (\<lambda>x. if P x then f x else x) ` set xs"
  proof (cases "P x")
    case True
    then have "\<not> P y" if "y \<in> set xs" for y
      using Cons.prems(1) Cons.prems(3) [of x y] that by auto
    then show ?thesis using True Cons.prems(2) [of x] by auto
  next
    case False
    show ?thesis
    proof
      assume "k (if P x then f x else x) \<in> k ` (\<lambda>x. if P x then f x else x) ` set xs"
      then obtain y where y: "y \<in> set xs" "k x = k (if P y then f y else y)" using False by auto
      then have "P y" using Cons.prems(1) by (auto split: if_splits)
      have "k x \<in> k ` {y \<in> set (x # xs). \<not> P y}" using False by simp
      then show False using Cons.prems(2) [of y] y \<open>P y\<close> by simp
    qed
  qed
  ultimately show ?case by (simp only: list.map distinct.simps(2) set_map simp_thms)
qed simp

lemma update_user_row_kept:
  assumes id: "\<And>r. us_id r = i \<Longrightarrow> us_id (f r) = i"
    and uniq: "\<And>r. r \<in> set (users db) \<Longrightarrow> us_id r = i \<Longrightarrow> user_unique db (f r)"
    and mode: "\<And>r. r \<in> set (users db) \<Longrightarrow> us_id r = i \<Longrightarrow> us_mode (f r) \<in> mode_ids db"
  shows "kept db (update_user_row i f db)"
proof -
  let ?d = "update_user_row i f db"
  have ids: "map us_id (users ?d) = map us_id (users db)" using id by (simp add: update_user_row_def)
  have keys: "keys_ok ?d" if k: "keys_ok db"
  proof -
    have one: "x = y" if "x \<in> set (users db)" "y \<in> set (users db)" "us_id x = i" "us_id y = i" for x y
      using k that by (auto simp: keys_ok_def distinct_map dest: inj_onD)
    have fresh: "us_name (f x) \<noteq> us_name y \<and> (us_peer_ip (f x), us_peer_asn (f x)) \<noteq> (us_peer_ip y, us_peer_asn y)"
      if "x \<in> set (users db)" "us_id x = i" "y \<in> set (users db)" "us_id y \<noteq> i" for x y
      using uniq [OF that(1,2)] id [OF that(2)] that(3,4) by (force simp: user_unique_def)
    have "distinct (map us_name (users ?d))"
      using k one fresh unfolding update_user_row_def keys_ok_def
      by (simp del: map_map, intro distinct_map_if) auto
    moreover have "distinct (map (\<lambda>u. (us_peer_ip u, us_peer_asn u)) (users ?d))"
      using k one fresh unfolding update_user_row_def keys_ok_def
      by (simp del: map_map, intro distinct_map_if) auto
    ultimately show ?thesis using k ids unfolding keys_ok_def
      by (simp add: update_user_row_def del: map_map)
  qed
  have refs: "refs_ok ?d" if k: "refs_ok db"
  proof -
    have "\<forall>u \<in> set (users ?d). us_mode u \<in> mode_ids ?d"
      using k mode by (auto simp: refs_ok_def update_user_row_def)
    moreover have "user_ids ?d = user_ids db" using arg_cong [OF ids, of set] .
    ultimately show ?thesis using k unfolding refs_ok_def by (simp add: update_user_row_def del: set_map)
  qed
  show ?thesis using keys refs
    by (simp add: kept_def db_ok_def same_catalogue_def stored_ok_def update_user_row_def)
qed

lemma insertRouteFilters_stored:
  assumes "insertRouteFilters f = Inr rows" shows "\<forall>(a, n) \<in> set rows. stored_prefix n"
proof -
  have "\<forall>(a, n) \<in> set ys. stored_prefix n" if "mapE (\<lambda>c. bindE (EncodePrefixString c) (\<lambda>(ip, bits). Inr (act, ip, bits))) xs = Inr ys" for act xs ys
    using that
  proof (induction xs arbitrary: ys)
    case (Cons x xs)
    then show ?case using EncodePrefixString_stored by (fastforce simp: bindE_eq_Inr_iff)
  qed simp
  then show ?thesis using assms by (fastforce simp: insertRouteFilters_def bindE_eq_Inr_iff)
qed

lemma write_filters_kept:
  assumes "write_filters u rows db = Inr db'" "\<forall>(a, n) \<in> set rows. stored_prefix n" shows "kept db db'"
proof -
  have w: "distinct rows" "rows = [] \<or> u \<in> user_ids db"
    "db' = db\<lparr>filter_rows := filter (\<lambda>(v, r). v \<noteq> u) (filter_rows db) @ map (Pair u) rows\<rparr>"
    using assms(1) by (auto simp: write_filters_def)
  have "keys_ok db'" if "keys_ok db"
    using that w(1) by (auto simp: keys_ok_def w(3) distinct_map inj_on_def)
  moreover have "refs_ok db'" if "refs_ok db"
    using that w(2) unfolding refs_ok_def w(3) by (elim conjE, intro conjI) (simp_all, fastforce+)
  moreover have "stored_ok db'" if "stored_ok db"
    using that assms(2) unfolding stored_ok_def w(3) by (elim conjE, intro conjI) (simp_all, fastforce+)
  ultimately show ?thesis by (simp add: kept_def db_ok_def same_catalogue_def w(3))
qed

lemma SetUserRouteFilters_kept: "SetUserRouteFilters u f db = Inr (db', x) \<Longrightarrow> kept db db'"
  using insertRouteFilters_stored write_filters_kept
  by (fastforce simp: SetUserRouteFilters_def setUserRouteFilters_def bindE_eq_Inr_iff)

lemma find_id: "find (\<lambda>r. us_id r = i) rs = Some r \<Longrightarrow> r \<in> set rs \<and> us_id r = i"
  by (auto simp: find_Some_iff)

lemma UpdateUserWithRouteFilters_kept:
  assumes "UpdateUserWithRouteFilters u filters db = Inr (db', prev)" shows "kept db db'"
proof -
  obtain addrs d1 where d: "user_unique db (user_row_of (u_ID u) u addrs)" "us_mode (user_row_of (u_ID u) u addrs) \<in> mode_ids db"
      "replaceNetworks (u_ID u) (u_Networks u) (update_user_row (u_ID u) (\<lambda>_. user_row_of (u_ID u) u addrs) db) = Inr d1"
    and rest: "(case filters of None \<Rightarrow> db' = d1 | Some f \<Rightarrow> \<exists>x. SetUserRouteFilters (u_ID u) f d1 = Inr (db', x))"
    using assms by (auto simp: UpdateUserWithRouteFilters_def bindE_eq_Inr_iff Let_def split: option.splits)
  have "kept db (update_user_row (u_ID u) (\<lambda>_. user_row_of (u_ID u) u addrs) db)"
    by (rule update_user_row_kept) (use d in \<open>simp_all add: user_row_of_def\<close>)
  from kept_trans [OF this replaceNetworks_kept [OF d(3)]] show ?thesis
    using rest kept_trans SetUserRouteFilters_kept by (fastforce split: option.splits)
qed

lemma DeleteUser_kept: "DeleteUser i db = Inr db' \<Longrightarrow> kept db db'"
proof -
  assume "DeleteUser i db = Inr db'"
  then have db': "db' = delete_user_row i db" by (simp add: DeleteUser_def split: if_splits)
  have "keys_ok db'" if "keys_ok db"
    using that by (simp add: keys_ok_def db' delete_user_row_def distinct_map_filter)
  moreover have "refs_ok db'" if "refs_ok db"
    using that unfolding refs_ok_def db' delete_user_row_def by (elim conjE, intro conjI) (simp_all, fastforce+)
  moreover have "stored_ok db'" if "stored_ok db"
    using that by (auto simp: stored_ok_def db' delete_user_row_def)
  ultimately show ?thesis by (simp add: kept_def db_ok_def same_catalogue_def db' delete_user_row_def)
qed

lemma user_unique_same:
  assumes "db_ok db" "r \<in> set (users db)" "us_id r' = us_id r" "us_name r' = us_name r"
    "us_peer_ip r' = us_peer_ip r" "us_peer_asn r' = us_peer_asn r"
  shows "user_unique db r'"
proof -
  have "us_name x \<noteq> us_name r \<and> (us_peer_ip x, us_peer_asn x) \<noteq> (us_peer_ip r, us_peer_asn r)"
    if "x \<in> set (users db)" "us_id x \<noteq> us_id r" for x
    using db_okD(1) [OF assms(1)] assms(2) that by (auto simp: keys_ok_def distinct_map dest: inj_onD)
  then show ?thesis using assms(3-6) by (auto simp: user_unique_def)
qed

text \<open>A change of columns that no constraint mentions, or of the mode to one that exists.\<close>

lemma update_columns_kept:
  assumes "\<And>r. us_id (f r) = us_id r" "\<And>r. us_name (f r) = us_name r" "\<And>r. us_peer_ip (f r) = us_peer_ip r"
    "\<And>r. us_peer_asn (f r) = us_peer_asn r" "\<And>r. us_mode (f r) = us_mode r \<or> us_mode (f r) \<in> mode_ids db"
  shows "kept db (update_user_row i f db)"
proof (cases "db_ok db")
  case True
  show ?thesis
  proof (rule update_user_row_kept)
    fix r assume r: "r \<in> set (users db)"
    show "user_unique db (f r)" by (rule user_unique_same [OF True r]) (simp_all add: assms(1-4))
    have "us_mode r \<in> mode_ids db" using db_okD(2) [OF True] r by (simp add: refs_ok_def)
    then show "us_mode (f r) \<in> mode_ids db" using assms(5) [of r] by (elim disjE) (simp_all only:)
  qed (simp add: assms(1))
qed (simp add: kept_def same_catalogue_def update_user_row_def)

lemma SetUserRouteFilterConfig_kept:
  assumes "SetUserRouteFilterConfig u mode f db = Inr db'" shows "kept db db'"
proof -
  obtain m rows d1 where d: "insertRouteFilters f = Inr rows" "write_filters u rows db = Inr d1"
    "db' = update_user_row u (\<lambda>r. r\<lparr>us_filter_mode := filterModeToInt m\<rparr>) d1"
    using assms by (auto simp: SetUserRouteFilterConfig_def bindE_eq_Inr_iff split: if_splits)
  have "kept d1 db'" unfolding d(3) by (rule update_columns_kept) simp_all
  with write_filters_kept [OF d(2) insertRouteFilters_stored [OF d(1)]] show ?thesis by (rule kept_trans)
qed

lemma SetUserFilterOverride_kept:
  assumes "SetUserFilterOverride u en db = Inr db'" shows "kept db db'"
proof -
  have "db' = update_user_row u (\<lambda>r. r\<lparr>us_filter_mode :=
      filterModeToInt (if en then FilterModeOverride else FilterModeGlobal)\<rparr>) db"
    using assms by (simp add: SetUserFilterOverride_def split: if_splits)
  then show ?thesis using update_columns_kept by simp
qed

lemma SetUserCatalogMode_kept:
  assumes "SetUserCatalogMode u m require db = Inr (db', prev)" shows "kept db db'"
proof -
  have db': "db' = update_user_row u (\<lambda>r. r\<lparr>us_mode := m\<rparr>) db" "m \<in> mode_ids db"
    using assms by (auto simp: SetUserCatalogMode_def split: option.splits if_splits)
  show ?thesis unfolding db'(1) by (rule update_columns_kept) (use db'(2) in simp_all)
qed

section \<open>Selections\<close>

lemma insert_selected_category_kept: "insert_selected_category ign d row = Inr d' \<Longrightarrow> kept d d'"
  by (cases row) (auto simp: insert_selected_category_def kept_def same_catalogue_def db_ok_def keys_ok_def
      refs_ok_def stored_ok_def split: if_splits)

lemma insert_selected_service_kept: "insert_selected_service ign d row = Inr d' \<Longrightarrow> kept d d'"
  by (cases row) (auto simp: insert_selected_service_def kept_def same_catalogue_def db_ok_def keys_ok_def
      refs_ok_def stored_ok_def split: if_splits)

text \<open>Interning the names of a category or a service grows the dictionaries only.\<close>

lemma grown_kept:
  assumes "db_ok db" "db_ok db'" "grown db db'" "prefix_rows db' = prefix_rows db" shows "kept db db'"
  using assms grown_fields [OF assms(3)] by (simp add: kept_def same_catalogue_def)

lemma EnsureCategoryID_prefixes: "EnsureCategoryID db name = Inr (db', i) \<Longrightarrow> prefix_rows db' = prefix_rows db"
  by (auto simp: EnsureCategoryID_def insert_category_def Let_def split: option.splits if_splits)

lemma EnsureServiceID_prefixes: "EnsureServiceID db c s = Inr (db', i) \<Longrightarrow> prefix_rows db' = prefix_rows db"
  using EnsureCategoryID_prefixes
  by (fastforce simp: EnsureServiceID_def insert_service_def bindE_eq_Inr_iff split: option.splits if_splits)

lemma EnsureCategoryID_kept:
  assumes "db_ok db" "EnsureCategoryID db name = Inr (db', i)" shows "kept db db'"
  using EnsureCategoryID_ok [OF assms(1), of name] grown_kept [OF assms(1)] EnsureCategoryID_prefixes [OF assms(2)] assms(2)
  by auto

lemma EnsureServiceID_kept:
  assumes "db_ok db" "EnsureServiceID db c s = Inr (db', i)" shows "kept db db'"
  using EnsureServiceID_ok [OF assms(1), of c s] grown_kept [OF assms(1)] EnsureServiceID_prefixes [OF assms(2)] assms(2)
  by auto

text \<open>Steps that keep an intact database, composed.\<close>

lemma ok_foldE:
  assumes "foldE f db xs = Inr db'" "db_ok db" "\<And>d x d'. db_ok d \<Longrightarrow> f d x = Inr d' \<Longrightarrow> kept d d'" shows "kept db db'"
proof -
  have "db_ok db' \<and> kept db db'"
    by (rule foldE_invariant [OF assms(1), where P = "\<lambda>d. db_ok d \<and> kept db d"])
      (use assms(2,3) kept_trans in \<open>auto simp: kept_def intro: same_catalogue_trans\<close>)
  then show ?thesis by simp
qed

lemma kept_ok: "db_ok db \<Longrightarrow> kept db db' \<Longrightarrow> db_ok db'"
  by (simp add: kept_def)

lemma select_category_kept:
  assumes "db_ok d" "select_category ign u m d c = Inr d'" shows "kept d d'"
proof -
  obtain d1 i where "EnsureCategoryID d c = Inr (d1, i)" "insert_selected_category ign d1 (u, m, i) = Inr d'"
    using assms(2) by (auto simp: select_category_def bindE_eq_Inr_iff)
  then show ?thesis using EnsureCategoryID_kept [OF assms(1)] insert_selected_category_kept kept_trans by blast
qed

lemma select_service_kept:
  assumes "db_ok d" "select_service ign u m d k = Inr d'" shows "kept d d'"
proof -
  obtain d1 i where "EnsureServiceID d (fst k) (snd k) = Inr (d1, i)" "insert_selected_service ign d1 (u, m, i) = Inr d'"
    using assms(2) by (auto simp: select_service_def bindE_eq_Inr_iff)
  then show ?thesis using EnsureServiceID_kept [OF assms(1)] insert_selected_service_kept kept_trans by blast
qed

lemma deselect_kept:
  "kept db (db\<lparr>selected_categories := filter P (selected_categories db), selected_services := filter Q (selected_services db)\<rparr>)"
  "kept db (db\<lparr>selected_categories := filter P (selected_categories db)\<rparr>)"
  "kept db (db\<lparr>selected_services := filter Q (selected_services db)\<rparr>)"
  by (auto simp: kept_def same_catalogue_def db_ok_defs)

lemma SetUserModeSelection_kept:
  assumes "db_ok db" "SetUserModeSelection u m cats svcs db = Inr db'" shows "kept db db'"
proof -
  let ?d = "db\<lparr>selected_categories := filter (\<lambda>(v, n, c). \<not> (v = u \<and> n = m)) (selected_categories db),
             selected_services := filter (\<lambda>(v, n, s). \<not> (v = u \<and> n = m)) (selected_services db)\<rparr>"
  obtain d1 where d1: "foldE (select_category False u m) ?d (sort cats) = Inr d1"
    "foldE (select_service False u m) d1 (sort svcs) = Inr db'"
    using assms(2) by (auto simp: SetUserModeSelection_def bindE_eq_Inr_iff)
  have k0: "kept db ?d" by (rule deselect_kept)
  have k1: "kept ?d d1" by (rule ok_foldE [OF d1(1) kept_ok [OF assms(1) k0] select_category_kept])
  note k = kept_trans [OF k0 k1]
  have "kept d1 db'" by (rule ok_foldE [OF d1(2) kept_ok [OF assms(1) k] select_service_kept])
  with k show ?thesis by (rule kept_trans)
qed

lemma SaveUserSelectionCounts_kept:
  assumes "db_ok db" "SaveUserSelectionCounts u m switch cats svcs db = Inr (db', n)" shows "kept db db'"
proof -
  obtain d1 prev d2 where d: "(if switch then SetUserCatalogMode u m False db else Inr (db, 0)) = Inr (d1, prev)"
    "foldE (ToggleSelectedCategory u m) d1 cats = Inr d2" "foldE (ToggleSelectedService u m) d2 svcs = Inr db'"
    using assms(2) by (auto simp: SaveUserSelectionCounts_def bindE_eq_Inr_iff Let_def)
  have k1: "kept db d1" using d(1) SetUserCatalogMode_kept by (auto split: if_splits)
  have k2: "kept d1 d2"
    by (rule ok_foldE [OF d(2) kept_ok [OF assms(1) k1]])
      (use select_category_kept deselect_kept(2) in \<open>fastforce simp: ToggleSelectedCategory_def split: if_splits\<close>)
  note k = kept_trans [OF k1 k2]
  have "kept d2 db'"
    by (rule ok_foldE [OF d(3) kept_ok [OF assms(1) k]])
      (use select_service_kept deselect_kept(3) in \<open>fastforce simp: ToggleSelectedService_def split: if_splits\<close>)
  with k show ?thesis by (rule kept_trans)
qed

section \<open>Settings\<close>

lemma SaveSetting_kept: "kept db (SaveSetting k v db)"
  by (auto simp: SaveSetting_def kept_def same_catalogue_def db_ok_defs distinct_map_filter)

lemma SaveSettings_kept: "kept db (SaveSettings kvs db)"
  unfolding SaveSettings_def
proof (induction kvs arbitrary: db)
  case (Cons kv kvs)
  obtain k v where kv: "kv = (k, v)" by (cases kv)
  show ?case using kept_trans [OF SaveSetting_kept [of db k v] Cons.IH] by (simp add: kv)
qed simp

lemma DeleteSetting_kept: "kept db (DeleteSetting k db)"
  by (auto simp: DeleteSetting_def kept_def same_catalogue_def db_ok_defs distinct_map_filter)

end
