(* ===== verification/Store_Communities.thy ===== *)
theory Store_Communities
  imports Store_Reach
begin

text \<open>
  \<open>communities.go\<close>: BGP community values of the categories and services of a mode. A row of
  \<open>catalog_communities\<close> with service id 0 is the value of the category itself. The table refuses the value 0.
\<close>

section \<open>Rows\<close>

record community =
  cy_ModeID :: int
  cy_Category :: string
  cy_Service :: string
  cy_Community :: u32

abbreviation community_key :: "community \<Rightarrow> string \<times> string" where
  "community_key c \<equiv> (cy_Category c, cy_Service c)"

text \<open>The \<open>LEFT JOIN\<close> with the services: one name, or none, which sorts first.\<close>

definition joined_service :: "db \<Rightarrow> int \<Rightarrow> string list list" where
  "joined_service db s = (case [[sv_name v]. v \<leftarrow> services db, sv_id v = s] of [] \<Rightarrow> [[]] | ns \<Rightarrow> ns)"

definition joined_rows :: "db \<Rightarrow> int \<Rightarrow> (string \<times> string list \<times> u32) list" where
  "joined_rows db m =
     [(ct_name c, s, cm_community r). r \<leftarrow> communities db, cm_mode r = m,
        c \<leftarrow> categories db, ct_id c = cm_category r, s \<leftarrow> joined_service db (cm_service r)]"

definition communityRows :: "db \<Rightarrow> int \<Rightarrow> community list" where
  "communityRows db m =
     map (\<lambda>(c, s, v). \<lparr>cy_ModeID = m, cy_Category = c, cy_Service = concat s, cy_Community = v\<rparr>)
       (sort_key (\<lambda>(c, s, v). (c, s)) (joined_rows db m))"

definition GetCommunities :: "db \<Rightarrow> int \<Rightarrow> (string \<rightharpoonup> u32)" where
  "GetCommunities db m =
     foldl (\<lambda>acc r. acc((if cy_Service r = [] then cy_Category r else cy_Category r @ ''|'' @ cy_Service r) \<mapsto> cy_Community r))
       Map.empty (communityRows db m)"

section \<open>Single assignments\<close>

definition resolveCommunityKey :: "db \<Rightarrow> string \<Rightarrow> string \<Rightarrow> (store_error, db \<times> int \<times> int) result" where
  "resolveCommunityKey db category service =
     bindE (EnsureCategoryID db category) (\<lambda>(db1, c).
       if service = [] then Inr (db1, c, 0)
       else bindE (EnsureServiceID db1 category service) (\<lambda>(db2, s). Inr (db2, c, s)))"

abbreviation row_key :: "community_row \<Rightarrow> int \<times> int \<times> int" where
  "row_key r \<equiv> (cm_mode r, cm_category r, cm_service r)"

text \<open>The upsert; the checks of the table come first.\<close>

definition upsert_community :: "community_row \<Rightarrow> db \<Rightarrow> (store_error, db) result" where
  "upsert_community r db =
     guardE (0 < cm_community r \<and> cm_mode r \<in> set (map md_id (modes db)) \<and> cm_category r \<in> set (map ct_id (categories db)))
       (if row_key r \<in> set (map row_key (communities db))
        then db\<lparr>communities := map (\<lambda>x. if row_key x = row_key r then r else x) (communities db)\<rparr>
        else db\<lparr>communities := communities db @ [r]\<rparr>)"

definition setCommunity :: "int \<Rightarrow> string \<Rightarrow> string \<Rightarrow> u32 \<Rightarrow> db \<Rightarrow> (store_error, db) result" where
  "setCommunity m category service v db =
     bindE (resolveCommunityKey db category service) (\<lambda>(db1, c, s).
       if \<exists>r \<in> set (communities db1). cm_mode r = m \<and> cm_community r = v \<and> \<not> (cm_category r = c \<and> cm_service r = s)
       then fail (DuplicateCommunity v)
       else upsert_community \<lparr>cm_mode = m, cm_category = c, cm_service = s, cm_community = v\<rparr> db1)"

definition deleteCommunity :: "int \<Rightarrow> string \<Rightarrow> string \<Rightarrow> db \<Rightarrow> (store_error, db) result" where
  "deleteCommunity m category service db =
     bindE (resolveCommunityKey db category service) (\<lambda>(db1, c, s).
       Inr (db1\<lparr>communities := filter (\<lambda>r. row_key r \<noteq> (m, c, s)) (communities db1)\<rparr>))"

section \<open>Allocation\<close>

text \<open>\<open>findFirstFree\<close>: the loop wraps around at \<open>2 ^ 32\<close> and never ends when every value is used.\<close>

partial_function (option) findFirstFree :: "u32 \<Rightarrow> u32 list \<Rightarrow> u32 option" where
  "findFirstFree start used = (if start \<in> set used then findFirstFree (start + 1) used else Some start)"

declare findFirstFree.simps [simp del]

function AutoCommunity :: "int \<Rightarrow> int \<Rightarrow> u32" where
  "AutoCommunity group_index service_index =
     (if 9999 \<le> service_index then AutoCommunity (group_index + 1) (service_index - 9999)
      else word_of_int ((group_index + 1) * 10000 + service_index + 1))"
  by pat_completeness auto
termination by (relation "measure (\<lambda>(g, s). nat s)") auto

declare AutoCommunity.simps [simp del]

definition AutoGroupCommunity :: "int \<Rightarrow> u32" where
  "AutoGroupCommunity group_index = word_of_int ((group_index + 1) * 10000)"

text \<open>A computation that may fail, or not return.\<close>

definition bindL :: "('e, 'a) result option \<Rightarrow> ('a \<Rightarrow> ('e, 'b) result option) \<Rightarrow> ('e, 'b) result option" where
  "bindL x f = (case x of None \<Rightarrow> None | Some (Inl e) \<Rightarrow> Some (Inl e) | Some (Inr y) \<Rightarrow> f y)"

fun foldL :: "('s \<Rightarrow> 'a \<Rightarrow> ('e, 's) result option) \<Rightarrow> 's \<Rightarrow> 'a list \<Rightarrow> ('e, 's) result option" where
  "foldL f s [] = Some (Inr s)"
| "foldL f s (x # xs) = bindL (f s x) (\<lambda>s'. foldL f s' xs)"

text \<open>\<open>INSERT OR IGNORE\<close>: a duplicate key and the value 0 are skipped silently, a missing reference is an error.\<close>

definition insert_community :: "community_row \<Rightarrow> db \<Rightarrow> (store_error, db) result" where
  "insert_community r db =
     (if row_key r \<in> set (map row_key (communities db)) \<or> cm_community r = 0 then Inr db
      else guardE (cm_mode r \<in> set (map md_id (modes db)) \<and> cm_category r \<in> set (map ct_id (categories db)))
        (db\<lparr>communities := communities db @ [r]\<rparr>))"

record gen_state =
  gs_db :: db
  gs_used :: "u32 list"
  gs_generated :: nat

definition gen_insert :: "int \<Rightarrow> int \<Rightarrow> int \<Rightarrow> u32 \<Rightarrow> gen_state \<Rightarrow> db \<Rightarrow> (store_error, gen_state) result option" where
  "gen_insert m c s v st db =
     Some (bindE (insert_community \<lparr>cm_mode = m, cm_category = c, cm_service = s, cm_community = v\<rparr> db) (\<lambda>db1.
       Inr \<lparr>gs_db = db1, gs_used = gs_used st @ [v], gs_generated = gs_generated st + 1\<rparr>))"

definition gen_group :: "int \<Rightarrow> (string \<times> string \<rightharpoonup> u32) \<Rightarrow> nat \<Rightarrow> string \<Rightarrow> gen_state \<Rightarrow>
    (store_error, gen_state \<times> u32) result option" where
  "gen_group m known index category st =
     (case known (category, []) of
        Some v \<Rightarrow> Some (Inr (st, v))
      | None \<Rightarrow>
          (case findFirstFree (word_of_nat ((index + 1) * 10000)) (gs_used st) of
             None \<Rightarrow> None
           | Some v \<Rightarrow>
               (case EnsureCategoryID (gs_db st) category of
                  Inl e \<Rightarrow> Some (Inl e)
                | Inr (db1, c) \<Rightarrow> bindL (gen_insert m c 0 v st db1) (\<lambda>st1. Some (Inr (st1, v))))))"

definition ensure_pair :: "db \<Rightarrow> string \<Rightarrow> string \<Rightarrow> (store_error, db \<times> int \<times> int) result" where
  "ensure_pair db category service =
     bindE (EnsureCategoryID db category) (\<lambda>(db1, c).
     bindE (EnsureServiceID db1 category service) (\<lambda>(db2, s). Inr (db2, c, s)))"

definition gen_service :: "int \<Rightarrow> (string \<times> string \<rightharpoonup> u32) \<Rightarrow> u32 \<Rightarrow> string \<Rightarrow> gen_state \<Rightarrow> string \<Rightarrow>
    (store_error, gen_state) result option" where
  "gen_service m known base category st service =
     (if known (category, service) \<noteq> None then Some (Inr st)
      else case findFirstFree (base + 1) (gs_used st) of
        None \<Rightarrow> None
      | Some v \<Rightarrow>
          (case ensure_pair (gs_db st) category service of
             Inl e \<Rightarrow> Some (Inl e)
           | Inr (db1, c, s) \<Rightarrow> gen_insert m c s v st db1))"

definition gen_category :: "int \<Rightarrow> (string \<times> string \<rightharpoonup> u32) \<Rightarrow> (string \<times> string) list \<Rightarrow> gen_state \<Rightarrow> nat \<times> string \<Rightarrow>
    (store_error, gen_state) result option" where
  "gen_category m known pairs st x =
     bindL (gen_group m known (fst x) (snd x) st) (\<lambda>(st1, base).
       foldL (gen_service m known base (snd x)) st1 (map snd (filter (\<lambda>(c, s). c = snd x) pairs)))"

text \<open>The rows of the table, ordered by value, so that the largest value of a key counts.\<close>

definition known_communities :: "db \<Rightarrow> int \<Rightarrow> (string \<times> string \<rightharpoonup> u32)" where
  "known_communities db m =
     map_of (rev (map (\<lambda>(c, s, v). ((c, concat s), v)) (sort_key (\<lambda>(c, s, v). v) (joined_rows db m))))"

definition mode_pairs :: "db \<Rightarrow> int \<Rightarrow> (string \<times> string) list" where
  "mode_pairs db m =
     sort (remdups [(ct_name c, sv_name v). l \<leftarrow> mode_feeds db, mf_mode l = m \<and> \<not> mf_exclude l,
       (f, s, i) \<leftarrow> entries db, f = mf_feed l, v \<leftarrow> services db, sv_id v = s, c \<leftarrow> categories db, ct_id c = sv_category v])"

definition gen_mode :: "db \<times> nat \<Rightarrow> int \<Rightarrow> (store_error, db \<times> nat) result option" where
  "gen_mode s m =
     (let db = fst s; pairs = mode_pairs db m; cats = remdups_adj (map fst pairs) in
      bindL (foldL (gen_category m (known_communities db m) pairs)
          \<lparr>gs_db = db, gs_used = map (\<lambda>(c, s, v). v) (joined_rows db m), gs_generated = snd s\<rparr>
          (zip [0..<length cats] cats))
        (\<lambda>st. Some (Inr (gs_db st, gs_generated st))))"

definition genCommunitiesRuntime :: "int \<Rightarrow> db \<Rightarrow> (store_error, db \<times> nat) result option" where
  "genCommunitiesRuntime m db =
     foldL gen_mode (db, 0) (if 0 < m then [m] else sort (map md_id (modes db)))"

section \<open>Operations\<close>

text \<open>A change of the table followed by a generation; the rows before and after go to the audit log.\<close>

definition generated :: "int \<Rightarrow> db \<Rightarrow> db \<Rightarrow> (store_error, db \<times> community list \<times> community list \<times> nat) result option" where
  "generated m db db1 =
     bindL (genCommunitiesRuntime m db1) (\<lambda>(db2, n). Some (Inr (db2, communityRows db m, communityRows db2 m, n)))"

definition set_or_clear :: "int \<Rightarrow> db \<Rightarrow> (string \<times> string) \<times> u32 \<Rightarrow> (store_error, db) result" where
  "set_or_clear m db u =
     (if snd u = 0 then deleteCommunity m (fst (fst u)) (snd (fst u)) db
      else setCommunity m (fst (fst u)) (snd (fst u)) (snd u) db)"

definition SetCommunities :: "int \<Rightarrow> ((string \<times> string) \<times> u32) list \<Rightarrow> db \<Rightarrow>
    (store_error, db \<times> community list \<times> community list \<times> nat) result option" where
  "SetCommunities m updates db = bindL (Some (foldE (set_or_clear m) db updates)) (generated m db)"

definition GenerateCommunities :: "int \<Rightarrow> db \<Rightarrow> (store_error, db \<times> community list \<times> community list \<times> nat) result option" where
  "GenerateCommunities m db = generated m db db"

definition clear_communities :: "int \<Rightarrow> db \<Rightarrow> db" where
  "clear_communities m db = db\<lparr>communities := filter (\<lambda>r. cm_mode r \<noteq> m) (communities db)\<rparr>"

text \<open>\<open>diffCommunityRows\<close>: the assignments that differ, for the audit entry.\<close>

definition community_map :: "community list \<Rightarrow> (string \<times> string \<rightharpoonup> community)" where
  "community_map rows = map_of (rev (map (\<lambda>c. (community_key c, c)) rows))"

definition community_unchanged :: "community list \<Rightarrow> community \<Rightarrow> bool" where
  "community_unchanged new b =
     (case community_map new (community_key b) of None \<Rightarrow> False | Some a \<Rightarrow> cy_Community a = cy_Community b)"

definition diffCommunityRows :: "community list \<Rightarrow> community list \<Rightarrow> community list \<times> community list" where
  "diffCommunityRows old new =
     (let changed = filter (\<lambda>b. \<not> community_unchanged new b) old
      in (changed, List.map_filter (\<lambda>b. community_map new (community_key b)) changed @
           filter (\<lambda>a. community_key a \<notin> set (map community_key old)) new))"

record audit_communities =
  ac_Entries :: "community list"
  ac_Truncated :: nat

definition boundCommunitiesForAudit :: "community list \<Rightarrow> audit_communities" where
  "boundCommunitiesForAudit rows =
     (case BoundSlice rows MaxAuditDiffEntries of (capped, truncated) \<Rightarrow>
        \<lparr>ac_Entries = map (\<lambda>c. c\<lparr>cy_Category := truncateUTF8 (cy_Category c) MaxAuditEntryBytes,
            cy_Service := truncateUTF8 (cy_Service c) MaxAuditEntryBytes\<rparr>) capped,
         ac_Truncated = truncated\<rparr>)"

section \<open>Resets\<close>

record community_change =
  cc_Category :: string
  cc_Service :: string
  cc_Old :: u32
  cc_New :: u32

definition community_value :: "community list \<Rightarrow> string \<times> string \<Rightarrow> u32" where
  "community_value rows k = (case community_map rows k of None \<Rightarrow> 0 | Some c \<Rightarrow> cy_Community c)"

definition diffCommunities :: "community list \<Rightarrow> community list \<Rightarrow> community_change list" where
  "diffCommunities old new =
     (let change = (\<lambda>k. \<lparr>cc_Category = fst k, cc_Service = snd k, cc_Old = community_value old k, cc_New = community_value new k\<rparr>)
      in map change (sort
           (filter (\<lambda>k. community_value new k \<noteq> community_value old k) (remdups (map community_key old)) @
            filter (\<lambda>k. k \<notin> set (map community_key old)) (remdups (map community_key new)))))"

text \<open>What \<open>communityResetDigest\<close> hashes.\<close>

definition digest_row :: "community \<Rightarrow> string" where
  "digest_row c = dec_string (length (cy_Category c)) @ '':'' @ cy_Category c @
     dec_string (length (cy_Service c)) @ '':'' @ cy_Service c @ dec_string (unat (cy_Community c)) @ [newline]"

definition digest_rows :: "community list \<Rightarrow> string" where
  "digest_rows rows = concat (map digest_row rows) @ ''--'' @ [newline]"

definition digest_input :: "int \<Rightarrow> community list \<Rightarrow> community list \<Rightarrow> string" where
  "digest_input m old new = ''mode:'' @ int_string m @ [newline] @ digest_rows old @ digest_rows new"

definition communityResetDigest :: "(string \<Rightarrow> string) \<Rightarrow> int \<Rightarrow> community list \<Rightarrow> community list \<Rightarrow> string" where
  "communityResetDigest sha256_hex m old new = sha256_hex (digest_input m old new)"

definition PreviewCommunityReset :: "(string \<Rightarrow> string) \<Rightarrow> int \<Rightarrow> db \<Rightarrow>
    (store_error, community_change list \<times> string) result option" where
  "PreviewCommunityReset sha256_hex m db =
     bindL (generated m db (clear_communities m db)) (\<lambda>(db2, old, new, n).
       Some (Inr (diffCommunities old new, communityResetDigest sha256_hex m old new)))"

definition ResetCommunities :: "(string \<Rightarrow> string) \<Rightarrow> int \<Rightarrow> string \<Rightarrow> db \<Rightarrow>
    (store_error, db \<times> community list \<times> community list \<times> nat) result option" where
  "ResetCommunities sha256_hex m expected db =
     bindL (generated m db (clear_communities m db)) (\<lambda>(db2, old, new, n).
       if communityResetDigest sha256_hex m old new \<noteq> expected then Some (fail StalePreview)
       else Some (Inr (db2, old, new, n)))"

end
