(* ===== verification/Store_Alloc.thy ===== *)
theory Store_Alloc
  imports Store_Communities
begin

text \<open>
  Allocation of community values: the table stays consistent (\<open>communities_ok\<close>), a generation gives every
  category and service of the mode a value of its own, and keeps the values that exist.
\<close>

section \<open>Consistent tables\<close>

text \<open>The names \<open>k\<close> of a category and a service, and their ids; no service name means the category itself.\<close>

definition key_ids :: "db \<Rightarrow> string \<times> string \<Rightarrow> int \<Rightarrow> int \<Rightarrow> bool" where
  "key_ids db k c s \<longleftrightarrow> (\<exists>x \<in> set (categories db). ct_id x = c \<and> ct_name x = fst k) \<and>
     (if snd k = [] then s = 0 else \<exists>v \<in> set (services db). sv_id v = s \<and> sv_category v = c \<and> sv_name v = snd k)"

definition named_services :: "db \<Rightarrow> bool" where
  "named_services db \<longleftrightarrow> (\<forall>v \<in> set (services db). sv_id v \<noteq> 0 \<and> sv_name v \<noteq> [])"

definition communities_ok :: "db \<Rightarrow> bool" where
  "communities_ok db \<longleftrightarrow> named_services db \<and>
     (\<forall>r \<in> set (communities db). cm_community r \<noteq> 0 \<and> (\<exists>k. key_ids db k (cm_category r) (cm_service r))) \<and>
     distinct (map (\<lambda>r. (cm_mode r, cm_community r)) (communities db))"

text \<open>The value that names have in a mode.\<close>

definition assigned :: "db \<Rightarrow> int \<Rightarrow> string \<times> string \<Rightarrow> u32 \<Rightarrow> bool" where
  "assigned db m k v \<longleftrightarrow> (\<exists>r \<in> set (communities db). cm_mode r = m \<and> cm_community r = v \<and>
     key_ids db k (cm_category r) (cm_service r))"

lemma category_unique:
  "keys_ok db \<Longrightarrow> x \<in> set (categories db) \<Longrightarrow> y \<in> set (categories db) \<Longrightarrow> ct_id x = ct_id y \<or> ct_name x = ct_name y \<Longrightarrow> x = y"
  by (auto simp: keys_ok_def distinct_map dest: inj_onD)

lemma service_unique:
  assumes "keys_ok db" "x \<in> set (services db)" "y \<in> set (services db)"
    and "sv_id x = sv_id y \<or> (sv_category x = sv_category y \<and> sv_name x = sv_name y)"
  shows "x = y"
proof -
  have "inj_on sv_id (set (services db))" "inj_on (\<lambda>r. (sv_category r, sv_name r)) (set (services db))"
    using assms(1) by (auto simp: keys_ok_def distinct_map)
  then show ?thesis using assms(2-4) by (auto dest: inj_onD)
qed

lemma key_ids_names:
  assumes "keys_ok db" "named_services db" "key_ids db k c s" "key_ids db k' c s" shows "k = k'"
proof -
  have "fst k = fst k'" using assms(1,3,4) category_unique unfolding key_ids_def by metis
  moreover have "snd k = snd k'"
    using assms service_unique [OF assms(1)] unfolding key_ids_def named_services_def by (metis (full_types))
  ultimately show ?thesis by (rule prod_eqI)
qed

lemma key_ids_ids:
  assumes "keys_ok db" "key_ids db k c s" "key_ids db k c' s'" shows "c' = c \<and> s' = s"
proof -
  have c: "c' = c" using assms category_unique unfolding key_ids_def by metis
  moreover have "s' = s"
    using assms service_unique [OF assms(1)] unfolding key_ids_def c by (metis (full_types))
  ultimately show ?thesis by simp
qed

lemma assigned_fun:
  assumes "db_ok db" "assigned db m k v" "assigned db m k v'" shows "v = v'"
proof -
  obtain r where r: "r \<in> set (communities db)" "cm_mode r = m" "cm_community r = v" "key_ids db k (cm_category r) (cm_service r)"
    using assms(2) by (auto simp: assigned_def)
  obtain r' where r': "r' \<in> set (communities db)" "cm_mode r' = m" "cm_community r' = v'" "key_ids db k (cm_category r') (cm_service r')"
    using assms(3) by (auto simp: assigned_def)
  have "row_key r = row_key r'" using key_ids_ids [OF db_okD(1) [OF assms(1)] r(4) r'(4)] r(2) r'(2) by simp
  then have "r = r'" using r(1) r'(1) db_okD(1) [OF assms(1)] by (auto simp: keys_ok_def distinct_map dest: inj_onD)
  then show ?thesis using r(3) r'(3) by simp
qed

lemma joined_service_eq:
  assumes "keys_ok db" "named_services db" "key_ids db k c s" shows "set (joined_service db s) = {if snd k = [] then [] else [snd k]}"
proof (cases "snd k = []")
  case True
  then have "s = 0" using assms(3) by (simp add: key_ids_def)
  then have none: "[[sv_name v]. v \<leftarrow> services db, sv_id v = s] = []"
    using assms(2) by (simp add: named_services_def)
  show ?thesis using True unfolding joined_service_def none by simp
next
  case False
  then obtain v where v: "v \<in> set (services db)" "sv_id v = s" "sv_name v = snd k"
    using assms(3) by (auto simp: key_ids_def)
  have set: "set [[sv_name v]. v \<leftarrow> services db, sv_id v = s] = {[snd k]}"
  proof
    show "set [[sv_name v]. v \<leftarrow> services db, sv_id v = s] \<subseteq> {[snd k]}"
    proof -
      have "x = v" if "x \<in> set (services db)" "sv_id x = s" for x
        using service_unique [OF assms(1) that(1) v(1)] that(2) v(2) by simp
      then show ?thesis using v(3) by auto
    qed
    show "{[snd k]} \<subseteq> set [[sv_name v]. v \<leftarrow> services db, sv_id v = s]"
      using v by force
  qed
  obtain ns where ns: "[[sv_name v]. v \<leftarrow> services db, sv_id v = s] = ns" by blast
  have set_ns: "set ns = {[snd k]}" using set unfolding ns .
  then have "ns \<noteq> []" by (cases ns) simp_all
  then have "joined_service db s = ns" unfolding joined_service_def ns by (cases ns) simp_all
  then have "set (joined_service db s) = {[snd k]}" using set_ns by simp
  then show ?thesis using False by simp
qed

lemma joined_rows_iff:
  assumes "db_ok db" "communities_ok db"
  shows "(\<exists>s. (fst k, s, v) \<in> set (joined_rows db m) \<and> concat s = snd k) \<longleftrightarrow> assigned db m k v"
proof -
  have ok: "keys_ok db" "named_services db" using assms by (simp_all add: db_ok_def communities_ok_def)
  show ?thesis
  proof
    assume "\<exists>s. (fst k, s, v) \<in> set (joined_rows db m) \<and> concat s = snd k"
    then obtain r c s where r: "r \<in> set (communities db)" "cm_mode r = m" "cm_community r = v" "c \<in> set (categories db)"
      "ct_id c = cm_category r" "ct_name c = fst k" "s \<in> set (joined_service db (cm_service r))" "concat s = snd k"
      by (auto simp: joined_rows_def)
    obtain k' where k': "key_ids db k' (cm_category r) (cm_service r)"
      using assms(2) r(1) by (auto simp: communities_ok_def)
    have "s = (if snd k' = [] then [] else [snd k'])" using r(7) joined_service_eq [OF ok k'] by simp
    then have "snd k = snd k'" using r(8) by (auto split: if_splits)
    moreover have "fst k = fst k'"
      using k' r(4-6) category_unique [OF ok(1)] unfolding key_ids_def by metis
    ultimately have "k = k'" by (rule prod_eqI [rotated])
    then show "assigned db m k v" using r(1-3) k' by (auto simp: assigned_def)
  next
    assume "assigned db m k v"
    then obtain r where r: "r \<in> set (communities db)" "cm_mode r = m" "cm_community r = v" "key_ids db k (cm_category r) (cm_service r)"
      by (auto simp: assigned_def)
    then obtain c where c: "c \<in> set (categories db)" "ct_id c = cm_category r" "ct_name c = fst k" by (auto simp: key_ids_def)
    let ?s = "if snd k = [] then [] else [snd k]"
    have "?s \<in> set (joined_service db (cm_service r))" using joined_service_eq [OF ok r(4)] by simp
    then have "(fst k, ?s, v) \<in> set (joined_rows db m)" using r(1-3) c by (force simp: joined_rows_def)
    moreover have "concat ?s = snd k" by simp
    ultimately show "\<exists>s. (fst k, s, v) \<in> set (joined_rows db m) \<and> concat s = snd k" by blast
  qed
qed

lemma map_of_functional:
  assumes "\<And>v v'. (k, v) \<in> set xs \<Longrightarrow> (k, v') \<in> set xs \<Longrightarrow> v = v'"
  shows "map_of xs k = Some v \<longleftrightarrow> (k, v) \<in> set xs"
  using assms by (metis map_of_SomeD weak_map_of_SomeI)

lemma known_iff:
  assumes "db_ok db" "communities_ok db"
  shows "known_communities db m k = Some v \<longleftrightarrow> assigned db m k v"
proof -
  let ?xs = "rev (map (\<lambda>(c, s, v). ((c, concat s), v)) (sort_key (\<lambda>(c, s, v). v) (joined_rows db m)))"
  have mem: "(k, v) \<in> set ?xs \<longleftrightarrow> assigned db m k v" for v
    using joined_rows_iff [OF assms, of k v m] by (cases k) force
  have "map_of ?xs k = Some v \<longleftrightarrow> (k, v) \<in> set ?xs"
    by (rule map_of_functional) (use mem assigned_fun [OF assms(1)] in blast)
  then show ?thesis using mem by (simp add: known_communities_def)
qed

lemma used_values:
  assumes "db_ok db" "communities_ok db"
  shows "v \<in> set (map (\<lambda>(c, s, v). v) (joined_rows db m)) \<longleftrightarrow> (\<exists>r \<in> set (communities db). cm_mode r = m \<and> cm_community r = v)"
proof -
  have "v \<in> set (map (\<lambda>(c, s, v). v) (joined_rows db m)) \<longleftrightarrow> (\<exists>c s. (c, s, v) \<in> set (joined_rows db m))"
    unfolding set_map by force
  also have "\<dots> \<longleftrightarrow> (\<exists>k s. (fst k, s, v) \<in> set (joined_rows db m) \<and> concat s = snd k)" by simp
  also have "\<dots> \<longleftrightarrow> (\<exists>k. assigned db m k v)" using joined_rows_iff [OF assms] by simp
  also have "\<dots> \<longleftrightarrow> (\<exists>r \<in> set (communities db). cm_mode r = m \<and> cm_community r = v)"
    using assms(2) unfolding assigned_def communities_ok_def by blast
  finally show ?thesis .
qed

section \<open>The first free value\<close>

lemma findFirstFree_bound:
  assumes "\<forall>u \<in> set used. unat u < M" "unat start \<le> M" "M < 2 ^ 32"
  shows "\<exists>v. findFirstFree start used = Some v \<and> v \<notin> set used \<and> unat start \<le> unat v \<and> unat v \<le> M"
  using assms(2)
proof (induction "M - unat start" arbitrary: start rule: less_induct)
  case less
  show ?case
  proof (cases "start \<in> set used")
    case True
    then have lt: "unat start < M" using assms(1) by blast
    then have "unat start + 1 < 2 ^ LENGTH(32)" using assms(3) by simp
    then have next_val: "unat (start + 1) = unat start + 1" by (simp add: unat_word_ariths)
    have "M - unat (start + 1) < M - unat start" "unat (start + 1) \<le> M" using next_val lt by simp_all
    from less.hyps [OF this] obtain v where
      "findFirstFree (start + 1) used = Some v" "v \<notin> set used" "unat (start + 1) \<le> unat v" "unat v \<le> M"
      by blast
    then show ?thesis using True next_val by (subst findFirstFree.simps) auto
  next
    case False
    then show ?thesis using less.prems by (subst findFirstFree.simps) auto
  qed
qed

lemma findFirstFree_start: "start \<notin> set used \<Longrightarrow> findFirstFree start used = Some start"
  by (subst findFirstFree.simps) simp

section \<open>One assignment\<close>

lemma key_ids_communities [simp]: "key_ids (db\<lparr>communities := cs\<rparr>) = key_ids db"
  by (simp add: key_ids_def fun_eq_iff)

lemma append_community_ok:
  assumes "db_ok db" "row_key r \<notin> set (map row_key (communities db))" "cm_mode r \<in> mode_ids db" "cm_category r \<in> category_ids db"
  shows "db_ok (db\<lparr>communities := communities db @ [r]\<rparr>)"
proof -
  have "keys_ok (db\<lparr>communities := communities db @ [r]\<rparr>)"
    using db_okD(1) [OF assms(1)] assms(2) by (simp add: keys_ok_def)
  moreover have "refs_ok (db\<lparr>communities := communities db @ [r]\<rparr>)"
    using db_okD(2) [OF assms(1)] assms(3,4) by (simp add: refs_ok_def)
  ultimately show ?thesis using db_okD(3) [OF assms(1)] by (simp add: db_ok_def stored_ok_def)
qed

text \<open>
  The state of a generation: \<open>db\<close> with new rows, one for each of the names \<open>P\<close> that had none; every used
  value is below \<open>M\<close>.
\<close>

definition gen_inv :: "db \<Rightarrow> int \<Rightarrow> nat \<Rightarrow> (string \<times> string) set \<Rightarrow> nat \<Rightarrow> gen_state \<Rightarrow> bool" where
  "gen_inv db m n0 P M st \<longleftrightarrow>
     (\<exists>rs. gs_db st = db\<lparr>communities := communities db @ rs\<rparr> \<and> gs_generated st = n0 + length rs \<and>
        (\<forall>r \<in> set rs. cm_mode r = m \<and> (\<exists>k \<in> P. key_ids db k (cm_category r) (cm_service r)))) \<and>
     db_ok (gs_db st) \<and> communities_ok (gs_db st) \<and>
     (\<forall>v. v \<in> set (gs_used st) \<longleftrightarrow> (\<exists>r \<in> set (communities (gs_db st)). cm_mode r = m \<and> cm_community r = v)) \<and>
     (\<forall>v \<in> set (gs_used st). unat v < M) \<and>
     (\<forall>k \<in> P. \<exists>v. assigned (gs_db st) m k v)"

lemma gen_inv_more: "gen_inv db m n0 P M st \<Longrightarrow> M \<le> M' \<Longrightarrow> gen_inv db m n0 P M' st"
  unfolding gen_inv_def by (meson order_less_le_trans)

lemma assigned_append: "assigned db m k v \<Longrightarrow> assigned (db\<lparr>communities := communities db @ rs\<rparr>) m k v"
  by (auto simp: assigned_def)

lemma gen_inv_known:
  assumes "gen_inv db m n0 P M st" "assigned db m k v"
  shows "gen_inv db m n0 (insert k P) M st" "v \<in> set (gs_used st)"
proof -
  obtain rs where rs: "gs_db st = db\<lparr>communities := communities db @ rs\<rparr>" using assms(1) by (auto simp: gen_inv_def)
  have a: "assigned (gs_db st) m k v" using assigned_append [OF assms(2)] rs by simp
  show "gen_inv db m n0 (insert k P) M st" using assms(1) a unfolding gen_inv_def by blast
  show "v \<in> set (gs_used st)" using assms(1) a unfolding gen_inv_def assigned_def by blast
qed

lemma assign_step:
  assumes inv: "gen_inv db m n0 P M st" and m: "m \<in> mode_ids db" and k: "key_ids db k c s" "k \<notin> P" "\<nexists>v. assigned db m k v"
    and start: "unat start \<le> M" "start \<noteq> 0" "M < 2 ^ 32"
  shows "\<exists>v st'. findFirstFree start (gs_used st) = Some v \<and> gen_insert m c s v st (gs_db st) = Some (Inr st') \<and>
    gen_inv db m n0 (insert k P) (M + 1) st' \<and> v \<in> set (gs_used st')"
proof -
  let ?d = "gs_db st"
  obtain rs where rs: "?d = db\<lparr>communities := communities db @ rs\<rparr>" "gs_generated st = n0 + length rs"
      "\<forall>r \<in> set rs. cm_mode r = m \<and> (\<exists>k \<in> P. key_ids db k (cm_category r) (cm_service r))"
    and ok: "db_ok ?d" "communities_ok ?d"
    and used: "\<forall>v. v \<in> set (gs_used st) \<longleftrightarrow> (\<exists>r \<in> set (communities ?d). cm_mode r = m \<and> cm_community r = v)"
    and below: "\<forall>v \<in> set (gs_used st). unat v < M" and cover: "\<forall>k \<in> P. \<exists>v. assigned ?d m k v"
    using inv unfolding gen_inv_def by (elim exE conjE) (rule that; assumption)
  obtain v where v: "findFirstFree start (gs_used st) = Some v" "v \<notin> set (gs_used st)" "unat start \<le> unat v" "unat v \<le> M"
    using findFirstFree_bound [OF below start(1,3)] by blast
  have v0: "v \<noteq> 0" using v(3) start(2) by (auto simp: unat_eq_zero)
  define r where "r = \<lparr>cm_mode = m, cm_category = c, cm_service = s, cm_community = v\<rparr>"
  have ks: "keys_ok db" "named_services db"
    using ok by (simp_all add: rs(1) db_ok_def keys_ok_def communities_ok_def named_services_def)
  have fresh: "row_key r \<noteq> row_key x" if x: "x \<in> set (communities ?d)" for x
  proof
    assume eq: "row_key r = row_key x"
    then have kx: "key_ids db k (cm_category x) (cm_service x)" using k(1) by (simp add: r_def)
    have "x \<in> set (communities db) \<or> x \<in> set rs" using x rs(1) by simp
    then show False
    proof
      assume "x \<in> set (communities db)"
      then have "assigned db m k (cm_community x)" using kx eq by (auto simp: assigned_def r_def)
      then show False using k(3) by blast
    next
      assume "x \<in> set rs"
      then obtain k' where "k' \<in> P" "key_ids db k' (cm_category x) (cm_service x)" using rs(3) by blast
      then show False using key_ids_names [OF ks kx] k(2) by blast
    qed
  qed
  then have new_key: "row_key r \<notin> set (map row_key (communities ?d))" by auto
  have refs: "cm_mode r \<in> mode_ids ?d" "cm_category r \<in> category_ids ?d"
    using m k(1) by (auto simp: rs(1) r_def key_ids_def)
  let ?d' = "?d\<lparr>communities := communities ?d @ [r]\<rparr>"
  let ?st' = "\<lparr>gs_db = ?d', gs_used = gs_used st @ [v], gs_generated = gs_generated st + 1\<rparr>"
  have ins: "gen_insert m c s v st ?d = Some (Inr ?st')"
    using new_key refs v0 unfolding gen_insert_def insert_community_def r_def by (simp add: guardE_def)
  have "(m, v) \<notin> set (map (\<lambda>r. (cm_mode r, cm_community r)) (communities ?d))" using v(2) used by auto
  then have "communities_ok ?d'"
    using ok(2) exI [where P = "\<lambda>k. key_ids db k c s", OF k(1)] v0
    unfolding communities_ok_def named_services_def by (auto simp: r_def rs(1))
  moreover have "db_ok ?d'" by (rule append_community_ok [OF ok(1) new_key refs])
  moreover have "\<forall>k' \<in> insert k P. \<exists>v. assigned ?d' m k' v"
  proof -
    have "assigned ?d' m k v" using k(1) by (simp add: assigned_def r_def rs(1))
    then show ?thesis using cover assigned_append by blast
  qed
  moreover have "?d' = db\<lparr>communities := communities db @ rs @ [r]\<rparr>" by (simp add: rs(1))
  moreover have "\<forall>x \<in> set (rs @ [r]). cm_mode x = m \<and> (\<exists>k' \<in> insert k P. key_ids db k' (cm_category x) (cm_service x))"
    using rs(3) k(1) by (auto simp: r_def)
  moreover have "\<forall>u. u \<in> set (gs_used st @ [v]) \<longleftrightarrow> (\<exists>x \<in> set (communities ?d'). cm_mode x = m \<and> cm_community x = u)"
    using used by (auto simp: r_def)
  moreover have "\<forall>u \<in> set (gs_used st @ [v]). unat u < M + 1"
    using below v(4) by (auto simp: less_Suc_eq)
  ultimately have "gen_inv db m n0 (insert k P) (M + 1) ?st'"
    unfolding gen_inv_def using rs(2) by (intro conjI exI [of _ "rs @ [r]"]) simp_all
  then show ?thesis using v(1) ins by (intro exI [of _ v] exI [of _ ?st']) simp
qed

section \<open>Names of the catalogue\<close>

lemma find_unique:
  assumes "x \<in> set xs" "P x" "\<And>y. y \<in> set xs \<Longrightarrow> P y \<Longrightarrow> y = x" shows "find P xs = Some x"
proof (cases "find P xs")
  case None
  then show ?thesis using assms(1,2) by (auto simp: find_None_iff)
next
  case (Some y)
  then have "y \<in> set xs" "P y" by (auto simp: find_Some_iff)
  then show ?thesis using Some assms(3) by simp
qed

lemma EnsureCategoryID_existing:
  assumes "keys_ok db" "x \<in> set (categories db)" "ct_name x = name"
  shows "EnsureCategoryID db name = Inr (db, ct_id x)"
proof -
  have "find (\<lambda>r. ct_name r = name) (categories db) = Some x"
    by (rule find_unique) (use assms category_unique [OF assms(1)] in blast)+
  moreover have "insert_category name db = db" using assms(2,3) by (auto simp: insert_category_def)
  ultimately show ?thesis by (simp add: EnsureCategoryID_def)
qed

lemma ensure_pair_existing:
  assumes "keys_ok db" "x \<in> set (categories db)" "v \<in> set (services db)" "sv_category v = ct_id x"
  shows "ensure_pair db (ct_name x) (sv_name v) = Inr (db, ct_id x, sv_id v)"
proof -
  have c: "EnsureCategoryID db (ct_name x) = Inr (db, ct_id x)"
    by (rule EnsureCategoryID_existing [OF assms(1,2) refl])
  have "find (\<lambda>r. sv_category r = ct_id x \<and> sv_name r = sv_name v) (services db) = Some v"
    by (rule find_unique) (use assms service_unique [OF assms(1)] in auto)
  moreover have "insert_service (ct_id x) (sv_name v) db = Inr db"
    using assms(3,4) by (force simp: insert_service_def)
  ultimately show ?thesis using c by (simp add: ensure_pair_def EnsureServiceID_def)
qed

lemma ensure_communities [simp]:
  "insert_category n (db\<lparr>communities := cs\<rparr>) = (insert_category n db)\<lparr>communities := cs\<rparr>"
  by (simp add: insert_category_def)

lemma mode_pairs_named:
  assumes "(c, s) \<in> set (mode_pairs db m)"
  obtains x v where "x \<in> set (categories db)" "ct_name x = c" "v \<in> set (services db)" "sv_name v = s" "sv_category v = ct_id x"
proof -
  obtain v x where "v \<in> set (services db)" "x \<in> set (categories db)" "ct_id x = sv_category v" "c = ct_name x" "s = sv_name v"
    using assms by (auto simp: mode_pairs_def split: if_splits)
  then show ?thesis using that [of x v] by simp
qed

section \<open>The loops\<close>

lemma gen_service_step:
  assumes inv: "gen_inv db m n0 P M st" and ok: "db_ok db" "communities_ok db" "m \<in> mode_ids db"
    and pair: "(cat, svc) \<in> set (mode_pairs db m)" "(cat, svc) \<notin> P" and base: "base \<in> set (gs_used st)" and M: "M < 2 ^ 32"
  shows "\<exists>st'. gen_service m (known_communities db m) base cat st svc = Some (Inr st') \<and>
    gen_inv db m n0 (insert (cat, svc) P) (M + 1) st' \<and> base \<in> set (gs_used st')"
proof (cases "known_communities db m (cat, svc)")
  case (Some v)
  then have "assigned db m (cat, svc) v" using known_iff [OF ok(1,2)] by simp
  from gen_inv_known(1) [OF inv this] have "gen_inv db m n0 (insert (cat, svc) P) (M + 1) st"
    by (rule gen_inv_more) simp
  then show ?thesis using Some base by (simp add: gen_service_def)
next
  case None
  then have none: "\<nexists>v. assigned db m (cat, svc) v" using known_iff [OF ok(1,2)] by (metis option.distinct(1))
  obtain x v where xv: "x \<in> set (categories db)" "ct_name x = cat" "v \<in> set (services db)" "sv_name v = svc" "sv_category v = ct_id x"
    using mode_pairs_named [OF pair(1)] .
  have svc: "svc \<noteq> []" using xv(3,4) ok(2) by (auto simp: communities_ok_def named_services_def)
  have ids: "key_ids db (cat, svc) (ct_id x) (sv_id v)" using xv svc by (auto simp: key_ids_def)
  obtain rs where rs: "gs_db st = db\<lparr>communities := communities db @ rs\<rparr>" and ks: "keys_ok (gs_db st)"
    using inv by (auto simp: gen_inv_def db_ok_def)
  have "unat base < M" using inv base by (auto simp: gen_inv_def)
  moreover then have "unat base + 1 < 2 ^ LENGTH(32)" using M by simp
  ultimately have start: "unat (base + 1) \<le> M" "base + 1 \<noteq> 0"
    by (simp_all add: unat_word_ariths flip: unat_eq_zero)
  obtain w st' where w: "findFirstFree (base + 1) (gs_used st) = Some w"
    "gen_insert m (ct_id x) (sv_id v) w st (gs_db st) = Some (Inr st')"
    "gen_inv db m n0 (insert (cat, svc) P) (M + 1) st'" "w \<in> set (gs_used st')"
    using assign_step [OF inv ok(3) ids pair(2) none start M] by blast
  have "ensure_pair (gs_db st) cat svc = Inr (gs_db st, ct_id x, sv_id v)"
    using ensure_pair_existing [OF ks, of x v] xv by (simp add: rs)
  moreover have "base \<in> set (gs_used st')" using base w(2) by (auto simp: gen_insert_def bindE_def split: sum.splits)
  ultimately show ?thesis using None w by (simp add: gen_service_def)
qed

lemma gen_services_loop:
  assumes "gen_inv db m n0 P M st" "db_ok db" "communities_ok db" "m \<in> mode_ids db"
    and "\<forall>s \<in> set ss. (cat, s) \<in> set (mode_pairs db m) \<and> (cat, s) \<notin> P" "distinct ss" "base \<in> set (gs_used st)"
    and "M + length ss < 2 ^ 32"
  shows "\<exists>st'. foldL (gen_service m (known_communities db m) base cat) st ss = Some (Inr st') \<and>
    gen_inv db m n0 (P \<union> Pair cat ` set ss) (M + length ss) st'"
  using assms
proof (induction ss arbitrary: P M st)
  case (Cons s ss)
  obtain st1 where st1: "gen_service m (known_communities db m) base cat st s = Some (Inr st1)"
    "gen_inv db m n0 (insert (cat, s) P) (M + 1) st1" "base \<in> set (gs_used st1)"
    using gen_service_step [OF Cons.prems(1-4), of cat s base] Cons.prems by auto
  obtain st2 where "foldL (gen_service m (known_communities db m) base cat) st1 ss = Some (Inr st2)"
    "gen_inv db m n0 (insert (cat, s) P \<union> Pair cat ` set ss) (M + 1 + length ss) st2"
    using Cons.IH [OF st1(2) Cons.prems(2-4)] Cons.prems(5-8) st1(3) by auto
  then show ?case using st1(1) by (simp add: bindL_def)
qed simp

lemma gen_group_step:
  assumes inv: "gen_inv db m n0 P M st" and ok: "db_ok db" "communities_ok db" "m \<in> mode_ids db"
    and x: "x \<in> set (categories db)" "ct_name x = cat" "(cat, []) \<notin> P"
    and M: "(i + 1) * 10000 \<le> M" "M < 2 ^ 32"
  shows "\<exists>st' base. gen_group m (known_communities db m) i cat st = Some (Inr (st', base)) \<and>
    gen_inv db m n0 (insert (cat, []) P) (M + 1) st' \<and> base \<in> set (gs_used st')"
proof (cases "known_communities db m (cat, [])")
  case (Some v)
  then have a: "assigned db m (cat, []) v" using known_iff [OF ok(1,2)] by simp
  note k = gen_inv_known [OF inv a]
  have "gen_inv db m n0 (insert (cat, []) P) (M + 1) st" using k(1) by (rule gen_inv_more) simp
  then show ?thesis using Some k(2) by (simp add: gen_group_def)
next
  case None
  then have none: "\<nexists>v. assigned db m (cat, []) v" using known_iff [OF ok(1,2)] by (metis option.distinct(1))
  have ids: "key_ids db (cat, []) (ct_id x) 0" using x by (auto simp: key_ids_def)
  obtain rs where rs: "gs_db st = db\<lparr>communities := communities db @ rs\<rparr>" and ks: "keys_ok (gs_db st)"
    using inv by (auto simp: gen_inv_def db_ok_def)
  let ?start = "word_of_nat ((i + 1) * 10000) :: u32"
  have "(i + 1) * 10000 < 2 ^ LENGTH(32)" using M by simp
  then have val: "unat ?start = (i + 1) * 10000" by (simp only: unat_of_nat mod_less)
  then have start: "unat ?start \<le> M" "?start \<noteq> 0" using M(1) by (auto simp flip: unat_eq_zero)
  obtain w st' where w: "findFirstFree ?start (gs_used st) = Some w"
    "gen_insert m (ct_id x) 0 w st (gs_db st) = Some (Inr st')"
    "gen_inv db m n0 (insert (cat, []) P) (M + 1) st'" "w \<in> set (gs_used st')"
    using assign_step [OF inv ok(3) ids x(3) none start M(2)] by blast
  have "EnsureCategoryID (gs_db st) cat = Inr (gs_db st, ct_id x)"
    using EnsureCategoryID_existing [OF ks, of x] x by (simp add: rs)
  then show ?thesis using None w by (simp add: gen_group_def bindL_def)
qed

section \<open>A whole mode\<close>

lemma distinct_remdups_adj: "sorted xs \<Longrightarrow> distinct (remdups_adj (xs :: 'a :: linorder list))"
  by (induction xs rule: remdups_adj.induct) auto

lemma mode_pairs_facts: "sorted (mode_pairs db m)" "distinct (mode_pairs db m)"
  by (simp_all add: mode_pairs_def)

lemma sorted_fst: "sorted ps \<Longrightarrow> sorted (map fst (ps :: (string \<times> string) list))"
  unfolding sorted_map by (rule sorted_wrt_mono_rel) (auto simp: less_eq_prod_def less_le)

abbreviation services_of :: "(string \<times> string) list \<Rightarrow> string \<Rightarrow> string list" where
  "services_of pairs cat \<equiv> map snd (filter (\<lambda>(c, s). c = cat) pairs)"

lemma services_of_facts:
  "distinct pairs \<Longrightarrow> distinct (services_of pairs cat)" "s \<in> set (services_of pairs cat) \<longleftrightarrow> (cat, s) \<in> set pairs"
  by (auto simp: distinct_map inj_on_def image_iff intro: rev_bexI)

lemma length_services:
  "distinct cats \<Longrightarrow> (\<Sum>c \<leftarrow> cats. length (services_of pairs c)) = length (filter (\<lambda>p. fst p \<in> set cats) pairs)"
proof (induction pairs)
  case (Cons p pairs)
  have "(\<Sum>c \<leftarrow> cats. (if fst p = c then 1 else 0)) = (if fst p \<in> set cats then 1 else (0::nat))"
    using Cons.prems by (induction cats) auto
  moreover have "(\<Sum>c \<leftarrow> cats. length (services_of (p # pairs) c)) =
      (\<Sum>c \<leftarrow> cats. (if fst p = c then 1 else 0)) + (\<Sum>c \<leftarrow> cats. length (services_of pairs c))"
    by (simp add: case_prod_unfold flip: sum_list_addf) (intro arg_cong [where f = sum_list] map_cong, auto)
  ultimately show ?case using Cons by simp
qed simp

definition group_keys :: "(string \<times> string) list \<Rightarrow> string \<Rightarrow> (string \<times> string) set" where
  "group_keys pairs cat = insert (cat, []) (Pair cat ` set (services_of pairs cat))"

lemma group_keys_iff: "k \<in> group_keys pairs cat \<longleftrightarrow> k = (cat, []) \<or> k \<in> set pairs \<and> fst k = cat"
  unfolding group_keys_def insert_iff image_iff using services_of_facts(2) [where pairs = pairs and cat = cat] by (cases k) auto

lemma gen_category_step:
  assumes inv: "gen_inv db m n0 P M st" and ok: "db_ok db" "communities_ok db" "m \<in> mode_ids db"
    and cat: "(cat, s0) \<in> set (mode_pairs db m)" "\<forall>k \<in> P. fst k \<noteq> cat"
    and M: "(i + 1) * 10000 \<le> M" "M + 1 + length (services_of (mode_pairs db m) cat) < 2 ^ 32"
  shows "\<exists>st'. gen_category m (known_communities db m) (mode_pairs db m) st (i, cat) = Some (Inr st') \<and>
    gen_inv db m n0 (P \<union> group_keys (mode_pairs db m) cat) (M + 1 + length (services_of (mode_pairs db m) cat)) st'"
proof -
  let ?ss = "services_of (mode_pairs db m) cat"
  obtain x v where x: "x \<in> set (categories db)" "ct_name x = cat" using mode_pairs_named [OF cat(1)] .
  have new: "(cat, []) \<notin> P" using cat(2) by fastforce
  obtain st1 base where g: "gen_group m (known_communities db m) i cat st = Some (Inr (st1, base))"
    "gen_inv db m n0 (insert (cat, []) P) (M + 1) st1" "base \<in> set (gs_used st1)"
    using gen_group_step [OF inv ok x new M(1)] M(2) by auto
  have nonempty: "s \<noteq> []" if "(cat, s) \<in> set (mode_pairs db m)" for s
    using mode_pairs_named [OF that] ok(2) unfolding communities_ok_def named_services_def by metis
  have ss: "\<forall>s \<in> set ?ss. (cat, s) \<in> set (mode_pairs db m) \<and> (cat, s) \<notin> insert (cat, []) P"
    using services_of_facts(2) nonempty cat(2) by fastforce
  obtain st' where "foldL (gen_service m (known_communities db m) base cat) st1 ?ss = Some (Inr st')"
    "gen_inv db m n0 (insert (cat, []) P \<union> Pair cat ` set ?ss) (M + 1 + length ?ss) st'"
    using gen_services_loop [OF g(2) ok ss services_of_facts(1) [OF mode_pairs_facts(2)] g(3) M(2)] by blast
  then show ?thesis using g(1) by (simp add: gen_category_def bindL_def group_keys_def insert_commute Un_commute)
qed

lemma gen_categories_loop:
  assumes "gen_inv db m n0 P M st" "db_ok db" "communities_ok db" "m \<in> mode_ids db"
    and "distinct (map snd xs)" "\<forall>(i, c) \<in> set xs. (i + 1) * 10000 \<le> M \<and> (\<exists>s. (c, s) \<in> set (mode_pairs db m)) \<and> (\<forall>k \<in> P. fst k \<noteq> c)"
    and "M + (\<Sum>(i, c) \<leftarrow> xs. 1 + length (services_of (mode_pairs db m) c)) < 2 ^ 32"
  shows "\<exists>st'. foldL (gen_category m (known_communities db m) (mode_pairs db m)) st xs = Some (Inr st') \<and>
    gen_inv db m n0 (P \<union> (\<Union>c \<in> snd ` set xs. group_keys (mode_pairs db m) c))
      (M + (\<Sum>(i, c) \<leftarrow> xs. 1 + length (services_of (mode_pairs db m) c))) st'"
  using assms
proof (induction xs arbitrary: P M st)
  case (Cons x xs)
  obtain i c where x: "x = (i, c)" by (cases x)
  let ?pairs = "mode_pairs db m"
  obtain s0 where s0: "(c, s0) \<in> set ?pairs" using Cons.prems(6) x by auto
  let ?M = "M + 1 + length (services_of ?pairs c)"
  obtain st1 where st1: "gen_category m (known_communities db m) ?pairs st (i, c) = Some (Inr st1)"
    "gen_inv db m n0 (P \<union> group_keys ?pairs c) ?M st1"
    using gen_category_step [OF Cons.prems(1-4) s0, of i] Cons.prems(6,7) x by auto
  have "(j + 1) * 10000 \<le> ?M \<and> (\<exists>s. (d, s) \<in> set ?pairs) \<and> (\<forall>k \<in> P \<union> group_keys ?pairs c. fst k \<noteq> d)"
    if y: "(j, d) \<in> set xs" for j d
  proof -
    have pre: "(j + 1) * 10000 \<le> M" "\<exists>s. (d, s) \<in> set ?pairs" "\<forall>k \<in> P. fst k \<noteq> d"
      using Cons.prems(6) y by auto
    have "c \<noteq> d" using Cons.prems(5) x y by force
    then have "\<forall>k \<in> P \<union> group_keys ?pairs c. fst k \<noteq> d" using pre(3) by (auto simp: group_keys_def)
    then show ?thesis using pre(1,2) by simp
  qed
  then have rest: "\<forall>(j, d) \<in> set xs. (j + 1) * 10000 \<le> ?M \<and> (\<exists>s. (d, s) \<in> set ?pairs) \<and> (\<forall>k \<in> P \<union> group_keys ?pairs c. fst k \<noteq> d)"
    by blast
  obtain st2 where "foldL (gen_category m (known_communities db m) ?pairs) st1 xs = Some (Inr st2)"
    "gen_inv db m n0 (P \<union> group_keys ?pairs c \<union> (\<Union>d \<in> snd ` set xs. group_keys ?pairs d))
      (?M + (\<Sum>(j, d) \<leftarrow> xs. 1 + length (services_of ?pairs d))) st2"
    using Cons.IH [OF st1(2) Cons.prems(2-4) _ rest] Cons.prems(5,7) x by (auto simp: add.assoc)
  then show ?case using st1(1) by (simp add: x bindL_def Un_assoc add.assoc)
qed simp

text \<open>Values from \<open>M\<close> on are free, and they are enough for the mode.\<close>

definition free_above :: "db \<Rightarrow> int \<Rightarrow> nat \<Rightarrow> bool" where
  "free_above db m M \<longleftrightarrow> (\<forall>r \<in> set (communities db). cm_mode r = m \<longrightarrow> unat (cm_community r) < M) \<and>
     10000 * length (categories db) \<le> M \<and> M + length (categories db) + length (mode_pairs db m) < 2 ^ 32"

lemma gen_inv_start:
  assumes "db_ok db" "communities_ok db" "free_above db m M"
  shows "gen_inv db m n0 {} M \<lparr>gs_db = db, gs_used = map (\<lambda>(c, s, v). v) (joined_rows db m), gs_generated = n0\<rparr>"
proof -
  have used: "\<forall>v. v \<in> set (map (\<lambda>(c, s, v). v) (joined_rows db m)) \<longleftrightarrow> (\<exists>r \<in> set (communities db). cm_mode r = m \<and> cm_community r = v)"
    by (rule allI) (rule used_values [OF assms(1,2)])
  have below: "\<forall>v \<in> set (map (\<lambda>(c, s, v). v) (joined_rows db m)). unat v < M"
  proof
    fix v assume "v \<in> set (map (\<lambda>(c, s, v). v) (joined_rows db m))"
    then obtain r where "r \<in> set (communities db)" "cm_mode r = m" "cm_community r = v" using used by metis
    then show "unat v < M" using assms(3) by (auto simp: free_above_def)
  qed
  show ?thesis unfolding gen_inv_def gen_state.simps
    by (intro conjI exI [of _ "[]"] assms(1,2) used below) simp_all
qed

lemma gen_mode_complete:
  assumes ok: "db_ok db" "communities_ok db" "m \<in> mode_ids db" and free: "free_above db m M"
  shows "\<exists>db' rs. gen_mode (db, n0) m = Some (Inr (db', n0 + length rs)) \<and> db_ok db' \<and> communities_ok db' \<and>
    db' = db\<lparr>communities := communities db @ rs\<rparr> \<and>
    (\<forall>r \<in> set rs. cm_mode r = m \<and> (\<exists>(c, s) \<in> set (mode_pairs db m). \<exists>k \<in> {(c, []), (c, s)}. key_ids db k (cm_category r) (cm_service r))) \<and>
    (\<forall>(c, s) \<in> set (mode_pairs db m). \<exists>v w. assigned db' m (c, []) v \<and> assigned db' m (c, s) w)"
proof -
  let ?pairs = "mode_pairs db m" and ?cats = "remdups_adj (map fst (mode_pairs db m))"
  let ?xs = "zip [0..<length ?cats] ?cats"
  have dist: "distinct ?cats" by (rule distinct_remdups_adj [OF sorted_fst [OF mode_pairs_facts(1)]])
  have snds: "map snd ?xs = ?cats" "snd ` set ?xs = set ?cats" "length ?xs = length ?cats"
    by (simp_all flip: set_map)
  have "fst ` set ?pairs \<subseteq> ct_name ` set (categories db)"
  proof
    fix c assume "c \<in> fst ` set ?pairs"
    then obtain s where "(c, s) \<in> set ?pairs" by auto
    then show "c \<in> ct_name ` set (categories db)" by (rule mode_pairs_named) blast
  qed
  then have "card (set ?cats) \<le> card (ct_name ` set (categories db))" by (intro card_mono) simp_all
  also have "\<dots> \<le> length (categories db)" by (meson card_image_le card_length finite_set order_trans)
  finally have few: "length ?cats \<le> length (categories db)" using distinct_card [OF dist] by simp
  have idx: "\<forall>(i, c) \<in> set ?xs. (i + 1) * 10000 \<le> M \<and> (\<exists>s. (c, s) \<in> set ?pairs) \<and> (\<forall>k \<in> {}. fst k \<noteq> c)"
  proof -
    have "(i + 1) * 10000 \<le> M" if "(i, c) \<in> set ?xs" for i c
    proof -
      have "i + 1 \<le> length (categories db)" using that few by (auto dest!: set_zip_leftD)
      then have "(i + 1) * 10000 \<le> length (categories db) * 10000" by (rule mult_le_mono1)
      then show ?thesis using free unfolding free_above_def by linarith
    qed
    moreover have "\<exists>s. (c, s) \<in> set ?pairs" if "(i, c) \<in> set ?xs" for i c
      using set_zip_rightD [OF that] by (auto simp: image_iff)
    ultimately show ?thesis by blast
  qed
  have "(\<Sum>(i, c) \<leftarrow> ?xs. 1 + length (services_of ?pairs c)) = (\<Sum>c \<leftarrow> map snd ?xs. 1 + length (services_of ?pairs c))"
    by (simp only: map_map o_def case_prod_unfold)
  also have "\<dots> = length ?cats + length (filter (\<lambda>p. fst p \<in> set ?cats) ?pairs)"
    unfolding snds(1) sum_list_addf length_services [OF dist] by (simp add: sum_list_triv)
  also have "\<dots> = length ?cats + length ?pairs"
    by (simp add: filter_id_conv [THEN iffD2])
  finally have total: "(\<Sum>(i, c) \<leftarrow> ?xs. 1 + length (services_of ?pairs c)) = length ?cats + length ?pairs" .
  then have room: "M + (\<Sum>(i, c) \<leftarrow> ?xs. 1 + length (services_of ?pairs c)) < 2 ^ 32"
    using free few unfolding free_above_def by simp
  have d: "distinct (map snd ?xs)" using dist snds(1) by simp
  obtain st' where st': "foldL (gen_category m (known_communities db m) ?pairs)
      \<lparr>gs_db = db, gs_used = map (\<lambda>(c, s, v). v) (joined_rows db m), gs_generated = n0\<rparr> ?xs = Some (Inr st')"
    "gen_inv db m n0 ({} \<union> (\<Union>c \<in> snd ` set ?xs. group_keys ?pairs c)) (M + (\<Sum>(i, c) \<leftarrow> ?xs. 1 + length (services_of ?pairs c))) st'"
    using gen_categories_loop [OF gen_inv_start [OF ok(1,2) free, of n0] ok d idx room] by (elim exE conjE) (rule that; assumption)
  let ?P = "\<Union>c \<in> set ?cats. group_keys ?pairs c"
  have P: "k \<in> ?P \<longleftrightarrow> (\<exists>(c, s) \<in> set ?pairs. k = (c, []) \<or> k = (c, s))" for k
    unfolding remdups_adj_set using group_keys_iff [of k ?pairs] by (cases k) fastforce
  obtain rs where rs: "gs_db st' = db\<lparr>communities := communities db @ rs\<rparr>" "gs_generated st' = n0 + length rs"
      "\<forall>r \<in> set rs. cm_mode r = m \<and> (\<exists>k \<in> ?P. key_ids db k (cm_category r) (cm_service r))"
      "db_ok (gs_db st')" "communities_ok (gs_db st')" "\<forall>k \<in> ?P. \<exists>v. assigned (gs_db st') m k v"
    using st'(2) unfolding gen_inv_def snds(2) Un_empty_left by (elim exE conjE) (rule that; assumption)
  have gen: "gen_mode (db, n0) m = Some (Inr (gs_db st', n0 + length rs))"
    using st'(1) rs(2) by (simp add: gen_mode_def bindL_def Let_def)
  have new: "\<forall>r \<in> set rs. cm_mode r = m \<and> (\<exists>(c, s) \<in> set ?pairs. \<exists>k \<in> {(c, []), (c, s)}. key_ids db k (cm_category r) (cm_service r))"
  proof
    fix r assume r: "r \<in> set rs"
    then obtain k where k: "k \<in> ?P" "key_ids db k (cm_category r) (cm_service r)" using rs(3) by blast
    obtain c s where "(c, s) \<in> set ?pairs" "k = (c, []) \<or> k = (c, s)" using P [of k] k(1) by blast
    then show "cm_mode r = m \<and> (\<exists>(c, s) \<in> set ?pairs. \<exists>k \<in> {(c, []), (c, s)}. key_ids db k (cm_category r) (cm_service r))"
      using rs(3) r k(2) by blast
  qed
  have all: "\<forall>(c, s) \<in> set ?pairs. \<exists>v w. assigned (gs_db st') m (c, []) v \<and> assigned (gs_db st') m (c, s) w"
  proof (clarify)
    fix c s assume "(c, s) \<in> set ?pairs"
    then have "(c, []) \<in> ?P" "(c, s) \<in> ?P" using P by blast+
    then show "\<exists>v w. assigned (gs_db st') m (c, []) v \<and> assigned (gs_db st') m (c, s) w" using rs(6) by blast
  qed
  show ?thesis by (rule exI [of _ "gs_db st'"], rule exI [of _ rs]) (intro conjI gen rs(1,4,5) new all)
qed

section \<open>Generation\<close>

text \<open>C14: as long as the values from \<open>M\<close> on are free and enough, a generation succeeds, gives every category and
  every service of the mode a value, keeps all rows, adds rows for these names only, counts them, and leaves
  keys unique, values non-zero and different within a mode; the other tables do not change.\<close>

theorem generate_complete:
  assumes "db_ok db" "communities_ok db" "m \<in> mode_ids db" "0 < m" "free_above db m M"
  shows "\<exists>rs. let db' = db\<lparr>communities := communities db @ rs\<rparr> in
    genCommunitiesRuntime m db = Some (Inr (db', length rs)) \<and> db_ok db' \<and> communities_ok db' \<and>
    (\<forall>r \<in> set rs. cm_mode r = m \<and> (\<exists>(c, s) \<in> set (mode_pairs db m). \<exists>k \<in> {(c, []), (c, s)}. key_ids db k (cm_category r) (cm_service r))) \<and>
    (\<forall>(c, s) \<in> set (mode_pairs db m). \<exists>v w. assigned db' m (c, []) v \<and> assigned db' m (c, s) w)"
proof -
  obtain db' rs where g: "gen_mode (db, 0) m = Some (Inr (db', 0 + length rs))" "db_ok db'" "communities_ok db'"
      "db' = db\<lparr>communities := communities db @ rs\<rparr>"
    and new: "\<forall>r \<in> set rs. cm_mode r = m \<and> (\<exists>(c, s) \<in> set (mode_pairs db m). \<exists>k \<in> {(c, []), (c, s)}. key_ids db k (cm_category r) (cm_service r))"
    and all: "\<forall>(c, s) \<in> set (mode_pairs db m). \<exists>v w. assigned db' m (c, []) v \<and> assigned db' m (c, s) w"
    using gen_mode_complete [OF assms(1-3,5), of 0] by (elim exE conjE) (rule that; assumption)
  have "genCommunitiesRuntime m db = Some (Inr (db', length rs))"
    using g(1) assms(4) by (simp add: genCommunitiesRuntime_def bindL_def)
  then show ?thesis using g(2-4) new all unfolding Let_def by (intro exI [of _ rs]) (simp only: simp_thms)
qed

lemma sample_communities_ok: "communities_ok sample_db"
proof -
  have "key_ids sample_db (''video'', ''tube'') 1 1" by (simp add: key_ids_def sample_db_def)
  then show ?thesis by (auto simp: communities_ok_def named_services_def sample_db_def)
qed

lemma sample_pairs: "mode_pairs sample_db 4 = [(''video'', ''tube'')]"
  by (simp add: mode_pairs_def sample_db_def)

theorem generate_complete_witness:
  "\<exists>rs v. genCommunitiesRuntime 4 sample_db =
     Some (Inr (sample_db\<lparr>communities := communities sample_db @ rs\<rparr>, length rs)) \<and>
    assigned (sample_db\<lparr>communities := communities sample_db @ rs\<rparr>) 4 (''video'', []) v"
proof -
  have m: "4 \<in> mode_ids sample_db" "(0::int) < 4" by (simp_all add: sample_db_def)
  have "free_above sample_db 4 10000"
    unfolding free_above_def sample_pairs by (simp add: sample_db_def)
  from generate_complete [OF sample_db_ok sample_communities_ok m this] show ?thesis
    unfolding sample_pairs Let_def by auto
qed

end
