(* ===== verification/Store_Assign.thy ===== *)
theory Store_Assign
  imports Store_Alloc
begin

section \<open>Where the allocation ends\<close>

text \<open>when the value of a category is 4294967295, the next value is 0, which the table refuses; the insert is
  ignored, so a service of that category that has no value is left without one, and yet it is counted.\<close>

theorem top_value_skips_service:
  assumes ok: "db_ok db" "communities_ok db" and m: "0 < m" and pairs: "mode_pairs db m = [(c, s)]"
    and top: "assigned db m (c, []) 4294967295" and none: "\<nexists>v. assigned db m (c, s) v"
  shows "genCommunitiesRuntime m db = Some (Inr (db, 1))"
proof -
  let ?known = "known_communities db m" and ?used = "map (\<lambda>(c, s, v). v) (joined_rows db m)"
  have ks: "keys_ok db" using ok(1) by (simp add: db_ok_def)
  obtain x v where xv: "x \<in> set (categories db)" "ct_name x = c" "v \<in> set (services db)" "sv_name v = s" "sv_category v = ct_id x"
    using mode_pairs_named [of c s db m] pairs by auto
  have known: "?known (c, []) = Some 4294967295" "?known (c, s) = None"
    using known_iff [OF ok, of m] top none by (auto simp flip: not_Some_eq)
  have wrap: "(4294967296 :: u32) = 0" by (simp add: word_eq_iff_unsigned)
  have "0 \<notin> set ?used" using used_values [OF ok] ok(2) by (fastforce simp: communities_ok_def)
  then have free: "findFirstFree 4294967296 ?used = Some 0" unfolding wrap by (rule findFirstFree_start)
  have "ensure_pair db c s = Inr (db, ct_id x, sv_id v)" using ensure_pair_existing [OF ks xv(1,3,5)] xv(2,4) by simp
  then show ?thesis
    using m known free by (simp add: genCommunitiesRuntime_def gen_mode_def gen_category_def gen_group_def gen_service_def
        gen_insert_def insert_community_def bindL_def pairs)
qed

definition full_db :: db where
  "full_db = sample_db\<lparr>communities := [\<lparr>cm_mode = 4, cm_category = 1, cm_service = 0, cm_community = 4294967295\<rparr>]\<rparr>"

theorem top_value_skips_service_witness: "genCommunitiesRuntime 4 full_db = Some (Inr (full_db, 1))"
proof -
  have fields: "categories full_db = categories sample_db" "services full_db = services sample_db"
    by (simp_all add: full_db_def)
  have "db_ok full_db"
    using sample_db_ok by (simp add: db_ok_defs full_db_def sample_db_def)
  moreover have key: "key_ids full_db (''video'', []) 1 0" by (simp add: key_ids_def fields sample_db_def)
  then have "communities_ok full_db"
    by (auto simp: communities_ok_def named_services_def full_db_def sample_db_def)
  moreover have "mode_pairs full_db 4 = [(''video'', ''tube'')]" by (simp add: mode_pairs_def full_db_def sample_db_def)
  moreover have "assigned full_db 4 (''video'', []) 4294967295" using key by (simp add: assigned_def full_db_def)
  moreover have "\<nexists>v. assigned full_db 4 (''video'', ''tube'') v" by (simp add: assigned_def full_db_def key_ids_def sample_db_def)
  ultimately show ?thesis by (intro top_value_skips_service [where c = "''video''" and s = "''tube''"]) simp_all
qed

section \<open>Single assignments\<close>

lemma resolve_existing:
  assumes "db_ok db" "communities_ok db" "key_ids db k c s"
  shows "resolveCommunityKey db (fst k) (snd k) = Inr (db, c, s)"
proof -
  have ks: "keys_ok db" using assms(1) by (simp add: db_ok_def)
  obtain x where x: "x \<in> set (categories db)" "ct_id x = c" "ct_name x = fst k" using assms(3) by (auto simp: key_ids_def)
  note cat = EnsureCategoryID_existing [OF ks x(1,3)]
  show ?thesis
  proof (cases "snd k = []")
    case True
    then show ?thesis using cat assms(3) x(2) by (simp add: resolveCommunityKey_def key_ids_def)
  next
    case False
    then obtain v where v: "v \<in> set (services db)" "sv_id v = s" "sv_category v = ct_id x" "sv_name v = snd k"
      using assms(3) x(2) by (auto simp: key_ids_def)
    have "ensure_pair db (ct_name x) (sv_name v) = Inr (db, ct_id x, sv_id v)" by (rule ensure_pair_existing [OF ks x(1) v(1,3)])
    then show ?thesis using False x v cat
      by (auto simp: resolveCommunityKey_def ensure_pair_def bindE_eq_Inr_iff)
  qed
qed

text \<open>a batch that swaps two values of a mode is rejected, because its updates are applied one after the
  other; nothing is changed.\<close>

theorem swap_rejected:
  assumes "db_ok db" "communities_ok db" "assigned db m k v" "assigned db m k' v'" "v \<noteq> v'"
  shows "SetCommunities m [(k, v'), (k', v)] db = Some (fail (DuplicateCommunity v'))"
proof -
  obtain r where r: "r \<in> set (communities db)" "cm_mode r = m" "cm_community r = v" "key_ids db k (cm_category r) (cm_service r)"
    using assms(3) by (auto simp: assigned_def)
  obtain r' where r': "r' \<in> set (communities db)" "cm_mode r' = m" "cm_community r' = v'" "key_ids db k' (cm_category r') (cm_service r')"
    using assms(4) by (auto simp: assigned_def)
  have "k \<noteq> k'" using assms assigned_fun by blast
  then have "\<not> (cm_category r' = cm_category r \<and> cm_service r' = cm_service r)"
    using key_ids_names [of db k "cm_category r" "cm_service r" k'] r(4) r'(4) assms(1,2)
    by (auto simp: db_ok_def communities_ok_def)
  then have "setCommunity m (fst k) (snd k) v' db = fail (DuplicateCommunity v')"
    using resolve_existing [OF assms(1,2) r(4)] r'(1-3) by (auto simp: setCommunity_def)
  moreover have "v' \<noteq> 0" using assms(2) r'(1,3) by (auto simp: communities_ok_def)
  ultimately show ?thesis by (simp add: SetCommunities_def set_or_clear_def bindL_def fail_def)
qed

definition two_values_db :: db where
  "two_values_db = sample_db\<lparr>communities := [\<lparr>cm_mode = 4, cm_category = 1, cm_service = 0, cm_community = 8\<rparr>,
     \<lparr>cm_mode = 4, cm_category = 1, cm_service = 1, cm_community = 7\<rparr>]\<rparr>"

lemma two_values: "db_ok two_values_db" "communities_ok two_values_db"
  "assigned two_values_db 4 (''video'', []) 8" "assigned two_values_db 4 (''video'', ''tube'') 7"
  "key_ids two_values_db (''video'', []) 1 0" "4 \<in> mode_ids two_values_db"
proof -
  have keys: "key_ids two_values_db (''video'', []) 1 0" "key_ids two_values_db (''video'', ''tube'') 1 1"
    by (simp_all add: key_ids_def two_values_db_def sample_db_def)
  then show "communities_ok two_values_db"
    by (auto simp: communities_ok_def named_services_def two_values_db_def sample_db_def)
  show "db_ok two_values_db" using sample_db_ok by (simp add: db_ok_defs two_values_db_def sample_db_def)
  show "assigned two_values_db 4 (''video'', []) 8" "assigned two_values_db 4 (''video'', ''tube'') 7"
    using keys by (auto simp: assigned_def two_values_db_def)
  show "key_ids two_values_db (''video'', []) 1 0" by (rule keys)
  show "4 \<in> mode_ids two_values_db" by (simp add: two_values_db_def sample_db_def)
qed

theorem swap_rejected_witness:
  "SetCommunities 4 [((''video'', []), 7), ((''video'', ''tube''), 8)] two_values_db = Some (fail (DuplicateCommunity 7))"
  by (rule swap_rejected [OF two_values(1-4)]) simp

lemma communities_table_ok:
  assumes ok: "db_ok db" "communities_ok db"
    and keys: "distinct (map row_key cs)" and vals: "distinct (map (\<lambda>r. (cm_mode r, cm_community r)) cs)"
    and mem: "\<And>x. x \<in> set cs \<Longrightarrow> x = r \<or> x \<in> set (communities db)"
    and r: "0 < cm_community r" "cm_mode r \<in> mode_ids db" "cm_category r \<in> category_ids db"
    and key: "key_ids db k (cm_category r) (cm_service r)"
  shows "db_ok (db\<lparr>communities := cs\<rparr>) \<and> communities_ok (db\<lparr>communities := cs\<rparr>)"
proof -
  have "cm_mode x \<in> mode_ids db \<and> cm_category x \<in> category_ids db" if "x \<in> set cs" for x
    using mem [OF that] r(2,3) ok(1) by (auto simp: db_ok_def refs_ok_def)
  then have "refs_ok (db\<lparr>communities := cs\<rparr>)" using db_okD(2) [OF ok(1)] by (simp add: refs_ok_def)
  moreover have "keys_ok (db\<lparr>communities := cs\<rparr>)" using db_okD(1) [OF ok(1)] keys by (simp add: keys_ok_def)
  moreover have "stored_ok (db\<lparr>communities := cs\<rparr>)" using db_okD(3) [OF ok(1)] by (simp add: stored_ok_def)
  moreover have "cm_community x \<noteq> 0 \<and> (\<exists>k. key_ids db k (cm_category x) (cm_service x))" if "x \<in> set cs" for x
  proof (cases "x = r")
    case True
    then have "\<exists>k. key_ids db k (cm_category x) (cm_service x)" using key by blast
    then show ?thesis using True r(1) by (simp add: word_neq_0_conv)
  next
    case False
    then have "x \<in> set (communities db)" using mem [OF that] by simp
    then show ?thesis using ok(2) by (simp add: communities_ok_def)
  qed
  then have "communities_ok (db\<lparr>communities := cs\<rparr>)"
    using ok(2) vals by (simp add: communities_ok_def named_services_def)
  ultimately show ?thesis by (simp add: db_ok_def)
qed

lemma upsert_community_ok:
  assumes ok: "db_ok db" "communities_ok db" and ins: "upsert_community r db = Inr db'"
    and key: "key_ids db k (cm_category r) (cm_service r)"
    and free: "\<forall>x \<in> set (communities db). cm_mode x = cm_mode r \<and> cm_community x = cm_community r \<longrightarrow> row_key x = row_key r"
  shows "db_ok db' \<and> communities_ok db' \<and> (\<exists>cs. db' = db\<lparr>communities := cs\<rparr> \<and>
    (\<forall>x. x \<in> set cs \<longleftrightarrow> x = r \<or> x \<in> set (communities db) \<and> row_key x \<noteq> row_key r))"
proof -
  have r: "0 < cm_community r" "cm_mode r \<in> mode_ids db" "cm_category r \<in> category_ids db"
    using ins by (auto simp: upsert_community_def)
  have dist: "distinct (map row_key (communities db))" "distinct (map (\<lambda>r. (cm_mode r, cm_community r)) (communities db))"
    using ok by (auto simp: db_ok_def keys_ok_def communities_ok_def)
  show ?thesis
  proof (cases "row_key r \<in> set (map row_key (communities db))")
    case True
    let ?cs = "map (\<lambda>y. if row_key y = row_key r then r else y) (communities db)"
    have db': "db' = db\<lparr>communities := ?cs\<rparr>" using ins True by (auto simp: upsert_community_def)
    have mem: "x \<in> set ?cs \<longleftrightarrow> x = r \<or> x \<in> set (communities db) \<and> row_key x \<noteq> row_key r" for x
      using True by auto
    have keys: "map row_key ?cs = map row_key (communities db)" by simp
    have one: "x = y" if "x \<in> set (communities db)" "y \<in> set (communities db)" "row_key x = row_key r" "row_key y = row_key r" for x y
    proof -
      have "inj_on row_key (set (communities db))" using dist(1) by (simp only: distinct_map)
      then show ?thesis by (rule inj_onD) (use that in simp_all)
    qed
    have vals: "distinct (map (\<lambda>r. (cm_mode r, cm_community r)) ?cs)"
      by (rule distinct_map_if [OF dist(2)]) (use free one in auto)
    have "distinct (map row_key ?cs)" using dist(1) keys by argo
    then have "db_ok db' \<and> communities_ok db'"
      unfolding db' using vals mem r key by (intro communities_table_ok [OF ok]) blast+
    then show ?thesis using db' mem by blast
  next
    case False
    have db': "db' = db\<lparr>communities := communities db @ [r]\<rparr>" using ins False by (auto simp: upsert_community_def)
    have "(cm_mode r, cm_community r) \<notin> set (map (\<lambda>r. (cm_mode r, cm_community r)) (communities db))"
      using free False by (auto simp: image_iff)
    then have "db_ok db' \<and> communities_ok db'"
      unfolding db' using dist False r key by (intro communities_table_ok [OF ok]) auto
    moreover have "row_key x \<noteq> row_key r" if "x \<in> set (communities db)" for x
      using False imageI [OF that, of row_key] by (metis list.set_map)
    then have "x \<in> set (communities db @ [r]) \<longleftrightarrow> x = r \<or> x \<in> set (communities db) \<and> row_key x \<noteq> row_key r" for x
      by auto
    ultimately show ?thesis using db' by blast
  qed
qed

text \<open>C15: setting the value of an existing category or service is refused when another name of the mode has the
  value or the value is 0; otherwise the name gets the value, every other assignment stays, and the table
  stays consistent.\<close>

theorem setCommunity_exact:
  assumes ok: "db_ok db" "communities_ok db" "m \<in> mode_ids db" and key: "key_ids db k c s"
  shows "if \<exists>k'. k' \<noteq> k \<and> assigned db m k' v then setCommunity m (fst k) (snd k) v db = fail (DuplicateCommunity v)
    else if v = 0 then setCommunity m (fst k) (snd k) v db = fail DbError
    else \<exists>db'. setCommunity m (fst k) (snd k) v db = Inr db' \<and> db_ok db' \<and> communities_ok db' \<and>
      (\<forall>m' k' u. assigned db' m' k' u \<longleftrightarrow> (if m' = m \<and> k' = k then u = v else assigned db m' k' u))"
proof -
  have ks: "keys_ok db" "named_services db" using ok by (simp_all add: db_ok_def communities_ok_def)
  note res = resolve_existing [OF ok(1,2) key]
  let ?r = "\<lparr>cm_mode = m, cm_category = c, cm_service = s, cm_community = v\<rparr>"
  have other: "(\<exists>r \<in> set (communities db). cm_mode r = m \<and> cm_community r = v \<and> \<not> (cm_category r = c \<and> cm_service r = s)) \<longleftrightarrow>
      (\<exists>k'. k' \<noteq> k \<and> assigned db m k' v)"
  proof
    assume "\<exists>r \<in> set (communities db). cm_mode r = m \<and> cm_community r = v \<and> \<not> (cm_category r = c \<and> cm_service r = s)"
    then obtain r where r: "r \<in> set (communities db)" "cm_mode r = m" "cm_community r = v" "\<not> (cm_category r = c \<and> cm_service r = s)" by blast
    obtain k' where k': "key_ids db k' (cm_category r) (cm_service r)" using ok(2) r(1) by (auto simp: communities_ok_def)
    have "k' \<noteq> k" using key_ids_ids [OF ks(1) key] k' r(4) by blast
    then show "\<exists>k'. k' \<noteq> k \<and> assigned db m k' v" using r k' unfolding assigned_def by blast
  next
    assume "\<exists>k'. k' \<noteq> k \<and> assigned db m k' v"
    then show "\<exists>r \<in> set (communities db). cm_mode r = m \<and> cm_community r = v \<and> \<not> (cm_category r = c \<and> cm_service r = s)"
      using key_ids_names [OF ks key] unfolding assigned_def by blast
  qed
  consider "\<exists>k'. k' \<noteq> k \<and> assigned db m k' v" | "\<nexists>k'. k' \<noteq> k \<and> assigned db m k' v" "v = 0"
    | "\<nexists>k'. k' \<noteq> k \<and> assigned db m k' v" "v \<noteq> 0" by blast
  then show ?thesis
  proof cases
    case 1
    then show ?thesis using res other by (auto simp: setCommunity_def)
  next
    case 2
    then show ?thesis using res other by (auto simp: setCommunity_def upsert_community_def guardE_def)
  next
    case 3
    then have no: "\<not> (\<exists>r \<in> set (communities db). cm_mode r = m \<and> cm_community r = v \<and> \<not> (cm_category r = c \<and> cm_service r = s))"
      using other by blast
    have c: "c \<in> category_ids db" using key by (auto simp: key_ids_def)
    then obtain db' where ins: "upsert_community ?r db = Inr db'"
      using 3(2) ok(3) by (simp add: upsert_community_def guardE_def word_neq_0_conv del: set_map)
    then have set: "setCommunity m (fst k) (snd k) v db = Inr db'" using res no by (simp add: setCommunity_def)
    have free: "\<forall>x \<in> set (communities db). cm_mode x = cm_mode ?r \<and> cm_community x = cm_community ?r \<longrightarrow> row_key x = row_key ?r"
      using no by auto
    obtain cs where cs: "db_ok db'" "communities_ok db'" "db' = db\<lparr>communities := cs\<rparr>"
      "\<forall>x. x \<in> set cs \<longleftrightarrow> x = ?r \<or> x \<in> set (communities db) \<and> row_key x \<noteq> row_key ?r"
      using upsert_community_ok [OF ok(1,2) ins _ free, of k] key by auto
    have keyeq: "key_ids db k' c s \<longleftrightarrow> k' = k" for k' using key_ids_names [OF ks key] key by blast
    have keys': "key_ids db' k' a b \<longleftrightarrow> key_ids db k' a b" for k' a b by (simp add: cs(3) key_ids_def)
    have "assigned db' m' k' u \<longleftrightarrow> (if m' = m \<and> k' = k then u = v else assigned db m' k' u)" for m' k' u
    proof (cases "m' = m \<and> k' = k")
      case True
      have val: "cm_community x = v" if "x \<in> set cs" "cm_mode x = m" "key_ids db k (cm_category x) (cm_service x)" for x
        using that cs(4) key_ids_ids [OF ks(1) key that(3)] by auto
      have new: "?r \<in> set cs" using cs(4) by simp
      have "assigned db' m k u \<longleftrightarrow> (\<exists>x \<in> set cs. cm_mode x = m \<and> cm_community x = u \<and> key_ids db k (cm_category x) (cm_service x))"
        unfolding assigned_def keys' by (simp add: cs(3))
      also have "\<dots> \<longleftrightarrow> u = v" using val new key by (intro iffI) (blast, intro bexI [OF _ new], simp)
      finally have "assigned db' m k u \<longleftrightarrow> u = v" .
      then show ?thesis using True by simp
    next
      case False
      have "x \<in> set cs \<longleftrightarrow> x \<in> set (communities db)" if "cm_mode x = m'" "key_ids db k' (cm_category x) (cm_service x)" for x
      proof -
        have "row_key x \<noteq> (m, c, s)" using False that keyeq [of k'] by auto
        then show ?thesis using cs(4) by auto
      qed
      then have "assigned db' m' k' u \<longleftrightarrow> assigned db m' k' u" unfolding assigned_def keys' by (auto simp: cs(3))
      then show ?thesis using False by auto
    qed
    then show ?thesis using 3 set cs(1,2) by auto
  qed
qed

theorem setCommunity_exact_witness:
  "(\<exists>db'. setCommunity 4 ''video'' [] 9 two_values_db = Inr db' \<and> assigned db' 4 (''video'', []) 9) \<and>
    setCommunity 4 ''video'' [] 7 two_values_db = fail (DuplicateCommunity 7)"
proof -
  have no: "\<not> assigned two_values_db 4 k 9" for k by (auto simp: assigned_def two_values_db_def)
  show ?thesis
    using setCommunity_exact [OF two_values(1,2,6,5), of 9] setCommunity_exact [OF two_values(1,2,6,5), of 7] no two_values(4)
    by (auto split: if_splits)
qed

end
