(* ===== verification/Store_Reset.thy ===== *)
theory Store_Reset
  imports Store_Assign
begin

text \<open>
  The digest that guards a reset of community values: its input can be read back in one way only, so a reset
  that is carried out with the digest of a preview makes the changes that were shown.
\<close>

section \<open>Reading numbers back\<close>

lemma dec_val_of_digit: "d < 10 \<Longrightarrow> dec_val (digit_char d) = Some d"
  by (simp add: dec_val_def digit_char_def)

lemma dec_string_dec: "c \<in> set (dec_string n) \<Longrightarrow> dec_val c \<noteq> None"
  using dec_string_digits [of c n] dec_val_of_digit by auto

definition dec_value :: "string \<Rightarrow> nat" where
  "dec_value s = foldl (\<lambda>n c. n * 10 + the (dec_val c)) 0 s"

lemma dec_value_string: "dec_value (dec_string n) = n"
proof (induction n rule: dec_string.induct)
  case (1 n)
  show ?case
  proof (cases "n < 10")
    case True
    then show ?thesis by (simp add: dec_string.simps [of n] dec_value_def dec_val_of_digit)
  next
    case False
    have "dec_value (dec_string n) = dec_value (dec_string (n div 10)) * 10 + n mod 10"
      using False by (simp add: dec_string.simps [of n] dec_value_def dec_val_of_digit)
    then show ?thesis using 1 [OF False] by simp
  qed
qed

abbreviation no_digit :: "string \<Rightarrow> bool" where
  "no_digit s \<equiv> s = [] \<or> dec_val (hd s) = None"

lemma digits_end:
  assumes "no_digit x" shows "takeWhile (\<lambda>c. dec_val c \<noteq> None) (dec_string n @ x) = dec_string n"
proof -
  have "takeWhile (\<lambda>c. dec_val c \<noteq> None) (dec_string n @ x) = dec_string n @ takeWhile (\<lambda>c. dec_val c \<noteq> None) x"
    by (rule takeWhile_append2) (rule dec_string_dec)
  also have "takeWhile (\<lambda>c. dec_val c \<noteq> None) x = []" using assms by (cases x) auto
  finally show ?thesis by simp
qed

text \<open>A number ends where the digits end.\<close>

lemma number_unique:
  assumes "dec_string n @ x = dec_string n' @ x'" "no_digit x" "no_digit x'"
  shows "n = n' \<and> x = x'"
proof -
  have s: "dec_string n = dec_string n'" using digits_end [OF assms(2), of n] digits_end [OF assms(3), of n'] assms(1) by simp
  then have "n = n'" using dec_value_string by metis
  then show ?thesis using assms(1) s by simp
qed

lemma separators [simp]: "dec_val CHR '':'' = None" "dec_val CHR ''-'' = None" "dec_val newline = None"
  by (simp_all add: dec_val_def newline_def)

text \<open>A string after its length ends there.\<close>

lemma framed_unique:
  assumes "dec_string (length s) @ '':'' @ s @ x = dec_string (length s') @ '':'' @ s' @ x'"
  shows "s = s' \<and> x = x'"
proof -
  have "length s = length s' \<and> '':'' @ s @ x = '':'' @ s' @ x'" by (rule number_unique [OF assms]) simp_all
  then show ?thesis by auto
qed

section \<open>The input of the digest\<close>

abbreviation row_values :: "community \<Rightarrow> (string \<times> string) \<times> u32" where
  "row_values c \<equiv> (community_key c, cy_Community c)"

lemma digest_row_unique:
  assumes "digest_row c @ x = digest_row c' @ x'" shows "row_values c = row_values c' \<and> x = x'"
proof -
  have c: "cy_Category c = cy_Category c' \<and>
      dec_string (length (cy_Service c)) @ '':'' @ cy_Service c @ dec_string (unat (cy_Community c)) @ newline # x =
      dec_string (length (cy_Service c')) @ '':'' @ cy_Service c' @ dec_string (unat (cy_Community c')) @ newline # x'"
    by (rule framed_unique) (use assms in \<open>simp add: digest_row_def\<close>)
  have s: "cy_Service c = cy_Service c' \<and>
      dec_string (unat (cy_Community c)) @ newline # x = dec_string (unat (cy_Community c')) @ newline # x'"
    by (rule framed_unique) (use c in simp)
  have "unat (cy_Community c) = unat (cy_Community c') \<and> newline # x = newline # x'"
    by (rule number_unique) (use s in simp_all)
  then show ?thesis using c s by (simp add: word_unat_eq_iff)
qed

lemma digest_row_digit: "\<exists>d t. digest_row c @ x = d # t \<and> dec_val d \<noteq> None"
proof -
  obtain d t where "dec_string (length (cy_Category c)) = d # t" by (cases "dec_string (length (cy_Category c))") auto
  then show ?thesis using dec_string_dec [of d "length (cy_Category c)"] by (simp add: digest_row_def)
qed

lemma digest_rows_Cons: "digest_rows (c # rows) @ x = digest_row c @ digest_rows rows @ x"
  by (simp add: digest_rows_def)

lemma digest_rows_unique:
  "digest_rows rows @ x = digest_rows rows' @ x' \<Longrightarrow> map row_values rows = map row_values rows' \<and> x = x'"
proof (induction rows arbitrary: rows')
  case Nil
  then show ?case
  proof (cases rows')
    case (Cons c' rs)
    then show ?thesis using Nil digest_row_digit [of c' "digest_rows rs @ x'"]
      unfolding Cons digest_rows_Cons by (auto simp: digest_rows_def)
  qed (simp add: digest_rows_def)
next
  case (Cons c rows)
  show ?case
  proof (cases rows')
    case Nil
    then show ?thesis using Cons.prems digest_row_digit [of c "digest_rows rows @ x"]
      unfolding Nil digest_rows_Cons by (auto simp: digest_rows_def)
  next
    case (Cons c' rs)
    then have "row_values c = row_values c' \<and> digest_rows rows @ x = digest_rows rs @ x'"
      using Cons.prems by (intro digest_row_unique) (simp add: digest_rows_Cons)
    then show ?thesis using Cons.IH [of rs] Cons by simp
  qed
qed

lemma int_string_unique:
  assumes "int_string i @ x = int_string j @ y" "no_digit x" "no_digit y" shows "i = j \<and> x = y"
proof -
  have hd: "dec_string n @ u \<noteq> CHR ''-'' # t" for n u t
  proof
    assume e: "dec_string n @ u = CHR ''-'' # t"
    then have "hd (dec_string n) = CHR ''-''" by (metis append_is_Nil_conv dec_string_nonempty hd_append2 list.sel(1))
    then have "CHR ''-'' \<in> set (dec_string n)" by (metis dec_string_nonempty hd_in_set)
    then show False using dec_string_dec [of "CHR ''-''" n] by simp
  qed
  consider "i < 0" "j < 0" | "i < 0" "0 \<le> j" | "0 \<le> i" "j < 0" | "0 \<le> i" "0 \<le> j" by linarith
  then show ?thesis
  proof cases
    case 1
    then have "nat (- i) = nat (- j) \<and> x = y" using assms by (intro number_unique) (simp_all add: int_string_def)
    then show ?thesis using 1 by linarith
  next
    case 2
    then show ?thesis using assms(1) hd [of "nat j" y] by (simp add: int_string_def) (metis append_Cons)
  next
    case 3
    then show ?thesis using assms(1) hd [of "nat i" x] by (simp add: int_string_def)
  next
    case 4
    then have "nat i = nat j \<and> x = y" using assms by (intro number_unique) (simp_all add: int_string_def)
    then show ?thesis using 4 by linarith
  qed
qed

text \<open>The bytes that are hashed determine the mode and both lists of assignments, whatever bytes the names contain.\<close>

lemma digest_input_injective:
  "digest_input m old new = digest_input m' old' new' \<longleftrightarrow>
     m = m' \<and> map row_values old = map row_values old' \<and> map row_values new = map row_values new'"
proof
  assume "digest_input m old new = digest_input m' old' new'"
  then have m: "m = m' \<and> newline # digest_rows old @ digest_rows new = newline # digest_rows old' @ digest_rows new'"
    by (intro int_string_unique) (simp_all add: digest_input_def)
  then have o: "map row_values old = map row_values old' \<and> digest_rows new = digest_rows new'"
    by (intro digest_rows_unique) simp
  then show "m = m' \<and> map row_values old = map row_values old' \<and> map row_values new = map row_values new'"
    using m digest_rows_unique [of new "[]" new' "[]"] by simp
next
  have rows: "digest_rows rs = digest_rows rs'" if "map row_values rs = map row_values rs'" for rs rs'
  proof -
    have "map digest_row rs = map digest_row rs'"
      using that
    proof (induction rs rs' rule: list_induct2')
      case (4 c rs c' rs')
      then show ?case by (simp add: digest_row_def)
    qed simp_all
    then show ?thesis by (simp add: digest_rows_def)
  qed
  assume "m = m' \<and> map row_values old = map row_values old' \<and> map row_values new = map row_values new'"
  then show "digest_input m old new = digest_input m' old' new'"
    using rows [of old old'] rows [of new new'] by (simp add: digest_input_def)
qed

section \<open>Previews\<close>

text \<open>The changes that are shown depend on the hashed values only.\<close>

lemma community_value_values:
  assumes "map row_values rows = map row_values rows'"
  shows "community_value rows k = community_value rows' k"
proof -
  have pairs: "map_option cy_Community (community_map rs k) = map_of (rev (map row_values rs)) k" for rs
  proof (induction rs rule: rev_induct)
    case (snoc c rs)
    then show ?case by (simp add: community_map_def)
  qed (simp add: community_map_def)
  have val: "community_value rs k = (case map_of (rev (map row_values rs)) k of None \<Rightarrow> 0 | Some v \<Rightarrow> v)" for rs
    unfolding pairs [of rs, symmetric] by (simp add: community_value_def split: option.split)
  show ?thesis by (simp only: val assms)
qed

lemma diffCommunities_values:
  assumes "map row_values old = map row_values old'" "map row_values new = map row_values new'"
  shows "diffCommunities old new = diffCommunities old' new'"
proof -
  have keys: "map community_key rs = map fst (map row_values rs)" for rs by simp
  show ?thesis
    unfolding diffCommunities_def Let_def keys assms community_value_values [OF assms(1)] community_value_values [OF assms(2)] ..
qed

lemma ResetCommunities_done:
  assumes "ResetCommunities sha_hex m d db = Some (Inr (db1, old, new, n))"
  shows "generated m db (clear_communities m db) = Some (Inr (db1, old, new, n))" "communityResetDigest sha_hex m old new = d"
  using assms by (auto simp: ResetCommunities_def bindL_def fail_def split: option.splits sum.splits if_splits)

text \<open>C16: a reset that is carried out with the digest of a preview is for the mode of the preview and makes exactly the
  changes that were shown, unless the two hashed inputs are a collision of SHA-256; with the database
  unchanged it is carried out.\<close>

theorem reset_applies_preview:
  assumes preview: "PreviewCommunityReset sha_hex m db = Some (Inr (changes, d))"
    and trial: "generated m db (clear_communities m db) = Some (Inr (db2, old, new, n))"
  shows "ResetCommunities sha_hex m d db = Some (Inr (db2, old, new, n)) \<and>
    (\<forall>m' db' db1 old' new' n'. ResetCommunities sha_hex m' d db' = Some (Inr (db1, old', new', n')) \<longrightarrow>
      (m' = m \<and> old' = communityRows db' m \<and> new' = communityRows db1 m \<and> diffCommunities old' new' = changes) \<or>
      digest_input m' old' new' \<noteq> digest_input m old new \<and> sha_hex (digest_input m' old' new') = sha_hex (digest_input m old new))"
proof -
  have changes: "changes = diffCommunities old new" and d: "d = communityResetDigest sha_hex m old new"
    using preview trial by (auto simp: PreviewCommunityReset_def bindL_def)
  have "(m' = m \<and> old' = communityRows db' m \<and> new' = communityRows db1 m \<and> diffCommunities old' new' = changes) \<or>
      digest_input m' old' new' \<noteq> digest_input m old new \<and> sha_hex (digest_input m' old' new') = sha_hex (digest_input m old new)"
    if reset: "ResetCommunities sha_hex m' d db' = Some (Inr (db1, old', new', n'))" for m' db' db1 old' new' n'
  proof (cases "digest_input m' old' new' = digest_input m old new")
    case True
    then have same: "m' = m" "map row_values old' = map row_values old" "map row_values new' = map row_values new"
      by (simp_all only: digest_input_injective)
    have "old' = communityRows db' m'" "new' = communityRows db1 m'"
      using ResetCommunities_done(1) [OF reset]
      by (auto simp: generated_def bindL_def split: option.splits sum.splits)
    then show ?thesis using same diffCommunities_values [OF same(2,3)] changes by simp
  next
    case False
    then show ?thesis using ResetCommunities_done(2) [OF reset] d by (simp add: communityResetDigest_def)
  qed
  moreover have "ResetCommunities sha_hex m d db = Some (Inr (db2, old, new, n))"
    using trial d by (simp add: ResetCommunities_def bindL_def)
  ultimately show ?thesis by blast
qed


abbreviation fresh_values_db :: db where
  "fresh_values_db \<equiv> two_values_db\<lparr>communities := [\<lparr>cm_mode = 4, cm_category = 1, cm_service = 0, cm_community = 10000\<rparr>,
     \<lparr>cm_mode = 4, cm_category = 1, cm_service = 1, cm_community = 10001\<rparr>]\<rparr>"

lemma two_values_trial:
  "generated 4 two_values_db (clear_communities 4 two_values_db) =
     Some (Inr (fresh_values_db, communityRows two_values_db 4, communityRows fresh_values_db 4, 2))"
proof -
  let ?db = "clear_communities 4 two_values_db"
  have "mode_pairs ?db 4 = [(''video'', ''tube'')]"
    by (simp add: mode_pairs_def clear_communities_def two_values_db_def sample_db_def)
  moreover have "joined_rows ?db 4 = []" by (simp add: joined_rows_def clear_communities_def two_values_db_def)
  ultimately show ?thesis
    by (simp add: generated_def genCommunitiesRuntime_def gen_mode_def gen_category_def gen_group_def gen_service_def
        gen_insert_def insert_community_def bindL_def known_communities_def findFirstFree_start ensure_pair_def
        EnsureCategoryID_def EnsureServiceID_def insert_category_def insert_service_def clear_communities_def
        two_values_db_def sample_db_def guardE_def bindE_def)
qed

theorem reset_applies_preview_witness:
  "\<exists>changes d. PreviewCommunityReset id 4 two_values_db = Some (Inr (changes, d)) \<and>
    ResetCommunities id 4 d two_values_db = Some (Inr (fresh_values_db, communityRows two_values_db 4, communityRows fresh_values_db 4, 2))"
proof -
  have "PreviewCommunityReset id 4 two_values_db =
      Some (Inr (diffCommunities (communityRows two_values_db 4) (communityRows fresh_values_db 4),
        communityResetDigest id 4 (communityRows two_values_db 4) (communityRows fresh_values_db 4)))"
    by (simp only: PreviewCommunityReset_def two_values_trial bindL_def option.case sum.case prod.case)
  from reset_applies_preview [OF this two_values_trial] this show ?thesis by blast
qed

end
