(* ===== verification/Store_Invariant.thy ===== *)
theory Store_Invariant
  imports Store_Reset
begin

text \<open>
  The writing operations of the store as a step relation. A step is a transaction that is committed; one that
  fails leaves the database as it was. Every database that the operations reach from an empty one is intact
  and its materialised entries stand for the merge of the feeds.
\<close>

section \<open>Community values\<close>

lemma kept_communities:
  assumes "keys_ok db \<Longrightarrow> distinct (map row_key cs)"
    and "refs_ok db \<Longrightarrow> \<forall>r \<in> set cs. cm_mode r \<in> mode_ids db \<and> cm_category r \<in> category_ids db"
  shows "kept db (db\<lparr>communities := cs\<rparr>)"
proof -
  let ?d = "db\<lparr>communities := cs\<rparr>"
  have "keys_ok ?d" if "keys_ok db" using that assms(1) [OF that] by (simp add: keys_ok_def)
  moreover have "refs_ok ?d" if "refs_ok db" using that assms(2) [OF that] by (simp add: refs_ok_def)
  moreover have "stored_ok ?d" if "stored_ok db" using that by (simp add: stored_ok_def)
  ultimately show ?thesis by (simp add: kept_def same_catalogue_def db_ok_def)
qed

lemma filter_communities_kept: "kept db (db\<lparr>communities := filter P (communities db)\<rparr>)"
  by (rule kept_communities) (auto simp: keys_ok_def refs_ok_def distinct_map_filter)

lemma upsert_community_kept:
  assumes "upsert_community r db = Inr db'" shows "kept db db'"
proof -
  have r: "cm_mode r \<in> mode_ids db" "cm_category r \<in> category_ids db"
    using assms by (auto simp: upsert_community_def)
  show ?thesis
  proof (cases "row_key r \<in> set (map row_key (communities db))")
    case True
    have "map row_key (map (\<lambda>x. if row_key x = row_key r then r else x) (communities db)) = map row_key (communities db)" by simp
    then have "kept db (db\<lparr>communities := map (\<lambda>x. if row_key x = row_key r then r else x) (communities db)\<rparr>)"
      using r by (intro kept_communities) (auto simp: keys_ok_def refs_ok_def simp del: map_map)
    then show ?thesis using assms True by (simp add: upsert_community_def del: set_map)
  next
    case False
    then have "kept db (db\<lparr>communities := communities db @ [r]\<rparr>)"
      using r by (intro kept_communities) (auto simp: keys_ok_def refs_ok_def)
    then show ?thesis using assms False by (simp add: upsert_community_def del: set_map)
  qed
qed

lemma insert_community_kept:
  assumes "insert_community r db = Inr db'" shows "kept db db'"
proof (cases "row_key r \<in> set (map row_key (communities db)) \<or> cm_community r = 0")
  case True
  then show ?thesis using assms by (auto simp: insert_community_def)
next
  case False
  then have r: "cm_mode r \<in> mode_ids db" "cm_category r \<in> category_ids db" "db' = db\<lparr>communities := communities db @ [r]\<rparr>"
    using assms by (auto simp: insert_community_def)
  show ?thesis unfolding r(3) using r(1,2) False by (intro kept_communities) (auto simp: keys_ok_def refs_ok_def)
qed

lemma resolveCommunityKey_kept:
  assumes "db_ok db" "resolveCommunityKey db c s = Inr (db', ids)" shows "kept db db'"
proof -
  obtain d1 i where d1: "EnsureCategoryID db c = Inr (d1, i)" and rest: "db' = d1 \<or> (\<exists>j. EnsureServiceID d1 c s = Inr (db', j))"
    using assms(2) by (cases ids) (auto simp: resolveCommunityKey_def bindE_eq_Inr_iff split: if_splits)
  note k = EnsureCategoryID_kept [OF assms(1) d1]
  then show ?thesis using rest EnsureServiceID_kept [OF kept_ok [OF assms(1) k]] kept_trans by blast
qed

lemma setCommunity_kept:
  assumes "db_ok db" "setCommunity m c s v db = Inr db'" shows "kept db db'"
proof -
  obtain d1 i j where "resolveCommunityKey db c s = Inr (d1, i, j)"
      "upsert_community \<lparr>cm_mode = m, cm_category = i, cm_service = j, cm_community = v\<rparr> d1 = Inr db'"
    using assms(2) by (auto simp: setCommunity_def bindE_eq_Inr_iff fail_def split: if_splits)
  then show ?thesis using resolveCommunityKey_kept [OF assms(1)] upsert_community_kept kept_trans by blast
qed

lemma deleteCommunity_kept:
  assumes "db_ok db" "deleteCommunity m c s db = Inr db'" shows "kept db db'"
proof -
  obtain d1 i j where d1: "resolveCommunityKey db c s = Inr (d1, i, j)"
      "db' = d1\<lparr>communities := filter (\<lambda>r. row_key r \<noteq> (m, i, j)) (communities d1)\<rparr>"
    using assms(2) by (auto simp: deleteCommunity_def bindE_eq_Inr_iff)
  have "kept d1 db'" unfolding d1(2) by (rule filter_communities_kept)
  with resolveCommunityKey_kept [OF assms(1) d1(1)] show ?thesis by (rule kept_trans)
qed

lemma set_or_clear_kept: "db_ok db \<Longrightarrow> set_or_clear m db u = Inr db' \<Longrightarrow> kept db db'"
  using setCommunity_kept deleteCommunity_kept by (simp add: set_or_clear_def split: if_splits)

text \<open>Generation: what holds of the database in the state of a loop.\<close>

lemma foldL_kept:
  assumes "foldL f s xs = Some (Inr s')" "db_ok (g s)"
    and "\<And>t x t'. db_ok (g t) \<Longrightarrow> f t x = Some (Inr t') \<Longrightarrow> kept (g t) (g t')"
  shows "kept (g s) (g s')"
  using assms(1,2)
proof (induction xs arbitrary: s)
  case (Cons x xs)
  obtain t where t: "f s x = Some (Inr t)" "foldL f t xs = Some (Inr s')"
    using Cons.prems(1) by (auto simp: bindL_def split: option.splits sum.splits)
  note k = assms(3) [OF Cons.prems(2) t(1)]
  show ?case by (rule kept_trans [OF k Cons.IH [OF t(2) kept_ok [OF Cons.prems(2) k]]])
qed simp

lemma gen_insert_kept:
  assumes "gen_insert m c s v st db = Some (Inr st')" shows "kept db (gs_db st')"
  using assms insert_community_kept by (auto simp: gen_insert_def bindE_eq_Inr_iff)

lemma ensure_pair_kept:
  assumes "db_ok db" "ensure_pair db c s = Inr (db', ids)" shows "kept db db'"
proof -
  obtain d1 i where d1: "EnsureCategoryID db c = Inr (d1, i)" and rest: "\<exists>j. EnsureServiceID d1 c s = Inr (db', j)"
    using assms(2) by (auto simp: ensure_pair_def bindE_eq_Inr_iff)
  note k = EnsureCategoryID_kept [OF assms(1) d1]
  then show ?thesis using rest EnsureServiceID_kept [OF kept_ok [OF assms(1) k]] kept_trans by blast
qed

lemma gen_group_kept:
  assumes "db_ok (gs_db st)" "gen_group m known i c st = Some (Inr (st', v))" shows "kept (gs_db st) (gs_db st')"
  using assms(2) EnsureCategoryID_kept [OF assms(1)] gen_insert_kept kept_trans
  by (fastforce simp: gen_group_def bindL_def split: option.splits sum.splits)

lemma gen_service_kept:
  assumes "db_ok (gs_db st)" "gen_service m known base c st s = Some (Inr st')" shows "kept (gs_db st) (gs_db st')"
  using assms(2) ensure_pair_kept [OF assms(1)] gen_insert_kept kept_trans
  by (fastforce simp: gen_service_def split: option.splits sum.splits if_splits)

lemma gen_category_kept:
  assumes "db_ok (gs_db st)" "gen_category m known pairs st x = Some (Inr st')" shows "kept (gs_db st) (gs_db st')"
proof -
  obtain st1 v where g: "gen_group m known (fst x) (snd x) st = Some (Inr (st1, v))"
    "foldL (gen_service m known v (snd x)) st1 (map snd (filter (\<lambda>(c, s). c = snd x) pairs)) = Some (Inr st')"
    using assms(2) by (auto simp: gen_category_def bindL_def split: option.splits sum.splits)
  note k = gen_group_kept [OF assms(1) g(1)]
  have "kept (gs_db st1) (gs_db st')"
    by (rule foldL_kept [where g = gs_db, OF g(2) kept_ok [OF assms(1) k] gen_service_kept])
  with k show ?thesis by (rule kept_trans)
qed

lemma gen_mode_kept:
  assumes "db_ok (fst s)" "gen_mode s m = Some (Inr s')" shows "kept (fst s) (fst s')"
proof -
  obtain st0 st xs where g: "foldL (gen_category m (known_communities (fst s) m) (mode_pairs (fst s) m)) st0 xs = Some (Inr st)"
    "gs_db st0 = fst s" "fst s' = gs_db st"
    using assms(2) by (auto simp: gen_mode_def Let_def bindL_def split: option.splits sum.splits)
  have "kept (gs_db st0) (gs_db st)"
    by (rule foldL_kept [where g = gs_db, OF g(1) _ gen_category_kept]) (use assms(1) g(2) in simp)
  then show ?thesis by (simp add: g(2,3))
qed

lemma genCommunitiesRuntime_kept:
  assumes "db_ok db" "genCommunitiesRuntime m db = Some (Inr (db', n))" shows "kept db db'"
proof -
  have "kept (fst (db, 0 :: nat)) (fst (db', n))"
    by (rule foldL_kept [where g = fst, OF assms(2) [unfolded genCommunitiesRuntime_def] _ gen_mode_kept]) (use assms(1) in simp)
  then show ?thesis by simp
qed

lemma generated_kept:
  assumes "db_ok db1" "generated m db db1 = Some (Inr (db2, x))" shows "kept db1 db2"
  using assms(2) genCommunitiesRuntime_kept [OF assms(1)]
  by (cases x) (auto simp: generated_def bindL_def split: option.splits sum.splits)

lemma SetCommunities_kept:
  assumes "db_ok db" "SetCommunities m us db = Some (Inr (db', x))" shows "kept db db'"
proof -
  obtain d1 where d1: "foldE (set_or_clear m) db us = Inr d1" "generated m db d1 = Some (Inr (db', x))"
    using assms(2) by (auto simp: SetCommunities_def bindL_def split: sum.splits)
  have k: "kept db d1" by (rule ok_foldE [OF d1(1) assms(1) set_or_clear_kept])
  then show ?thesis using generated_kept [OF kept_ok [OF assms(1) k] d1(2)] kept_trans by blast
qed

lemma ResetCommunities_kept:
  assumes "db_ok db" "ResetCommunities sha_hex m d db = Some (Inr (db', x))" shows "kept db db'"
proof -
  have k: "kept db (clear_communities m db)" unfolding clear_communities_def by (rule filter_communities_kept)
  have "generated m db (clear_communities m db) = Some (Inr (db', x))"
    using assms(2) ResetCommunities_done(1) by (cases x) blast
  then show ?thesis using generated_kept [OF kept_ok [OF assms(1) k]] k kept_trans by blast
qed

section \<open>Steps\<close>

inductive store_step :: "db \<Rightarrow> db \<Rightarrow> bool" where
  insert_entries: "InsertCatalogEntries f es db = Inr db' \<Longrightarrow> store_step db db'"
| feed_synced: "sync_feed feed version es now db = Inr db' \<Longrightarrow> store_step db db'"
| add_feed: "AddFeedWithMode feed m db = Inr (db', i) \<Longrightarrow> store_step db db'"
| update_feed: "UpdateFeed feed db = Inr (db', b) \<Longrightarrow> store_step db db'"
| delete_feed: "DeleteFeed i db = Inr db' \<Longrightarrow> store_step db db'"
| add_mode: "AddCatalogMode name en db = Inr (db', i) \<Longrightarrow> store_step db db'"
| save_mode: "SaveModeWithFeeds mode links db = Inr db' \<Longrightarrow> store_step db db'"
| update_mode: "UpdateCatalogMode mode db = Inr db' \<Longrightarrow> store_step db db'"
| delete_mode: "DeleteCatalogMode i db = Inr (db', moved) \<Longrightarrow> store_step db db'"
| link_feed: "AddFeedToMode m f ex db = Inr db' \<Longrightarrow> store_step db db'"
| unlink_feed: "RemoveFeedFromMode m f db = Inr db' \<Longrightarrow> store_step db db'"
| prune: "store_step db (fst (PruneOrphanPrefixes db))"
| add_user: "AddUser u db = Inr (db', i) \<Longrightarrow> store_step db db'"
| update_user: "UpdateUserWithRouteFilters u filters db = Inr (db', i) \<Longrightarrow> store_step db db'"
| delete_user: "DeleteUser i db = Inr db' \<Longrightarrow> store_step db db'"
| set_filters: "SetUserRouteFilters i fs db = Inr (db', x) \<Longrightarrow> store_step db db'"
| set_filter_config: "SetUserRouteFilterConfig i fmode fs db = Inr db' \<Longrightarrow> store_step db db'"
| set_filter_override: "SetUserFilterOverride i en db = Inr db' \<Longrightarrow> store_step db db'"
| switch_mode: "SetUserCatalogMode i m require db = Inr (db', j) \<Longrightarrow> store_step db db'"
| set_selection: "SetUserModeSelection i m cats svcs db = Inr db' \<Longrightarrow> store_step db db'"
| set_visible_selection: "SetVisibleUserModeSelection i m cats svcs db = Inr db' \<Longrightarrow> store_step db db'"
| save_selection: "SaveUserSelectionCounts i m switch toggled toggled' db = Inr (db', n) \<Longrightarrow> store_step db db'"
| save_settings: "store_step db (SaveSettings kvs db)"
| delete_setting: "store_step db (DeleteSetting k db)"
| set_communities: "SetCommunities m us db = Some (Inr (db', x)) \<Longrightarrow> store_step db db'"
| set_community: "setCommunity m c s v db = Inr db' \<Longrightarrow> store_step db db'"
| delete_community: "deleteCommunity m c s db = Inr db' \<Longrightarrow> store_step db db'"
| generate: "genCommunitiesRuntime m db = Some (Inr (db', n)) \<Longrightarrow> store_step db db'"
| reset: "ResetCommunities sha_hex m d db = Some (Inr (db', x)) \<Longrightarrow> store_step db db'"

lemmas catalogue_syncs = InsertCatalogEntries_sync sync_feed_sync AddFeedWithMode_sync UpdateFeed_sync DeleteFeed_sync
  AddCatalogMode_sync SaveModeWithFeeds_sync UpdateCatalogMode_sync DeleteCatalogMode_sync AddFeedToMode_sync
  RemoveFeedFromMode_sync PruneOrphanPrefixes_sync

lemmas operations_kept = AddUser_kept UpdateUserWithRouteFilters_kept DeleteUser_kept SetUserRouteFilters_kept
  SetUserRouteFilterConfig_kept SetUserFilterOverride_kept SetUserCatalogMode_kept SaveSettings_kept DeleteSetting_kept

lemma SetVisibleUserModeSelection_kept:
  "db_ok db \<Longrightarrow> SetVisibleUserModeSelection u m cats svcs db = Inr db' \<Longrightarrow> kept db db'"
  unfolding SetVisibleUserModeSelection_def by (rule SetUserModeSelection_kept)

lemmas operations_kept_ok = SetUserModeSelection_kept SetVisibleUserModeSelection_kept SaveUserSelectionCounts_kept SetCommunities_kept setCommunity_kept
  deleteCommunity_kept genCommunitiesRuntime_kept ResetCommunities_kept

lemma kept_step: "in_sync db \<Longrightarrow> (db_ok db \<Longrightarrow> kept db db') \<Longrightarrow> in_sync db'"
  by (rule kept_sync [of db]) (simp_all add: in_sync_def)

lemma store_step_sync:
  assumes "store_step db db'" "in_sync db" shows "in_sync db'"
  using assms
proof (induction rule: store_step.induct)
qed ((rule catalogue_syncs; assumption) | (rule kept_step, assumption, rule operations_kept operations_kept_ok; assumption))+

text \<open>The empty database: modes and adapters of the schema, nothing else.\<close>

definition empty_db :: "mode_row list \<Rightarrow> (int \<times> int) list \<Rightarrow> db" where
  "empty_db ms as = \<lparr>categories = [], services = [], prefix_rows = [], entries = [], mode_entries = [], modes = ms,
     adapters = as, feeds = [], mode_feeds = [], users = [], networks = [], selected_categories = [],
     selected_services = [], filter_rows = [], communities = [], settings = []\<rparr>"

lemma empty_db_sync:
  assumes "distinct (map md_id ms)" "distinct (map md_name ms)" shows "in_sync (empty_db ms as)"
proof -
  have "db_ok (empty_db ms as)"
    using assms by (simp add: db_ok_defs empty_db_def prefix_table_ok_def)
  moreover have "synced (empty_db ms as) m" for m
    by (simp add: synced_def materialised_def merged_def stored_def mode_entry_ids_def include_ids_def exclude_ids_def
        routable_def spans_def empty_db_def)
  ultimately show ?thesis by (simp add: in_sync_def)
qed

text \<open>C11: in every database that the operations of the store reach from an empty one, keys are unique, references lead to
  existing rows, stored prefixes are canonical, and in every mode every service stands for exactly the
  addresses of its enabled include feeds minus those of the enabled exclude feeds.\<close>

theorem store_operations_in_sync:
  assumes "store_step\<^sup>*\<^sup>* (empty_db ms as) db" "distinct (map md_id ms)" "distinct (map md_name ms)"
  shows "db_ok db \<and> (\<forall>m s. materialised db m s = merged db m s)"
proof -
  have "in_sync db"
    using assms(1) by (induction rule: rtranclp_induct) (use empty_db_sync assms store_step_sync in auto)
  then show ?thesis by (simp add: in_sync_def synced_def)
qed


definition first_feed_db :: db where
  "first_feed_db = (empty_db [\<lparr>md_id = 1, md_name = ''all'', md_enabled = True\<rparr>] [(1, 1)])\<lparr>
     feeds := [sample_feed 1 ''a''], mode_feeds := [\<lparr>mf_mode = 1, mf_feed = 1, mf_exclude = False\<rparr>],
     settings := [(''k'', ''v'')]\<rparr>"

theorem store_operations_in_sync_witness: "db_ok first_feed_db \<and> materialised first_feed_db 1 5 = merged first_feed_db 1 5"
proof -
  let ?e = "empty_db [\<lparr>md_id = 1, md_name = ''all'', md_enabled = True\<rparr>] [(1, 1)]"
  let ?d = "first_feed_db\<lparr>settings := []\<rparr>"
  have "AddFeedWithMode (sample_feed 0 ''a'') 1 ?e = Inr (?d, 1)"
    by (simp add: AddFeedWithMode_def addFeed_def feed_unique_def insert_mode_feed_def guardE_def bindE_def new_rowid_def
        first_feed_db_def empty_db_def sample_feed_def)
  then have "store_step ?e ?d" by (rule store_step.add_feed)
  moreover have "first_feed_db = SaveSettings [(''k'', ''v'')] ?d"
    by (simp add: SaveSettings_def SaveSetting_def first_feed_db_def)
  then have "store_step ?d first_feed_db" using store_step.save_settings [of ?d] by metis
  ultimately have "store_step\<^sup>*\<^sup>* ?e first_feed_db" by (meson converse_rtranclp_into_rtranclp rtranclp.rtrancl_refl)
  from store_operations_in_sync [OF this] show ?thesis by simp
qed

end
