(* ===== verification/Bgp_Md5_Keys.thy ===== *)
theory Bgp_Md5_Keys
  imports Tcp_Md5 Bgp_Peer Addr_Bits
begin

text \<open>
  \<open>internal/bgp/md5.go\<close> and \<open>nfqueue_md5.go\<close>: the TCP MD5 keys that the kernel holds for the listener, one per
  socket address, and the queue that finds the password of a dynamic peer from the signature of its SYN and
  installs a key for the source address. What system calls return is the environment of an operation.
\<close>

section \<open>Socket addresses\<close>

text \<open>\<open>unix.SockaddrStorage\<close>: the family and 118 bytes of data.\<close>

type_synonym sockaddr = "u16 \<times> byte list"

definition AF_INET :: u16 where "AF_INET = 2"
definition AF_INET6 :: u16 where "AF_INET6 = 10"

definition put_at :: "nat \<Rightarrow> byte list \<Rightarrow> byte list \<Rightarrow> byte list" where
  "put_at i bs xs = take i xs @ bs @ drop (i + length bs) xs"

definition buildSockaddrStorage :: "addr \<Rightarrow> u16 \<Rightarrow> sockaddr" where
  "buildSockaddrStorage a af =
     (let zeros = replicate 118 (0 :: byte) in
      if is4 a then
        (if af = AF_INET6 then (AF_INET6, put_at 18 (as_slice a) (put_at 16 [0xff, 0xff] zeros))
         else (AF_INET, put_at 2 (as_slice a) zeros))
      else (AF_INET6, put_at 6 (as_slice a) zeros))"

definition is_loopback :: "addr \<Rightarrow> bool" where
  "is_loopback a =
     (if is4 a then a_val a div 2 ^ 24 = 127
      else if a_val a div 2 ^ 32 = 0xffff then a_val a mod 2 ^ 32 div 2 ^ 24 = 127
      else a_val a = 1)"

definition is_unspecified :: "addr \<Rightarrow> bool" where
  "is_unspecified a \<longleftrightarrow> a_val a = 0"

section \<open>Keys\<close>

datatype md5_key_error = NotSyscallConn | SyscallConnFailed | ControlFailed | DifferentPasswords addr
  | PasswordTooLong nat | GetsocknameFailed | UnknownFamily | SetsockoptFailed

text \<open>
  The environment: what the listener gives for its file descriptor, the family of the socket, and whether
  \<open>setsockopt\<close> succeeds for a socket address with a key, the empty key being the one that deletes.
\<close>

datatype raw_conn = NoConn | ConnFails | ControlFails | Fd

record md5_env =
  me_raw :: raw_conn
  me_family :: "(md5_key_error, u16) result"
  me_setsockopt :: "sockaddr \<Rightarrow> byte list \<Rightarrow> bool"

type_synonym kernel_keys = "sockaddr \<rightharpoonup> byte list"

definition maxMD5KeyLen :: nat where "maxMD5KeyLen = 80"

text \<open>Each operation returns the keys it leaves, whether it succeeds or not.\<close>

type_synonym key_result = "kernel_keys \<times> (md5_key_error, unit) result"

definition SetsockoptTCPMD5Sig :: "md5_env \<Rightarrow> sockaddr \<Rightarrow> byte list \<Rightarrow> kernel_keys \<Rightarrow> key_result" where
  "SetsockoptTCPMD5Sig env sa key keys =
     (if \<not> me_setsockopt env sa key then (keys, fail SetsockoptFailed)
      else (keys(sa := (if key = [] then None else Some key)), Inr ()))"

definition setTCPMD5OnFd :: "md5_env \<Rightarrow> addr \<Rightarrow> byte list \<Rightarrow> kernel_keys \<Rightarrow> key_result" where
  "setTCPMD5OnFd env a password keys =
     (if password = [] \<or> is_loopback a then (keys, Inr ())
      else if maxMD5KeyLen < length password then (keys, fail (PasswordTooLong (length password)))
      else case me_family env of
        Inl e \<Rightarrow> (keys, Inl e)
      | Inr af \<Rightarrow> SetsockoptTCPMD5Sig env (buildSockaddrStorage a af) password keys)"

definition clearTCPMD5OnFd :: "md5_env \<Rightarrow> addr \<Rightarrow> kernel_keys \<Rightarrow> key_result" where
  "clearTCPMD5OnFd env a keys =
     (if is_loopback a then (keys, Inr ())
      else case me_family env of
        Inl e \<Rightarrow> (keys, Inl e)
      | Inr af \<Rightarrow> SetsockoptTCPMD5Sig env (buildSockaddrStorage a af) [] keys)"

definition keyless :: "peer_config \<Rightarrow> bool" where
  "keyless pc \<longleftrightarrow> pc_Password pc = [] \<or> is_loopback (pc_Address pc) \<or> is_unspecified (pc_Address pc)"

text \<open>The address of the first peer whose password differs from that of an earlier peer there.\<close>

fun password_conflict :: "(addr \<rightharpoonup> byte list) \<Rightarrow> peer_config list \<Rightarrow> addr option" where
  "password_conflict seen [] = None"
| "password_conflict seen (pc # pcs) =
     (if keyless pc then password_conflict seen pcs
      else case seen (pc_Address pc) of
        None \<Rightarrow> password_conflict (seen(pc_Address pc \<mapsto> pc_Password pc)) pcs
      | Some pw \<Rightarrow> if pw \<noteq> pc_Password pc then Some (pc_Address pc) else password_conflict seen pcs)"

fun set_keys :: "md5_env \<Rightarrow> peer_config list \<Rightarrow> kernel_keys \<Rightarrow> key_result" where
  "set_keys env [] keys = (keys, Inr ())"
| "set_keys env (pc # pcs) keys =
     (if keyless pc then set_keys env pcs keys
      else case setTCPMD5OnFd env (pc_Address pc) (pc_Password pc) keys of
        (keys', Inl e) \<Rightarrow> (keys', Inl e)
      | (keys', Inr _) \<Rightarrow> set_keys env pcs keys')"

definition applyListenerMD5 :: "md5_env \<Rightarrow> peer_config list \<Rightarrow> kernel_keys \<Rightarrow> key_result" where
  "applyListenerMD5 env pcs keys =
     (case me_raw env of
        NoConn \<Rightarrow> (keys, fail NotSyscallConn)
      | ConnFails \<Rightarrow> (keys, fail SyscallConnFailed)
      | r \<Rightarrow>
          (case password_conflict Map.empty pcs of
             Some a \<Rightarrow> (keys, fail (DifferentPasswords a))
           | None \<Rightarrow> if r = ControlFails then (keys, fail ControlFailed) else set_keys env pcs keys))"

definition addListenerMD5Key :: "md5_env \<Rightarrow> addr \<Rightarrow> byte list \<Rightarrow> kernel_keys \<Rightarrow> key_result" where
  "addListenerMD5Key env a password keys =
     (case me_raw env of
        NoConn \<Rightarrow> (keys, fail NotSyscallConn)
      | ConnFails \<Rightarrow> (keys, fail SyscallConnFailed)
      | ControlFails \<Rightarrow> (keys, fail ControlFailed)
      | Fd \<Rightarrow> setTCPMD5OnFd env a password keys)"

definition removeListenerMD5Key :: "md5_env \<Rightarrow> addr \<Rightarrow> kernel_keys \<Rightarrow> key_result" where
  "removeListenerMD5Key env a keys =
     (case me_raw env of
        NoConn \<Rightarrow> (keys, Inr ())
      | ConnFails \<Rightarrow> (keys, fail SyscallConnFailed)
      | ControlFails \<Rightarrow> (keys, fail ControlFailed)
      | Fd \<Rightarrow> clearTCPMD5OnFd env a keys)"

fun clear_keys :: "md5_env \<Rightarrow> peer_config list \<Rightarrow> kernel_keys \<Rightarrow> key_result" where
  "clear_keys env [] keys = (keys, Inr ())"
| "clear_keys env (pc # pcs) keys =
     (if pc_Password pc = [] \<or> is_loopback (pc_Address pc) then clear_keys env pcs keys
      else case clearTCPMD5OnFd env (pc_Address pc) keys of
        (keys', Inl e) \<Rightarrow> (keys', Inl e)
      | (keys', Inr _) \<Rightarrow> clear_keys env pcs keys')"

definition clearListenerMD5 :: "md5_env \<Rightarrow> peer_config list \<Rightarrow> kernel_keys \<Rightarrow> key_result" where
  "clearListenerMD5 env pcs keys =
     (case me_raw env of
        NoConn \<Rightarrow> (keys, Inr ())
      | ConnFails \<Rightarrow> (keys, fail SyscallConnFailed)
      | ControlFails \<Rightarrow> (keys, fail ControlFailed)
      | Fd \<Rightarrow> clear_keys env pcs keys)"

section \<open>The queue of dynamic peers\<close>

record installed_key =
  ik_password :: "byte list"
  ik_lastSeen :: int

record md5_queue =
  q_bgpPort :: u16
  q_fixedAddrs :: "addr list"
  q_dynamicPass :: "byte list list"
  q_installed :: "(addr \<times> installed_key) list"

definition startDynamicMD5Queue :: "u16 \<Rightarrow> md5_queue" where
  "startDynamicMD5Queue port = \<lparr>q_bgpPort = port, q_fixedAddrs = [], q_dynamicPass = [], q_installed = []\<rparr>"

text \<open>Errors of removals are only logged.\<close>

definition remove_all :: "md5_env \<Rightarrow> addr list \<Rightarrow> kernel_keys \<Rightarrow> kernel_keys" where
  "remove_all env as keys = foldl (\<lambda>ks a. fst (removeListenerMD5Key env a ks)) keys as"

definition queue_SetPeers :: "md5_env \<Rightarrow> peer_config list \<Rightarrow> md5_queue \<times> kernel_keys \<Rightarrow> md5_queue \<times> kernel_keys" where
  "queue_SetPeers env pcs st =
     (let (q, keys) = st;
          dynamic = map pc_Password (filter (\<lambda>pc. is_unspecified (pc_Address pc) \<and> pc_Password pc \<noteq> []) pcs);
          fixed = map pc_Address (filter (\<lambda>pc. \<not> is_unspecified (pc_Address pc)) pcs);
          revoked = filter (\<lambda>(a, k). ik_password k \<notin> set dynamic) (q_installed q)
      in (q\<lparr>q_fixedAddrs := fixed, q_dynamicPass := dynamic,
            q_installed := filter (\<lambda>(a, k). ik_password k \<in> set dynamic) (q_installed q)\<rparr>,
          remove_all env (map fst revoked) keys))"

definition queue_install :: "md5_env \<Rightarrow> int \<Rightarrow> addr \<Rightarrow> byte list \<Rightarrow> md5_queue \<times> kernel_keys \<Rightarrow>
    (md5_queue \<times> kernel_keys) \<times> (md5_key_error, unit) result" where
  "queue_install env now a password st =
     (let (q, keys) = st;
          others = filter (\<lambda>(b, k). b \<noteq> a) (q_installed q);
          q' = q\<lparr>q_installed := others @ [(a, \<lparr>ik_password = password, ik_lastSeen = now\<rparr>)]\<rparr>
      in case map_of (q_installed q) a of
        Some k \<Rightarrow>
          if ik_password k = password then ((q', keys), Inr ())
          else (case addListenerMD5Key env a password keys of
              (keys', Inl e) \<Rightarrow> ((q, keys'), Inl e)
            | (keys', Inr _) \<Rightarrow> ((q', keys'), Inr ()))
      | None \<Rightarrow>
          (case addListenerMD5Key env a password keys of
              (keys', Inl e) \<Rightarrow> ((q, keys'), Inl e)
            | (keys', Inr _) \<Rightarrow> ((q', keys'), Inr ())))"

datatype verdict = NfAccept | NfDrop

definition decide :: "(byte list \<Rightarrow> byte list) \<Rightarrow> md5_env \<Rightarrow> int \<Rightarrow> byte list \<Rightarrow> md5_queue \<times> kernel_keys \<Rightarrow>
    verdict \<times> md5_queue \<times> kernel_keys" where
  "decide md5 env now packet st =
     (case parse_ip_tcp_segment packet of
        Inl e \<Rightarrow> (NfAccept, st)
      | Inr seg \<Rightarrow>
          if DstPort seg \<noteq> q_bgpPort (fst st) \<or> \<not> is_syn seg then (NfAccept, st)
          else if SrcAddr seg \<in> set (q_fixedAddrs (fst st)) then (NfAccept, st)
          else case find (matches_password md5 seg) (q_dynamicPass (fst st)) of
            None \<Rightarrow> (NfDrop, st)
          | Some pw \<Rightarrow>
              (case queue_install env now (SrcAddr seg) pw st of
                 (st', Inl e) \<Rightarrow> (NfDrop, st')
               | (st', Inr _) \<Rightarrow> (NfAccept, st')))"

text \<open>The verdict that is set for a queued packet, if any; \<open>packet_id\<close> and \<open>payload\<close> may be missing.\<close>

definition queue_handle :: "(byte list \<Rightarrow> byte list) \<Rightarrow> md5_env \<Rightarrow> int \<Rightarrow> u32 option \<Rightarrow> byte list option \<Rightarrow>
    md5_queue \<times> kernel_keys \<Rightarrow> (u32 \<times> verdict) option \<times> md5_queue \<times> kernel_keys" where
  "queue_handle md5 env now packet_id packet st =
     (case packet_id of
        None \<Rightarrow> (None, st)
      | Some i \<Rightarrow>
          (case packet of
             None \<Rightarrow> (Some (i, NfAccept), st)
           | Some bs \<Rightarrow> (case decide md5 env now bs st of (v, st') \<Rightarrow> (Some (i, v), st'))))"

text \<open>Times are in nanoseconds.\<close>

definition dynamicMD5KeyIdleTimeout :: int where "dynamicMD5KeyIdleTimeout = 10 * 60 * 1000000000"

definition evictIdle :: "md5_env \<Rightarrow> int \<Rightarrow> md5_queue \<times> kernel_keys \<Rightarrow> md5_queue \<times> kernel_keys" where
  "evictIdle env now st =
     (let (q, keys) = st;
          idle = (\<lambda>k. ik_lastSeen k < now - dynamicMD5KeyIdleTimeout)
      in (q\<lparr>q_installed := filter (\<lambda>(a, k). \<not> idle k) (q_installed q)\<rparr>,
          remove_all env (map fst (filter (\<lambda>(a, k). idle k) (q_installed q))) keys))"

end
