(* ===== verification/Bgp_Manager.thy ===== *)
theory Bgp_Manager
  imports Bgp_Md5_Keys Store_Communities
begin

text \<open>
  \<open>speaker.go\<close>, \<open>manager.go\<close> and \<open>route.go\<close>: the speaker owns the listener, its MD5 keys and the peers; the
  manager keeps the configured users and the routes it announced last, computes the routes of every user from
  the store and hands them to the peers. Operations of the manager run under its lock, one at a time. Maps
  with string keys are maps; where the code iterates over one in any order, the result does not depend on it.
\<close>

section \<open>The speaker\<close>

record speaker =
  sp_cfg :: speaker_config
  sp_listener :: bool
  sp_keys :: kernel_keys
  sp_queue :: "md5_queue option"
  sp_peers :: "string \<rightharpoonup> peer"
  sp_peerConfigs :: "peer_config list"

definition peer_key :: "string \<Rightarrow> u32 \<Rightarrow> string" where
  "peer_key ip asn = ip @ '':'' @ dec_string (unat asn)"

definition config_key :: "peer_config \<Rightarrow> string" where
  "config_key pc = peer_key (addr_string (pc_Address pc)) (pc_ASN pc)"

definition new_set :: "peer_config list \<Rightarrow> (string \<rightharpoonup> peer_config)" where
  "new_set pcs = map_of (rev (map (\<lambda>pc. (config_key pc, pc)) pcs))"

definition peer_changed :: "peer_config \<Rightarrow> peer_config \<Rightarrow> bool" where
  "peer_changed old pc \<longleftrightarrow> pc_ASN old \<noteq> pc_ASN pc \<or> pc_Password old \<noteq> pc_Password pc \<or>
     pc_Port old \<noteq> pc_Port pc \<or> pc_LocalAddr old \<noteq> pc_LocalAddr pc"

text \<open>The peer under a key after the update: removed ones are stopped and dropped, changed ones replaced.\<close>

definition updated_peer :: "speaker_config \<Rightarrow> peer_config option \<Rightarrow> peer option \<Rightarrow> peer option" where
  "updated_peer cfg new old =
     (case new of
        None \<Rightarrow> None
      | Some pc \<Rightarrow>
          (case old of
             None \<Rightarrow> Some (NewPeer pc cfg)
           | Some p \<Rightarrow> if peer_changed (p_cfg p) pc then Some (NewPeer pc cfg) else Some p))"

definition SetPeers :: "md5_env \<Rightarrow> peer_config list \<Rightarrow> speaker \<Rightarrow> speaker \<times> (md5_key_error, unit) result" where
  "SetPeers env pcs s =
     (case (if sp_listener s then applyListenerMD5 env pcs (sp_keys s) else (sp_keys s, Inr ())) of
        (keys, Inl e) \<Rightarrow> (s\<lparr>sp_keys := keys\<rparr>, Inl e)
      | (keys, Inr _) \<Rightarrow>
          let new = new_set pcs;
              queue = map_option (\<lambda>q. queue_SetPeers env pcs (q, keys)) (sp_queue s);
              keys' = (case queue of None \<Rightarrow> keys | Some (q, ks) \<Rightarrow> ks);
              cleared = filter (\<lambda>oc. pc_Address oc \<notin> set (map pc_Address pcs)) (sp_peerConfigs s)
          in (s\<lparr>sp_peers := (\<lambda>key. updated_peer (sp_cfg s) (new key) (sp_peers s key)),
                sp_peerConfigs := pcs, sp_queue := map_option fst queue,
                sp_keys := (if sp_listener s \<and> cleared \<noteq> [] then fst (clearListenerMD5 env cleared keys') else keys')\<rparr>, Inr ()))"

definition Speaker_Announce :: "(nat \<Rightarrow> bool) \<Rightarrow> addr \<Rightarrow> u32 \<Rightarrow> route list \<Rightarrow> speaker \<Rightarrow> speaker \<times> bool" where
  "Speaker_Announce ok a asn routes s =
     (let key = peer_key (addr_string a) asn in
      case sp_peers s key of
        None \<Rightarrow> (s, False)
      | Some p \<Rightarrow> (case AnnounceRoutes ok routes p of
            (us, done, p') \<Rightarrow> (s\<lparr>sp_peers := (sp_peers s)(key \<mapsto> p')\<rparr>, done)))"

definition Speaker_Withdraw :: "(nat \<Rightarrow> bool) \<Rightarrow> addr \<Rightarrow> u32 \<Rightarrow> prefix list \<Rightarrow> speaker \<Rightarrow> speaker \<times> bool" where
  "Speaker_Withdraw ok a asn ps s =
     (let key = peer_key (addr_string a) asn in
      case sp_peers s key of
        None \<Rightarrow> (s, False)
      | Some p \<Rightarrow> (case WithdrawRoutes ok ps p of
            (us, done, p') \<Rightarrow> (s\<lparr>sp_peers := (sp_peers s)(key \<mapsto> p')\<rparr>, done)))"

definition ReconcileRoutes :: "speaker \<Rightarrow> speaker" where
  "ReconcileRoutes s = s\<lparr>sp_peers := (\<lambda>key. map_option TriggerUpdate (sp_peers s key))\<rparr>"

definition Speaker_PeerStates :: "speaker \<Rightarrow> (string \<rightharpoonup> fsm_state)" where
  "Speaker_PeerStates s = (\<lambda>key. map_option p_state (sp_peers s key))"

text \<open>The peer that \<open>handleConnection\<close> hands an accepted connection to, from the address and the AS of its OPEN.\<close>

definition accepting_peer :: "speaker \<Rightarrow> addr \<Rightarrow> open_message \<Rightarrow> (string \<times> peer) option" where
  "accepting_peer s a oin =
     (let asn = (if MyASN32 oin = 0 then ucast (MyASN oin) else MyASN32 oin);
          found = List.map_filter (\<lambda>ip. map_option (Pair (peer_key ip asn)) (sp_peers s (peer_key ip asn)))
            [addr_string a, ''0.0.0.0'', ''::'']
      in case found of [] \<Rightarrow> None | (key, p) # _ \<Rightarrow> if p_conn p then None else Some (key, p))"

section \<open>Starting and stopping the speaker\<close>

text \<open>The effects that count for the order: the redirect rule, the listener, its queue and the accept loop.\<close>

datatype speaker_effect = InstallRule | OpenListener | AttachQueue | AcceptConnections | CloseListener | DetachQueue | RemoveRule

text \<open>What the system answers: the rule, \<open>listen\<close> and the queue.\<close>

record start_env =
  se_rule :: bool
  se_listen :: bool
  se_md5 :: md5_env
  se_queue :: bool

datatype start_error = RuleFailed | ListenFailed | ListenerKeys "md5_key_error fault" | QueueFailed

definition abort_start :: "speaker_config \<Rightarrow> speaker_effect list" where
  "abort_start cfg = CloseListener # (if spk_DynamicPeerMD5Match cfg then [RemoveRule] else [])"

definition NewSpeaker :: "speaker_config \<Rightarrow> speaker" where
  "NewSpeaker cfg = \<lparr>sp_cfg = cfg, sp_listener = False, sp_keys = Map.empty, sp_queue = None, sp_peers = Map.empty, sp_peerConfigs = []\<rparr>"

definition Speaker_Start :: "start_env \<Rightarrow> speaker \<Rightarrow> speaker \<times> speaker_effect list \<times> (start_error, unit) result" where
  "Speaker_Start env s =
     (let cfg = sp_cfg s; dyn = spk_DynamicPeerMD5Match cfg; rule = (if dyn then [InstallRule] else []) in
      if spk_Port cfg < 0 then (s, [], Inr ())
      else if dyn \<and> \<not> se_rule env then (s, [], fail RuleFailed)
      else if \<not> se_listen env then (s, rule @ (if dyn then [RemoveRule] else []), fail ListenFailed)
      else case applyListenerMD5 (se_md5 env) (sp_peerConfigs s) Map.empty of
        (keys, Inl e) \<Rightarrow> (s, rule @ OpenListener # abort_start cfg, fail (ListenerKeys e))
      | (keys, Inr _) \<Rightarrow>
          let started = s\<lparr>sp_listener := True, sp_keys := keys\<rparr> in
          if \<not> dyn then (started, [OpenListener, AcceptConnections], Inr ())
          else if \<not> se_queue env then (s, rule @ OpenListener # abort_start cfg, fail QueueFailed)
          else case queue_SetPeers (se_md5 env) (sp_peerConfigs s) (startDynamicMD5Queue (word_of_int (spk_Port cfg)), keys) of
            (q, keys') \<Rightarrow> (started\<lparr>sp_queue := Some q, sp_keys := keys'\<rparr>,
              rule @ [OpenListener, AttachQueue, AcceptConnections], Inr ()))"

definition Speaker_Stop :: "speaker \<Rightarrow> speaker \<times> speaker_effect list" where
  "Speaker_Stop s =
     (s\<lparr>sp_listener := False, sp_keys := Map.empty, sp_queue := None, sp_peers := Map.empty\<rparr>,
      (if sp_listener s then [CloseListener] else []) @
      (if sp_queue s \<noteq> None then DetachQueue # (if spk_DynamicPeerMD5Match (sp_cfg s) then [RemoveRule] else []) else []))"

section \<open>The manager\<close>

text \<open>
  The settings that are read when a speaker starts (\<open>mc_\<close>), and the snapshot of them that routes are built with.
  The snapshot is read only while a speaker runs, so the two are one option.
\<close>

record bgp_settings =
  mc_RouterID :: string
  mc_LocalAddressV4 :: string
  mc_LocalAddressV6 :: string
  mc_LocalASN :: u32
  mc_BGPPort :: u16
  mc_BGPHoldTime :: u16
  mc_ActiveDial :: bool
  mc_DynamicPeerMD5Match :: bool

record snapshot =
  sn_localASN :: u32
  sn_localAddrV4 :: addr
  sn_localAddrV6 :: "addr option"
  sn_activeDial :: bool

datatype manager_error = NotRunning | DynamicPeerExists u32 | PeerExists string u32 | NeedsLocalV6 string u32
  | NoSuchPeer string int | MD5Refresh "md5_key_error fault" | StoreError "store_error fault" | BadPrefix string
  | UserIDTooLarge int | NoLocalV6For prefix | Delivery "(string \<times> u32) list"
  | BadRouterID string | BadLocalAddress string | StartSpeaker "start_error fault"

record manager =
  m_session :: "(snapshot \<times> speaker) option"
  m_installed :: "string \<rightharpoonup> string"
  m_peerConfigs :: "user list"
  m_peerRoutes :: "string \<rightharpoonup> route list"
  m_lastErr :: "manager_error fault option"
definition NewManager :: manager where
  "NewManager = \<lparr>m_session = None, m_installed = Map.empty, m_peerConfigs = [], m_peerRoutes = Map.empty, m_lastErr = None\<rparr>"

definition user_key :: "user \<Rightarrow> string" where
  "user_key u = peer_key (u_PeerIP u) (u_PeerASN u)"

definition peerPort :: "string \<Rightarrow> bool \<Rightarrow> int" where
  "peerPort ip active_dial = (if ip = ''0.0.0.0'' \<or> ip = ''::'' then -1 else if \<not> active_dial then -1 else 0)"

definition peer_config_of :: "snapshot \<Rightarrow> user \<Rightarrow> addr \<Rightarrow> addr \<Rightarrow> peer_config" where
  "peer_config_of sn u a local_addr =
     \<lparr>pc_ID = u_ID u, pc_Address = a, pc_Port = peerPort (u_PeerIP u) (sn_activeDial sn \<and> u_ActiveDial u),
      pc_ASN = u_PeerASN u, pc_Password = map of_char (u_BGPPassword u), pc_Name = u_Name u, pc_LocalAddr = Some local_addr\<rparr>"

definition local_addr_for :: "snapshot \<Rightarrow> addr \<Rightarrow> addr option" where
  "local_addr_for sn a = (if is6 a then sn_localAddrV6 sn else Some (sn_localAddrV4 sn))"

fun buildPeerConfigs :: "snapshot \<Rightarrow> user list \<Rightarrow> (manager_error, peer_config list) result" where
  "buildPeerConfigs sn [] = Inr []"
| "buildPeerConfigs sn (u # us) =
     (case parse_addr (u_PeerIP u) of
        None \<Rightarrow> buildPeerConfigs sn us
      | Some a \<Rightarrow>
          (case local_addr_for sn a of
             None \<Rightarrow> fail (NeedsLocalV6 (u_PeerIP u) (u_PeerASN u))
           | Some l \<Rightarrow> bindE (buildPeerConfigs sn us) (\<lambda>cfgs. Inr (peer_config_of sn u a l # cfgs))))"

section \<open>Routes of a user\<close>

definition buildRoute :: "snapshot \<Rightarrow> prefix \<Rightarrow> user \<Rightarrow> string \<Rightarrow> string \<Rightarrow> (string \<times> string \<rightharpoonup> u32) \<Rightarrow> (manager_error, route) result" where
  "buildRoute sn p u category service comms =
     (let admin = sn_localASN sn;
          value = (\<lambda>k. case comms k of None \<Rightarrow> [] | Some c \<Rightarrow> [\<lparr>GlobalAdmin = admin, LocalData1 = 0, LocalData2 = c\<rparr>]);
          cs = \<lparr>GlobalAdmin = admin, LocalData1 = word_of_int (u_ID u), LocalData2 = 0\<rparr> #
            (if category = [] then [] else value (category, []) @ (if service = [] then [] else value (category, service)));
          own = (if u_NextHop u = [] then None else case parse_addr (u_NextHop u) of
              None \<Rightarrow> None | Some nh \<Rightarrow> if is4 nh = is4 (p_addr p) then Some nh else None)
      in if 4294967295 < u_ID u then fail (UserIDTooLarge (u_ID u))
         else case local_addr_for sn (p_addr p) of
           None \<Rightarrow> fail (NoLocalV6For p)
         | Some l \<Rightarrow> Inr \<lparr>r_prefix = p, r_communities = cs, r_next_hop = (case own of None \<Rightarrow> l | Some nh \<Rightarrow> nh)\<rparr>)"

definition mode_comms :: "db \<Rightarrow> int \<Rightarrow> (string \<times> string \<rightharpoonup> u32)" where
  "mode_comms db m = map_of (rev (map (\<lambda>c. (community_key c, cy_Community c)) (communityRows db m)))"

text \<open>
  The desired prefixes that can be announced: a text that is not a prefix is an error, IPv6 needs a local
  IPv6 address.
\<close>

fun parse_desired :: "snapshot \<Rightarrow> (string \<times> int list) list \<Rightarrow> (manager_error, (prefix \<times> string \<times> int list) list) result" where
  "parse_desired sn [] = Inr []"
| "parse_desired sn ((raw, ids) # rest) =
     (case parse_prefix raw of
        None \<Rightarrow> fail (BadPrefix raw)
      | Some p \<Rightarrow> bindE (parse_desired sn rest) (\<lambda>ps.
          Inr (if is6 (p_addr p) \<and> sn_localAddrV6 sn = None then ps else (p, raw, ids) # ps)))"

definition route_for :: "snapshot \<Rightarrow> db \<Rightarrow> desired \<Rightarrow> user \<Rightarrow> prefix \<times> string \<times> int list \<Rightarrow> (manager_error, route) result" where
  "route_for sn db d u x =
     (case x of (p, raw, ids) \<Rightarrow>
        (case ds_meta d (raw, u_ID u) of
           None \<Rightarrow> buildRoute sn p u [] [] Map.empty
         | Some (m, category, service) \<Rightarrow> buildRoute sn p u category service (mode_comms db m)))"

definition desired_routes :: "snapshot \<Rightarrow> db \<Rightarrow> desired \<Rightarrow> (prefix \<times> string \<times> int list) list \<Rightarrow> user \<Rightarrow> (manager_error, route list) result" where
  "desired_routes sn db d ps u =
     bindE (mapE (route_for sn db d u) (filter (\<lambda>(p, raw, ids). u_ID u \<in> set ids) ps)) (\<lambda>rs.
       Inr (sort_key (\<lambda>r. prefix_string (r_prefix r)) rs))"

definition signature_of :: "int list \<Rightarrow> string" where
  "signature_of ids = concat (case map int_string (sort ids) of [] \<Rightarrow> [] | x # xs \<Rightarrow> x # map (Cons (CHR '','')) xs)"

section \<open>Reconciling\<close>

text \<open>
  The loop over the peers. \<open>ok key i\<close> is the outcome of the \<open>i\<close>-th write to the peer under \<open>key\<close>. The
  state is the speaker, the announced routes and the failed deliveries.
\<close>

type_synonym rec_state = "speaker \<times> (string \<rightharpoonup> route list) \<times> (string \<times> u32) list"

definition reconcile_user :: "(string \<Rightarrow> nat \<Rightarrow> bool) \<Rightarrow> user \<Rightarrow> addr \<Rightarrow> route list \<Rightarrow> rec_state \<Rightarrow> rec_state" where
  "reconcile_user ok u a routes st =
     (case st of (s, announced, failed) \<Rightarrow>
        if announced (user_key u) = Some routes then st
        else case Speaker_Announce (ok (user_key u)) a (u_PeerASN u) routes s of
          (s', done) \<Rightarrow>
            if done then (s', announced(user_key u \<mapsto> routes), failed)
            else (s', announced(user_key u := None), failed @ [(u_PeerIP u, u_PeerASN u)]))"

fun reconcile_loop :: "(string \<Rightarrow> nat \<Rightarrow> bool) \<Rightarrow> (user \<Rightarrow> (manager_error, route list) result) \<Rightarrow> user list \<Rightarrow> rec_state \<Rightarrow>
    rec_state \<times> (manager_error, unit) result" where
  "reconcile_loop ok routes_of [] st = (st, Inr ())"
| "reconcile_loop ok routes_of (u # us) st =
     (if \<not> u_Enabled u then reconcile_loop ok routes_of us st
      else case parse_addr (u_PeerIP u) of
        None \<Rightarrow> reconcile_loop ok routes_of us st
      | Some a \<Rightarrow>
          (case routes_of u of
             Inl e \<Rightarrow> (st, Inl e)
           | Inr routes \<Rightarrow> reconcile_loop ok routes_of us (reconcile_user ok u a routes st)))"

definition lift_store :: "(store_error, 'a) result \<Rightarrow> (manager_error, 'a) result" where
  "lift_store r = (case r of Inl e \<Rightarrow> fail (StoreError e) | Inr x \<Rightarrow> Inr x)"

definition reconcile :: "(string \<Rightarrow> nat \<Rightarrow> bool) \<Rightarrow> (selected_user list \<Rightarrow> selected_user list) \<Rightarrow> db \<Rightarrow> manager \<Rightarrow>
    manager \<times> (manager_error, unit) result" where
  "reconcile ok order db m =
     (case m_session m of
        None \<Rightarrow> (m, fail NotRunning)
      | Some (sn, s) \<Rightarrow>
          (case bindE (lift_store (DesiredPrefixes order db)) (\<lambda>d. bindE (parse_desired sn (ds_users d)) (\<lambda>ps. Inr (d, ps))) of
             Inl e \<Rightarrow> (m, Inl e)
           | Inr (d, ps) \<Rightarrow>
               (case reconcile_loop ok (desired_routes sn db d ps) (m_peerConfigs m) (s, m_peerRoutes m, []) of
                  ((s', announced, failed), r) \<Rightarrow>
                    (let m' = m\<lparr>m_session := Some (sn, s'), m_peerRoutes := announced\<rparr> in
                     case r of
                       Inl e \<Rightarrow> (m', Inl e)
                     | Inr _ \<Rightarrow> (m'\<lparr>m_installed := map_of (map (\<lambda>(p, raw, ids). (raw, signature_of ids)) ps)\<rparr>,
                         if failed = [] then Inr () else fail (Delivery failed))))))"

section \<open>Peers\<close>

definition same_peer :: "user \<Rightarrow> user \<Rightarrow> bool" where
  "same_peer u v \<longleftrightarrow> u_PeerIP u = u_PeerIP v \<and> u_PeerASN u = u_PeerASN v"

definition peer_exists :: "user \<Rightarrow> manager_error" where
  "peer_exists u = (if u_PeerIP u = ''0.0.0.0'' \<or> u_PeerIP u = ''::'' then DynamicPeerExists (u_PeerASN u)
     else PeerExists (u_PeerIP u) (u_PeerASN u))"

text \<open>The peers of the users \<open>us\<close> are built and handed to the speaker; \<open>None\<close> stands for success.\<close>

definition push_peers :: "md5_env \<Rightarrow> snapshot \<Rightarrow> user list \<Rightarrow> speaker \<Rightarrow> speaker \<times> manager_error fault option \<times> bool" where
  "push_peers env sn us s =
     (case buildPeerConfigs sn us of
        Inl e \<Rightarrow> (s, Some e, False)
      | Inr cfgs \<Rightarrow>
          (case SetPeers env cfgs s of
             (s', Inl e) \<Rightarrow> (s', Some (Err (MD5Refresh e)), True)
           | (s', Inr _) \<Rightarrow> (s', None, True)))"

definition outcome :: "manager_error fault option \<Rightarrow> (manager_error, unit) result" where
  "outcome e = (case e of None \<Rightarrow> Inr () | Some f \<Rightarrow> Inl f)"

definition add_peer :: "md5_env \<Rightarrow> snapshot \<Rightarrow> speaker \<Rightarrow> user \<Rightarrow> manager \<Rightarrow> manager \<times> (manager_error, unit) result" where
  "add_peer env sn s u m =
     (if \<exists>v \<in> set (m_peerConfigs m). same_peer v u then (m, fail (peer_exists u))
      else let us = m_peerConfigs m @ [u] in
        case push_peers env sn us s of (s', e, pushed) \<Rightarrow>
          (m\<lparr>m_session := Some (sn, s'), m_peerConfigs := (if e = None then us else m_peerConfigs m)\<rparr>, outcome e))"

definition AddPeer :: "md5_env \<Rightarrow> user \<Rightarrow> manager \<Rightarrow> manager \<times> (manager_error, unit) result" where
  "AddPeer env u m = (case m_session m of None \<Rightarrow> (m, fail NotRunning) | Some (sn, s) \<Rightarrow> add_peer env sn s u m)"

fun replace_user :: "user \<Rightarrow> user list \<Rightarrow> user list" where
  "replace_user u [] = []"
| "replace_user u (v # vs) = (if u_ID v = u_ID u then u # vs else v # replace_user u vs)"

definition peer_restarts :: "snapshot \<Rightarrow> user \<Rightarrow> user \<Rightarrow> bool" where
  "peer_restarts sn old u \<longleftrightarrow> user_key old \<noteq> user_key u \<or> u_BGPPassword old \<noteq> u_BGPPassword u \<or>
     peerPort (u_PeerIP old) (sn_activeDial sn \<and> u_ActiveDial old) \<noteq> peerPort (u_PeerIP u) (sn_activeDial sn \<and> u_ActiveDial u)"

text \<open>
  A user that is not tracked is added; otherwise its row is replaced, the cached routes of a peer that will be
  recreated are dropped, and a failure restores the row; when the speaker refused the peers, the cache of the
  old key becomes the empty list.
\<close>

definition UpdatePeer :: "md5_env \<Rightarrow> user \<Rightarrow> manager \<Rightarrow> manager \<times> (manager_error, unit) result" where
  "UpdatePeer env u m =
     (case m_session m of
        None \<Rightarrow> (m, fail NotRunning)
      | Some (sn, s) \<Rightarrow>
          (case find (\<lambda>v. u_ID v = u_ID u) (m_peerConfigs m) of
             None \<Rightarrow> add_peer env sn s u m
           | Some old \<Rightarrow>
               let us = replace_user u (m_peerConfigs m);
                   cache = (if peer_restarts sn old u then (m_peerRoutes m)(user_key old := None) else m_peerRoutes m)
               in case push_peers env sn us s of (s', e, pushed) \<Rightarrow>
                 if e = None
                 then (m\<lparr>m_session := Some (sn, s'), m_peerConfigs := us, m_peerRoutes := cache\<rparr>, Inr ())
                 else (m\<lparr>m_session := Some (sn, s'), m_peerRoutes :=
                     (if \<not> pushed then cache
                      else let c = cache(user_key old \<mapsto> []) in if user_key u \<noteq> user_key old then c(user_key u := None) else c)\<rparr>,
                   outcome e)))"

fun delete_first :: "('a \<Rightarrow> bool) \<Rightarrow> 'a list \<Rightarrow> 'a list" where
  "delete_first P [] = []"
| "delete_first P (x # xs) = (if P x then xs else x # delete_first P xs)"

definition DeletePeer :: "md5_env \<Rightarrow> string \<Rightarrow> int \<Rightarrow> manager \<Rightarrow> manager \<times> (manager_error, unit) result" where
  "DeletePeer env ip i m =
     (case m_session m of
        None \<Rightarrow> (m, fail NotRunning)
      | Some (sn, s) \<Rightarrow>
          (case find (\<lambda>v. u_ID v = i) (m_peerConfigs m) of
             None \<Rightarrow> (m, fail (NoSuchPeer ip i))
           | Some old \<Rightarrow>
               let us = delete_first (\<lambda>v. u_ID v = i) (m_peerConfigs m) in
               case push_peers env sn us s of (s', e, pushed) \<Rightarrow>
                 (m\<lparr>m_session := Some (sn, s'), m_peerConfigs := us, m_peerRoutes := (m_peerRoutes m)(user_key old := None)\<rparr>,
                  outcome e)))"

definition PeerStates :: "manager \<Rightarrow> (string \<rightharpoonup> fsm_state)" where
  "PeerStates m = (case m_session m of None \<Rightarrow> Map.empty | Some (sn, s) \<Rightarrow> Speaker_PeerStates s)"

definition Status :: "manager \<Rightarrow> bool \<times> manager_error fault option" where
  "Status m = (m_session m \<noteq> None, m_lastErr m)"

definition ActiveASN :: "manager \<Rightarrow> u32 option" where
  "ActiveASN m = map_option (\<lambda>(sn, s). sn_localASN sn) (m_session m)"

section \<open>Starting and stopping\<close>

definition snapshot_of :: "bgp_settings \<Rightarrow> (manager_error, addr \<times> snapshot) result" where
  "snapshot_of c =
     (case parse_addr (mc_RouterID c) of
        None \<Rightarrow> fail (BadRouterID (mc_RouterID c))
      | Some rid \<Rightarrow>
          (case parse_addr (mc_LocalAddressV4 c) of
             None \<Rightarrow> fail (BadLocalAddress (mc_LocalAddressV4 c))
           | Some v4 \<Rightarrow>
               bindE (if mc_LocalAddressV6 c = [] then Inr None
                  else case parse_addr (mc_LocalAddressV6 c) of
                    None \<Rightarrow> fail (BadLocalAddress (mc_LocalAddressV6 c)) | Some v6 \<Rightarrow> Inr (Some v6)) (\<lambda>v6.
                Inr (rid, \<lparr>sn_localASN = mc_LocalASN c, sn_localAddrV4 = v4, sn_localAddrV6 = v6, sn_activeDial = mc_ActiveDial c\<rparr>))))"

definition speaker_settings :: "bgp_settings \<Rightarrow> addr \<Rightarrow> snapshot \<Rightarrow> speaker_config" where
  "speaker_settings c rid sn =
     \<lparr>spk_ASN = sn_localASN sn, spk_RouterID = rid, spk_Port = int (unat (mc_BGPPort c)), spk_LocalAddr = Some (sn_localAddrV4 sn),
      spk_HoldTime = mc_BGPHoldTime c, spk_DynamicPeerMD5Match = mc_DynamicPeerMD5Match c\<rparr>"

text \<open>The users that get a peer: their address parses and has a local address of its family.\<close>

definition startable :: "snapshot \<Rightarrow> user \<Rightarrow> bool" where
  "startable sn u = (case parse_addr (u_PeerIP u) of None \<Rightarrow> False | Some a \<Rightarrow> local_addr_for sn a \<noteq> None)"

text \<open>\<open>startLocked\<close>: when a step after the start of the speaker fails, the speaker is stopped again.\<close>

definition start_locked :: "bgp_settings \<Rightarrow> start_env \<Rightarrow> (string \<Rightarrow> nat \<Rightarrow> bool) \<Rightarrow> (selected_user list \<Rightarrow> selected_user list) \<Rightarrow> db \<Rightarrow>
    manager \<Rightarrow> manager \<times> (manager_error, unit) result" where
  "start_locked c env ok order db m =
     (case snapshot_of c of
        Inl e \<Rightarrow> (m, Inl e)
      | Inr (rid, sn) \<Rightarrow>
          (case Speaker_Start env (NewSpeaker (speaker_settings c rid sn)) of
             (s, fx, Inl e) \<Rightarrow> (m\<lparr>m_session := map_option (\<lambda>(old_sn, old). (sn, old)) (m_session m)\<rparr>, fail (StartSpeaker e))
           | (s, fx, Inr _) \<Rightarrow>
               (case Users db True of
                  Inl e \<Rightarrow> (m\<lparr>m_session := None\<rparr>, fail (StoreError e))
                | Inr all \<Rightarrow>
                    let us = filter (startable sn) all; m1 = m\<lparr>m_peerConfigs := us\<rparr> in
                    case push_peers (se_md5 env) sn us s of
                      (s', Some e, pushed) \<Rightarrow> (m1\<lparr>m_session := None\<rparr>, Inl e)
                    | (s', None, pushed) \<Rightarrow>
                        (case reconcile ok order db (m1\<lparr>m_session := Some (sn, s')\<rparr>) of
                           (m2, Inl e) \<Rightarrow> (m2\<lparr>m_session := None\<rparr>, Inl e)
                         | (m2, Inr _) \<Rightarrow> (m2, Inr ())))))"

definition with_error :: "manager \<times> (manager_error, unit) result \<Rightarrow> manager \<times> (manager_error, unit) result" where
  "with_error x = (fst x\<lparr>m_lastErr := (case snd x of Inl e \<Rightarrow> Some e | Inr _ \<Rightarrow> None)\<rparr>, snd x)"

definition Start :: "bgp_settings \<Rightarrow> start_env \<Rightarrow> (string \<Rightarrow> nat \<Rightarrow> bool) \<Rightarrow> (selected_user list \<Rightarrow> selected_user list) \<Rightarrow> db \<Rightarrow>
    manager \<Rightarrow> manager \<times> (manager_error, unit) result" where
  "Start c env ok order db m = with_error (start_locked c env ok order db m)"

definition Stop :: "manager \<Rightarrow> manager" where
  "Stop m =
     (case m_session m of
        None \<Rightarrow> m\<lparr>m_lastErr := None\<rparr>
      | Some (sn, s) \<Rightarrow> \<lparr>m_session = None, m_installed = Map.empty, m_peerConfigs = [], m_peerRoutes = Map.empty, m_lastErr = None\<rparr>)"

definition ReloadPeers :: "bgp_settings \<Rightarrow> start_env \<Rightarrow> (string \<Rightarrow> nat \<Rightarrow> bool) \<Rightarrow> (selected_user list \<Rightarrow> selected_user list) \<Rightarrow> db \<Rightarrow>
    manager \<Rightarrow> manager \<times> (manager_error, unit) result" where
  "ReloadPeers c env ok order db m = with_error (start_locked c env ok order db (m\<lparr>m_session := None, m_peerRoutes := Map.empty\<rparr>))"

end
