(* ===== verification/Bgp_Coherence.thy ===== *)
theory Bgp_Coherence
  imports Bgp_Manager Store_Reset
begin

text \<open>
  The manager skips an announcement when its cache says that the routes were announced. The invariant of its
  operations is that the cache is right: a cached entry is what the peer under that key announces, and the
  peers are those of the configured users. Then a reconcile without error leaves every peer with its routes.
\<close>

section \<open>Peers of the configured users\<close>

abbreviation conn_fields :: "peer_config \<Rightarrow> u32 \<times> byte list \<times> int \<times> addr option" where
  "conn_fields pc \<equiv> (pc_ASN pc, pc_Password pc, pc_Port pc, pc_LocalAddr pc)"

lemma peer_changed_iff: "peer_changed old pc \<longleftrightarrow> conn_fields old \<noteq> conn_fields pc"
  by (auto simp: peer_changed_def)

text \<open>The address of a user is printed the way \<open>netip\<close> prints it.\<close>

definition canonical :: "user \<Rightarrow> bool" where
  "canonical u \<longleftrightarrow> (\<exists>a. addr_ok a \<and> u_PeerIP u = addr_string a)"

lemma canonical_addr: "canonical u \<Longrightarrow> \<exists>a. parse_addr (u_PeerIP u) = Some a \<and> u_PeerIP u = addr_string a"
  unfolding canonical_def using parse_addr_string by fastforce

definition config_of :: "snapshot \<Rightarrow> user \<Rightarrow> peer_config" where
  "config_of sn u = peer_config_of sn u (the (parse_addr (u_PeerIP u))) (the (local_addr_for sn (the (parse_addr (u_PeerIP u)))))"

lemma config_of_key: "canonical u \<Longrightarrow> config_key (config_of sn u) = user_key u"
  using canonical_addr [of u] by (auto simp: config_of_def config_key_def user_key_def peer_config_of_def)

lemma buildPeerConfigs_ok:
  "buildPeerConfigs sn us = Inr cfgs \<Longrightarrow> \<forall>u \<in> set us. canonical u \<Longrightarrow> cfgs = map (config_of sn) us"
proof (induction us arbitrary: cfgs)
  case (Cons u us)
  obtain a where "parse_addr (u_PeerIP u) = Some a" using Cons.prems(2) canonical_addr by force
  then show ?case using Cons by (auto simp: config_of_def bindE_eq_Inr_iff fail_def split: option.splits)
qed simp

definition tracked :: "user list \<Rightarrow> string \<Rightarrow> user option" where
  "tracked us key = find (\<lambda>u. user_key u = key) us"

definition users_ok :: "user list \<Rightarrow> bool" where
  "users_ok us \<longleftrightarrow> (\<forall>u \<in> set us. canonical u) \<and> distinct (map user_key us)"

lemma tracked_D: "tracked us key = Some v \<Longrightarrow> v \<in> set us \<and> user_key v = key"
  by (auto simp: tracked_def find_Some_iff)

lemma tracked_Some: "users_ok us \<Longrightarrow> tracked us key = Some u \<longleftrightarrow> u \<in> set us \<and> user_key u = key"
proof -
  assume ok: "users_ok us"
  have "tracked us key = Some u" if u: "u \<in> set us" "user_key u = key"
  proof -
    obtain v where v: "tracked us key = Some v"
      using u by (cases "tracked us key") (auto simp: tracked_def find_None_iff)
    note v = v tracked_D [OF v]
    then have "v = u" using ok u inj_onD [of user_key "set us" v u] by (auto simp add: users_ok_def distinct_map)
    then show ?thesis using v(1) by simp
  qed
  then show ?thesis using tracked_D by blast
qed

lemma new_set_tracked:
  assumes "users_ok us" shows "new_set (map (config_of sn) us) key = map_option (config_of sn) (tracked us key)"
proof -
  have keys: "map (\<lambda>pc. (config_key pc, pc)) (map (config_of sn) us) = map (\<lambda>u. (user_key u, config_of sn u)) us"
    using assms config_of_key by (auto simp: users_ok_def)
  have dist: "distinct (map fst (map (\<lambda>u. (user_key u, config_of sn u)) us))" using assms by (simp add: users_ok_def o_def)
  have "new_set (map (config_of sn) us) key = map_of (map (\<lambda>u. (user_key u, config_of sn u)) us) key"
    unfolding new_set_def keys using dist
    by (subst map_of_inject_set [THEN iffD2, of "rev (map (\<lambda>u. (user_key u, config_of sn u)) us)" "map (\<lambda>u. (user_key u, config_of sn u)) us"])
      (simp_all add: rev_map [symmetric] o_def)
  also have "\<dots> = map_option (config_of sn) (tracked us key)" by (induction us) (auto simp: tracked_def)
  finally show ?thesis .
qed

section \<open>The invariant\<close>

definition peers_match :: "snapshot \<Rightarrow> user list \<Rightarrow> (string \<rightharpoonup> peer) \<Rightarrow> bool" where
  "peers_match sn us peers \<longleftrightarrow>
     (\<forall>key. map_option (\<lambda>p. conn_fields (p_cfg p)) (peers key) = map_option (\<lambda>u. conn_fields (config_of sn u)) (tracked us key))"

definition cache_match :: "(string \<rightharpoonup> route list) \<Rightarrow> (string \<rightharpoonup> peer) \<Rightarrow> bool" where
  "cache_match announced peers \<longleftrightarrow> (\<forall>key rs. announced key = Some rs \<longrightarrow> (\<exists>p. peers key = Some p \<and> p_routes p = rs))"

definition manager_ok :: "manager \<Rightarrow> bool" where
  "manager_ok m \<longleftrightarrow> (case m_session m of
      None \<Rightarrow> True
    | Some (sn, s) \<Rightarrow> users_ok (m_peerConfigs m) \<and> (\<forall>u \<in> set (m_peerConfigs m). startable sn u) \<and> peers_match sn (m_peerConfigs m) (sp_peers s) \<and>
        cache_match (m_peerRoutes m) (sp_peers s))"

lemma SetPeers_peers:
  assumes "SetPeers env cfgs s = (s', Inr u)"
  shows "sp_peers s' = (\<lambda>key. updated_peer (sp_cfg s) (new_set cfgs key) (sp_peers s key)) \<and> sp_cfg s' = sp_cfg s"
  using assms by (auto simp: SetPeers_def Let_def split: prod.splits sum.splits)

lemma SetPeers_error: "SetPeers env cfgs s = (s', Inl e) \<Longrightarrow> sp_peers s' = sp_peers s"
  by (auto simp: SetPeers_def Let_def split: prod.splits sum.splits)

lemma push_peers_ok:
  assumes "push_peers env sn us s = (s', None, pushed)" "\<forall>u \<in> set us. canonical u"
  shows "sp_peers s' = (\<lambda>key. updated_peer (sp_cfg s) (new_set (map (config_of sn) us) key) (sp_peers s key))"
  using assms buildPeerConfigs_ok [of sn us] SetPeers_peers
  by (fastforce simp: push_peers_def split: prod.splits sum.splits)

lemma push_peers_error: "push_peers env sn us s = (s', Some e, pushed) \<Longrightarrow> sp_peers s' = sp_peers s"
  using SetPeers_error by (fastforce simp: push_peers_def split: prod.splits sum.splits)

text \<open>A push keeps the peers whose user is the same as before, with their routes.\<close>

lemma push_keeps:
  assumes "push_peers env sn us' s = (s', None, pushed)" "users_ok us'" "peers_match sn us (sp_peers s)"
  shows "peers_match sn us' (sp_peers s')"
    and "tracked us key = Some v \<Longrightarrow> tracked us' key = Some v' \<Longrightarrow> conn_fields (config_of sn v) = conn_fields (config_of sn v') \<Longrightarrow>
      sp_peers s' key = sp_peers s key"
proof -
  have canon: "\<forall>u \<in> set us'. canonical u" using assms(2) by (simp add: users_ok_def)
  have peers: "sp_peers s' k = updated_peer (sp_cfg s) (map_option (config_of sn) (tracked us' k)) (sp_peers s k)" for k
    unfolding push_peers_ok [OF assms(1) canon] new_set_tracked [OF assms(2)] ..
  have "map_option (\<lambda>p. conn_fields (p_cfg p)) (sp_peers s' k) = map_option (\<lambda>u. conn_fields (config_of sn u)) (tracked us' k)" for k
    unfolding peers updated_peer_def peer_changed_iff by (simp add: NewPeer_def split: option.split)
  then show "peers_match sn us' (sp_peers s')" by (simp add: peers_match_def)
  show "sp_peers s' key = sp_peers s key"
    if "tracked us key = Some v" "tracked us' key = Some v'" "conn_fields (config_of sn v) = conn_fields (config_of sn v')"
  proof -
    have m: "map_option (\<lambda>p. conn_fields (p_cfg p)) (sp_peers s key) = Some (conn_fields (config_of sn v))"
      using assms(3) that(1) unfolding peers_match_def by simp
    then obtain p where "sp_peers s key = Some p" "conn_fields (p_cfg p) = conn_fields (config_of sn v)"
      by (cases "sp_peers s key") simp_all
    then show ?thesis using that(2,3) unfolding peers updated_peer_def peer_changed_iff by simp
  qed
qed

lemma cache_keeps:
  assumes push: "push_peers env sn us' s = (s', None, pushed)" "users_ok us'" "peers_match sn us (sp_peers s)"
    and cache: "cache_match announced (sp_peers s)"
    and same: "\<And>key v. tracked us key = Some v \<Longrightarrow> announced key \<noteq> None \<Longrightarrow>
      \<exists>v'. tracked us' key = Some v' \<and> conn_fields (config_of sn v) = conn_fields (config_of sn v')"
  shows "cache_match announced (sp_peers s')"
  unfolding cache_match_def
proof (intro allI impI)
  fix key rs assume a: "announced key = Some rs"
  then obtain p where p: "sp_peers s key = Some p" "p_routes p = rs" using cache by (auto simp: cache_match_def)
  have "map_option (\<lambda>p. conn_fields (p_cfg p)) (sp_peers s key) = map_option (\<lambda>u. conn_fields (config_of sn u)) (tracked us key)"
    using push(3) by (simp only: peers_match_def)
  then obtain v where v: "tracked us key = Some v" using p(1) by (cases "tracked us key") simp_all
  obtain v' where "tracked us' key = Some v'" "conn_fields (config_of sn v) = conn_fields (config_of sn v')"
    using same [OF v] a by auto
  then show "\<exists>p. sp_peers s' key = Some p \<and> p_routes p = rs" using push_keeps(2) [OF push v] p by simp
qed

section \<open>Operations on peers\<close>

lemma peer_key_inj: "peer_key ip n = peer_key ip' n' \<Longrightarrow> ip = ip' \<and> n = n'"
proof -
  assume "peer_key ip n = peer_key ip' n'"
  then have "rev (dec_string (unat n)) @ CHR '':'' # rev ip = rev (dec_string (unat n')) @ CHR '':'' # rev ip'"
    unfolding peer_key_def by (metis append_Cons append_Nil rev_append rev_singleton_conv append_assoc rev.simps)
  moreover have "takeWhile (\<lambda>c. c \<noteq> CHR '':'') (rev (dec_string k) @ CHR '':'' # x) = rev (dec_string k)" for k x
  proof -
    have "c \<noteq> CHR '':''" if "c \<in> set (rev (dec_string k))" for c using no_separators(2) [of k] that by auto
    then show ?thesis by (subst takeWhile_append2) simp_all
  qed
  ultimately have "rev (dec_string (unat n)) = rev (dec_string (unat n')) \<and> rev ip = rev ip'"
    by (metis list.inject same_append_eq)
  then have "dec_value (dec_string (unat n)) = dec_value (dec_string (unat n')) \<and> ip = ip'" by simp
  then show ?thesis by (simp add: dec_value_string word_unat_eq_iff)
qed

lemma user_key_same: "user_key u = user_key v \<longleftrightarrow> same_peer u v"
  using peer_key_inj by (auto simp: user_key_def same_peer_def)

lemma cache_weaker: "cache_match announced peers \<Longrightarrow> (\<And>key rs. announced' key = Some rs \<Longrightarrow> announced key = Some rs) \<Longrightarrow> cache_match announced' peers"
  by (simp add: cache_match_def)

lemma buildPeerConfigs_total:
  "\<forall>u \<in> set us. startable sn u \<Longrightarrow> \<exists>cfgs. buildPeerConfigs sn us = Inr cfgs"
  by (induction us) (auto simp: startable_def split: option.splits)

lemma buildPeerConfigs_startable:
  "buildPeerConfigs sn us = Inr cfgs \<Longrightarrow> \<forall>u \<in> set us. canonical u \<Longrightarrow> \<forall>u \<in> set us. startable sn u"
proof (induction us arbitrary: cfgs)
  case (Cons u us)
  obtain a where "parse_addr (u_PeerIP u) = Some a" using Cons.prems(2) canonical_addr by force
  then show ?case using Cons by (auto simp: startable_def bindE_eq_Inr_iff fail_def split: option.splits)
qed simp

lemma push_startable:
  assumes "push_peers env sn us s = (s', None, pushed)" "users_ok us" shows "\<forall>u \<in> set us. startable sn u"
  using assms buildPeerConfigs_startable [of sn us]
  by (auto simp: push_peers_def users_ok_def split: sum.splits prod.splits)

lemma manager_okI:
  assumes "m_session m = Some (sn, s)" "users_ok (m_peerConfigs m)" "\<forall>u \<in> set (m_peerConfigs m). startable sn u"
    "peers_match sn (m_peerConfigs m) (sp_peers s)" "cache_match (m_peerRoutes m) (sp_peers s)"
  shows "manager_ok m"
  using assms by (simp add: manager_ok_def)

lemma manager_okD:
  assumes "manager_ok m" "m_session m = Some (sn, s)"
  shows "users_ok (m_peerConfigs m)" "\<forall>u \<in> set (m_peerConfigs m). startable sn u"
    "peers_match sn (m_peerConfigs m) (sp_peers s)" "cache_match (m_peerRoutes m) (sp_peers s)"
  using assms by (simp_all add: manager_ok_def)

lemma add_peer_ok:
  assumes ok: "manager_ok m" "m_session m = Some (sn, s)" and u: "canonical u" and add: "add_peer env sn s u m = (m', r)"
  shows "manager_ok m'"
proof (cases "\<exists>v \<in> set (m_peerConfigs m). same_peer v u")
  case True
  then show ?thesis using add ok(1) by (simp add: add_peer_def)
next
  case False
  note d = manager_okD [OF ok]
  let ?us = "m_peerConfigs m @ [u]"
  obtain s' e pushed where p: "push_peers env sn ?us s = (s', e, pushed)" by (metis prod.exhaust)
  have m': "m' = m\<lparr>m_session := Some (sn, s'), m_peerConfigs := (if e = None then ?us else m_peerConfigs m)\<rparr>"
    using add False p by (simp add: add_peer_def)
  have us: "users_ok ?us" using d(1) u False by (auto simp: users_ok_def user_key_same same_peer_def)
  show ?thesis
  proof (cases e)
    case None
    note p' = p [unfolded None]
    have "tracked ?us key = Some v" if "tracked (m_peerConfigs m) key = Some v" for key v
      using that tracked_Some [OF us] tracked_D [OF that] by simp
    then have "cache_match (m_peerRoutes m) (sp_peers s')" by (intro cache_keeps [OF p' us d(3,4)]) blast
    then show ?thesis
      using us push_startable [OF p' us] push_keeps(1) [OF p' us d(3)]
      by (intro manager_okI [where sn = sn and s = s']) (simp_all add: m' None)
  next
    case (Some f)
    then show ?thesis using d push_peers_error [of env sn ?us s s' f pushed] p
      by (intro manager_okI [where sn = sn and s = s']) (simp_all add: m')
  qed
qed

lemma AddPeer_ok: "manager_ok m \<Longrightarrow> canonical u \<Longrightarrow> AddPeer env u m = (m', r) \<Longrightarrow> manager_ok m'"
  using add_peer_ok by (auto simp: AddPeer_def split: option.splits)

lemma replace_user_set:
  assumes "find (\<lambda>v. u_ID v = u_ID u) us = Some old" "distinct us"
  shows "old \<in> set us \<and> u_ID old = u_ID u \<and> set (replace_user u us) = insert u (set us - {old})"
  using assms by (induction us) (auto split: if_splits)

lemma replace_user_keys:
  assumes "find (\<lambda>v. u_ID v = u_ID u) us = Some old" "distinct (map user_key us)"
    "\<forall>v \<in> set us. v \<noteq> old \<longrightarrow> user_key v \<noteq> user_key u"
  shows "distinct (map user_key (replace_user u us))"
  using assms
proof (induction us)
  case (Cons v vs)
  show ?case
  proof (cases "u_ID v = u_ID u")
    case True
    then show ?thesis using Cons.prems by force
  next
    case False
    then have f: "find (\<lambda>v. u_ID v = u_ID u) vs = Some old" using Cons.prems(1) by simp
    have "distinct vs" using Cons.prems(2) by (simp add: distinct_map)
    note r = replace_user_set [OF f this]
    have "user_key v \<notin> user_key ` set (replace_user u vs)" using r Cons.prems(2,3) False by force
    then show ?thesis using Cons.IH [OF f] Cons.prems(2,3) False by simp
  qed
qed simp

lemma not_restarts_fields:
  assumes "\<not> peer_restarts sn old u" shows "conn_fields (config_of sn old) = conn_fields (config_of sn u)"
proof -
  have "u_PeerIP old = u_PeerIP u" "u_PeerASN old = u_PeerASN u" using assms user_key_same by (auto simp: peer_restarts_def same_peer_def)
  then show ?thesis using assms by (simp add: peer_restarts_def config_of_def peer_config_of_def)
qed

lemma UpdatePeer_ok:
  assumes ok: "manager_ok m" and u: "canonical u"
    and clash: "\<forall>v \<in> set (m_peerConfigs m). u_ID v \<noteq> u_ID u \<longrightarrow> user_key v \<noteq> user_key u" "distinct (map u_ID (m_peerConfigs m))"
    and upd: "UpdatePeer env u m = (m', r)" and md5: "\<forall>e. r \<noteq> fail (MD5Refresh e)"
  shows "manager_ok m'"
proof (cases "m_session m")
  case None
  then show ?thesis using upd ok by (simp add: UpdatePeer_def)
next
  case (Some x)
  then obtain sn s where session: "m_session m = Some (sn, s)" by (cases x) auto
  note d = manager_okD [OF ok session]
  show ?thesis
  proof (cases "find (\<lambda>v. u_ID v = u_ID u) (m_peerConfigs m)")
    case None
    then show ?thesis using upd session add_peer_ok [OF ok session u] by (simp add: UpdatePeer_def)
  next
    case (Some old)
    let ?us = "replace_user u (m_peerConfigs m)"
    let ?cache = "if peer_restarts sn old u then (m_peerRoutes m)(user_key old := None) else m_peerRoutes m"
    have "distinct (m_peerConfigs m)" using clash(2) by (simp add: distinct_map)
    note set = replace_user_set [OF Some this]
    have others: "\<forall>v \<in> set (m_peerConfigs m). v \<noteq> old \<longrightarrow> user_key v \<noteq> user_key u"
      using clash set by (metis distinct_map inj_onD)
    have us: "users_ok ?us"
      using replace_user_keys [OF Some _ others] d(1) set u by (auto simp: users_ok_def)
    have weaker: "cache_match ?cache (sp_peers s)" by (rule cache_weaker [OF d(4)]) (auto split: if_splits)
    obtain s' e pushed where p: "push_peers env sn ?us s = (s', e, pushed)" by (metis prod.exhaust)
    show ?thesis
    proof (cases e)
      case None
      note p' = p [unfolded None]
      have m': "m' = m\<lparr>m_session := Some (sn, s'), m_peerConfigs := ?us, m_peerRoutes := ?cache\<rparr>"
        using upd session Some p None by (simp add: UpdatePeer_def Let_def)
      have "\<exists>v'. tracked ?us key = Some v' \<and> conn_fields (config_of sn v) = conn_fields (config_of sn v')"
        if v: "tracked (m_peerConfigs m) key = Some v" and c: "?cache key \<noteq> None" for key v
      proof (cases "v = old")
        case True
        then have "\<not> peer_restarts sn old u" using c tracked_D [OF v] by auto
        then have "tracked ?us key = Some u \<and> conn_fields (config_of sn v) = conn_fields (config_of sn u)"
          using True tracked_D [OF v] tracked_Some [OF us] set not_restarts_fields by (auto simp: peer_restarts_def)
        then show ?thesis by blast
      next
        case False
        then have "tracked ?us key = Some v" using tracked_D [OF v] tracked_Some [OF us] set by auto
        then show ?thesis by blast
      qed
      then have "cache_match ?cache (sp_peers s')" by (rule cache_keeps [OF p' us d(3) weaker])
      then show ?thesis
        using us push_startable [OF p' us] push_keeps(1) [OF p' us d(3)]
        by (intro manager_okI [where sn = sn and s = s']) (simp_all add: m')
    next
      case (Some f)
      have "\<not> pushed"
      proof
        assume "pushed"
        then obtain e' where "f = Err (MD5Refresh e')" using p Some by (auto simp: push_peers_def split: sum.splits prod.splits)
        then show False
          using md5 upd session \<open>find _ _ = Some old\<close> p Some by (auto simp: UpdatePeer_def Let_def outcome_def fail_def)
      qed
      then have m': "m' = m\<lparr>m_session := Some (sn, s'), m_peerRoutes := ?cache\<rparr>"
        using upd session \<open>find _ _ = Some old\<close> p Some by (simp add: UpdatePeer_def Let_def)
      have "sp_peers s' = sp_peers s" by (rule push_peers_error) (use p Some in simp)
      then show ?thesis using d weaker by (intro manager_okI [where sn = sn and s = s']) (simp_all add: m')
    qed
  qed
qed

lemma delete_first_set:
  "distinct us \<Longrightarrow> find P us = Some old \<Longrightarrow> set (delete_first P us) = set us - {old} \<and> distinct (delete_first P us)"
proof (induction us)
  case (Cons v vs)
  show ?case
  proof (cases "P v")
    case True
    then show ?thesis using Cons.prems by simp
  next
    case False
    then have f: "find P vs = Some old" using Cons.prems(2) by simp
    then have "old \<in> set vs" by (auto simp: find_Some_iff)
    then show ?thesis using Cons.IH [OF _ f] Cons.prems(1) False by auto
  qed
qed simp

lemma delete_first_keys: "distinct (map f us) \<Longrightarrow> distinct (map f (delete_first P us))"
proof (induction us)
  case (Cons v vs)
  have "set (delete_first P vs) \<subseteq> set vs" by (induction vs) auto
  then show ?case using Cons by auto
qed simp

lemma DeletePeer_ok:
  assumes ok: "manager_ok m" and del: "DeletePeer env ip i m = (m', r)" and md5: "\<forall>e. r \<noteq> fail (MD5Refresh e)"
  shows "manager_ok m'"
proof (cases "m_session m = None \<or> find (\<lambda>v. u_ID v = i) (m_peerConfigs m) = None")
  case True
  then show ?thesis using del ok by (auto simp: DeletePeer_def split: option.splits)
next
  case False
  then obtain sn s old where session: "m_session m = Some (sn, s)" and old: "find (\<lambda>v. u_ID v = i) (m_peerConfigs m) = Some old" by auto
  note d = manager_okD [OF ok session]
  let ?us = "delete_first (\<lambda>v. u_ID v = i) (m_peerConfigs m)" and ?cache = "(m_peerRoutes m)(user_key old := None)"
  have "distinct (m_peerConfigs m)" using d(1) by (simp add: users_ok_def distinct_map)
  note set = delete_first_set [OF this old]
  have us: "users_ok ?us" using d(1) set delete_first_keys by (auto simp: users_ok_def)
  have start: "\<forall>u \<in> set ?us. startable sn u" using d(2) set by auto
  obtain s' e pushed where p: "push_peers env sn ?us s = (s', e, pushed)" by (metis prod.exhaust)
  have e: "e = None"
  proof (rule ccontr)
    assume "e \<noteq> None"
    then obtain f where "e = Some f" by auto
    then show False
      using del session old p md5 buildPeerConfigs_total [OF start]
      by (auto simp: DeletePeer_def Let_def push_peers_def outcome_def fail_def split: sum.splits prod.splits)
  qed
  note p' = p [unfolded e]
  have m': "m' = m\<lparr>m_session := Some (sn, s'), m_peerConfigs := ?us, m_peerRoutes := ?cache\<rparr>"
    using del session old p e by (simp add: DeletePeer_def Let_def)
  have weaker: "cache_match ?cache (sp_peers s)" by (rule cache_weaker [OF d(4)]) (auto split: if_splits)
  have "tracked ?us key = Some v" if v: "tracked (m_peerConfigs m) key = Some v" "?cache key \<noteq> None" for key v
    using v(2) tracked_D [OF v(1)] tracked_Some [OF us] set by auto
  then have "cache_match ?cache (sp_peers s')" by (intro cache_keeps [OF p' us d(3) weaker]) blast
  then show ?thesis
    using us start push_keeps(1) [OF p' us d(3)]
    by (intro manager_okI [where sn = sn and s = s']) (simp_all add: m')
qed

section \<open>Reconciling\<close>

lemma AnnounceRoutes_fields:
  assumes "AnnounceRoutes ok routes p = (us, done, p')" shows "p_cfg p' = p_cfg p \<and> p_routes p' = routes"
  using assms by (auto simp: AnnounceRoutes_def resyncRoutes_def Let_def split: if_splits prod.splits)

lemma Speaker_Announce_peer:
  assumes "sp_peers s key = Some p" "key = peer_key (addr_string a) asn" "Speaker_Announce ok a asn routes s = (s', done)"
  shows "\<exists>p'. s' = s\<lparr>sp_peers := (sp_peers s)(key \<mapsto> p')\<rparr> \<and> p_cfg p' = p_cfg p \<and> p_routes p' = routes"
proof -
  obtain us d p' where a: "AnnounceRoutes ok routes p = (us, d, p')" by (metis prod.exhaust)
  have "s' = s\<lparr>sp_peers := (sp_peers s)(key \<mapsto> p')\<rparr>"
    using assms a by (simp add: Speaker_Announce_def)
  then show ?thesis using AnnounceRoutes_fields [OF a] by blast
qed

lemma reconcile_user_ok:
  assumes us: "users_ok us" "u \<in> set us" and a: "parse_addr (u_PeerIP u) = Some a"
    and match: "peers_match sn us (sp_peers s)" "cache_match announced (sp_peers s)"
    and rec: "reconcile_user ok u a routes (s, announced, failed) = (s', announced', failed')"
  shows "peers_match sn us (sp_peers s')" "cache_match announced' (sp_peers s')" "length failed \<le> length failed'"
    and "\<forall>key. key \<noteq> user_key u \<longrightarrow> sp_peers s' key = sp_peers s key"
    and "failed' = failed \<Longrightarrow> \<exists>p. sp_peers s' (user_key u) = Some p \<and> p_routes p = routes"
proof -
  have "tracked us (user_key u) = Some u" using tracked_Some [OF us(1)] us(2) by simp
  moreover have "map_option (\<lambda>p. conn_fields (p_cfg p)) (sp_peers s (user_key u)) = map_option (\<lambda>u. conn_fields (config_of sn u)) (tracked us (user_key u))"
    using match(1) by (simp only: peers_match_def)
  ultimately obtain p where p: "sp_peers s (user_key u) = Some p" by (cases "sp_peers s (user_key u)") simp_all
  have key: "user_key u = peer_key (addr_string a) (u_PeerASN u)"
    using canonical_addr [of u] us a by (auto simp: users_ok_def user_key_def)
  have "peers_match sn us (sp_peers s') \<and> cache_match announced' (sp_peers s') \<and> length failed \<le> length failed' \<and>
    (\<forall>key. key \<noteq> user_key u \<longrightarrow> sp_peers s' key = sp_peers s key) \<and>
    (failed' = failed \<longrightarrow> (\<exists>p. sp_peers s' (user_key u) = Some p \<and> p_routes p = routes))"
  proof (cases "announced (user_key u) = Some routes")
    case True
    then have "s' = s" "announced' = announced" "failed' = failed" using rec by (simp_all add: reconcile_user_def)
    then show ?thesis using True match by (simp add: cache_match_def)
  next
    case False
    obtain s1 delivered where sa: "Speaker_Announce (ok (user_key u)) a (u_PeerASN u) routes s = (s1, delivered)" by (metis prod.exhaust)
    obtain p' where p': "s1 = s\<lparr>sp_peers := (sp_peers s)(user_key u \<mapsto> p')\<rparr>" "p_cfg p' = p_cfg p" "p_routes p' = routes"
      using Speaker_Announce_peer [OF p key sa] by blast
    have r: "s' = s1" "announced' = (if delivered then announced(user_key u \<mapsto> routes) else announced(user_key u := None))"
      "failed' = (if delivered then failed else failed @ [(u_PeerIP u, u_PeerASN u)])"
      using rec False sa by (auto simp: reconcile_user_def split: if_splits)
    have "peers_match sn us (sp_peers s1)"
      unfolding peers_match_def
    proof
      fix key
      have "map_option (\<lambda>p. conn_fields (p_cfg p)) (sp_peers s1 key) = map_option (\<lambda>p. conn_fields (p_cfg p)) (sp_peers s key)"
        using p p'(1,2) by simp
      then show "map_option (\<lambda>p. conn_fields (p_cfg p)) (sp_peers s1 key) = map_option (\<lambda>u. conn_fields (config_of sn u)) (tracked us key)"
        using match(1) by (simp only: peers_match_def)
    qed
    moreover have "cache_match announced' (sp_peers s1)"
      using match(2) p'(1,3) unfolding cache_match_def r(2) by (auto split: if_splits)
    ultimately show ?thesis using p'(1,3) by (simp add: r)
  qed
  then show "peers_match sn us (sp_peers s')" "cache_match announced' (sp_peers s')" "length failed \<le> length failed'"
    "\<forall>key. key \<noteq> user_key u \<longrightarrow> sp_peers s' key = sp_peers s key"
    "failed' = failed \<Longrightarrow> \<exists>p. sp_peers s' (user_key u) = Some p \<and> p_routes p = routes" by blast+
qed

lemma reconcile_loop_ok:
  assumes "users_ok us"
  shows "reconcile_loop ok routes_of xs (s, announced, failed) = ((s', announced', failed'), r) \<Longrightarrow>
    set xs \<subseteq> set us \<Longrightarrow> distinct (map user_key xs) \<Longrightarrow> peers_match sn us (sp_peers s) \<Longrightarrow> cache_match announced (sp_peers s) \<Longrightarrow>
    peers_match sn us (sp_peers s') \<and> cache_match announced' (sp_peers s') \<and> length failed \<le> length failed' \<and>
    (\<forall>key. key \<notin> user_key ` set xs \<longrightarrow> sp_peers s' key = sp_peers s key) \<and>
    (r = Inr () \<and> length failed' = length failed \<longrightarrow> (\<forall>u \<in> set xs. u_Enabled u \<longrightarrow>
      (\<exists>p. sp_peers s' (user_key u) = Some p \<and> routes_of u = Inr (p_routes p))))"
proof (induction xs arbitrary: s announced failed)
  case (Cons u xs)
  have u: "u \<in> set us" "canonical u" using Cons.prems(2) assms by (auto simp: users_ok_def)
  then obtain a where a: "parse_addr (u_PeerIP u) = Some a" using canonical_addr by blast
  show ?case
  proof (cases "u_Enabled u")
    case False
    then show ?thesis using Cons.IH [of s announced failed] Cons.prems by auto
  next
    case True
    show ?thesis
    proof (cases "routes_of u")
      case (Inl e)
      then show ?thesis using Cons.prems True a by auto
    next
      case (Inr routes)
      obtain s1 ann1 failed1 where ru: "reconcile_user ok u a routes (s, announced, failed) = (s1, ann1, failed1)" by (metis prod.exhaust)
      note o = reconcile_user_ok [OF assms u(1) a Cons.prems(4,5) ru]
      have rest: "reconcile_loop ok routes_of xs (s1, ann1, failed1) = ((s', announced', failed'), r)"
        using Cons.prems(1) True a Inr ru by simp
      have "set xs \<subseteq> set us" "distinct (map user_key xs)" using Cons.prems(2,3) by simp_all
      note ih = Cons.IH [OF rest this o(1,2)]
      have key: "user_key u \<notin> user_key ` set xs" using Cons.prems(3) by simp
      have "\<exists>p. sp_peers s' (user_key u) = Some p \<and> routes_of u = Inr (p_routes p)" if "length failed' = length failed"
      proof -
        have "length failed1 = length failed" using that ih o(3) by simp
        then have "failed1 = failed" using ru by (auto simp: reconcile_user_def split: if_splits prod.splits)
        then show ?thesis using o(5) ih key Inr by auto
      qed
      then show ?thesis using ih o(3,4) by auto
    qed
  qed
qed simp

lemma reconcile_cases:
  assumes "reconcile ok order db m = (m', r)"
  obtains "m' = m" "\<exists>e. r = Inl e"
  | sn s d ps s' announced failed r' where "m_session m = Some (sn, s)" "DesiredPrefixes order db = Inr d" "parse_desired sn (ds_users d) = Inr ps"
      "reconcile_loop ok (desired_routes sn db d ps) (m_peerConfigs m) (s, m_peerRoutes m, []) = ((s', announced, failed), r')"
      "m_session m' = Some (sn, s')" "m_peerRoutes m' = announced" "m_peerConfigs m' = m_peerConfigs m"
      "r = Inr () \<longleftrightarrow> r' = Inr () \<and> failed = []"
proof (cases "\<exists>sn s d ps. m_session m = Some (sn, s) \<and> DesiredPrefixes order db = Inr d \<and> parse_desired sn (ds_users d) = Inr ps")
  case False
  then have "m' = m \<and> (\<exists>e. r = Inl e)"
    using assms by (auto simp: reconcile_def lift_store_def bindE_def fail_def split: option.splits sum.splits prod.splits)
  then show ?thesis using that(1) by blast
next
  case True
  then obtain sn s d ps where f: "m_session m = Some (sn, s)" "DesiredPrefixes order db = Inr d" "parse_desired sn (ds_users d) = Inr ps"
    by blast
  obtain s' announced failed r' where l:
    "reconcile_loop ok (desired_routes sn db d ps) (m_peerConfigs m) (s, m_peerRoutes m, []) = ((s', announced, failed), r')"
    by (metis prod.exhaust)
  show ?thesis
    by (rule that(2) [OF f l]) (use assms f l in \<open>auto simp: reconcile_def lift_store_def Let_def fail_def split: sum.splits if_splits\<close>)
qed

lemma reconcile_ok:
  assumes "manager_ok m" "reconcile ok order db m = (m', r)" shows "manager_ok m'"
proof (rule reconcile_cases [OF assms(2)])
  fix sn s d ps s' announced failed r'
  assume session: "m_session m = Some (sn, s)"
    and l: "reconcile_loop ok (desired_routes sn db d ps) (m_peerConfigs m) (s, m_peerRoutes m, []) = ((s', announced, failed), r')"
    and m': "m_session m' = Some (sn, s')" "m_peerRoutes m' = announced" "m_peerConfigs m' = m_peerConfigs m"
  note d = manager_okD [OF assms(1) session]
  have "distinct (map user_key (m_peerConfigs m))" using d(1) by (simp add: users_ok_def)
  from reconcile_loop_ok [OF d(1) l order.refl this d(3,4)] show "manager_ok m'"
    using d(1,2) by (intro manager_okI [OF m'(1)]) (simp_all add: m')
qed (use assms(1) in simp)

section \<open>Starting\<close>

text \<open>The users that the store returns and that get a peer have different keys.\<close>

definition scanned :: "user_row \<Rightarrow> user \<Rightarrow> bool" where
  "scanned r u \<longleftrightarrow> decodeStoredAddr (us_peer_ip r) = Inr (u_PeerIP u) \<and> u_PeerASN u = us_peer_asn r"

lemma Users_scanned:
  assumes "Users db b = Inr all"
  shows "list_all2 scanned (sort_key us_id (filter (\<lambda>r. \<not> b \<or> us_enabled r) (users db))) all"
proof -
  obtain us where us: "mapE (scanUserRow db) (sort_key us_id (filter (\<lambda>r. \<not> b \<or> us_enabled r) (users db))) = Inr us"
      "mapE (with_networks db) us = Inr all"
    using assms by (auto simp: Users_def bindE_eq_Inr_iff)
  have "scanned r u" if "scanUserRow db r = Inr v" "with_networks db v = Inr u" for r v u
    using that by (auto simp: scanned_def scanUserRow_def with_networks_def bindE_eq_Inr_iff Let_def)
  then show ?thesis
    using us unfolding mapE_Inr_iff list_all2_conv_all_nth by (metis (no_types, lifting))
qed

lemma scanned_startable:
  assumes "scanned r u" "startable sn u"
  shows "canonical u" "\<exists>a. u_PeerIP u = addr_string a \<and> us_peer_ip r = as_slice a \<and> addr_ok a"
proof -
  have "us_peer_ip r \<noteq> []"
  proof
    assume "us_peer_ip r = []"
    then have "u_PeerIP u = []" using assms(1) by (simp add: scanned_def decodeStoredAddr_def)
    then show False using assms(2) by (simp add: startable_def parse_addr_def parse_addr_zone_def)
  qed
  then obtain a where a: "DecodeAddr (us_peer_ip r) = Inr a" "u_PeerIP u = addr_string a"
    using assms(1) by (auto simp: scanned_def decodeStoredAddr_def bindE_eq_Inr_iff)
  then have "addr_from_slice (us_peer_ip r) = Some a" by (simp add: DecodeAddr_def fail_def split: option.splits)
  then have "addr_ok a" "as_slice a = us_peer_ip r" using addr_from_slice_ok by blast+
  then show "canonical u" "\<exists>a. u_PeerIP u = addr_string a \<and> us_peer_ip r = as_slice a \<and> addr_ok a"
    using a(2) by (auto simp: canonical_def)
qed

lemma list_all2_member: "list_all2 P xs ys \<Longrightarrow> y \<in> set ys \<Longrightarrow> \<exists>x \<in> set xs. P x y"
  by (induction rule: list_all2_induct) auto

lemma scanned_keys:
  "list_all2 scanned rows all \<Longrightarrow> distinct (map (\<lambda>r. (us_peer_ip r, us_peer_asn r)) rows) \<Longrightarrow>
    users_ok (filter (startable sn) all)"
proof (induction rule: list_all2_induct)
  case (Cons r rows u all)
  have ih: "users_ok (filter (startable sn) all)" using Cons.IH Cons.prems by simp
  show ?case
  proof (cases "startable sn u")
    case False
    then show ?thesis using ih by simp
  next
    case True
    note c = scanned_startable [OF Cons.hyps(1) True]
    have "user_key v \<noteq> user_key u" if v: "v \<in> set all" "startable sn v" for v
    proof
      assume "user_key v = user_key u"
      then have same: "u_PeerIP v = u_PeerIP u" "u_PeerASN v = u_PeerASN u" using user_key_same same_peer_def by blast+
      obtain r' where r': "r' \<in> set rows" "scanned r' v"
        using list_all2_member [OF Cons.hyps(2) v(1)] by blast
      obtain a b where ab: "u_PeerIP u = addr_string a" "us_peer_ip r = as_slice a" "addr_ok a"
          "u_PeerIP v = addr_string b" "us_peer_ip r' = as_slice b" "addr_ok b"
        using c(2) scanned_startable(2) [OF r'(2) v(2)] by blast
      then have "a = b" using same(1) parse_addr_string by (metis option.inject)
      then have eq: "(us_peer_ip r', us_peer_asn r') = (us_peer_ip r, us_peer_asn r)"
        using ab(2,5) same(2) r'(2) Cons.hyps(1) by (simp add: scanned_def)
      have "(us_peer_ip r', us_peer_asn r') \<in> (\<lambda>r. (us_peer_ip r, us_peer_asn r)) ` set rows" using r'(1) by (rule imageI)
      moreover have "(us_peer_ip r, us_peer_asn r) \<notin> (\<lambda>r. (us_peer_ip r, us_peer_asn r)) ` set rows" using Cons.prems by simp
      ultimately show False unfolding eq by contradiction
    qed
    then have "user_key u \<noteq> user_key v" if "v \<in> set all" "startable sn v" for v using that by metis
    then have "user_key u \<notin> user_key ` set (filter (startable sn) all)" by auto
    then show ?thesis using ih True c(1) by (simp add: users_ok_def)
  qed
qed (simp add: users_ok_def)

lemma store_users_ok:
  assumes "db_ok db" "Users db b = Inr all" shows "users_ok (filter (startable sn) all)"
proof (rule scanned_keys [OF Users_scanned [OF assms(2)]])
  let ?rows = "filter (\<lambda>r. \<not> b \<or> us_enabled r) (users db)" and ?k = "\<lambda>r. (us_peer_ip r, us_peer_asn r)"
  have "distinct (map ?k (users db))" using db_okD(1) [OF assms(1)] by (simp add: keys_ok_def)
  then have "distinct (map ?k ?rows)" by (rule distinct_map_filter)
  then show "distinct (map ?k (sort_key us_id ?rows))" by (simp add: distinct_map)
qed

lemma Speaker_Start_peers: "Speaker_Start env s = (s', fx, r) \<Longrightarrow> sp_peers s' = sp_peers s"
  by (auto simp: Speaker_Start_def Let_def split: if_splits prod.splits sum.splits)

lemma with_error_ok: "manager_ok (fst (with_error x)) = manager_ok (fst x)"
  by (simp add: with_error_def manager_ok_def split: option.split)

lemma start_locked_ok:
  assumes "db_ok db" "m_session m = None" "m_peerRoutes m = Map.empty" "start_locked c env ok order db m = (m', r)"
  shows "manager_ok m'"
proof (cases "m_session m' = None")
  case True
  then show ?thesis by (simp add: manager_ok_def)
next
  case False
  have none: "map_option f (m_session m) = None" for f using assms(2) by simp
  obtain rid sn where sn: "snapshot_of c = Inr (rid, sn)" using assms(2,4) False by (auto simp: start_locked_def split: sum.splits)
  obtain s fx r1 where st: "Speaker_Start env (NewSpeaker (speaker_settings c rid sn)) = (s, fx, r1)" by (metis prod.exhaust)
  obtain all where all: "Users db True = Inr all" "r1 = Inr ()"
    using assms(4) False sn st none by (auto simp: start_locked_def split: sum.splits)
  let ?us = "filter (startable sn) all"
  obtain s' e pushed where p: "push_peers (se_md5 env) sn ?us s = (s', e, pushed)" by (metis prod.exhaust)
  have e: "e = None" using assms(4) False sn st all p by (cases e) (auto simp: start_locked_def Let_def)
  let ?m1 = "m\<lparr>m_peerConfigs := ?us, m_session := Some (sn, s')\<rparr>"
  obtain m2 r2 where rec: "reconcile ok order db ?m1 = (m2, r2)" by (metis prod.exhaust)
  have m': "m' = m2" using assms(4) False sn st all p e rec by (auto simp: start_locked_def Let_def split: sum.splits)
  have us: "users_ok ?us" by (rule store_users_ok [OF assms(1) all(1)])
  have "sp_peers s = Map.empty" using Speaker_Start_peers [OF st] by (simp add: NewSpeaker_def)
  then have "peers_match sn [] (sp_peers s)" by (simp add: peers_match_def tracked_def)
  note k = push_keeps(1) [OF p [unfolded e] us this]
  have "manager_ok ?m1"
    using us k assms(3) by (intro manager_okI [where sn = sn and s = s']) (auto simp: cache_match_def)
  then show ?thesis using reconcile_ok rec m' by blast
qed

section \<open>Sequences of operations\<close>

text \<open>
  The steps of a running manager. The speaker can refuse an update of the peers (an MD5 key that cannot be
  set); such a step is not among them. Between operations the sessions of the peers run; they change a peer,
  but neither its configuration nor the routes it is to announce.
\<close>

definition sessions_ran :: "manager \<Rightarrow> manager \<Rightarrow> bool" where
  "sessions_ran m m' \<longleftrightarrow> (\<exists>sn s peers. m_session m = Some (sn, s) \<and> m' = m\<lparr>m_session := Some (sn, s\<lparr>sp_peers := peers\<rparr>)\<rparr> \<and>
     (\<forall>key. map_option (\<lambda>p. (p_cfg p, p_routes p)) (peers key) = map_option (\<lambda>p. (p_cfg p, p_routes p)) (sp_peers s key)))"

inductive bgp_step :: "manager \<Rightarrow> manager \<Rightarrow> bool" where
  start: "db_ok db \<Longrightarrow> m_session m = None \<Longrightarrow> m_peerRoutes m = Map.empty \<Longrightarrow> Start c env ok order db m = (m', r) \<Longrightarrow> bgp_step m m'"
| reload: "db_ok db \<Longrightarrow> ReloadPeers c env ok order db m = (m', r) \<Longrightarrow> bgp_step m m'"
| stop: "bgp_step m (Stop m)"
| reconcile: "reconcile ok order db m = (m', r) \<Longrightarrow> bgp_step m m'"
| add_peer: "canonical u \<Longrightarrow> AddPeer env u m = (m', r) \<Longrightarrow> bgp_step m m'"
| update_peer: "canonical u \<Longrightarrow> \<forall>v \<in> set (m_peerConfigs m). u_ID v \<noteq> u_ID u \<longrightarrow> user_key v \<noteq> user_key u \<Longrightarrow>
    distinct (map u_ID (m_peerConfigs m)) \<Longrightarrow> UpdatePeer env u m = (m', r) \<Longrightarrow> \<forall>e. r \<noteq> fail (MD5Refresh e) \<Longrightarrow> bgp_step m m'"
| delete_peer: "DeletePeer env ip i m = (m', r) \<Longrightarrow> \<forall>e. r \<noteq> fail (MD5Refresh e) \<Longrightarrow> bgp_step m m'"
| sessions: "sessions_ran m m' \<Longrightarrow> bgp_step m m'"

lemma sessions_ran_ok: "manager_ok m \<Longrightarrow> sessions_ran m m' \<Longrightarrow> manager_ok m'"
proof -
  assume ok: "manager_ok m" and ran: "sessions_ran m m'"
  obtain sn s peers where r: "m_session m = Some (sn, s)" "m' = m\<lparr>m_session := Some (sn, s\<lparr>sp_peers := peers\<rparr>)\<rparr>"
      "\<And>key. map_option (\<lambda>p. (p_cfg p, p_routes p)) (peers key) = map_option (\<lambda>p. (p_cfg p, p_routes p)) (sp_peers s key)"
    using ran by (auto simp: sessions_ran_def)
  note d = manager_okD [OF ok r(1)]
  have part: "map_option (\<lambda>p. f (p_cfg p) (p_routes p)) (peers key) = map_option (\<lambda>p. f (p_cfg p) (p_routes p)) (sp_peers s key)" for f key
    using r(3) [of key] by (cases "peers key"; cases "sp_peers s key") auto
  have "peers_match sn (m_peerConfigs m) peers"
    unfolding peers_match_def
  proof
    fix key
    have "map_option (\<lambda>p. conn_fields (p_cfg p)) (peers key) = map_option (\<lambda>p. conn_fields (p_cfg p)) (sp_peers s key)"
      by (rule part [of "\<lambda>c _. conn_fields c"])
    also have "\<dots> = map_option (\<lambda>u. conn_fields (config_of sn u)) (tracked (m_peerConfigs m) key)"
      using d(3) by (simp only: peers_match_def)
    finally show "map_option (\<lambda>p. conn_fields (p_cfg p)) (peers key) = map_option (\<lambda>u. conn_fields (config_of sn u)) (tracked (m_peerConfigs m) key)" .
  qed
  moreover have "cache_match (m_peerRoutes m) peers"
    unfolding cache_match_def
  proof (intro allI impI)
    fix key rs assume "m_peerRoutes m key = Some rs"
    then obtain p where "sp_peers s key = Some p" "p_routes p = rs" using d(4) by (auto simp: cache_match_def)
    then show "\<exists>p. peers key = Some p \<and> p_routes p = rs" using part [of "\<lambda>_ rs. rs" key] by (cases "peers key") auto
  qed
  ultimately show ?thesis using d(1,2) by (intro manager_okI [where sn = sn and s = "s\<lparr>sp_peers := peers\<rparr>"]) (simp_all add: r(2))
qed

lemma bgp_step_ok:
  assumes "bgp_step m m'" "manager_ok m" shows "manager_ok m'"
  using assms
proof cases
  case (start db c env ok order r)
  obtain m1 r1 where s: "start_locked c env ok order db m = (m1, r1)" by (metis prod.exhaust)
  then have "m' = fst (with_error (m1, r1))" using start(4) by (simp add: Start_def)
  then show ?thesis using start_locked_ok [OF start(1-3) s] with_error_ok [of "(m1, r1)"] by simp
next
  case (reload db c env ok order r)
  let ?m = "m\<lparr>m_session := None, m_peerRoutes := Map.empty\<rparr>"
  obtain m1 r1 where s: "start_locked c env ok order db ?m = (m1, r1)" by (metis prod.exhaust)
  then have "m' = fst (with_error (m1, r1))" using reload(2) by (simp add: ReloadPeers_def)
  then show ?thesis using start_locked_ok [OF reload(1) _ _ s] with_error_ok [of "(m1, r1)"] by simp
next
  case stop
  then show ?thesis by (simp add: Stop_def manager_ok_def split: option.splits)
next
  case reconcile
  then show ?thesis using reconcile_ok assms(2) by blast
next
  case add_peer
  then show ?thesis using AddPeer_ok assms(2) by blast
next
  case (update_peer u env r)
  show ?thesis by (rule UpdatePeer_ok [OF assms(2) update_peer])
next
  case (delete_peer env ip i r)
  show ?thesis by (rule DeletePeer_ok [OF assms(2) delete_peer])
next
  case sessions
  then show ?thesis using sessions_ran_ok assms(2) by blast
qed

lemma bgp_reachable_ok: "bgp_step\<^sup>*\<^sup>* NewManager m \<Longrightarrow> manager_ok m"
proof (induction rule: rtranclp_induct)
  case base
  show ?case by (simp add: manager_ok_def NewManager_def)
next
  case (step m m')
  then show ?case using bgp_step_ok by blast
qed

end
