(* ===== verification/Bgp_Md5_Safety.thy ===== *)
theory Bgp_Md5_Safety
  imports Bgp_Md5_Keys
begin

text \<open>
  What the keys of the listener guarantee: addresses have keys of their own, a SYN that the queue lets pass is
  signed, and fixed peers keep their keys, unless a dynamic peer has used their address.
\<close>

section \<open>Socket addresses are different\<close>

text \<open>IPv4-mapped IPv6 addresses share the socket address of the IPv4 address.\<close>

definition plain_addr :: "addr \<Rightarrow> bool" where
  "plain_addr a \<longleftrightarrow> addr_ok a \<and> (is6 a \<longrightarrow> a_val a div 2 ^ 32 \<noteq> 0xffff)"

lemma fam_cases: "is4 a \<or> is6 a"
  by (cases "a_fam a") (simp_all add: is4_def is6_def)

lemma family_bits [simp]: "is4 a \<Longrightarrow> addr_bitlen a = 32" "\<not> is4 a \<Longrightarrow> addr_bitlen a = 128"
  by (cases "a_fam a"; simp add: is4_def)+

lemma sockaddr_layout:
  "is6 a \<Longrightarrow> buildSockaddrStorage a af = (AF_INET6, replicate 6 0 @ as_slice a @ replicate 96 0)"
  "is4 a \<Longrightarrow> buildSockaddrStorage a AF_INET6 = (AF_INET6, (replicate 16 0 @ [0xff, 0xff]) @ as_slice a @ replicate 96 0)"
  "is4 a \<Longrightarrow> af \<noteq> AF_INET6 \<Longrightarrow> buildSockaddrStorage a af = (AF_INET, replicate 2 0 @ as_slice a @ replicate 112 0)"
  by (simp_all add: buildSockaddrStorage_def Let_def put_at_def drop_replicate)

lemma as_slice_inj:
  assumes "as_slice a = as_slice b" "addr_ok a" "addr_ok b" "a_fam a = a_fam b" shows "a = b"
proof -
  have "a_val a = a_val b" using assms(1) be_nat_as_slice [OF assms(2)] be_nat_as_slice [OF assms(3)] by simp
  then show ?thesis using assms(4) by (simp add: addr.expand)
qed

lemma families: "AF_INET \<noteq> AF_INET6" "AF_INET6 \<noteq> AF_INET"
  by (simp_all add: AF_INET_def AF_INET6_def)

lemma mapped_slice:
  assumes "as_slice b = replicate 10 0 @ [0xff, 0xff] @ as_slice a" "is4 a" "is6 b" "addr_ok a" "addr_ok b"
  shows "a_val b div 2 ^ 32 = 0xffff"
proof -
  have len: "length (as_slice a) = 4" using assms(2) by simp
  have "be_nat (replicate n 0) = 0" for n by (induction n) (simp_all add: replicate_append_same [symmetric] del: replicate.simps(2), simp_all add: be_nat_def)
  then have "be_nat (replicate 10 0 @ [0xff, 0xff]) = 65535" by (simp only: be_nat_append) (simp add: be_nat_def)
  then have "be_nat ((replicate 10 0 @ [0xff, 0xff]) @ as_slice a) = 65535 * 256 ^ 4 + a_val a"
    by (simp only: be_nat_append be_nat_as_slice [OF assms(4)] len)
  then have "be_nat (as_slice b) = 65535 * 256 ^ 4 + a_val a" by (simp only: assms(1) append_assoc)
  then have "a_val b = 65535 * 2 ^ 32 + a_val a" using be_nat_as_slice [OF assms(5)] by simp
  moreover have "a_val a < 2 ^ 32" using assms(2,4) by (simp add: addr_ok_def is4_def)
  ultimately show ?thesis by (simp add: div_mult_self3)
qed

lemma sockaddr_cross:
  assumes "plain_addr a" "plain_addr b" "is4 a" "is6 b" shows "buildSockaddrStorage a af \<noteq> buildSockaddrStorage b af"
proof (cases "af = AF_INET6")
  case True
  show ?thesis
  proof
    assume "buildSockaddrStorage a af = buildSockaddrStorage b af"
    then have "(replicate 16 0 @ [0xff, 0xff]) @ as_slice a @ replicate 96 0 = replicate 6 0 @ as_slice b @ replicate 96 0"
      using True by (simp only: sockaddr_layout(1) [OF assms(4)] sockaddr_layout(2) [OF assms(3)] prod.inject)
    moreover have "replicate 16 (0 :: byte) = replicate 6 0 @ replicate 10 0" by (simp add: replicate_add [symmetric])
    ultimately have "as_slice b @ replicate 96 0 = (replicate 10 0 @ [0xff, 0xff] @ as_slice a) @ replicate 96 0"
      by (simp only: append_assoc same_append_eq)
    then have "as_slice b = replicate 10 0 @ [0xff, 0xff] @ as_slice a" by (simp only: append_same_eq)
    then show False using mapped_slice assms by (auto simp: plain_addr_def)
  qed
next
  case False
  then show ?thesis
    using sockaddr_layout(1) [OF assms(4), of af] sockaddr_layout(3) [OF assms(3) False] families by simp
qed

lemma sockaddr_inj:
  assumes "plain_addr a" "plain_addr b" "buildSockaddrStorage a af = buildSockaddrStorage b af" shows "a = b"
proof -
  consider "is4 a" "is4 b" | "is6 a" "is6 b" | "is4 a" "is6 b" | "is6 a" "is4 b" using fam_cases by blast
  then show ?thesis
  proof cases
    case 1
    then have "as_slice a = as_slice b"
      using assms(3) sockaddr_layout(2) [of a] sockaddr_layout(2) [of b] sockaddr_layout(3) [of a af] sockaddr_layout(3) [of b af]
      by (cases "af = AF_INET6") (simp_all only: prod.inject append_same_eq same_append_eq simp_thms)
    then show ?thesis using 1 assms(1,2) by (intro as_slice_inj) (simp_all add: plain_addr_def is4_def)
  next
    case 2
    then have "as_slice a = as_slice b"
      using assms(3) sockaddr_layout(1) [of a af] sockaddr_layout(1) [of b af]
      by (simp only: prod.inject append_same_eq same_append_eq simp_thms)
    then show ?thesis using 2 assms(1,2) as_slice_inj [of a b] unfolding plain_addr_def is6_def by simp
  qed (use assms sockaddr_cross in metis)+
qed

section \<open>Keys of configured peers\<close>

abbreviation sock :: "u16 \<Rightarrow> addr \<Rightarrow> sockaddr" where
  "sock af a \<equiv> buildSockaddrStorage a af"

lemma setTCPMD5OnFd_ok:
  assumes "setTCPMD5OnFd env a pw keys = (keys', Inr u)" "me_family env = Inr af" "pw \<noteq> []" "\<not> is_loopback a"
  shows "keys' = keys(sock af a \<mapsto> pw)"
  using assms by (auto simp: setTCPMD5OnFd_def SetsockoptTCPMD5Sig_def fail_def split: if_splits)

lemma applyListenerMD5_ok:
  "applyListenerMD5 env pcs keys = (keys', Inr u) \<Longrightarrow> password_conflict Map.empty pcs = None \<and> set_keys env pcs keys = (keys', Inr u)"
  by (auto simp: applyListenerMD5_def fail_def split: raw_conn.splits option.splits if_splits)

lemma set_keys_other:
  "set_keys env pcs keys = (keys', Inr u) \<Longrightarrow> me_family env = Inr af \<Longrightarrow> plain_addr a \<Longrightarrow>
    \<forall>pc \<in> set pcs. plain_addr (pc_Address pc) \<and> (keyless pc \<or> pc_Address pc \<noteq> a) \<Longrightarrow> keys' (sock af a) = keys (sock af a)"
proof (induction pcs arbitrary: keys)
  case (Cons pc pcs)
  show ?case
  proof (cases "keyless pc")
    case True
    then show ?thesis using Cons by simp
  next
    case False
    then obtain k where k: "setTCPMD5OnFd env (pc_Address pc) (pc_Password pc) keys = (k, Inr ())" "set_keys env pcs k = (keys', Inr u)"
      using Cons.prems(1) by (auto split: prod.splits sum.splits)
    have "k = keys(sock af (pc_Address pc) \<mapsto> pc_Password pc)"
      using setTCPMD5OnFd_ok [OF k(1) Cons.prems(2)] False by (simp add: keyless_def)
    moreover have "sock af a \<noteq> sock af (pc_Address pc)" using sockaddr_inj [OF Cons.prems(3), of "pc_Address pc" af] Cons.prems(4) False by auto
    ultimately show ?thesis using Cons.IH [OF k(2) Cons.prems(2,3)] Cons.prems(4) by simp
  qed
qed simp

lemma set_keys_conflict_free:
  "password_conflict seen pcs = None \<Longrightarrow> set_keys env pcs keys = (keys', Inr u) \<Longrightarrow> me_family env = Inr af \<Longrightarrow>
    \<forall>pc \<in> set pcs. plain_addr (pc_Address pc) \<Longrightarrow> \<forall>a pw. seen a = Some pw \<longrightarrow> plain_addr a \<and> keys (sock af a) = Some pw \<Longrightarrow>
    (\<forall>a pw. seen a = Some pw \<longrightarrow> keys' (sock af a) = Some pw) \<and>
    (\<forall>pc \<in> set pcs. \<not> keyless pc \<longrightarrow> keys' (sock af (pc_Address pc)) = Some (pc_Password pc))"
proof (induction pcs arbitrary: seen keys)
  case (Cons pc pcs)
  show ?case
  proof (cases "keyless pc")
    case True
    then show ?thesis using Cons by simp
  next
    case False
    let ?a = "pc_Address pc" and ?pw = "pc_Password pc"
    obtain k where k: "setTCPMD5OnFd env ?a ?pw keys = (k, Inr ())" "set_keys env pcs k = (keys', Inr u)"
      using Cons.prems(2) False by (auto split: prod.splits sum.splits)
    have key: "k = keys(sock af ?a \<mapsto> ?pw)"
      using setTCPMD5OnFd_ok [OF k(1) Cons.prems(3)] False by (simp add: keyless_def)
    have seen: "password_conflict (seen(?a \<mapsto> ?pw)) pcs = None" "seen ?a \<in> {None, Some ?pw}"
      using Cons.prems(1) False by (auto split: option.splits if_splits simp: fun_upd_idem)
    have plain: "plain_addr ?a" using Cons.prems(4) by simp
    have "\<forall>a pw. (seen(?a \<mapsto> ?pw)) a = Some pw \<longrightarrow> plain_addr a \<and> k (sock af a) = Some pw"
    proof (intro allI impI)
      fix a pw assume a: "(seen(?a \<mapsto> ?pw)) a = Some pw"
      show "plain_addr a \<and> k (sock af a) = Some pw"
      proof (cases "a = ?a")
        case True
        then show ?thesis using a key plain by simp
      next
        case False
        then have "plain_addr a \<and> keys (sock af a) = Some pw" using a Cons.prems(5) by simp
        then show ?thesis using False sockaddr_inj [of a ?a af] plain by (auto simp: key)
      qed
    qed
    from Cons.IH [OF seen(1) k(2) Cons.prems(3) _ this] Cons.prems(4)
    have r: "\<forall>a pw. (seen(?a \<mapsto> ?pw)) a = Some pw \<longrightarrow> keys' (sock af a) = Some pw"
      "\<forall>pc \<in> set pcs. \<not> keyless pc \<longrightarrow> keys' (sock af (pc_Address pc)) = Some (pc_Password pc)" by simp_all
    have "keys' (sock af a) = Some pw" if "seen a = Some pw" for a pw
      using r(1) seen(2) that by (cases "a = ?a") auto
    then show ?thesis using r by auto
  qed
qed simp

section \<open>The queue\<close>

text \<open>
  Every key the queue has installed is in the kernel, and none is for the address of a fixed peer.
\<close>

definition queue_ok :: "u16 \<Rightarrow> md5_queue \<times> kernel_keys \<Rightarrow> bool" where
  "queue_ok af st \<longleftrightarrow> [] \<notin> set (q_dynamicPass (fst st)) \<and> distinct (map fst (q_installed (fst st))) \<and>
     (\<forall>(a, k) \<in> set (q_installed (fst st)). plain_addr a \<and> a \<notin> set (q_fixedAddrs (fst st)) \<and>
        (\<not> is_loopback a \<longrightarrow> snd st (sock af a) = Some (ik_password k)))"

lemma addListenerMD5Key_ok:
  assumes "addListenerMD5Key env a pw keys = (keys', Inr u)" "me_family env = Inr af" "pw \<noteq> []"
  shows "keys' = (if is_loopback a then keys else keys(sock af a \<mapsto> pw))"
  using assms setTCPMD5OnFd_ok [of env a pw keys keys' u af]
  by (auto simp: addListenerMD5Key_def fail_def setTCPMD5OnFd_def split: raw_conn.splits)

lemma addListenerMD5Key_error:
  assumes "addListenerMD5Key env a pw keys = (keys', Inl e)" shows "keys' = keys"
  using assms
  by (auto simp: addListenerMD5Key_def setTCPMD5OnFd_def SetsockoptTCPMD5Sig_def fail_def split: raw_conn.splits if_splits sum.splits)

lemma removeListenerMD5Key_other:
  assumes "me_family env = Inr af" "plain_addr a" "plain_addr b" "a \<noteq> b"
  shows "fst (removeListenerMD5Key env a keys) (sock af b) = keys (sock af b)"
proof -
  have "sock af b \<noteq> sock af a" using sockaddr_inj assms by metis
  then show ?thesis using assms(1)
    by (simp add: removeListenerMD5Key_def clearTCPMD5OnFd_def SetsockoptTCPMD5Sig_def split: raw_conn.split)
qed

lemma remove_all_other:
  assumes "me_family env = Inr af" "plain_addr b" "\<forall>a \<in> set as. plain_addr a" "b \<notin> set as"
  shows "remove_all env as keys (sock af b) = keys (sock af b)"
  using assms(3,4)
proof (induction as arbitrary: keys)
  case (Cons a as)
  then have "a \<noteq> b" "plain_addr a" by auto
  then show ?case using Cons removeListenerMD5Key_other [OF assms(1) _ assms(2), of a] by (simp add: remove_all_def)
qed (simp add: remove_all_def)

text \<open>Dropping installed keys, by a timeout or because their password is gone.\<close>

lemma drop_installed:
  assumes "queue_ok af (q, keys)" "me_family env = Inr af"
  shows "queue_ok af (q\<lparr>q_installed := filter (\<lambda>(a, k). \<not> P k) (q_installed q)\<rparr>,
      remove_all env (map fst (filter (\<lambda>(a, k). P k) (q_installed q))) keys)"
    and "plain_addr b \<Longrightarrow> b \<in> set (q_fixedAddrs q) \<Longrightarrow>
      remove_all env (map fst (filter (\<lambda>(a, k). P k) (q_installed q))) keys (sock af b) = keys (sock af b)"
proof -
  let ?gone = "map fst (filter (\<lambda>(a, k). P k) (q_installed q))"
  have q: "distinct (map fst (q_installed q))" "\<forall>(a, k) \<in> set (q_installed q). plain_addr a \<and> a \<notin> set (q_fixedAddrs q) \<and>
      (\<not> is_loopback a \<longrightarrow> keys (sock af a) = Some (ik_password k))" "[] \<notin> set (q_dynamicPass q)"
    using assms(1) by (simp_all add: queue_ok_def)
  have plain: "\<forall>a \<in> set ?gone. plain_addr a" using q(2) by auto
  have "plain_addr a \<and> a \<notin> set (q_fixedAddrs q) \<and> (\<not> is_loopback a \<longrightarrow> remove_all env ?gone keys (sock af a) = Some (ik_password k))"
    if a: "(a, k) \<in> set (q_installed q)" "\<not> P k" for a k
  proof -
    have "k' = k" if "(a, k') \<in> set (q_installed q)" for k' using q(1) a(1) that by (metis map_of_is_SomeI option.inject)
    then have "a \<notin> set ?gone" using a(2) by auto
    then show ?thesis using q(2) a(1) remove_all_other [OF assms(2) _ plain] by fastforce
  qed
  then show "queue_ok af (q\<lparr>q_installed := filter (\<lambda>(a, k). \<not> P k) (q_installed q)\<rparr>, remove_all env ?gone keys)"
    using q(1,3) by (auto simp: queue_ok_def distinct_map_filter)
  show "remove_all env ?gone keys (sock af b) = keys (sock af b)" if "plain_addr b" "b \<in> set (q_fixedAddrs q)"
  proof (rule remove_all_other [OF assms(2) that(1) plain])
    show "b \<notin> set ?gone" using q(2) that(2) by auto
  qed
qed

lemma queue_install_ok:
  assumes ok: "queue_ok af (q, keys)" and fam: "me_family env = Inr af" and a: "plain_addr a" "a \<notin> set (q_fixedAddrs q)"
    and pw: "pw \<noteq> []" and inst: "queue_install env now a pw (q, keys) = ((q', keys'), Inr u)"
  shows "queue_ok af (q', keys') \<and> q_fixedAddrs q' = q_fixedAddrs q \<and> q_dynamicPass q' = q_dynamicPass q \<and>
    q_bgpPort q' = q_bgpPort q \<and>
    (\<not> is_loopback a \<longrightarrow> keys' (sock af a) = Some pw) \<and> (\<forall>b. plain_addr b \<and> b \<noteq> a \<longrightarrow> keys' (sock af b) = keys (sock af b))"
proof -
  let ?q = "q\<lparr>q_installed := filter (\<lambda>(b, k). b \<noteq> a) (q_installed q) @ [(a, \<lparr>ik_password = pw, ik_lastSeen = now\<rparr>)]\<rparr>"
  have q: "distinct (map fst (q_installed q))" "\<forall>(a, k) \<in> set (q_installed q). plain_addr a \<and> a \<notin> set (q_fixedAddrs q) \<and>
      (\<not> is_loopback a \<longrightarrow> keys (sock af a) = Some (ik_password k))" "[] \<notin> set (q_dynamicPass q)"
    using ok by (simp_all add: queue_ok_def)
  have q': "q' = ?q" and cases: "(\<exists>k. (a, k) \<in> set (q_installed q) \<and> ik_password k = pw \<and> keys' = keys) \<or>
      (\<exists>v. addListenerMD5Key env a pw keys = (keys', Inr v))"
    using inst by (auto simp: queue_install_def Let_def dest: map_of_SomeD split: option.splits if_splits prod.splits sum.splits)
  have keys': "\<not> is_loopback a \<longrightarrow> keys' (sock af a) = Some pw" "\<forall>b. sock af b \<noteq> sock af a \<longrightarrow> keys' (sock af b) = keys (sock af b)"
    using cases q(2) addListenerMD5Key_ok [OF _ fam pw] by (fastforce split: if_splits)+
  have other: "keys' (sock af b) = keys (sock af b)" if "plain_addr b" "b \<noteq> a" for b
    using keys'(2) sockaddr_inj [OF that(1) a(1)] that(2) by blast
  have "queue_ok af (?q, keys')"
    using q a keys'(1) other by (auto simp: queue_ok_def distinct_map_filter)
  then show ?thesis using keys'(1) other by (simp add: q')
qed

lemma queue_install_error:
  assumes "queue_install env now a pw st = (st', Inl e)" shows "st' = st"
  using assms addListenerMD5Key_error
  by (auto simp: queue_install_def Let_def split: option.splits if_splits prod.splits sum.splits)

lemma decide_judged:
  assumes "parse_ip_tcp_segment packet = Inr seg" "DstPort seg = q_bgpPort q" "is_syn seg" "SrcAddr seg \<notin> set (q_fixedAddrs q)"
  shows "decide md5 env now packet (q, keys) =
    (case find (matches_password md5 seg) (q_dynamicPass q) of
       None \<Rightarrow> (NfDrop, q, keys)
     | Some pw \<Rightarrow> (case queue_install env now (SrcAddr seg) pw (q, keys) of
           (st', Inl e) \<Rightarrow> (NfDrop, st')
         | (st', Inr _) \<Rightarrow> (NfAccept, st')))"
  using assms by (simp add: decide_def)

lemma decide_passed:
  assumes "\<not> (\<exists>seg. parse_ip_tcp_segment packet = Inr seg \<and> DstPort seg = q_bgpPort q \<and> is_syn seg \<and> SrcAddr seg \<notin> set (q_fixedAddrs q))"
  shows "decide md5 env now packet (q, keys) = (NfAccept, q, keys)"
  using assms by (auto simp: decide_def split: sum.split)


section \<open>Fixed peers\<close>

datatype queue_event = Packet md5_env int "byte list" | Tick md5_env int

fun queue_step :: "(byte list \<Rightarrow> byte list) \<Rightarrow> md5_queue \<times> kernel_keys \<Rightarrow> queue_event \<Rightarrow> md5_queue \<times> kernel_keys" where
  "queue_step md5 st (Packet env now packet) = snd (decide md5 env now packet st)"
| "queue_step md5 st (Tick env now) = evictIdle env now st"

fun event_sane :: "u16 \<Rightarrow> queue_event \<Rightarrow> bool" where
  "event_sane af (Packet env now packet) \<longleftrightarrow> me_family env = Inr af \<and>
     (\<forall>seg. parse_ip_tcp_segment packet = Inr seg \<longrightarrow> plain_addr (SrcAddr seg))"
| "event_sane af (Tick env now) \<longleftrightarrow> me_family env = Inr af"

lemma queue_step_ok:
  assumes "queue_ok af (q, keys)" "event_sane af e" "queue_step md5 (q, keys) e = (q', keys')"
  shows "queue_ok af (q', keys') \<and> q_fixedAddrs q' = q_fixedAddrs q \<and>
    (\<forall>b \<in> set (q_fixedAddrs q). plain_addr b \<longrightarrow> keys' (sock af b) = keys (sock af b))"
proof (cases e)
  case (Tick env now)
  note d = drop_installed [OF assms(1), where env = env and P = "\<lambda>k. ik_lastSeen k < now - dynamicMD5KeyIdleTimeout"]
  show ?thesis using d assms(2,3) Tick by (auto simp: evictIdle_def Let_def)
next
  case (Packet env now packet)
  show ?thesis
  proof (cases "\<exists>seg. parse_ip_tcp_segment packet = Inr seg \<and> DstPort seg = q_bgpPort q \<and> is_syn seg \<and> SrcAddr seg \<notin> set (q_fixedAddrs q)")
    case False
    then show ?thesis using decide_passed [OF False, of md5 env now keys] assms(1,3) Packet by simp
  next
    case True
    then obtain seg where seg: "parse_ip_tcp_segment packet = Inr seg" "DstPort seg = q_bgpPort q" "is_syn seg" "SrcAddr seg \<notin> set (q_fixedAddrs q)"
      by blast
    show ?thesis
    proof (cases "find (matches_password md5 seg) (q_dynamicPass q)")
      case None
      then show ?thesis using decide_judged [OF seg, of md5 env now keys] assms(1,3) Packet by simp
    next
      case (Some pw)
      then have "pw \<in> set (q_dynamicPass q)" by (auto simp: find_Some_iff)
      then have ne: "pw \<noteq> []" using assms(1) by (auto simp: queue_ok_def)
      obtain q1 keys1 r where i: "queue_install env now (SrcAddr seg) pw (q, keys) = ((q1, keys1), r)" by (metis prod.exhaust)
      have st: "(q', keys') = (q1, keys1)" using assms(3) decide_judged [OF seg, of md5 env now keys] Packet Some i by (cases r) auto
      show ?thesis
      proof (cases r)
        case (Inl e)
        then show ?thesis using queue_install_error [of env now "SrcAddr seg" pw "(q, keys)" "(q1, keys1)" e] i st assms(1) by simp
      next
        case (Inr u)
        have "plain_addr (SrcAddr seg)" "me_family env = Inr af" using assms(2) Packet seg(1) by simp_all
        note qi = queue_install_ok [OF assms(1) this(2,1) seg(4) ne i [unfolded Inr]]
        then show ?thesis using st seg(4) by (auto 4 3)
      qed
    qed
  qed
qed

lemma queue_steps_ok:
  "queue_ok af (q, keys) \<Longrightarrow> \<forall>e \<in> set evs. event_sane af e \<Longrightarrow> foldl (queue_step md5) (q, keys) evs = (q', keys') \<Longrightarrow>
    queue_ok af (q', keys') \<and> q_fixedAddrs q' = q_fixedAddrs q \<and>
    (\<forall>b \<in> set (q_fixedAddrs q). plain_addr b \<longrightarrow> keys' (sock af b) = keys (sock af b))"
proof (induction evs arbitrary: q keys)
  case (Cons e evs)
  obtain q1 keys1 where s: "queue_step md5 (q, keys) e = (q1, keys1)" by (metis prod.exhaust)
  note o = queue_step_ok [OF Cons.prems(1) _ s]
  show ?case using Cons.IH [of q1 keys1] o Cons.prems(2,3) s by simp
qed simp

definition sample_packet :: "byte list" where
  "sample_packet = [0x45, 0, 0, 60, 0, 0, 0, 0, 64, 6, 0, 0, 192, 0, 2, 9, 192, 0, 2, 1,
     100, 0, 0, 179, 0, 0, 0, 0, 0, 0, 0, 0, 0xA0, 2, 0, 0, 0, 0, 0, 0,
     19, 18, 7, 7, 7, 7, 7, 7, 7, 7, 7, 7, 7, 7, 7, 7, 7, 7, 1, 1]"

abbreviation sample_signature :: "byte list" where
  "sample_signature \<equiv> [7, 7, 7, 7, 7, 7, 7, 7, 7, 7, 7, 7, 7, 7, 7, 7]"

lemma sample_option: "find_md5_option (19 # 18 # sample_signature @ [1, 1]) 0 = Inr (Some sample_signature)"
  by (subst find_md5_option.simps) (simp add: idx_def slice_def bindE_def tcp_consts copy_into_def Let_def)

abbreviation sample_tcp :: "byte list" where
  "sample_tcp \<equiv> [100, 0, 0, 179, 0, 0, 0, 0, 0, 0, 0, 0, 0xA0, 2, 0, 0, 0, 0, 0, 0] @ 19 # 18 # sample_signature @ [1, 1]"

lemma sample_tcp_parse:
  "parse_tcp sample_tcp 40 = Inr \<lparr>SrcAddr = Addr IPv4 0, DstAddr = Addr IPv4 0, SrcPort = 25600, DstPort = 179, Flags = 2,
     MD5 = Some sample_signature, pseudo = [], header20 = [100, 0, 0, 179, 0, 0, 0, 0, 0, 0, 0, 0, 0xA0, 2, 0, 0, 0, 0, 0, 0], payload = []\<rparr>"
proof -
  have slices: "slice sample_tcp 20 40 = Inr (19 # 18 # sample_signature @ [1, 1])"
    "slice sample_tcp 0 2 = Inr [100, 0]" "slice sample_tcp 2 4 = Inr [0, 179]"
    "slice sample_tcp 0 20 = Inr [100, 0, 0, 179, 0, 0, 0, 0, 0, 0, 0, 0, 0xA0, 2, 0, 0, 0, 0, 0, 0]"
    by (simp_all add: slice_def)
  have idxs: "idx sample_tcp 12 = Inr 0xA0" "idx sample_tcp 13 = Inr 2" by (simp_all add: idx_def)
  have len: "length sample_tcp = 40" by simp
  show ?thesis
    unfolding parse_tcp_def len idxs bindE_Inr
    by (simp add: slices sample_option tcp_consts get_u16_def be_nat_def Let_def del: append.simps)
qed


lemma sample_packet_split:
  "sample_packet = [0x45, 0, 0, 60, 0, 0, 0, 0, 64, 6, 0, 0, 192, 0, 2, 9, 192, 0, 2, 1] @ sample_tcp"
  by (simp add: sample_packet_def)

definition sample_segment :: tcp_segment where
  "sample_segment = \<lparr>SrcAddr = Addr IPv4 3221225993, DstAddr = Addr IPv4 3221225985, SrcPort = 25600, DstPort = 179, Flags = 2,
     MD5 = Some sample_signature, pseudo = [192, 0, 2, 9, 192, 0, 2, 1, 0, 6, 0, 40],
     header20 = [100, 0, 0, 179, 0, 0, 0, 0, 0, 0, 0, 0, 0xA0, 2, 0, 0, 0, 0, 0, 0], payload = []\<rparr>"

lemma sample_packet_parse: "parse_ip_tcp_segment sample_packet = Inr sample_segment"
proof -
  have slices: "slice sample_packet 20 60 = Inr sample_tcp" "slice sample_packet 2 4 = Inr [0, 60]"
    "slice sample_packet 12 16 = Inr [192, 0, 2, 9]" "slice sample_packet 16 20 = Inr [192, 0, 2, 1]"
    unfolding sample_packet_split by (simp_all add: slice_def)
  have idxs: "idx sample_packet 0 = Inr 0x45" "idx sample_packet 9 = Inr 6" by (simp_all add: idx_def sample_packet_def)
  have len: "length sample_packet = 60" by (simp add: sample_packet_def)
  show ?thesis
    unfolding parse_ip_tcp_segment_def parse_ipv4_tcp_def len idxs bindE_Inr
    by (simp add: slices sample_tcp_parse get_u16_def be_nat_def addr_from4_def put_u16_def nat_be_2 Let_def sample_segment_def del: append.simps)
qed


definition good_env :: md5_env where
  "good_env = \<lparr>me_raw = Fd, me_family = Inr AF_INET6, me_setsockopt = \<lambda>sa key. True\<rparr>"

definition sample_queue :: md5_queue where
  "sample_queue = (startDynamicMD5Queue 179)\<lparr>q_dynamicPass := [[1]]\<rparr>"

lemma sample_segment_facts:
  "DstPort sample_segment = 179" "is_syn sample_segment" "plain_addr (SrcAddr sample_segment)" "\<not> is_loopback (SrcAddr sample_segment)"
  by (simp_all add: sample_segment_def is_syn_def tcp_consts plain_addr_def addr_ok_def is_loopback_def is4_def)


section \<open>Keys of fixed peers\<close>

lemma queue_SetPeers_ok:
  assumes ok: "queue_ok af (q0, keys0)" and fam: "me_family env = Inr af"
    and app: "applyListenerMD5 env' pcs keys0 = (keys1, Inr u)" "me_family env' = Inr af"
    and plain: "\<forall>pc \<in> set pcs. plain_addr (pc_Address pc) \<and> pc_Address pc \<notin> fst ` set (q_installed q0)"
    and set: "queue_SetPeers env pcs (q0, keys1) = (q, keys)"
  shows "queue_ok af (q, keys) \<and>
    (\<forall>pc \<in> set pcs. \<not> keyless pc \<longrightarrow> pc_Address pc \<in> set (q_fixedAddrs q) \<and> keys (sock af (pc_Address pc)) = Some (pc_Password pc))"
proof -
  define dyn where "dyn = map pc_Password (filter (\<lambda>pc. is_unspecified (pc_Address pc) \<and> pc_Password pc \<noteq> []) pcs)"
  define fixed where "fixed = map pc_Address (filter (\<lambda>pc. \<not> is_unspecified (pc_Address pc)) pcs)"
  let ?q0 = "q0\<lparr>q_fixedAddrs := fixed, q_dynamicPass := dyn\<rparr>" and ?P = "\<lambda>k. ik_password k \<notin> set dyn"
  note a = applyListenerMD5_ok [OF app(1)]
  have q0: "distinct (map fst (q_installed q0))" "\<forall>(a, k) \<in> set (q_installed q0). plain_addr a \<and>
      (\<not> is_loopback a \<longrightarrow> keys0 (sock af a) = Some (ik_password k))"
    using ok by (auto simp: queue_ok_def)
  have keep: "keys1 (sock af a) = keys0 (sock af a)" if "(a, k) \<in> set (q_installed q0)" for a k
  proof (rule set_keys_other [OF conjunct2 [OF a] app(2)])
    show "plain_addr a" using q0(2) that by auto
    show "\<forall>pc \<in> set pcs. plain_addr (pc_Address pc) \<and> (keyless pc \<or> pc_Address pc \<noteq> a)" using plain that by force
  qed
  have "queue_ok af (?q0, keys1)"
    unfolding queue_ok_def
  proof (intro conjI ballI)
    show "[] \<notin> set (q_dynamicPass (fst (?q0, keys1)))" by (auto simp: dyn_def)
    show "distinct (map fst (q_installed (fst (?q0, keys1))))" using q0(1) by simp
    fix x assume "x \<in> set (q_installed (fst (?q0, keys1)))"
    moreover obtain a k where "x = (a, k)" by (cases x)
    ultimately have x: "x = (a, k)" "(a, k) \<in> set (q_installed q0)" by simp_all
    have "a \<notin> set fixed" using plain x(2) by (force simp: fixed_def)
    then show "case x of (a, k) \<Rightarrow> plain_addr a \<and> a \<notin> set (q_fixedAddrs (fst (?q0, keys1))) \<and>
        (\<not> is_loopback a \<longrightarrow> snd (?q0, keys1) (sock af a) = Some (ik_password k))"
      using q0(2) keep [OF x(2)] x by auto
  qed
  note d = drop_installed [OF this fam, where P = ?P]
  have st: "q = ?q0\<lparr>q_installed := filter (\<lambda>(a, k). \<not> ?P k) (q_installed q0)\<rparr>"
    "keys = remove_all env (map fst (filter (\<lambda>(a, k). ?P k) (q_installed q0))) keys1"
    using set by (auto simp: queue_SetPeers_def Let_def dyn_def fixed_def)
  have "queue_ok af (q, keys)" using d(1) by (simp add: st)
  moreover have "pc_Address pc \<in> set (q_fixedAddrs q) \<and> keys (sock af (pc_Address pc)) = Some (pc_Password pc)"
    if pc: "pc \<in> set pcs" "\<not> keyless pc" for pc
  proof -
    have f: "pc_Address pc \<in> set fixed" using pc by (auto simp: fixed_def keyless_def)
    have "keys1 (sock af (pc_Address pc)) = Some (pc_Password pc)"
      using set_keys_conflict_free [OF conjunct1 [OF a] conjunct2 [OF a] app(2)] plain pc by auto
    then show ?thesis using d(2) [of "pc_Address pc"] f plain pc(1) by (simp add: st)
  qed
  ultimately show ?thesis by blast
qed


text \<open>without that condition it fails: when a dynamic peer has used the address of a peer that is fixed now, the
  eviction of its key after ten idle minutes removes the key of the fixed peer, and from then on every packet
  from the address passes, signed or not.\<close>

theorem fixed_key_evicted:
  assumes "(a, k) \<in> set (q_installed q)" "a \<in> set (q_fixedAddrs q)" "\<not> is_loopback a"
    and "ik_lastSeen k < now - dynamicMD5KeyIdleTimeout"
    and env: "me_raw env = Fd" "me_family env = Inr af" "\<forall>sa. me_setsockopt env sa []"
  shows "case evictIdle env now (q, keys) of (q', keys') \<Rightarrow> keys' (sock af a) = None \<and>
    (\<forall>env' now' packet seg. parse_ip_tcp_segment packet = Inr seg \<and> SrcAddr seg = a \<longrightarrow>
      decide md5 env' now' packet (q', keys') = (NfAccept, q', keys'))"
proof -
  have removed: "remove_all env as keys (sock af a) = None" if "a \<in> set as \<or> keys (sock af a) = None" for as
    using that
  proof (induction as arbitrary: keys)
    case (Cons b as)
    have "fst (removeListenerMD5Key env b keys) (sock af a) = None" if "b = a \<or> keys (sock af a) = None"
      using that env(1,2) env(3) [rule_format, of "sock af a"] assms(3)
      by (auto simp: removeListenerMD5Key_def clearTCPMD5OnFd_def SetsockoptTCPMD5Sig_def split_paired_all)
    then show ?case using Cons.IH [of "fst (removeListenerMD5Key env b keys)"] Cons.prems by (auto simp: remove_all_def)
  qed (simp add: remove_all_def)
  have "a \<in> set (map fst (filter (\<lambda>(a, k). ik_lastSeen k < now - dynamicMD5KeyIdleTimeout) (q_installed q)))"
    using assms(1,4) by force
  then show ?thesis using removed assms(2) decide_passed by (auto simp: evictIdle_def Let_def)
qed


definition sample_peer_config :: "addr \<Rightarrow> byte list \<Rightarrow> peer_config" where
  "sample_peer_config a pw = \<lparr>pc_ID = 1, pc_Address = a, pc_Port = 0, pc_ASN = 65001, pc_Password = pw, pc_Name = ''r1'', pc_LocalAddr = None\<rparr>"

lemma sample_peer_config_fields [simp]:
  "pc_Address (sample_peer_config a pw) = a" "pc_Password (sample_peer_config a pw) = pw"
  by (simp_all add: sample_peer_config_def)


theorem fixed_key_evicted_witness:
  "case evictIdle good_env (2 * dynamicMD5KeyIdleTimeout)
      (queue_SetPeers good_env [sample_peer_config (Addr IPv4 3221225993) [2], sample_peer_config (Addr IPv4 0) [1]]
        (sample_queue\<lparr>q_installed := [(Addr IPv4 3221225993, \<lparr>ik_password = [1], ik_lastSeen = 0\<rparr>)]\<rparr>,
         Map.empty(sock AF_INET6 (Addr IPv4 3221225993) \<mapsto> [2]))) of (q, keys) \<Rightarrow>
    keys (sock AF_INET6 (Addr IPv4 3221225993)) = None \<and>
    decide (\<lambda>bs. sample_signature) good_env 0 sample_packet (q, keys) = (NfAccept, q, keys)"
proof -
  let ?a = "Addr IPv4 3221225993" and ?k = "\<lparr>ik_password = [1], ik_lastSeen = 0\<rparr>"
  let ?q = "sample_queue\<lparr>q_fixedAddrs := [?a], q_dynamicPass := [[1]], q_installed := [(?a, ?k)]\<rparr>"
  have set: "queue_SetPeers good_env [sample_peer_config ?a [2], sample_peer_config (Addr IPv4 0) [1]]
      (sample_queue\<lparr>q_installed := [(?a, ?k)]\<rparr>, Map.empty(sock AF_INET6 ?a \<mapsto> [2])) = (?q, Map.empty(sock AF_INET6 ?a \<mapsto> [2]))"
    by (simp add: queue_SetPeers_def sample_peer_config_def is_unspecified_def remove_all_def sample_queue_def startDynamicMD5Queue_def)
  have "(?a, ?k) \<in> set (q_installed ?q)" "?a \<in> set (q_fixedAddrs ?q)" "\<not> is_loopback ?a"
    "ik_lastSeen ?k < 2 * dynamicMD5KeyIdleTimeout - dynamicMD5KeyIdleTimeout" "me_raw good_env = Fd"
    "me_family good_env = Inr AF_INET6" "\<forall>sa. me_setsockopt good_env sa []"
    by (simp_all add: is_loopback_def is4_def dynamicMD5KeyIdleTimeout_def good_env_def)
  note e = fixed_key_evicted [OF this, where keys = "Map.empty(sock AF_INET6 ?a \<mapsto> [2])"]
  have "SrcAddr sample_segment = ?a" by (simp add: sample_segment_def)
  then show ?thesis using e sample_packet_parse unfolding set by (auto split: prod.splits)
qed

end
