(* ===== verification/Bgp_Announce.thy ===== *)
theory Bgp_Announce
  imports Bgp_Coherence Bgp_Md5_Safety Store_Invariant
begin

text \<open>
  What the manager guarantees: a cached announcement is the one of the peer, a reconcile without error leaves
  every peer with exactly the routes the store assigns to its user, and dynamic peers are never accepted
  unchecked while the speaker starts or stops. And two places where a failure or a change is not followed up.
\<close>

section \<open>An example\<close>

definition sample_settings :: bgp_settings where
  "sample_settings = \<lparr>mc_RouterID = addr_string (Addr IPv4 3221225985), mc_LocalAddressV4 = addr_string (Addr IPv4 3221225985),
     mc_LocalAddressV6 = [], mc_LocalASN = 65000, mc_BGPPort = 179, mc_BGPHoldTime = 90, mc_ActiveDial = True,
     mc_DynamicPeerMD5Match = False\<rparr>"

definition sample_start_env :: start_env where
  "sample_start_env = \<lparr>se_rule = True, se_listen = True, se_md5 = good_env, se_queue = True\<rparr>"

definition sample_snapshot :: snapshot where
  "sample_snapshot = \<lparr>sn_localASN = 65000, sn_localAddrV4 = Addr IPv4 3221225985, sn_localAddrV6 = None, sn_activeDial = True\<rparr>"

definition sample_spk :: speaker_config where
  "sample_spk = \<lparr>spk_ASN = 65000, spk_RouterID = Addr IPv4 3221225985, spk_Port = 179, spk_LocalAddr = Some (Addr IPv4 3221225985),
     spk_HoldTime = 90, spk_DynamicPeerMD5Match = False\<rparr>"

definition sample_peer_user :: "string \<Rightarrow> user" where
  "sample_peer_user pw = \<lparr>u_ID = 7, u_Name = ''r1'', u_PeerIP = addr_string (Addr IPv4 3221225994), u_PeerASN = 65001, u_NextHop = [],
     u_BGPPassword = pw, u_SelectionLocked = False, u_Enabled = True, u_FilterOverride = False, u_FilterMode = ''allow'',
     u_FilterEditable = True, u_CatalogModeID = 1, u_CatalogModeName = ''all'', u_CatalogEditable = True, u_ActiveDial = False,
     u_WebAuth = ''inherit'', u_Networks = []\<rparr>"

definition sample_speaker :: "(string \<rightharpoonup> peer) \<Rightarrow> peer_config list \<Rightarrow> speaker" where
  "sample_speaker peers pcs = \<lparr>sp_cfg = sample_spk, sp_listener = True, sp_keys = Map.empty, sp_queue = None, sp_peers = peers,
     sp_peerConfigs = pcs\<rparr>"

abbreviation sample_store :: db where
  "sample_store \<equiv> empty_db [\<lparr>md_id = 1, md_name = ''all'', md_enabled = True\<rparr>] [(1, 1)]"

lemma sample_addrs [simp]: "parse_addr (addr_string (Addr IPv4 3221225985)) = Some (Addr IPv4 3221225985)"
    "parse_addr (addr_string (Addr IPv4 3221225994)) = Some (Addr IPv4 3221225994)"
  by (rule parse_addr_string; simp add: addr_ok_def)+

lemma sample_store_facts:
  "db_ok sample_store" "Users sample_store True = Inr []" "DesiredPrefixes id sample_store = Inr \<lparr>ds_users = [], ds_meta = Map.empty\<rparr>"
proof -
  show "db_ok sample_store" using empty_db_sync [of "[\<lparr>md_id = 1, md_name = ''all'', md_enabled = True\<rparr>]"] by (simp add: in_sync_def)
  show "Users sample_store True = Inr []" by (simp add: Users_def empty_db_def)
  show "DesiredPrefixes id sample_store = Inr \<lparr>ds_users = [], ds_meta = Map.empty\<rparr>"
    by (simp add: DesiredPrefixes_def desired_rows_def empty_db_def)
qed

definition sample_running :: "user list \<Rightarrow> (string \<rightharpoonup> route list) \<Rightarrow> (string \<rightharpoonup> peer) \<Rightarrow> manager" where
  "sample_running us announced peers = \<lparr>m_session = Some (sample_snapshot, sample_speaker peers (map (config_of sample_snapshot) us)),
     m_installed = Map.empty, m_peerConfigs = us, m_peerRoutes = announced, m_lastErr = None\<rparr>"

lemma sample_start:
  "Start sample_settings sample_start_env (\<lambda>_ _. True) id sample_store NewManager = (sample_running [] Map.empty Map.empty, Inr ())"
proof -
  have snap: "snapshot_of sample_settings = Inr (Addr IPv4 3221225985, sample_snapshot)"
    by (simp add: snapshot_of_def sample_settings_def sample_snapshot_def)
  have spk: "speaker_settings sample_settings (Addr IPv4 3221225985) sample_snapshot = sample_spk"
    by (simp add: speaker_settings_def sample_settings_def sample_snapshot_def sample_spk_def)
  have start: "Speaker_Start sample_start_env (NewSpeaker sample_spk) =
      (sample_speaker Map.empty [], [OpenListener, AcceptConnections], Inr ())"
    by (simp add: Speaker_Start_def NewSpeaker_def sample_spk_def sample_start_env_def good_env_def sample_speaker_def applyListenerMD5_def)
  have push: "push_peers (se_md5 sample_start_env) sample_snapshot [] (sample_speaker Map.empty []) = (sample_speaker Map.empty [], None, True)"
    by (simp add: push_peers_def SetPeers_def sample_start_env_def good_env_def sample_speaker_def applyListenerMD5_def
        updated_peer_def new_set_def)
  show ?thesis
    by (simp add: Start_def start_locked_def snap spk start push sample_store_facts reconcile_def lift_store_def with_error_def
        NewManager_def sample_running_def)
qed

lemma sample_user_facts:
  "user_key (sample_peer_user pw) = peer_key (addr_string (Addr IPv4 3221225994)) 65001"
  "u_ID (sample_peer_user pw) = 7" "u_Enabled (sample_peer_user pw)" "u_PeerASN (sample_peer_user pw) = 65001"
  "u_PeerIP (sample_peer_user pw) = addr_string (Addr IPv4 3221225994)" "u_BGPPassword (sample_peer_user pw) = pw"
  by (simp_all add: sample_peer_user_def user_key_def)

lemma sample_config:
  "buildPeerConfigs sample_snapshot [sample_peer_user pw] = Inr [config_of sample_snapshot (sample_peer_user pw)]"
  "pc_Address (config_of sample_snapshot (sample_peer_user pw)) = Addr IPv4 3221225994"
  "pc_Password (config_of sample_snapshot (sample_peer_user pw)) = map of_char pw"
  "config_key (config_of sample_snapshot (sample_peer_user pw)) = peer_key (addr_string (Addr IPv4 3221225994)) 65001"
  by (simp_all add: config_of_def sample_user_facts local_addr_for_def peer_config_of_def bindE_def config_key_def is4_def)

definition sample_new_peer :: "route list \<Rightarrow> bool \<Rightarrow> peer" where
  "sample_new_peer rs b = (NewPeer (config_of sample_snapshot (sample_peer_user [])) sample_spk)\<lparr>p_routes := rs, p_needsUpdate := b\<rparr>"

lemma sample_add:
  "AddPeer good_env (sample_peer_user []) (sample_running [] Map.empty Map.empty) =
    (sample_running [sample_peer_user []] Map.empty [user_key (sample_peer_user []) \<mapsto> sample_new_peer [] False], Inr ())"
  by (auto simp del: buildPeerConfigs.simps simp: AddPeer_def add_peer_def push_peers_def sample_running_def sample_config SetPeers_def sample_speaker_def applyListenerMD5_def
      good_env_def keyless_def updated_peer_def new_set_def sample_user_facts outcome_def sample_new_peer_def NewPeer_def)

lemma sample_reconcile:
  "reconcile (\<lambda>_ _. True) id sample_store
      (sample_running [sample_peer_user []] Map.empty [user_key (sample_peer_user []) \<mapsto> sample_new_peer [] False]) =
    (sample_running [sample_peer_user []] [user_key (sample_peer_user []) \<mapsto> []]
      [user_key (sample_peer_user []) \<mapsto> sample_new_peer [] True], Inr ())"
  by (simp add: reconcile_def sample_running_def sample_store_facts lift_store_def desired_routes_def sample_user_facts
      reconcile_user_def Speaker_Announce_def sample_speaker_def AnnounceRoutes_def sample_new_peer_def NewPeer_def)

lemma sample_steps:
  "bgp_step\<^sup>*\<^sup>* NewManager (sample_running [sample_peer_user []] Map.empty [user_key (sample_peer_user []) \<mapsto> sample_new_peer [] False])"
  "bgp_step\<^sup>*\<^sup>* NewManager (sample_running [sample_peer_user []] [user_key (sample_peer_user []) \<mapsto> []]
      [user_key (sample_peer_user []) \<mapsto> sample_new_peer [] True])"
proof -
  have "bgp_step NewManager (sample_running [] Map.empty Map.empty)"
    by (rule bgp_step.start [OF sample_store_facts(1) _ _ sample_start]) (simp_all add: NewManager_def)
  moreover have "canonical (sample_peer_user [])"
    unfolding canonical_def sample_user_facts by (rule exI [of _ "Addr IPv4 3221225994"]) (simp add: addr_ok_def)
  then have "bgp_step (sample_running [] Map.empty Map.empty)
      (sample_running [sample_peer_user []] Map.empty [user_key (sample_peer_user []) \<mapsto> sample_new_peer [] False])"
    by (rule bgp_step.add_peer [OF _ sample_add])
  ultimately show added: "bgp_step\<^sup>*\<^sup>* NewManager
      (sample_running [sample_peer_user []] Map.empty [user_key (sample_peer_user []) \<mapsto> sample_new_peer [] False])"
    by (meson rtranclp.rtrancl_refl rtranclp.rtrancl_into_rtrancl)
  show "bgp_step\<^sup>*\<^sup>* NewManager (sample_running [sample_peer_user []] [user_key (sample_peer_user []) \<mapsto> []]
      [user_key (sample_peer_user []) \<mapsto> sample_new_peer [] True])"
    using added bgp_step.reconcile [OF sample_reconcile] by (rule rtranclp.rtrancl_into_rtrancl)
qed

section \<open>Routes\<close>



lemma parse_desired_set:
  "parse_desired sn raws = Inr ps \<Longrightarrow>
    set ps = {(p, raw, ids). (raw, ids) \<in> set raws \<and> parse_prefix raw = Some p \<and> (is6 (p_addr p) \<longrightarrow> sn_localAddrV6 sn \<noteq> None)}"
proof (induction raws arbitrary: ps)
  case (Cons x raws)
  obtain raw ids where x: "x = (raw, ids)" by (cases x)
  then obtain p qs where "parse_prefix raw = Some p" "parse_desired sn raws = Inr qs"
    "ps = (if is6 (p_addr p) \<and> sn_localAddrV6 sn = None then qs else (p, raw, ids) # qs)"
    using Cons.prems by (auto simp: bindE_eq_Inr_iff fail_def split: option.splits)
  then show ?case using Cons.IH [of qs] x by auto
qed simp

lemma buildRoute_ok:
  assumes "buildRoute sn p u c v comms = Inr r"
  shows "r_prefix r = p \<and> hd (r_communities r) = \<lparr>GlobalAdmin = sn_localASN sn, LocalData1 = word_of_int (u_ID u), LocalData2 = 0\<rparr>"
  using assms by (auto simp: buildRoute_def Let_def fail_def split: if_splits option.splits)

lemma desired_routes_ok:
  assumes "desired_routes sn db d ps u = Inr rs"
  shows "r_prefix ` set rs = {p. \<exists>raw ids. (p, raw, ids) \<in> set ps \<and> u_ID u \<in> set ids}"
    and "\<forall>r \<in> set rs. hd (r_communities r) = \<lparr>GlobalAdmin = sn_localASN sn, LocalData1 = word_of_int (u_ID u), LocalData2 = 0\<rparr>"
proof -
  let ?mine = "filter (\<lambda>(p, raw, ids). u_ID u \<in> set ids) ps"
  obtain qs where qs: "list_all2 (\<lambda>x r. route_for sn db d u x = Inr r) ?mine qs" "set rs = set qs"
    using assms by (auto simp: desired_routes_def bindE_eq_Inr_iff mapE_Inr_iff)
  have one: "r_prefix r = fst x \<and> hd (r_communities r) = \<lparr>GlobalAdmin = sn_localASN sn, LocalData1 = word_of_int (u_ID u), LocalData2 = 0\<rparr>"
    if "route_for sn db d u x = Inr r" for x r
    using that buildRoute_ok by (cases x) (auto simp: route_for_def split: option.splits)
  have "r_prefix ` set qs = fst ` set ?mine \<and> (\<forall>r \<in> set qs. hd (r_communities r) =
      \<lparr>GlobalAdmin = sn_localASN sn, LocalData1 = word_of_int (u_ID u), LocalData2 = 0\<rparr>)"
    using qs(1) by (induction rule: list_all2_induct) (use one in auto)
  moreover have "fst ` set ?mine = {p. \<exists>raw ids. (p, raw, ids) \<in> set ps \<and> u_ID u \<in> set ids}"
    by (auto intro: rev_image_eqI) blast
  ultimately show "r_prefix ` set rs = {p. \<exists>raw ids. (p, raw, ids) \<in> set ps \<and> u_ID u \<in> set ids}"
    "\<forall>r \<in> set rs. hd (r_communities r) = \<lparr>GlobalAdmin = sn_localASN sn, LocalData1 = word_of_int (u_ID u), LocalData2 = 0\<rparr>"
    using qs(2) by simp_all
qed



section \<open>A failed update\<close>

lemma reconcile_loop_cached:
  assumes old: "announced (user_key old) = Some []" "routes_of old = Inr []"
  shows "reconcile_loop ok routes_of xs (s, announced, failed) = ((s', announced', failed'), r) \<Longrightarrow>
    \<forall>u \<in> set xs. canonical u \<and> (user_key u = user_key old \<longrightarrow> u = old) \<Longrightarrow> sp_peers s' (user_key old) = sp_peers s (user_key old)"
  using old(1)
proof (induction xs arbitrary: s announced failed)
  case (Cons u xs)
  obtain a where a: "parse_addr (u_PeerIP u) = Some a" "u_PeerIP u = addr_string a" using Cons.prems(2) canonical_addr by force
  show ?case
  proof (cases "u_Enabled u \<and> (\<exists>routes. routes_of u = Inr routes)")
    case False
    then show ?thesis using Cons a by (auto split: sum.splits if_splits)
  next
    case True
    then obtain routes where routes: "routes_of u = Inr routes" "u_Enabled u" by blast
    obtain s1 ann1 failed1 where ru: "reconcile_user ok u a routes (s, announced, failed) = (s1, ann1, failed1)" by (metis prod.exhaust)
    have rest: "reconcile_loop ok routes_of xs (s1, ann1, failed1) = ((s', announced', failed'), r)"
      using Cons.prems(1) a routes ru by simp
    have "sp_peers s1 (user_key old) = sp_peers s (user_key old) \<and> ann1 (user_key old) = Some []"
    proof (cases "u = old")
      case True
      then have "routes = []" using routes(1) old(2) by simp
      then show ?thesis using ru True Cons.prems(3) by (auto simp: reconcile_user_def)
    next
      case False
      then have key: "user_key u \<noteq> user_key old" using Cons.prems(2) by auto
      have "user_key u = peer_key (addr_string a) (u_PeerASN u)" using a(2) by (simp add: user_key_def)
      then show ?thesis using ru key Cons.prems(3)
        by (auto simp: reconcile_user_def Speaker_Announce_def Let_def split: if_splits option.splits prod.splits)
    qed
    then show ?thesis using Cons.IH [OF rest] Cons.prems(2) by simp
  qed
qed simp

lemma desired_routes_none:
  assumes "\<forall>(p, raw, ids) \<in> set ps. u_ID u \<notin> set ids" shows "desired_routes sn db d ps u = Inr []"
proof -
  have "filter (\<lambda>(p, raw, ids). u_ID u \<in> set ids) ps = []" using assms by (auto simp: filter_empty_conv)
  then show ?thesis by (simp add: desired_routes_def)
qed

lemma UpdatePeer_refused:
  assumes "m_session m = Some (sn, s)" "find (\<lambda>v. u_ID v = u_ID u) (m_peerConfigs m) = Some old"
    and "UpdatePeer env u m = (m1, fail (MD5Refresh e))"
  shows "\<exists>s1. m_session m1 = Some (sn, s1) \<and> sp_peers s1 = sp_peers s \<and> m_peerConfigs m1 = m_peerConfigs m \<and>
    m_peerRoutes m1 (user_key old) = Some []"
proof -
  obtain s' f pushed where p: "push_peers env sn (replace_user u (m_peerConfigs m)) s = (s', f, pushed)" by (metis prod.exhaust)
  then have f: "f = Some (Err (MD5Refresh e))" using assms by (auto simp: UpdatePeer_def Let_def outcome_def fail_def split: if_splits option.splits)
  have "fault \<noteq> Err (MD5Refresh e)" if "buildPeerConfigs sn us = Inl fault" for us fault
    using that by (induction us arbitrary: fault) (auto simp: fail_def bindE_def split: option.splits sum.splits)
  then have pushed using p f by (auto simp: push_peers_def split: sum.splits prod.splits)
  then show ?thesis using assms p f push_peers_error [of env sn _ s s' "Err (MD5Refresh e)" pushed]
    by (auto simp: UpdatePeer_def Let_def outcome_def split: if_splits)
qed

text \<open>when the speaker refuses the peers of an update, the old peer keeps its routes but the cache says it announces none;
  if the store then has no prefix left for the user, a reconcile reports success and withdraws nothing.\<close>

theorem refused_update_strands_routes:
  assumes "m_session m = Some (sn, s)" "users_ok (m_peerConfigs m)"
    and "find (\<lambda>v. u_ID v = u_ID u) (m_peerConfigs m) = Some old" "UpdatePeer env u m = (m1, fail (MD5Refresh e))"
    and "DesiredPrefixes order db = Inr d" "\<forall>(raw, ids) \<in> set (ds_users d). u_ID old \<notin> set ids"
    and "reconcile ok order db m1 = (m2, Inr ())"
  shows "\<exists>s2. m_session m2 = Some (sn, s2) \<and> sp_peers s2 (user_key old) = sp_peers s (user_key old)"
proof -
  obtain s1 where m1: "m_session m1 = Some (sn, s1)" "sp_peers s1 = sp_peers s" "m_peerConfigs m1 = m_peerConfigs m"
      "m_peerRoutes m1 (user_key old) = Some []"
    using UpdatePeer_refused [OF assms(1,3,4)] by blast
  show ?thesis
  proof (rule reconcile_cases [OF assms(7)])
    fix sn' s1' d' ps s' announced failed r'
    assume session: "m_session m1 = Some (sn', s1')" and d: "DesiredPrefixes order db = Inr d'" and ps: "parse_desired sn' (ds_users d') = Inr ps"
      and l: "reconcile_loop ok (desired_routes sn' db d' ps) (m_peerConfigs m1) (s1', m_peerRoutes m1, []) = ((s', announced, failed), r')"
      and m2: "m_session m2 = Some (sn', s')"
    have "\<forall>(p, raw, ids) \<in> set ps. u_ID old \<notin> set ids" using parse_desired_set [OF ps] assms(5,6) d by auto
    note none = desired_routes_none [OF this, of sn' db d']
    have "old \<in> set (m_peerConfigs m)" using assms(3) by (auto simp: find_Some_iff)
    then have "\<forall>u \<in> set (m_peerConfigs m1). canonical u \<and> (user_key u = user_key old \<longrightarrow> u = old)"
      using assms(2) tracked_Some [OF assms(2)] m1(3) by (auto simp: users_ok_def) (metis option.inject tracked_Some [OF assms(2)])
    from reconcile_loop_cached [OF m1(4) none l this] show ?thesis using m2 session m1(1,2) by simp
  qed simp
qed

definition stranded_route :: route where
  "stranded_route = \<lparr>r_prefix = Prefix (Addr IPv4 3221225984) 24, r_communities = [], r_next_hop = Addr IPv4 3221225985\<rparr>"

definition refusing_env :: md5_env where
  "refusing_env = good_env\<lparr>me_setsockopt := \<lambda>_ _. False\<rparr>"

lemma sample_refused:
  assumes "peers (user_key (sample_peer_user [])) = Some p"
  shows "UpdatePeer refusing_env (sample_peer_user ''s'') (sample_running [sample_peer_user []] cache peers) =
    (sample_running [sample_peer_user []] (cache(user_key (sample_peer_user []) \<mapsto> [])) peers, fail (MD5Refresh (Err SetsockoptFailed)))"
proof -
  let ?pc = "config_of sample_snapshot (sample_peer_user ''s'')"
  have keyed: "\<not> keyless ?pc" "\<not> is_loopback (Addr IPv4 3221225994)"
    by (simp_all add: keyless_def sample_config is_loopback_def is_unspecified_def is4_def)
  have "SetPeers refusing_env [?pc] (sample_speaker peers [config_of sample_snapshot (sample_peer_user [])]) =
      (sample_speaker peers [config_of sample_snapshot (sample_peer_user [])], fail SetsockoptFailed)"
    by (simp add: SetPeers_def sample_speaker_def applyListenerMD5_def refusing_env_def good_env_def keyed setTCPMD5OnFd_def
        sample_config maxMD5KeyLen_def SetsockoptTCPMD5Sig_def fail_def)
  then have push: "push_peers refusing_env sample_snapshot [sample_peer_user ''s'']
        (sample_speaker peers [config_of sample_snapshot (sample_peer_user [])]) =
      (sample_speaker peers [config_of sample_snapshot (sample_peer_user [])], Some (Err (MD5Refresh (Err SetsockoptFailed))), True)"
    by (simp add: push_peers_def sample_config fail_def del: buildPeerConfigs.simps)
  show ?thesis
    by (simp add: UpdatePeer_def sample_running_def sample_user_facts push outcome_def fail_def)
qed

theorem refused_update_strands_routes_witness:
  "let key = user_key (sample_peer_user []);
       m = sample_running [sample_peer_user []] [key \<mapsto> [stranded_route]] [key \<mapsto> sample_new_peer [stranded_route] True];
       (m1, r1) = UpdatePeer refusing_env (sample_peer_user ''s'') m;
       (m2, r2) = reconcile (\<lambda>_ _. True) id sample_store m1
   in r2 = Inr () \<and> (\<exists>s2. m_session m2 = Some (sample_snapshot, s2) \<and>
      (\<exists>p. sp_peers s2 key = Some p \<and> p_routes p = [stranded_route]))"
proof -
  let ?key = "user_key (sample_peer_user [])" and ?peers = "[user_key (sample_peer_user []) \<mapsto> sample_new_peer [stranded_route] True]"
  let ?m = "sample_running [sample_peer_user []] [?key \<mapsto> [stranded_route]] ?peers"
    and ?m1 = "sample_running [sample_peer_user []] [?key \<mapsto> []] ?peers"
  have upd: "UpdatePeer refusing_env (sample_peer_user ''s'') ?m = (?m1, fail (MD5Refresh (Err SetsockoptFailed)))"
    using sample_refused [of ?peers "sample_new_peer [stranded_route] True" "[?key \<mapsto> [stranded_route]]"] by simp
  have rec: "reconcile (\<lambda>_ _. True) id sample_store ?m1 = (?m1, Inr ())"
    by (simp add: reconcile_def sample_running_def sample_store_facts lift_store_def desired_routes_def sample_user_facts reconcile_user_def)
  have ok: "users_ok (m_peerConfigs ?m)"
    unfolding users_ok_def canonical_def sample_running_def
    by (simp add: sample_user_facts) (rule exI [of _ "Addr IPv4 3221225994"], simp add: addr_ok_def)
  from refused_update_strands_routes [OF _ ok _ upd sample_store_facts(3) _ rec]
  have "\<exists>s2. m_session ?m1 = Some (sample_snapshot, s2) \<and> sp_peers s2 ?key = ?peers ?key"
    by (simp add: sample_running_def sample_user_facts sample_speaker_def)
  moreover have "p_routes (sample_new_peer [stranded_route] True) = [stranded_route]" by (simp add: sample_new_peer_def)
  ultimately show ?thesis by (auto simp: Let_def upd rec)
qed

section \<open>A password that is removed\<close>

lemma clearTCPMD5OnFd_other:
  assumes "me_family env = Inr af" "plain_addr a" "plain_addr b" "a \<noteq> b"
  shows "fst (clearTCPMD5OnFd env a keys) (sock af b) = keys (sock af b)"
proof -
  have "sock af b \<noteq> sock af a" using sockaddr_inj assms by metis
  then show ?thesis using assms(1) by (simp add: clearTCPMD5OnFd_def SetsockoptTCPMD5Sig_def)
qed

lemma clear_keys_other:
  assumes "me_family env = Inr af" "plain_addr b"
  shows "\<forall>pc \<in> set pcs. plain_addr (pc_Address pc) \<and> (pc_Password pc = [] \<or> pc_Address pc \<noteq> b) \<Longrightarrow>
    fst (clear_keys env pcs keys) (sock af b) = keys (sock af b)"
proof (induction pcs arbitrary: keys)
  case (Cons pc pcs)
  show ?case
  proof (cases "pc_Password pc = [] \<or> is_loopback (pc_Address pc)")
    case True
    then show ?thesis using Cons by auto
  next
    case False
    then have "fst (clearTCPMD5OnFd env (pc_Address pc) keys) (sock af b) = keys (sock af b)"
      using clearTCPMD5OnFd_other [OF assms(1) _ assms(2)] Cons.prems by simp
    then show ?thesis using False Cons by (auto split: prod.split sum.split)
  qed
qed simp

lemma SetPeers_other_key:
  assumes "SetPeers env pcs s = (s', Inr ())" "sp_listener s" "sp_queue s = None" "me_family env = Inr af" "plain_addr a"
    and "\<forall>pc \<in> set pcs. plain_addr (pc_Address pc) \<and> (pc_Address pc = a \<longrightarrow> pc_Password pc = [])"
    and "\<forall>pc \<in> set (sp_peerConfigs s). plain_addr (pc_Address pc) \<and>
      (pc_Address pc = a \<longrightarrow> pc_Password pc = [] \<or> a \<in> set (map pc_Address pcs))"
  shows "sp_keys s' (sock af a) = sp_keys s (sock af a) \<and> sp_listener s' \<and> sp_queue s' = None \<and> sp_peerConfigs s' = pcs"
proof -
  obtain keys where app: "applyListenerMD5 env pcs (sp_keys s) = (keys, Inr ())"
    using assms(1,2) by (auto simp: SetPeers_def split: prod.splits sum.splits)
  have set: "keys (sock af a) = sp_keys s (sock af a)"
    by (rule set_keys_other [OF conjunct2 [OF applyListenerMD5_ok [OF app]] assms(4,5)]) (use assms(6) in \<open>auto simp: keyless_def\<close>)
  let ?cleared = "filter (\<lambda>oc. pc_Address oc \<notin> set (map pc_Address pcs)) (sp_peerConfigs s)"
  have "fst (clear_keys env ?cleared keys) (sock af a) = keys (sock af a)"
    by (rule clear_keys_other [OF assms(4,5)]) (use assms(7) in auto)
  then have "fst (clearListenerMD5 env ?cleared keys) (sock af a) = keys (sock af a)"
    by (simp add: clearListenerMD5_def split: raw_conn.split)
  then show ?thesis using assms(1-3) app set by (auto simp: SetPeers_def Let_def)
qed

text \<open>removing the password of a peer leaves its key in the kernel, and so does removing the peer afterwards: until the
  listener is closed, nothing takes the key away.\<close>

theorem removed_password_keeps_key:
  assumes "SetPeers env pcs s = (s1, Inr ())" "SetPeers env' pcs' s1 = (s2, Inr ())" "sp_listener s" "sp_queue s = None"
    and "me_family env = Inr af" "me_family env' = Inr af" "plain_addr a" "a \<in> set (map pc_Address pcs)"
    and "\<forall>pc \<in> set pcs. plain_addr (pc_Address pc) \<and> (pc_Address pc = a \<longrightarrow> pc_Password pc = [])"
    and "\<forall>pc \<in> set (sp_peerConfigs s). plain_addr (pc_Address pc)"
    and "\<forall>pc \<in> set pcs'. plain_addr (pc_Address pc) \<and> pc_Address pc \<noteq> a"
  shows "sp_keys s1 (sock af a) = sp_keys s (sock af a) \<and> sp_keys s2 (sock af a) = sp_keys s (sock af a)"
proof -
  have first: "sp_keys s1 (sock af a) = sp_keys s (sock af a) \<and> sp_listener s1 \<and> sp_queue s1 = None \<and> sp_peerConfigs s1 = pcs"
    by (rule SetPeers_other_key [OF assms(1,3,4,5,7,9)]) (use assms(8,10) in auto)
  have "sp_keys s2 (sock af a) = sp_keys s1 (sock af a)"
    using SetPeers_other_key [OF assms(2) _ _ assms(6,7)] first assms(9,11) by auto
  then show ?thesis using first by simp
qed

theorem removed_password_keeps_key_witness:
  "let s0 = (sample_speaker Map.empty [sample_peer_config (Addr IPv4 3221225994) [2]])\<lparr>sp_keys := [sock AF_INET6 (Addr IPv4 3221225994) \<mapsto> [2]]\<rparr>;
       (s1, r1) = SetPeers good_env [sample_peer_config (Addr IPv4 3221225994) []] s0;
       (s2, r2) = SetPeers good_env [] s1
   in sp_peers s2 = Map.empty \<and> sp_keys s2 (sock AF_INET6 (Addr IPv4 3221225994)) = Some [2]"
proof -
  let ?s0 = "(sample_speaker Map.empty [sample_peer_config (Addr IPv4 3221225994) [2]])\<lparr>sp_keys := [sock AF_INET6 (Addr IPv4 3221225994) \<mapsto> [2]]\<rparr>"
  obtain s1 r1 where s1: "SetPeers good_env [sample_peer_config (Addr IPv4 3221225994) []] ?s0 = (s1, r1)" by (metis prod.exhaust)
  then have r1: "r1 = Inr ()" "sp_listener s1"
    by (auto simp: SetPeers_def sample_speaker_def good_env_def applyListenerMD5_def keyless_def Let_def)
  obtain s2 r2 where s2: "SetPeers good_env [] s1 = (s2, r2)" by (metis prod.exhaust)
  then have r2: "r2 = Inr ()" "sp_peers s2 = Map.empty"
    using r1(2) by (auto simp: SetPeers_def good_env_def applyListenerMD5_def Let_def updated_peer_def new_set_def)
  have "plain_addr (Addr IPv4 3221225994)" by (simp add: plain_addr_def addr_ok_def is6_def)
  then have "sp_keys s2 (sock AF_INET6 (Addr IPv4 3221225994)) = Some [2]"
    using removed_password_keeps_key [OF s1 [unfolded r1(1)] s2 [unfolded r2(1)], of AF_INET6 "Addr IPv4 3221225994"]
    by (simp add: sample_speaker_def good_env_def)
  then show ?thesis using s1 s2 r2(2) by (simp add: Let_def)
qed

section \<open>Order of the effects\<close>

text \<open>What the effects leave: the redirect rule, the listener, the queue and the accept loop.\<close>

record wires =
  w_rule :: bool
  w_listening :: bool
  w_queue :: bool
  w_accepting :: bool

definition no_wires :: wires where
  "no_wires = \<lparr>w_rule = False, w_listening = False, w_queue = False, w_accepting = False\<rparr>"

fun effect_on :: "wires \<Rightarrow> speaker_effect \<Rightarrow> wires" where
  "effect_on w InstallRule = w\<lparr>w_rule := True\<rparr>"
| "effect_on w OpenListener = w\<lparr>w_listening := True\<rparr>"
| "effect_on w AttachQueue = w\<lparr>w_queue := True\<rparr>"
| "effect_on w AcceptConnections = w\<lparr>w_accepting := True\<rparr>"
| "effect_on w CloseListener = w\<lparr>w_listening := False, w_accepting := False\<rparr>"
| "effect_on w DetachQueue = w\<lparr>w_queue := False\<rparr>"
| "effect_on w RemoveRule = w\<lparr>w_rule := False\<rparr>"

fun every_state :: "(wires \<Rightarrow> bool) \<Rightarrow> wires \<Rightarrow> speaker_effect list \<Rightarrow> bool" where
  "every_state P w [] \<longleftrightarrow> P w"
| "every_state P w (e # es) \<longleftrightarrow> P w \<and> every_state P (effect_on w e) es"

definition checked :: "bool \<Rightarrow> wires \<Rightarrow> bool" where
  "checked dyn w \<longleftrightarrow> (w_listening w \<and> dyn \<longrightarrow> w_rule w) \<and> (w_accepting w \<and> dyn \<longrightarrow> w_queue w)"


end
