(* ===== verification/Spec2Isabelle.thy ===== *)
theory Spec2Isabelle
  imports Prefix_Filter Prefix_Exclude Prefix_Aggregate Bgp_Wire_Roundtrip Bgp_Peer Bgp_Fsm Srs_Rules Tcp_Md5 Retry Circuit_Breaker Netip_Text Store_Filters Store_Sync Store_Invariant Bgp_Announce
begin

text \<open>
  wdbgp downloads lists of IP prefixes (feeds), lets users select services from the catalogue they form,
  filters the selected prefixes, and announces them to the users' routers over BGP. This development
  models the parts that compute: the prefix algebra, the parser of binary rule sets, the BGP wire format,
  the peer and its session, the manager and the speaker, the TCP MD5 keys, the retry machinery, and the database: the catalogue that
  feed syncs write, its materialised merge per mode, users, their selections and filters, and the prefixes
  that are announced for them.

  \<^bold>\<open>Foundations.\<close> \<open>Wdbgp_Prelude\<close> holds the machine types, results whose error is a run-time panic or an
  error of the code, checked slice access and big-endian byte strings. \<open>Netip\<close> is the part of
  \<open>net/netip\<close> the code uses: addresses are a family and a number, prefixes an address and a length, and
  \<open>addrs_of\<close>, \<open>cover\<close> the sets of addresses they stand for, over which the specifications are stated.
  \<open>Addr_Bits\<close> relates single bits of the address bytes to the number.

  \<^bold>\<open>Prefix filter\<close> (\<open>internal/prefixfilter\<close>). \<open>Prefix_Filter\<close> has \<open>filter.go\<close>: both redundancy checks of
  \<open>normalize\<close> are interpretations of the locale \<open>prefix_index\<close>, whose client lemma makes them agree;
  \<open>intersect\<close>, \<open>subtract\<close> and \<open>Apply\<close> are compared with the set operations they stand for, and where they
  differ (an allow entry that is shorter than the input prefix and has the same address) the difference is a
  theorem. \<open>Prefix_Exclude\<close> has \<open>exclude.go\<close>, \<open>Prefix_Aggregate\<close> has \<open>aggregate.go\<close>: its result is exact,
  as short as possible and depends on the addresses only.

  \<^bold>\<open>Rule sets\<close> (\<open>internal/feeds/srs*.go\<close>). \<open>Srs\<close> is the parser, a reader of the bytes that the zlib stream
  delivers; \<open>Srs_Rules\<close> is the format, as an encoding of syntax trees, and the meaning of rules. The parser
  reads back every encoding; what it extracts is sound for all rules and exact for rules of destination
  ranges. The recursion of logical rules is the recursion on the remaining depth, \<open>max_depth + 1\<close> at the
  top, which is where the code returns its depth error. The \<open>netipx\<close> sets, zlib and JSON are parameters;
  the locale \<open>ip_sets\<close> states what is used of the first and is interpreted on the sets of aggregated
  prefixes.

  \<^bold>\<open>BGP\<close> (\<open>internal/bgp\<close>). \<open>Bgp_Wire\<close> is the encoder and the decoder, with every slice access checked;
  \<open>Bgp_Wire_Safety\<close> shows that no byte string makes the decoder panic, \<open>Bgp_Wire_Roundtrip\<close> that messages
  survive the wire. \<open>Bgp_Peer\<close> is \<open>peer_routes.go\<close>: the abstract specification is the table of routes that
  the remote side computes from UPDATE messages, and a resync makes it equal to the desired routes.
  \<open>Bgp_Fsm\<close> is \<open>peer_fsm.go\<close> and \<open>peer_keepalive.go\<close>: a run of a session takes the list of events that
  happen while its goroutine waits (a message, a failed read, an operation of another goroutine) and the
  outcome of every write; the invariant of the main loop gives convergence over whole sessions.
  \<open>Tcp_Md5\<close> is \<open>rfc2385.go\<close>, with the digest function as a parameter. \<open>Bgp_Md5_Keys\<close> is \<open>md5.go\<close> and
  \<open>nfqueue_md5.go\<close>: the keys of the kernel are a map from socket addresses, what system calls return is the
  environment of an operation; \<open>Bgp_Md5_Safety\<close> shows which key stands for an address after any packets and
  timers. \<open>Bgp_Manager\<close> is \<open>speaker.go\<close>, \<open>manager.go\<close> and \<open>route.go\<close> on top of the store and the peers;
  \<open>Bgp_Coherence\<close> is the invariant of its cache of announced routes over all sequences of operations, and
  \<open>Bgp_Announce\<close> draws the conclusions: what a reconcile leaves at the peers, and the order in which the
  speaker starts and stops. A step in which the speaker refuses changed peers is not in the invariant, because
  it breaks it: \<open>refused_update_strands_routes\<close>.

  \<^bold>\<open>Retry\<close> (\<open>internal/retry\<close>). \<open>Retry\<close> has the loop, the delays and the classification of errors;
  \<open>Circuit_Breaker\<close> has the breaker as a state machine with its invariant by rule induction, and the manager
  as a heap of breakers.

  \<^bold>\<open>Store\<close> (\<open>internal/store\<close>). \<open>Netip_Text\<close> and \<open>Store_Filters\<close> have the text and blob codecs and the
  route filters (\<open>ipcodec.go\<close>, \<open>routes.go\<close>). \<open>Store_Tables\<close> is the database, a record of tables (lists of
  rows), with the operations on the catalogue: \<open>dictionaries.go\<close>, \<open>mode_entries.go\<close>, \<open>modes.go\<close>,
  \<open>feeds.go\<close> and the transaction of \<open>syncOne\<close> in \<open>internal/feeds/feeds.go\<close>. Every SQL statement is a
  function of the tables, with the constraints it meets; a transaction that fails leaves the database as it
  was. \<open>Store_Intern\<close> shows that interning prefixes works, \<open>Store_Integrity\<close> states keys and references
  (\<open>db_ok\<close>) and what replacing entries does. \<open>Store_Merge\<close> states what a mode stands for, as sets of
  addresses, and that \<open>rebuildModeEntries\<close> establishes it; \<open>Store_Sync\<close> and \<open>Store_Reach\<close> show that no
  operation lets the materialisation go stale. \<open>Store_Users\<close> has users, networks, filters and settings
  (\<open>users.go\<close>, \<open>routes.go\<close>, \<open>settings.go\<close>), \<open>Store_Selection\<close> the selections, \<open>DesiredPrefixes\<close> and the
  trial runs of \<open>blastradius.go\<close>. \<open>Store_Communities\<close> is \<open>communities.go\<close>; \<open>Store_Alloc\<close> shows what a generation
  of community values does, \<open>Store_Assign\<close> single assignments and the end of the range, \<open>Store_Reset\<close> that a
  confirmed reset is the one that was previewed. The search for a free value is a partial function, shown to
  end while values are free. \<open>Store_Invariant\<close> is the step relation of all these operations and the invariant
  of every sequence of them.

  \<^bold>\<open>Not modelled.\<close> Audit rows, reports, snapshots and the configuration export of \<open>internal/store\<close>, its
  migrations (the schema is in the records and the constraints), \<open>internal/web\<close>, \<open>internal/settings\<close>, the
  JavaScript adapters and downloads of \<open>internal/feeds\<close>, \<open>internal/alerts\<close>, logging, the embedded user
  interface and \<open>cmd/wdbgp\<close>. Of the speaker, the accept loop and the netlink calls of \<open>nftrule.go\<close>: the
  redirect rule is an effect in the order of starting and stopping.
\<close>

end
